(* ===== verification/Core_Prelude.thy ===== *)
theory Core_Prelude
  imports Main "HOL-Library.AList"
begin

text \<open>
  Shared vocabulary of the development: Python results, dictionaries and sets.

  A Python exception is a value of \<open>py_error\<close>; a fallible operation returns
  \<open>py_error + 'a\<close>. A Python \<open>dict\<close> keeps its insertion order, so it is an association
  list that is only changed through \<open>dset\<close> (overwrite in place or append) and \<open>ddel\<close>.
  A Python \<open>set\<close> is a list without duplicates; the order of the list stands for the
  iteration order, which Python leaves unspecified, and the theorems quantify over all
  lists.
\<close>

named_theorems dict_simps \<open>lookups after a change of a dictionary\<close>
named_theorems pyset_simps \<open>members after a change of a set\<close>

section \<open>Results\<close>

datatype py_error =
    KeyError
  | ValueError
  | TypeError
  | AssertionError
  | IndexError
  | NotImplementedError
  | StaleResource
  | InvalidPathException
  | ContainerStructureException
  | RecursionError
  | RuntimeException
  | TypingException
  | UnexpectedReference
  | AttributeException
  | NotFoundException
  | UnsetException
  | DoubleSetException
  | ModifiedAfterFreezeException
  | OptionalValueException
  | CycleInRelationPrecedencePolicyError
  | CompilerException
  | RuntimeError
  | AttributeError
  | PoolManagerNotRunning
  | ModuleLoadingException
  | ConnectionLost
  | CycleException
  | InvalidRelationPrecedenceRuleError
  | PicklingError
  | StructError
  | InvalidStateError
  | GeneralException

type_synonym 'a result = "py_error + 'a"

definition rbind :: "'a result \<Rightarrow> ('a \<Rightarrow> 'b result) \<Rightarrow> 'b result" where
  "rbind m f = (case m of Inl e \<Rightarrow> Inl e | Inr x \<Rightarrow> f x)"

lemma rbind_Inl [simp]: "rbind (Inl e) f = Inl e"
  by (simp add: rbind_def)

lemma rbind_Inr [simp]: "rbind (Inr x) f = f x"
  by (simp add: rbind_def)

lemma rbind_eq_Inr: "rbind m f = Inr y \<longleftrightarrow> (\<exists>x. m = Inr x \<and> f x = Inr y)"
  by (cases m) auto

lemma rbind_eq_Inl: "rbind m f = Inl e \<longleftrightarrow> m = Inl e \<or> (\<exists>x. m = Inr x \<and> f x = Inl e)"
  by (cases m) auto

lemma rbind_cong [fundef_cong]:
  "m = m' \<Longrightarrow> (\<And>x. m' = Inr x \<Longrightarrow> f x = f' x) \<Longrightarrow> rbind m f = rbind m' f'"
  by (cases m') auto

text \<open>A \<open>for\<close> loop whose body may raise: the first exception ends it.\<close>

fun rfold :: "('a \<Rightarrow> 's \<Rightarrow> 's result) \<Rightarrow> 'a list \<Rightarrow> 's \<Rightarrow> 's result" where
  "rfold f [] s = Inr s"
| "rfold f (x # xs) s = rbind (f x s) (rfold f xs)"

lemma rfold_inv:
  assumes "rfold f xs s = Inr t" and "P s"
    and "\<And>x s s'. x \<in> set xs \<Longrightarrow> P s \<Longrightarrow> f x s = Inr s' \<Longrightarrow> P s'"
  shows "P t"
  using assms
proof (induction xs arbitrary: s)
  case Nil
  then show ?case by simp
next
  case (Cons x xs)
  from Cons.prems(1) obtain s' where s': "f x s = Inr s'" "rfold f xs s' = Inr t"
    by (auto simp: rbind_eq_Inr)
  have "P s'" using Cons.prems(2,3) s'(1) by auto
  then show ?case using Cons.IH s'(2) Cons.prems(3) by auto
qed

lemma rfold_total:
  assumes "P s" and "\<And>x s. x \<in> set xs \<Longrightarrow> P s \<Longrightarrow> \<exists>s'. f x s = Inr s' \<and> P s'"
  shows "\<exists>t. rfold f xs s = Inr t \<and> P t"
  using assms
proof (induction xs arbitrary: s)
  case Nil
  then show ?case by simp
next
  case (Cons x xs)
  then obtain s' where "f x s = Inr s'" "P s'" by fastforce
  with Cons.IH Cons.prems(2) show ?case by fastforce
qed

lemma rfold_append: "rfold f (xs @ ys) s = rbind (rfold f xs s) (rfold f ys)"
  by (induction xs arbitrary: s) (auto simp: rbind_def split: sum.splits)

fun rmap :: "('a \<Rightarrow> 'b result) \<Rightarrow> 'a list \<Rightarrow> 'b list result" where
  \<comment> \<open>a list comprehension whose expression may raise\<close>
  "rmap f [] = Inr []"
| "rmap f (x # xs) = rbind (f x) (\<lambda>y. rbind (rmap f xs) (\<lambda>ys. Inr (y # ys)))"

lemma rmap_eq_Inr: "rmap f xs = Inr ys \<longleftrightarrow> list_all2 (\<lambda>x y. f x = Inr y) xs ys"
proof (induction xs arbitrary: ys)
  case Nil
  then show ?case by auto
next
  case (Cons x xs)
  then show ?case by (auto simp: rbind_eq_Inr list_all2_Cons1)
qed

lemma rmap_cong [fundef_cong]:
  "xs = ys \<Longrightarrow> (\<And>x. x \<in> set ys \<Longrightarrow> f x = g x) \<Longrightarrow> rmap f xs = rmap g ys"
proof (induction xs arbitrary: ys)
  case (Cons x xs)
  then show ?case by (cases ys) (auto intro!: rbind_cong)
qed auto

lemma rmap_memI: "rmap f xs = Inr ys \<Longrightarrow> x \<in> set xs \<Longrightarrow> \<exists>y \<in> set ys. f x = Inr y"
  by (induction xs arbitrary: ys) (auto simp: rbind_eq_Inr)

lemma rmap_memD: "rmap f xs = Inr ys \<Longrightarrow> y \<in> set ys \<Longrightarrow> \<exists>x \<in> set xs. f x = Inr y"
  by (induction xs arbitrary: ys) (auto simp: rbind_eq_Inr)

lemma rmap_total: "(\<And>x. x \<in> set xs \<Longrightarrow> \<exists>y. f x = Inr y) \<Longrightarrow> \<exists>ys. rmap f xs = Inr ys"
  by (induction xs) (auto, fastforce)

lemma rmap_append: "rmap f (xs @ ys) = Inr zs \<Longrightarrow> \<exists>a b. rmap f xs = Inr a \<and> rmap f ys = Inr b \<and> zs = a @ b"
  by (induction xs arbitrary: zs) (fastforce simp: rbind_eq_Inr)+

lemma rmap_Inr: "(\<And>x. x \<in> set xs \<Longrightarrow> f x = Inr (g x)) \<Longrightarrow> rmap f xs = Inr (map g xs)"
  by (induction xs) auto

lemma rmap_map: "rmap f (map g xs) = rmap (\<lambda>x. f (g x)) xs"
  by (induction xs) auto

lemma rmap_eq_Inl: "rmap f xs = Inl e \<Longrightarrow> \<exists>x \<in> set xs. f x = Inl e"
  by (induction xs) (auto simp: rbind_eq_Inl)

section \<open>Dictionaries\<close>

type_synonym ('k, 'v) dict = "('k \<times> 'v) list"

definition has_key :: "('k, 'v) dict \<Rightarrow> 'k \<Rightarrow> bool" where
  \<comment> \<open>\<open>k in d\<close>\<close>
  "has_key d k = (map_of d k \<noteq> None)"

definition dget :: "('k, 'v) dict \<Rightarrow> 'k \<Rightarrow> 'v \<Rightarrow> 'v" where
  \<comment> \<open>\<open>d.get(k, default)\<close>\<close>
  "dget d k v = (case map_of d k of None \<Rightarrow> v | Some w \<Rightarrow> w)"

definition dlookup :: "('k, 'v) dict \<Rightarrow> 'k \<Rightarrow> 'v result" where
  \<comment> \<open>\<open>d[k]\<close>\<close>
  "dlookup d k = (case map_of d k of None \<Rightarrow> Inl KeyError | Some w \<Rightarrow> Inr w)"

definition dset :: "('k, 'v) dict \<Rightarrow> 'k \<Rightarrow> 'v \<Rightarrow> ('k, 'v) dict" where
  \<comment> \<open>\<open>d[k] = v\<close>\<close>
  "dset d k v = AList.update k v d"

definition ddel :: "('k, 'v) dict \<Rightarrow> 'k \<Rightarrow> ('k, 'v) dict" where
  \<comment> \<open>\<open>d.pop(k, None)\<close>\<close>
  "ddel d k = AList.delete k d"

abbreviation dkeys :: "('k, 'v) dict \<Rightarrow> 'k list" where
  "dkeys d \<equiv> map fst d"

definition wf_dict :: "('k, 'v) dict \<Rightarrow> bool" where
  "wf_dict d = distinct (map fst d)"

lemma map_of_dset [simp, dict_simps]: "map_of (dset d k v) = (map_of d)(k \<mapsto> v)"
  by (simp add: dset_def update_conv')

lemma map_of_ddel [simp, dict_simps]: "map_of (ddel d k) = (map_of d)(k := None)"
  by (simp add: ddel_def delete_conv')

lemma has_key_dset [simp, dict_simps]: "has_key (dset d k v) k' \<longleftrightarrow> k' = k \<or> has_key d k'"
  by (simp add: has_key_def)

lemma has_key_ddel [simp, dict_simps]: "has_key (ddel d k) k' \<longleftrightarrow> k' \<noteq> k \<and> has_key d k'"
  by (simp add: has_key_def)

lemma has_key_Nil [simp]: "\<not> has_key [] k"
  by (simp add: has_key_def)

lemma has_key_Some [simp]: "map_of d k = Some v \<Longrightarrow> has_key d k"
  by (simp add: has_key_def)

lemma has_key_None [simp]: "map_of d k = None \<Longrightarrow> \<not> has_key d k"
  by (simp add: has_key_def)

lemma has_keyE: "has_key d k \<Longrightarrow> (\<And>v. map_of d k = Some v \<Longrightarrow> P) \<Longrightarrow> P"
  by (auto simp: has_key_def)

lemma not_has_key: "\<not> has_key d k \<Longrightarrow> map_of d k = None"
  by (simp add: has_key_def)

lemma dset_dset [simp]: "dset (dset d k v) k w = dset d k w"
  unfolding dset_def by (induction d) auto

lemma wf_dict_Nil [simp]: "wf_dict []"
  by (simp add: wf_dict_def)

lemma wf_dict_dset [simp]: "wf_dict d \<Longrightarrow> wf_dict (dset d k v)"
  by (simp add: wf_dict_def dset_def distinct_update)

lemma wf_dict_ddel [simp]: "wf_dict d \<Longrightarrow> wf_dict (ddel d k)"
  by (simp add: wf_dict_def ddel_def distinct_delete)

lemma dlookup_Some [simp]: "map_of d k = Some v \<Longrightarrow> dlookup d k = Inr v"
  by (simp add: dlookup_def)

lemma dlookup_None [simp]: "map_of d k = None \<Longrightarrow> dlookup d k = Inl KeyError"
  by (simp add: dlookup_def)

lemma dlookup_eq_Inr: "dlookup d k = Inr v \<longleftrightarrow> map_of d k = Some v"
  by (simp add: dlookup_def split: option.splits)

lemma dlookup_eq_Inl: "dlookup d k = Inl e \<longleftrightarrow> map_of d k = None \<and> e = KeyError"
  by (auto simp add: dlookup_def split: option.splits)

lemma dget_Some [simp]: "map_of d k = Some v \<Longrightarrow> dget d k w = v"
  by (simp add: dget_def)

lemma dget_None [simp]: "map_of d k = None \<Longrightarrow> dget d k w = w"
  by (simp add: dget_def)

lemma dget_no_key [simp]: "\<not> has_key d k \<Longrightarrow> dget d k w = w"
  by (simp add: dget_def has_key_def)

lemma dlookup_no_key [simp]: "\<not> has_key d k \<Longrightarrow> dlookup d k = Inl KeyError"
  by (simp add: has_key_def)

lemma dget_dset [dict_simps]: "dget (dset d k v) k' w = (if k' = k then v else dget d k' w)"
  by (simp add: dget_def)

lemma dget_ddel [dict_simps]: "dget (ddel d k) k' w = (if k' = k then w else dget d k' w)"
  by (simp add: dget_def)

lemma set_dkeys: "set (dkeys d) = dom (map_of d)"
  by (simp add: dom_map_of_conv_image_fst)

lemma has_key_iff: "has_key d k \<longleftrightarrow> k \<in> set (dkeys d)"
  unfolding set_dkeys has_key_def by auto

lemma map_of_SomeI: "wf_dict d \<Longrightarrow> (k, v) \<in> set d \<Longrightarrow> map_of d k = Some v"
  by (simp add: wf_dict_def)

section \<open>Sets\<close>

type_synonym 'a pyset = "'a list"

definition sadd :: "'a \<Rightarrow> 'a pyset \<Rightarrow> 'a pyset" where
  "sadd x xs = (if x \<in> set xs then xs else xs @ [x])"

definition sdiscard :: "'a \<Rightarrow> 'a pyset \<Rightarrow> 'a pyset" where
  "sdiscard x xs = filter (\<lambda>y. y \<noteq> x) xs"

definition sunion :: "'a pyset \<Rightarrow> 'a pyset \<Rightarrow> 'a pyset" where
  "sunion xs ys = fold sadd ys xs"

definition sdiff :: "'a pyset \<Rightarrow> 'a pyset \<Rightarrow> 'a pyset" where
  "sdiff xs ys = filter (\<lambda>x. x \<notin> set ys) xs"

definition sinter :: "'a pyset \<Rightarrow> 'a pyset \<Rightarrow> 'a pyset" where
  "sinter xs ys = filter (\<lambda>x. x \<in> set ys) xs"

definition mk_set :: "'a list \<Rightarrow> 'a pyset" where
  \<comment> \<open>\<open>set(iterable)\<close>, a set display or a set comprehension\<close>
  "mk_set xs = sunion [] xs"

lemma set_sadd [simp, pyset_simps]: "set (sadd x xs) = insert x (set xs)"
  by (auto simp: sadd_def)

lemma set_sdiscard [simp, pyset_simps]: "set (sdiscard x xs) = set xs - {x}"
  by (auto simp: sdiscard_def)

lemma sadd_not_Nil [simp]: "sadd x xs \<noteq> []" "[] \<noteq> sadd x xs"
  by (auto simp: sadd_def)

lemma sdiscard_eq_Nil [simp]: "sdiscard x xs = [] \<longleftrightarrow> set xs \<subseteq> {x}"
  by (auto simp: sdiscard_def filter_empty_conv)

lemma sdiff_eq_Nil [simp]: "sdiff xs ys = [] \<longleftrightarrow> set xs \<subseteq> set ys"
  by (auto simp: sdiff_def filter_empty_conv)

lemma set_sunion [simp, pyset_simps]: "set (sunion xs ys) = set xs \<union> set ys"
  unfolding sunion_def by (induction ys arbitrary: xs) auto

lemma set_sdiff [simp, pyset_simps]: "set (sdiff xs ys) = set xs - set ys"
  by (auto simp: sdiff_def)

lemma set_sinter [simp, pyset_simps]: "set (sinter xs ys) = set xs \<inter> set ys"
  by (auto simp: sinter_def)

lemma set_mk_set [simp, pyset_simps]: "set (mk_set xs) = set xs"
  by (simp add: mk_set_def)

lemma distinct_sadd [simp]: "distinct xs \<Longrightarrow> distinct (sadd x xs)"
  by (simp add: sadd_def)

lemma distinct_sdiscard [simp]: "distinct xs \<Longrightarrow> distinct (sdiscard x xs)"
  by (simp add: sdiscard_def)

lemma distinct_sunion [simp]: "distinct xs \<Longrightarrow> distinct (sunion xs ys)"
  unfolding sunion_def by (induction ys arbitrary: xs) auto

lemma distinct_sdiff [simp]: "distinct xs \<Longrightarrow> distinct (sdiff xs ys)"
  by (simp add: sdiff_def)

lemma distinct_mk_set [simp]: "distinct (mk_set xs)"
  by (simp add: mk_set_def)

end
