(* ===== verification/Resource_Id.thy ===== *)
theory Resource_Id
  imports Core_Prelude
begin

text \<open>
  Resource identifiers: the class \<open>Id\<close> of \<open>src/src/inmanta/resources.py\<close>.

  An identifier is printed as \<open>type[agent,attribute=value]\<close>, with \<open>,v=version\<close> appended
  when it names a version. The two regular expressions of the code are deterministic (each
  group is delimited by a character its class excludes), so they are scanners here; \<open>$\<close>
  also matches before one final newline, which the scanner keeps. A character of
  the model is a code point below 256, and the class \<open>\w\<close> is that of Python on those.
\<close>

section \<open>Numbers in decimal\<close>

definition digit_char :: "nat \<Rightarrow> char" where
  "digit_char d = char_of (48 + d)"

definition is_digit :: "char \<Rightarrow> bool" where
  "is_digit c = (let n = (of_char c :: nat) in 48 \<le> n \<and> n \<le> 57)"

fun show_nat :: "nat \<Rightarrow> string" where
  "show_nat n = (if n < 10 then [digit_char n] else show_nat (n div 10) @ [digit_char (n mod 10)])"

declare show_nat.simps [simp del]

definition show_int :: "int \<Rightarrow> string" where
  "show_int i = (if i < 0 then CHR ''-'' # show_nat (nat (- i)) else show_nat (nat i))"

definition nat_of_digits :: "string \<Rightarrow> nat" where
  "nat_of_digits ds = foldl (\<lambda>a c. 10 * a + (of_char c - 48)) 0 ds"

lemma of_digit_char [simp]: "d < 10 \<Longrightarrow> of_char (digit_char d) = 48 + d"
  by (simp add: digit_char_def)

lemma is_digit_digit_char [simp]: "d < 10 \<Longrightarrow> is_digit (digit_char d)"
  by (simp add: is_digit_def)

lemma show_nat_nonempty [simp]: "show_nat n \<noteq> []"
  by (subst show_nat.simps) simp

lemma show_nat_digits: "c \<in> set (show_nat n) \<Longrightarrow> is_digit c"
proof (induction n rule: show_nat.induct)
  case (1 n)
  then show ?case
    by (subst (asm) (2) show_nat.simps) (auto split: if_splits)
qed

lemma nat_of_digits_show_nat [simp]: "nat_of_digits (show_nat n) = n"
proof (induction n rule: show_nat.induct)
  case (1 n)
  then show ?case
    by (subst show_nat.simps) (auto simp: nat_of_digits_def)
qed

section \<open>Scanning an identifier\<close>

definition word_char :: "char \<Rightarrow> bool" where
  \<comment> \<open>\<open>[\w-]\<close>: ASCII, and the letters and numerals of the code points from 128 to 255\<close>
  "word_char c = (let n = (of_char c :: nat) in
     48 \<le> n \<and> n \<le> 57 \<or> 65 \<le> n \<and> n \<le> 90 \<or> 97 \<le> n \<and> n \<le> 122 \<or> n = 95 \<or> n = 45
     \<or> n \<in> {170, 178, 179, 181, 185, 186, 188, 189, 190} \<or> 192 \<le> n \<and> n \<noteq> 215 \<and> n \<noteq> 247)"

fun type_ok :: "bool \<Rightarrow> bool \<Rightarrow> string \<Rightarrow> bool" where
  \<comment> \<open>\<open>[\w-]+(::[\w-]+)*::[\w-]+\<close>: the current word is not empty, a separator was seen\<close>
  "type_ok ne sep [] = (ne \<and> sep)"
| "type_ok ne sep [c] = (word_char c \<and> sep)"
| "type_ok ne sep (c # d # cs) =
     (if c = CHR '':'' \<and> d = CHR '':'' then ne \<and> type_ok False True cs
      else word_char c \<and> type_ok True sep (d # cs))"

definition split_at :: "char \<Rightarrow> string \<Rightarrow> (string \<times> string) option" where
  \<comment> \<open>\<open>([^c]*)c\<close>: what precedes the first \<open>c\<close>, and what follows it\<close>
  "split_at c s = (case dropWhile (\<lambda>x. x \<noteq> c) s of
     [] \<Rightarrow> None | _ # rest \<Rightarrow> Some (takeWhile (\<lambda>x. x \<noteq> c) s, rest))"

definition at_end :: "string \<Rightarrow> bool" where
  \<comment> \<open>\<open>$\<close>\<close>
  "at_end s = (s = [] \<or> s = [CHR 0x0A])"

definition scan_version :: "string \<Rightarrow> string option" where
  \<comment> \<open>\<open>,v=([0-9]+)$\<close>\<close>
  "scan_version s =
     (if take 3 s = '',v='' \<and> takeWhile is_digit (drop 3 s) \<noteq> []
         \<and> at_end (dropWhile is_digit (drop 3 s))
      then Some (takeWhile is_digit (drop 3 s)) else None)"

record id_match =
  m_type :: string
  m_hostname :: string
  m_attr :: string
  m_value :: string

definition scan_id :: "string \<Rightarrow> (id_match \<times> string) option" where
  \<comment> \<open>the common prefix of the two expressions: the group \<open>id\<close>, and what follows it\<close>
  "scan_id s =
     (case split_at (CHR ''['') s of None \<Rightarrow> None | Some (ty, r1) \<Rightarrow>
      if \<not> type_ok False False ty then None else
      case split_at (CHR '','') r1 of None \<Rightarrow> None | Some (h, r2) \<Rightarrow>
      if h = [] then None else
      case split_at (CHR ''='') r2 of None \<Rightarrow> None | Some (a, r3) \<Rightarrow>
      if a = [] then None else
      case split_at (CHR '']'') r3 of None \<Rightarrow> None | Some (v, r4) \<Rightarrow>
      if v = [] then None else
      Some (\<lparr>m_type = ty, m_hostname = h, m_attr = a, m_value = v\<rparr>, r4))"

definition PARSE_ID_REGEX :: "string \<Rightarrow> (id_match \<times> string option) option" where
  "PARSE_ID_REGEX s =
     (case scan_id s of None \<Rightarrow> None
      | Some (m, r) \<Rightarrow> if at_end r then Some (m, None)
          else map_option (\<lambda>v. (m, Some v)) (scan_version r))"

definition PARSE_RVID_REGEX :: "string \<Rightarrow> (id_match \<times> string) option" where
  "PARSE_RVID_REGEX s =
     (case scan_id s of None \<Rightarrow> None
      | Some (m, r) \<Rightarrow> map_option (\<lambda>v. (m, v)) (scan_version r))"

section \<open>The class Id\<close>

record id_obj =
  entity_type :: string
  agent_name :: string
  id_attribute :: string
  attribute_value :: string
  id_version :: int

definition mk_id :: "string \<Rightarrow> string \<Rightarrow> string \<Rightarrow> string \<Rightarrow> int \<Rightarrow> id_obj result" where
  \<comment> \<open>\<open>Id.__init__\<close>\<close>
  "mk_id ty ag att val ver =
     (if CHR '','' \<in> set ag then Inl ValueError
      else if CHR '','' \<in> set att \<or> CHR ''='' \<in> set att then Inl ValueError
      else if CHR '']'' \<in> set val then Inl ValueError
      else Inr \<lparr>entity_type = ty, agent_name = ag, id_attribute = att,
                attribute_value = val, id_version = ver\<rparr>)"

definition set_version :: "id_obj \<Rightarrow> int \<Rightarrow> id_obj result" where
  "set_version i v =
     (if id_version i > 0 \<and> v \<noteq> id_version i then Inl AttributeError
      else Inr (i\<lparr>id_version := v\<rparr>))"

fun upto_colons :: "string \<Rightarrow> string" where
  \<comment> \<open>\<open>s.split('::', maxsplit=1)[0]\<close>\<close>
  "upto_colons [] = []"
| "upto_colons [c] = [c]"
| "upto_colons (c # d # cs) =
     (if c = CHR '':'' \<and> d = CHR '':'' then [] else c # upto_colons (d # cs))"

definition get_inmanta_module :: "id_obj \<Rightarrow> string" where
  "get_inmanta_module i = upto_colons (entity_type i)"

definition copy_id :: "id_obj \<Rightarrow> int \<Rightarrow> id_obj result" where
  "copy_id i v = mk_id (entity_type i) (agent_name i) (id_attribute i) (attribute_value i) v"

definition resource_str :: "id_obj \<Rightarrow> string" where
  "resource_str i = entity_type i @ ''['' @ agent_name i @ '','' @ id_attribute i @ ''=''
     @ attribute_value i @ '']''"

definition resource_version_str :: "id_obj \<Rightarrow> string" where
  "resource_version_str i = entity_type i @ ''['' @ agent_name i @ '','' @ id_attribute i @ ''=''
     @ attribute_value i @ ''],v='' @ show_int (id_version i)"

definition id_str :: "id_obj \<Rightarrow> string" where
  \<comment> \<open>\<open>__str__\<close>\<close>
  "id_str i = (if id_version i > 0 then resource_version_str i else resource_str i)"

definition id_eq :: "id_obj \<Rightarrow> id_obj \<Rightarrow> bool" where
  \<comment> \<open>\<open>__eq__\<close> of two identifiers\<close>
  "id_eq i j = (id_str i = id_str j)"

definition parse_id :: "string \<Rightarrow> int option \<Rightarrow> id_obj result" where
  "parse_id s version =
     (case PARSE_ID_REGEX s of
        None \<Rightarrow> Inl ValueError
      | Some (m, vm) \<Rightarrow>
          mk_id (m_type m) (m_hostname m) (m_attr m) (m_value m)
            (case version of
               Some v \<Rightarrow> v
             | None \<Rightarrow> (case vm of None \<Rightarrow> 0 | Some ds \<Rightarrow> int (nat_of_digits ds))))"

definition parse_resource_version_id :: "string \<Rightarrow> id_obj result" where
  "parse_resource_version_id s =
     rbind (parse_id s None) (\<lambda>i. if id_version i = 0 then Inl ValueError else Inr i)"

definition is_resource_version_id :: "string \<Rightarrow> bool" where
  "is_resource_version_id s = (PARSE_RVID_REGEX s \<noteq> None)"

definition is_resource_id :: "string \<Rightarrow> bool" where
  "is_resource_id s = (PARSE_ID_REGEX s \<noteq> None)"

definition set_version_in_id :: "string \<Rightarrow> int \<Rightarrow> string result" where
  "set_version_in_id s v =
     rbind (parse_id s None) (\<lambda>i. rbind (copy_id i v) (\<lambda>j. Inr (resource_version_str j)))"

text \<open>
  The agent of a resource id, as every \<open>Task\<close> and \<open>ResourceIntent\<close> computes it when it is
  built. The two constructors raise on a string that does not parse, so the value for such
  a string is never used.
\<close>

definition agent_of_rid :: "string \<Rightarrow> string" where
  "agent_of_rid s = (case parse_id s None of Inr i \<Rightarrow> agent_name i | Inl _ \<Rightarrow> [])"

section \<open>Well-formed identifiers and the round trip\<close>

definition valid_id :: "id_obj \<Rightarrow> bool" where
  "valid_id i \<longleftrightarrow>
     type_ok False False (entity_type i)
     \<and> agent_name i \<noteq> [] \<and> CHR '','' \<notin> set (agent_name i)
     \<and> id_attribute i \<noteq> [] \<and> CHR '','' \<notin> set (id_attribute i) \<and> CHR ''='' \<notin> set (id_attribute i)
     \<and> attribute_value i \<noteq> [] \<and> CHR '']'' \<notin> set (attribute_value i)
     \<and> 0 \<le> id_version i"

lemma split_at_append [simp]: "c \<notin> set xs \<Longrightarrow> split_at c (xs @ c # ys) = Some (xs, ys)"
proof (induction xs)
  case (Cons x xs)
  then show ?case by (auto simp: split_at_def split: list.splits)
qed (simp add: split_at_def)

lemma split_at_SomeD: "split_at c s = Some (xs, ys) \<Longrightarrow> s = xs @ c # ys \<and> c \<notin> set xs"
proof (induction s arbitrary: xs)
  case (Cons a s)
  then show ?case
    by (cases "a = c") (auto simp: split_at_def split: list.splits)
qed (simp add: split_at_def)

lemma type_ok_no_bracket: "type_ok ne sep s \<Longrightarrow> CHR ''['' \<notin> set s"
  by (induction ne sep s rule: type_ok.induct) (auto simp: word_char_def split: if_splits)

lemma scan_id_append:
  assumes "type_ok False False ty" "h \<noteq> []" "CHR '','' \<notin> set h"
    "a \<noteq> []" "CHR ''='' \<notin> set a" "v \<noteq> []" "CHR '']'' \<notin> set v"
  shows "scan_id (ty @ CHR ''['' # h @ CHR '','' # a @ CHR ''='' # v @ CHR '']'' # r)
    = Some (\<lparr>m_type = ty, m_hostname = h, m_attr = a, m_value = v\<rparr>, r)"
  using assms type_ok_no_bracket [OF assms(1)] by (simp add: scan_id_def)

lemma takeWhile_digits [simp]: "takeWhile is_digit (show_nat n) = show_nat n"
  by (simp add: takeWhile_eq_all_conv show_nat_digits)

lemma dropWhile_digits [simp]: "dropWhile is_digit (show_nat n) = []"
  by (simp add: show_nat_digits)

lemma parse_id_resource_str:
  assumes "valid_id i"
  shows "parse_id (resource_str i) None = Inr (i\<lparr>id_version := 0\<rparr>)"
proof -
  have "scan_id (resource_str i) = Some (\<lparr>m_type = entity_type i, m_hostname = agent_name i,
      m_attr = id_attribute i, m_value = attribute_value i\<rparr>, [])"
    using assms scan_id_append [of "entity_type i" "agent_name i" "id_attribute i" "attribute_value i" "[]"]
    by (simp add: resource_str_def valid_id_def)
  with assms show ?thesis
    by (simp add: parse_id_def PARSE_ID_REGEX_def at_end_def mk_id_def valid_id_def)
qed

lemma parse_id_resource_version_str:
  assumes "valid_id i"
  shows "parse_id (resource_version_str i) None = Inr i"
proof -
  let ?tail = "'',v='' @ show_nat (nat (id_version i))"
  have "scan_id (resource_version_str i) = Some (\<lparr>m_type = entity_type i, m_hostname = agent_name i,
      m_attr = id_attribute i, m_value = attribute_value i\<rparr>, ?tail)"
    using assms scan_id_append [of "entity_type i" "agent_name i" "id_attribute i" "attribute_value i" ?tail]
    by (simp add: resource_version_str_def valid_id_def show_int_def)
  moreover have "scan_version ?tail = Some (show_nat (nat (id_version i)))"
    by (simp add: scan_version_def at_end_def)
  ultimately show ?thesis
    using assms by (simp add: parse_id_def PARSE_ID_REGEX_def at_end_def mk_id_def valid_id_def)
qed

lemma agent_of_resource_str: "valid_id i \<Longrightarrow> agent_of_rid (resource_str i) = agent_name i"
  by (simp add: agent_of_rid_def parse_id_resource_str)

text \<open>What parses is well formed, unless the constructor rejects the attribute.\<close>

lemma parse_id_valid:
  assumes "parse_id s None = Inr i"
  shows "valid_id i"
proof -
  from assms obtain m vm where m: "PARSE_ID_REGEX s = Some (m, vm)"
    by (auto simp: parse_id_def split: option.splits)
  then obtain r where r: "scan_id s = Some (m, r)"
    by (auto simp: PARSE_ID_REGEX_def split: option.splits if_splits)
  from r have "type_ok False False (m_type m)" "m_hostname m \<noteq> []" "CHR '','' \<notin> set (m_hostname m)"
    "m_attr m \<noteq> []" "CHR ''='' \<notin> set (m_attr m)" "m_value m \<noteq> []" "CHR '']'' \<notin> set (m_value m)"
    by (auto simp: scan_id_def split: option.splits if_splits dest!: split_at_SomeD)
  with assms m show ?thesis
    by (auto simp: parse_id_def mk_id_def valid_id_def split: if_splits option.splits)
qed

lemma parse_id_cases:
  assumes "parse_id s None = Inr i"
  shows "parse_id (resource_str i) None = Inr (i\<lparr>id_version := 0\<rparr>)" "parse_id (resource_version_str i) None = Inr i"
  using parse_id_valid [OF assms] parse_id_resource_str parse_id_resource_version_str by blast+

text \<open>C24: Whatever \<open>Id.parse_id\<close> accepts, its text stands for it: parsing \<open>resource_version_str\<close> of
  the result, or its \<open>str\<close>, gives the same identifier, parsing \<open>resource_str\<close> gives it without its version, and a
  parsed version is never negative.\<close>

theorem parsed_id_roundtrip:
  assumes "parse_id s None = Inr i"
  shows "parse_id (resource_version_str i) None = Inr i \<and> parse_id (id_str i) None = Inr i
    \<and> parse_id (resource_str i) None = Inr (i\<lparr>id_version := 0\<rparr>) \<and> 0 \<le> id_version i"
proof -
  have "0 \<le> id_version i" using parse_id_valid [OF assms] by (simp add: valid_id_def)
  then show ?thesis using parse_id_cases [OF assms] by (cases "id_version i = 0") (auto simp: id_str_def)
qed

theorem parsed_id_roundtrip_witness:
  "\<exists>i. parse_id ''std::File[vm1,path=/etc/a=b],v=12'' None = Inr i \<and> id_version i = 12
     \<and> parse_id (id_str i) None = Inr i"
proof -
  have p: "parse_id ''std::File[vm1,path=/etc/a=b],v=12'' None
    = Inr \<lparr>entity_type = ''std::File'', agent_name = ''vm1'', id_attribute = ''path'', attribute_value = ''/etc/a=b'', id_version = 12\<rparr>"
    by code_simp
  with parsed_id_roundtrip [OF p] show ?thesis by auto
qed

end
