(* ===== verification/Resource_State.thy ===== *)
theory Resource_State
  imports Core_Prelude Resource_Id
begin

text \<open>
  The state vectors of a resource: the enumerations of \<open>src/src/inmanta/deploy/state.py\<close> and
  \<open>src/src/inmanta/const.py\<close>, the derived compliance and the translation to the state that
  handlers see. Attribute values are JSON values without floating point numbers.
\<close>

section \<open>Attribute values\<close>

datatype pyval =
    PNone
  | PBool bool
  | PInt int
  | PStr string
  | PList "pyval list"
  | PDict "(string \<times> pyval) list"

fun truthy :: "pyval \<Rightarrow> bool" where
  \<comment> \<open>the truth value Python gives an object in a condition\<close>
  "truthy PNone = False"
| "truthy (PBool b) = b"
| "truthy (PInt i) = (i \<noteq> 0)"
| "truthy (PStr s) = (s \<noteq> [])"
| "truthy (PList xs) = (xs \<noteq> [])"
| "truthy (PDict d) = (d \<noteq> [])"

section \<open>Enumerations\<close>

datatype const_resource_state =
    unavailable | skipped | dry | deployed | failed | deploying | available | cancelled
  | undefined_state | skipped_for_undefined | non_compliant

datatype handler_resource_state =
    h_skipped | h_deployed | h_failed | h_dry | h_skipped_for_dependency | h_unavailable
  | h_non_compliant

datatype compliance = COMPLIANT | HAS_UPDATE | NON_COMPLIANT | UNDEFINED

definition is_dirty_compliance :: "compliance \<Rightarrow> bool" where
  \<comment> \<open>\<open>Compliance.is_dirty\<close>\<close>
  "is_dirty_compliance c = (c \<in> set [HAS_UPDATE, NON_COMPLIANT])"

datatype handler_result = NEW | SUCCESSFUL | FAILED | SKIPPED

fun from_handler_resource_state :: "handler_resource_state \<Rightarrow> handler_result result" where
  "from_handler_resource_state h_deployed = Inr SUCCESSFUL"
| "from_handler_resource_state h_non_compliant = Inr SUCCESSFUL"
| "from_handler_resource_state h_skipped = Inr SKIPPED"
| "from_handler_resource_state h_skipped_for_dependency = Inr SKIPPED"
| "from_handler_resource_state h_failed = Inr FAILED"
| "from_handler_resource_state h_unavailable = Inr FAILED"
| "from_handler_resource_state _ = Inl GeneralException"

datatype blocked = BLOCKED | NOT_BLOCKED | TEMPORARILY_BLOCKED

definition db_value :: "blocked \<Rightarrow> blocked" where
  "db_value b = (if b = TEMPORARILY_BLOCKED then NOT_BLOCKED else b)"

text \<open>\<open>HandlerResult[name]\<close> and \<open>Blocked[name]\<close>: an unknown name raises \<open>KeyError\<close>.\<close>

definition handler_result_of_name :: "string \<Rightarrow> handler_result result" where
  "handler_result_of_name s =
     dlookup [(''NEW'', NEW), (''SUCCESSFUL'', SUCCESSFUL), (''FAILED'', FAILED), (''SKIPPED'', SKIPPED)] s"

definition blocked_of_name :: "string \<Rightarrow> blocked result" where
  "blocked_of_name s =
     dlookup [(''BLOCKED'', BLOCKED), (''NOT_BLOCKED'', NOT_BLOCKED),
              (''TEMPORARILY_BLOCKED'', TEMPORARILY_BLOCKED)] s"

definition get_compliance_status ::
  "int option \<Rightarrow> bool \<Rightarrow> string option \<Rightarrow> string option \<Rightarrow> bool option \<Rightarrow> compliance option" where
  "get_compliance_status orphaned_after is_undefined last_deployed_hash current_hash last_compliant =
     (if orphaned_after \<noteq> None then None
      else if is_undefined then Some UNDEFINED
      else if last_deployed_hash = None \<or> current_hash \<noteq> last_deployed_hash then Some HAS_UPDATE
      else if last_compliant = Some True then Some COMPLIANT
      else Some NON_COMPLIANT)"

section \<open>The state of one resource\<close>

text \<open>Times are integers from the smallest representable one, \<open>DATETIME_MIN_UTC\<close>.\<close>

type_synonym rid = string
type_synonym time = int

definition DATETIME_MIN_UTC :: time where
  "DATETIME_MIN_UTC = 0"

record resource_state =
  rs_compliance :: compliance
  rs_last_handler_run :: handler_result
  rs_blocked :: blocked
  rs_last_deployed :: "time option"
  rs_last_handler_run_compliant :: "bool option"

definition rs_is_dirty :: "resource_state \<Rightarrow> bool" where
  "rs_is_dirty s = is_dirty_compliance (rs_compliance s)"

definition to_handler_state :: "resource_state \<Rightarrow> const_resource_state result" where
  "to_handler_state s =
     (if rs_compliance s = UNDEFINED then Inr undefined_state
      else if rs_blocked s = BLOCKED then Inr skipped_for_undefined
      else if rs_compliance s = HAS_UPDATE then Inr available
      else if rs_last_handler_run s = SKIPPED then Inr skipped
      else if rs_last_handler_run s = FAILED then Inr failed
      else if rs_compliance s = NON_COMPLIANT then Inr non_compliant
      else if rs_last_handler_run s = SUCCESSFUL then Inr deployed
      else Inl GeneralException)"

section \<open>Intents\<close>

record resource_intent =
  ri_resource_id :: rid
  ri_attribute_hash :: string
  ri_attributes :: "(string, pyval) dict"
  ri_id :: id_obj

definition mk_resource_intent :: "rid \<Rightarrow> string \<Rightarrow> (string, pyval) dict \<Rightarrow> resource_intent result" where
  \<comment> \<open>the constructor, whose \<open>__post_init__\<close> parses the id\<close>
  "mk_resource_intent r h attrs =
     rbind (parse_id r None) (\<lambda>i. Inr \<lparr>ri_resource_id = r, ri_attribute_hash = h,
       ri_attributes = attrs, ri_id = i\<rparr>)"

lemma is_dirty_compliance_simps [simp]:
  "is_dirty_compliance HAS_UPDATE" "is_dirty_compliance NON_COMPLIANT"
  "\<not> is_dirty_compliance COMPLIANT" "\<not> is_dirty_compliance UNDEFINED"
  by (simp_all add: is_dirty_compliance_def)

lemma mk_resource_intent_agent:
  "mk_resource_intent r h attrs = Inr i \<Longrightarrow>
     ri_resource_id i = r \<and> ri_attribute_hash i = h \<and> ri_attributes i = attrs
     \<and> agent_name (ri_id i) = agent_of_rid r"
  by (auto simp: mk_resource_intent_def rbind_eq_Inr agent_of_rid_def)

text \<open>
  \<open>to_handler_state\<close> has no value only for a compliant resource whose handler never ran; no
  operation of the scheduler produces that pair.
\<close>

definition deducible :: "resource_state \<Rightarrow> bool" where
  "deducible s \<longleftrightarrow> \<not> (rs_compliance s = COMPLIANT \<and> rs_last_handler_run s = NEW \<and> rs_blocked s \<noteq> BLOCKED)"

lemma to_handler_state_raises_iff: "(\<exists>e. to_handler_state s = Inl e) \<longleftrightarrow> \<not> deducible s"
  by (cases "rs_compliance s"; cases "rs_last_handler_run s"; cases "rs_blocked s")
    (simp_all add: to_handler_state_def deducible_def)

end
