(* ===== verification/Agent_Queues.thy ===== *)
theory Agent_Queues
  imports Resource_State "HOL-Library.Product_Lexorder"
begin

text \<open>
  The tasks of \<open>src/src/inmanta/deploy/tasks.py\<close> and the per-agent priority queues
  (\<open>AgentQueues\<close>) of \<open>src/src/inmanta/deploy/work.py\<close>. A queue item is a mutable object that
  a queue and the lookup by resource share, so items live in a store and both hold
  references. An \<open>asyncio.PriorityQueue\<close> is a list of references of which \<open>get\<close> takes a
  minimal one.
\<close>

section \<open>Tasks and priorities\<close>

datatype task =
    PoisonPill rid
  | Deploy rid
  | DryRun rid int resource_intent string
  | RefreshFact rid

fun task_resource :: "task \<Rightarrow> rid" where
  "task_resource (PoisonPill r) = r"
| "task_resource (Deploy r) = r"
| "task_resource (DryRun r _ _ _) = r"
| "task_resource (RefreshFact r) = r"

fun delete_with_resource :: "task \<Rightarrow> bool" where
  "delete_with_resource (DryRun _ _ _ _) = False"
| "delete_with_resource _ = True"

fun is_pill :: "task \<Rightarrow> bool" where
  "is_pill (PoisonPill _) = True"
| "is_pill _ = False"

definition task_agent :: "task \<Rightarrow> string" where
  \<comment> \<open>\<open>task.id.agent_name\<close>\<close>
  "task_agent t = agent_of_rid (task_resource t)"

datatype task_priority =
    TERMINATED | USER_DEPLOY | NEW_VERSION_DEPLOY | USER_REPAIR | DRYRUN | INTERVAL_DEPLOY
  | FACT_REFRESH | INTERVAL_REPAIR

fun priority_value :: "task_priority \<Rightarrow> int" where
  "priority_value TERMINATED = - 1"
| "priority_value USER_DEPLOY = 0"
| "priority_value NEW_VERSION_DEPLOY = 1"
| "priority_value USER_REPAIR = 2"
| "priority_value DRYRUN = 3"
| "priority_value INTERVAL_DEPLOY = 4"
| "priority_value FACT_REFRESH = 5"
| "priority_value INTERVAL_REPAIR = 6"

lemma priority_value_inject: "priority_value p = priority_value q \<longleftrightarrow> p = q"
  by (cases p; cases q) simp_all

instantiation task_priority :: linorder
begin

definition less_eq_task_priority :: "task_priority \<Rightarrow> task_priority \<Rightarrow> bool" where
  "less_eq_task_priority p q \<longleftrightarrow> priority_value p \<le> priority_value q"

definition less_task_priority :: "task_priority \<Rightarrow> task_priority \<Rightarrow> bool" where
  "less_task_priority p q \<longleftrightarrow> priority_value p < priority_value q"

instance
  by standard (auto simp: less_eq_task_priority_def less_task_priority_def priority_value_inject)

end

section \<open>State\<close>

record queue_item =
  qi_task :: task
  qi_priority :: task_priority
  qi_requested_at :: int
  qi_reason :: "string option"
  qi_deleted :: bool

definition item_key :: "queue_item \<Rightarrow> task_priority \<times> int \<times> bool" where
  \<comment> \<open>the tuple that \<open>__eq__\<close> and \<open>__lt__\<close> compare\<close>
  "item_key i = (qi_priority i, qi_requested_at i, \<not> qi_deleted i)"

definition item_less :: "queue_item \<Rightarrow> queue_item \<Rightarrow> bool" where
  "item_less i j \<longleftrightarrow> item_key i < item_key j"

record agent_queues =
  aq_items :: "queue_item list"
  aq_agent_queues :: "(string, nat list) dict"
  aq_unfinished :: "(string, nat) dict"
  aq_tasks_by_resource :: "(rid, (task, nat) dict) dict"
  aq_entry_count :: int
  aq_in_progress :: "(task, task_priority) dict"
  aq_notified :: "string list"

definition aq_init :: agent_queues where
  "aq_init = \<lparr>aq_items = [], aq_agent_queues = [], aq_unfinished = [], aq_tasks_by_resource = [],
     aq_entry_count = 0, aq_in_progress = [], aq_notified = []\<rparr>"

definition item_of :: "agent_queues \<Rightarrow> task \<Rightarrow> nat option" where
  \<comment> \<open>\<open>_queue_item_for_task\<close>\<close>
  "item_of q t = map_of (dget (aq_tasks_by_resource q) (task_resource t) []) t"

definition queue_of :: "agent_queues \<Rightarrow> string \<Rightarrow> nat list" where
  "queue_of q ag = dget (aq_agent_queues q) ag []"

section \<open>Operations\<close>

definition bump_in_progress_priorities :: "rid pyset \<Rightarrow> task_priority \<Rightarrow> agent_queues \<Rightarrow> agent_queues" where
  "bump_in_progress_priorities resources p q =
     fold (\<lambda>r q. case map_of (aq_in_progress q) (Deploy r) of
         Some p0 \<Rightarrow> if p < p0 then q\<lparr>aq_in_progress := dset (aq_in_progress q) (Deploy r) p\<rparr> else q
       | None \<Rightarrow> q) resources q"

definition aq_contains :: "task \<Rightarrow> agent_queues \<Rightarrow> bool" where
  "aq_contains t q \<longleftrightarrow> has_key (dget (aq_tasks_by_resource q) (task_resource t) []) t"

definition queued :: "agent_queues \<Rightarrow> (task, nat) dict" where
  "queued q = concat (map snd (aq_tasks_by_resource q))"

definition aq_reset :: "agent_queues \<Rightarrow> agent_queues" where
  "aq_reset q = q\<lparr>aq_agent_queues := [], aq_unfinished := [], aq_tasks_by_resource := [],
     aq_entry_count := 0, aq_in_progress := []\<rparr>"

definition get_queue :: "string \<Rightarrow> agent_queues \<Rightarrow> agent_queues" where
  \<comment> \<open>creates the queue of the agent if it does not exist, and notifies the consumer\<close>
  "get_queue ag q =
     (if has_key (aq_agent_queues q) ag then q
      else q\<lparr>aq_agent_queues := dset (aq_agent_queues q) ag [], aq_unfinished := dset (aq_unfinished q) ag 0,
             aq_notified := aq_notified q @ [ag]\<rparr>)"

definition put_nowait :: "string \<Rightarrow> nat \<Rightarrow> agent_queues \<Rightarrow> agent_queues" where
  \<comment> \<open>\<open>asyncio.Queue.put_nowait\<close>, which counts the unfinished tasks\<close>
  "put_nowait ag i q = q\<lparr>aq_agent_queues := dset (aq_agent_queues q) ag (queue_of q ag @ [i]),
     aq_unfinished := dset (aq_unfinished q) ag (Suc (dget (aq_unfinished q) ag 0))\<rparr>"

definition queue_task_done :: "string \<Rightarrow> agent_queues \<Rightarrow> agent_queues result" where
  \<comment> \<open>\<open>asyncio.Queue.task_done\<close>, which raises when called too often\<close>
  "queue_task_done ag q =
     (case dget (aq_unfinished q) ag 0 of
        0 \<Rightarrow> Inl ValueError
      | Suc n \<Rightarrow> Inr (q\<lparr>aq_unfinished := dset (aq_unfinished q) ag n\<rparr>))"

definition get_tasks_for_resource :: "rid \<Rightarrow> agent_queues \<Rightarrow> task pyset" where
  "get_tasks_for_resource r q = dkeys (dget (aq_tasks_by_resource q) r [])"

definition mark_deleted :: "nat \<Rightarrow> agent_queues \<Rightarrow> agent_queues" where
  \<comment> \<open>\<open>queue_item.deleted = True\<close>\<close>
  "mark_deleted i q = q\<lparr>aq_items := (aq_items q)[i := (aq_items q ! i)\<lparr>qi_deleted := True\<rparr>]\<rparr>"

definition drop_lookup :: "task \<Rightarrow> agent_queues \<Rightarrow> agent_queues" where
  "drop_lookup t q =
     (let ts = ddel (dget (aq_tasks_by_resource q) (task_resource t) []) t
      in q\<lparr>aq_tasks_by_resource := (if ts = [] then ddel (aq_tasks_by_resource q) (task_resource t)
                                   else dset (aq_tasks_by_resource q) (task_resource t) ts)\<rparr>)"

definition aq_remove :: "task \<Rightarrow> agent_queues \<Rightarrow> (queue_item \<times> agent_queues) result" where
  "aq_remove t q =
     (case item_of q t of
        None \<Rightarrow> Inl KeyError
      | Some i \<Rightarrow> let q1 = drop_lookup t (mark_deleted i q) in Inr (aq_items q1 ! i, q1))"

definition aq_discard :: "task \<Rightarrow> agent_queues \<Rightarrow> queue_item option \<times> agent_queues" where
  "aq_discard t q = (case aq_remove t q of Inl _ \<Rightarrow> (None, q) | Inr (it, q1) \<Rightarrow> (Some it, q1))"

definition reserve_requested_at :: "agent_queues \<Rightarrow> int \<times> agent_queues" where
  "reserve_requested_at q = (aq_entry_count q, q\<lparr>aq_entry_count := aq_entry_count q + 1\<rparr>)"

definition aq_sorted :: "string \<Rightarrow> agent_queues \<Rightarrow> (queue_item list \<times> agent_queues) result" where
  \<comment> \<open>sorts the list behind the queue in place\<close>
  "aq_sorted ag q =
     rbind (dlookup (aq_agent_queues q) ag) (\<lambda>refs.
       let refs' = sort_key (\<lambda>i. item_key (aq_items q ! i)) refs
       in Inr (filter (\<lambda>it. \<not> qi_deleted it) (map ((!) (aq_items q)) refs'),
               q\<lparr>aq_agent_queues := dset (aq_agent_queues q) ag refs'\<rparr>))"

definition set_lookup :: "task \<Rightarrow> nat \<Rightarrow> agent_queues \<Rightarrow> agent_queues" where
  "set_lookup t i q = q\<lparr>aq_tasks_by_resource := dset (aq_tasks_by_resource q) (task_resource t)
     (dset (dget (aq_tasks_by_resource q) (task_resource t) []) t i)\<rparr>"

definition queue_put_nowait ::
  "task \<Rightarrow> task_priority \<Rightarrow> int option \<Rightarrow> string option \<Rightarrow> agent_queues \<Rightarrow> agent_queues" where
  "queue_put_nowait t priority requested_at reason q =
     (let already_queued = item_of q t in
      if (case already_queued of Some i \<Rightarrow> qi_priority (aq_items q ! i) \<le> priority | None \<Rightarrow> False) then q
      else
        let q1 = (case already_queued of Some i \<Rightarrow> mark_deleted i q | None \<Rightarrow> q);
            (ra, q2) = (case requested_at of
                          None \<Rightarrow> reserve_requested_at q1
                        | Some n \<Rightarrow> if already_queued \<noteq> None then reserve_requested_at q1 else (n, q1));
            i = length (aq_items q2);
            q3 = q2\<lparr>aq_items := aq_items q2 @ [\<lparr>qi_task = t, qi_priority = priority, qi_requested_at = ra,
                    qi_reason = reason, qi_deleted = False\<rparr>]\<rparr>
        in put_nowait (task_agent t) i (get_queue (task_agent t) (set_lookup t i q3)))"

definition send_shutdown :: "string \<Rightarrow> agent_queues \<Rightarrow> agent_queues" where
  "send_shutdown reason q =
     (let i = length (aq_items q);
          pill = \<lparr>qi_task = PoisonPill ''system::Terminate[all,stop=True]'', qi_priority = TERMINATED,
                  qi_requested_at = - 1, qi_reason = Some reason, qi_deleted = False\<rparr>
      in fold (\<lambda>ag. put_nowait ag i) (dkeys (aq_agent_queues q)) (q\<lparr>aq_items := aq_items q @ [pill]\<rparr>))"

fun min_ref :: "queue_item list \<Rightarrow> nat \<Rightarrow> nat list \<Rightarrow> nat" where
  \<comment> \<open>the element that \<open>heapq.heappop\<close> takes\<close>
  "min_ref its m [] = m"
| "min_ref its m (i # is) = min_ref its (if item_less (its ! i) (its ! m) then i else m) is"

lemma min_ref_mem: "min_ref its m is \<in> insert m (set is)"
  by (induction its m "is" rule: min_ref.induct) auto

lemma remove1_less: "x \<in> insert r (set rs) \<Longrightarrow> length (remove1 x (r # rs)) < Suc (length rs)"
  by (auto simp: length_remove1 dest: length_pos_if_in_set)

lemma min_ref_remove: "length (remove1 (min_ref its r rs) (r # rs)) < Suc (length rs)"
  by (rule remove1_less, rule min_ref_mem)

function get_loop :: "string \<Rightarrow> nat list \<Rightarrow> agent_queues \<Rightarrow> (nat option \<times> agent_queues) result" where
  \<comment> \<open>the loop of \<open>queue_get\<close> over the content of the queue; \<open>None\<close>: it waits for an item\<close>
  "get_loop ag [] q = Inr (None, q\<lparr>aq_agent_queues := dset (aq_agent_queues q) ag []\<rparr>)"
| "get_loop ag (r # refs) q =
     (let i = min_ref (aq_items q) r refs; rest = remove1 i (r # refs)
      in if qi_deleted (aq_items q ! i) then rbind (queue_task_done ag q) (get_loop ag rest)
         else Inr (Some i, q\<lparr>aq_agent_queues := dset (aq_agent_queues q) ag rest\<rparr>))"
  by pat_completeness auto
termination
  by (relation "measure (\<lambda>(_, refs, _). length refs)")
    (auto simp del: remove1.simps intro: min_ref_remove)

definition queue_get :: "string \<Rightarrow> agent_queues \<Rightarrow> ((task \<times> string option) option \<times> agent_queues) result" where
  \<comment> \<open>the caller gets the task and the reason; \<open>None\<close>: the call waits\<close>
  "queue_get ag q =
     rbind (dlookup (aq_agent_queues q) ag) (\<lambda>refs.
     rbind (get_loop ag refs q) (\<lambda>(got, q1).
       case got of
         None \<Rightarrow> Inr (None, q1)
       | Some i \<Rightarrow>
           let it = aq_items q1 ! i; q2 = snd (aq_discard (qi_task it) q1)
           in Inr (Some (qi_task it, qi_reason it), q2\<lparr>aq_in_progress := dset (aq_in_progress q2) (qi_task it) (qi_priority it)\<rparr>)))"

definition aq_task_done :: "string \<Rightarrow> task \<Rightarrow> agent_queues \<Rightarrow> agent_queues result" where
  "aq_task_done ag t q =
     (if \<not> has_key (aq_in_progress q) t then Inl KeyError
      else
        let q1 = q\<lparr>aq_in_progress := ddel (aq_in_progress q) t\<rparr>
        in rbind (dlookup (aq_agent_queues q1) ag) (\<lambda>_. queue_task_done ag q1))"

section \<open>Invariant\<close>

definition wf_lookup :: "(rid, (task, nat) dict) dict \<Rightarrow> bool" where
  "wf_lookup d \<longleftrightarrow> wf_dict d
     \<and> (\<forall>r ts. map_of d r = Some ts \<longrightarrow> ts \<noteq> [] \<and> wf_dict ts \<and> (\<forall>t. has_key ts t \<longrightarrow> task_resource t = r))"

text \<open>\<open>T\<close>: tasks whose entry in the lookup is about to be replaced or dropped.\<close>

definition lookup_ok :: "task set \<Rightarrow> agent_queues \<Rightarrow> bool" where
  "lookup_ok T q \<longleftrightarrow> (\<forall>t i. item_of q t = Some i \<longrightarrow> \<not> is_pill t \<and> (t \<notin> T \<longrightarrow>
     i < length (aq_items q) \<and> qi_task (aq_items q ! i) = t \<and> \<not> qi_deleted (aq_items q ! i)
     \<and> i \<in> set (queue_of q (task_agent t))))"

definition queues_ok :: "task set \<Rightarrow> agent_queues \<Rightarrow> bool" where
  "queues_ok T q \<longleftrightarrow> (\<forall>ag. \<forall>i \<in> set (queue_of q ag). i < length (aq_items q)
     \<and> (qi_deleted (aq_items q ! i) \<or> is_pill (qi_task (aq_items q ! i))
        \<or> qi_task (aq_items q ! i) \<notin> T \<and> item_of q (qi_task (aq_items q ! i)) = Some i
          \<and> task_agent (qi_task (aq_items q ! i)) = ag))"

definition counts_ok :: "agent_queues \<Rightarrow> bool" where
  "counts_ok q \<longleftrightarrow> (\<forall>ag. distinct (queue_of q ag) \<and> length (queue_of q ag) \<le> dget (aq_unfinished q) ag 0)"

definition aq_inv_but :: "task set \<Rightarrow> agent_queues \<Rightarrow> bool" where
  "aq_inv_but T q \<longleftrightarrow> wf_lookup (aq_tasks_by_resource q) \<and> lookup_ok T q \<and> queues_ok T q \<and> counts_ok q"

definition aq_inv :: "agent_queues \<Rightarrow> bool" where
  "aq_inv q = aq_inv_but {} q"

lemma lookup_okD:
  assumes "lookup_ok T q" "item_of q t = Some i"
  shows "\<not> is_pill t" "t \<notin> T \<Longrightarrow> i < length (aq_items q)" "t \<notin> T \<Longrightarrow> qi_task (aq_items q ! i) = t"
    "t \<notin> T \<Longrightarrow> \<not> qi_deleted (aq_items q ! i)" "t \<notin> T \<Longrightarrow> i \<in> set (queue_of q (task_agent t))"
  using assms by (simp_all add: lookup_ok_def)

lemma queues_okD:
  assumes "queues_ok T q" "i \<in> set (queue_of q ag)"
  shows "i < length (aq_items q)"
    "\<not> qi_deleted (aq_items q ! i) \<Longrightarrow> \<not> is_pill (qi_task (aq_items q ! i)) \<Longrightarrow> qi_task (aq_items q ! i) \<notin> T
       \<and> item_of q (qi_task (aq_items q ! i)) = Some i \<and> task_agent (qi_task (aq_items q ! i)) = ag"
  using assms unfolding queues_ok_def by blast+

lemma aq_invD:
  assumes "aq_inv_but T q"
  shows "wf_lookup (aq_tasks_by_resource q)" "lookup_ok T q" "queues_ok T q" "counts_ok q"
  using assms by (simp_all add: aq_inv_but_def)

lemmas aq_inv_defs = aq_inv_def aq_inv_but_def lookup_ok_def queues_ok_def counts_ok_def

definition spec_of :: "agent_queues \<Rightarrow> task \<Rightarrow> (task_priority \<times> int \<times> string option) option" where
  \<comment> \<open>the request that is queued for a task\<close>
  "spec_of q t = map_option (\<lambda>i. (qi_priority (aq_items q ! i), qi_requested_at (aq_items q ! i),
     qi_reason (aq_items q ! i))) (item_of q t)"

lemma aq_contains_iff: "aq_contains t q \<longleftrightarrow> spec_of q t \<noteq> None"
  by (simp add: aq_contains_def spec_of_def item_of_def has_key_def)

lemma item_of_set_lookup [simp]: "item_of (set_lookup t i q) = (item_of q)(t \<mapsto> i)"
  by (auto simp: fun_eq_iff item_of_def set_lookup_def dict_simps)

lemma item_of_drop_lookup [simp]:
  "wf_lookup (aq_tasks_by_resource q) \<Longrightarrow> item_of (drop_lookup t q) = (item_of q)(t := None)"
proof -
  have "ddel d t = [] \<Longrightarrow> t' \<noteq> t \<Longrightarrow> map_of d t' = None" for d :: "(task, nat) dict" and t'
    using map_of_ddel [of d t] by (metis fun_upd_apply map_of.simps(1))
  then show ?thesis
    by (auto simp: fun_eq_iff item_of_def drop_lookup_def Let_def dict_simps)
qed

lemma dset_not_Nil [simp]: "dset d k v \<noteq> []"
  by (cases d) (auto simp: dset_def)

lemma wf_set_lookup: "wf_lookup (aq_tasks_by_resource q) \<Longrightarrow> wf_lookup (aq_tasks_by_resource (set_lookup t i q))"
  by (auto simp: wf_lookup_def set_lookup_def dget_def split: option.splits)

lemma wf_drop_lookup: "wf_lookup (aq_tasks_by_resource q) \<Longrightarrow> wf_lookup (aq_tasks_by_resource (drop_lookup t q))"
  by (auto simp: wf_lookup_def drop_lookup_def Let_def dget_def split: option.splits if_splits)

lemma item_of_upd [simp]:
  "item_of (q\<lparr>aq_items := a\<rparr>) = item_of q" "item_of (q\<lparr>aq_agent_queues := b\<rparr>) = item_of q"
  "item_of (q\<lparr>aq_unfinished := c\<rparr>) = item_of q" "item_of (q\<lparr>aq_entry_count := d\<rparr>) = item_of q"
  "item_of (q\<lparr>aq_in_progress := e\<rparr>) = item_of q" "item_of (q\<lparr>aq_notified := f\<rparr>) = item_of q"
  by (simp_all add: fun_eq_iff item_of_def)

lemma item_of_ops [simp]:
  "item_of (mark_deleted i q) = item_of q" "item_of (put_nowait ag i q) = item_of q"
  "item_of (get_queue ag q) = item_of q"
  by (simp_all add: mark_deleted_def put_nowait_def get_queue_def)

lemma queue_of_ops [simp]:
  "queue_of (mark_deleted i q) ag = queue_of q ag" "queue_of (set_lookup t i q) ag = queue_of q ag"
  "queue_of (drop_lookup t q) ag = queue_of q ag" "queue_of (get_queue ag' q) ag = queue_of q ag"
  "queue_of (put_nowait ag' i q) ag = (if ag = ag' then queue_of q ag @ [i] else queue_of q ag)"
  by (simp_all add: queue_of_def mark_deleted_def set_lookup_def drop_lookup_def get_queue_def put_nowait_def
      Let_def dict_simps)

lemma aq_items_ops [simp]:
  "aq_items (set_lookup t i q) = aq_items q" "aq_items (drop_lookup t q) = aq_items q"
  "aq_items (get_queue ag q) = aq_items q" "aq_items (put_nowait ag i q) = aq_items q"
  "aq_items (mark_deleted i q) = (aq_items q)[i := (aq_items q ! i)\<lparr>qi_deleted := True\<rparr>]"
  by (simp_all add: mark_deleted_def set_lookup_def drop_lookup_def get_queue_def put_nowait_def Let_def)

lemma unfinished_ops [simp]:
  "aq_unfinished (mark_deleted i q) = aq_unfinished q" "aq_unfinished (set_lookup t i q) = aq_unfinished q"
  "aq_unfinished (drop_lookup t q) = aq_unfinished q"
  "dget (aq_unfinished (put_nowait ag' i q)) ag 0 = (if ag = ag' then Suc (dget (aq_unfinished q) ag 0) else dget (aq_unfinished q) ag 0)"
  by (simp_all add: mark_deleted_def set_lookup_def drop_lookup_def put_nowait_def Let_def dict_simps)

lemma tasks_by_resource_ops [simp]:
  "aq_tasks_by_resource (mark_deleted i q) = aq_tasks_by_resource q"
  "aq_tasks_by_resource (put_nowait ag i q) = aq_tasks_by_resource q"
  "aq_tasks_by_resource (get_queue ag q) = aq_tasks_by_resource q"
  by (simp_all add: mark_deleted_def put_nowait_def get_queue_def)

lemma mark_deleted_but:
  assumes inv: "aq_inv_but T q" and T: "T \<subseteq> {t}" and i: "item_of q t = Some i" "qi_task (aq_items q ! i) = t"
  shows "aq_inv_but {t} (mark_deleted i q)" "t' \<noteq> t \<Longrightarrow> spec_of (mark_deleted i q) t' = spec_of q t'"
proof -
  note d = aq_invD [OF inv]
  have other: "j \<noteq> i" if "item_of q t' = Some j" "t' \<noteq> t" for t' j
    using lookup_okD(3) [OF d(2) that(1)] T i(2) that(2) by auto
  have notin: "t' \<noteq> t \<Longrightarrow> t' \<notin> T" for t' using T by auto
  have "lookup_ok {t} (mark_deleted i q)"
    unfolding lookup_ok_def
  proof (intro allI impI)
    fix t' j assume "item_of (mark_deleted i q) t' = Some j"
    then have j: "item_of q t' = Some j" by simp
    show "\<not> is_pill t' \<and> (t' \<notin> {t} \<longrightarrow> j < length (aq_items (mark_deleted i q))
        \<and> qi_task (aq_items (mark_deleted i q) ! j) = t' \<and> \<not> qi_deleted (aq_items (mark_deleted i q) ! j)
        \<and> j \<in> set (queue_of (mark_deleted i q) (task_agent t')))"
      using lookup_okD [OF d(2) j] other [OF j] notin [of t'] by auto
  qed
  moreover have "queues_ok {t} (mark_deleted i q)"
    unfolding queues_ok_def
  proof (intro allI ballI)
    fix ag j assume "j \<in> set (queue_of (mark_deleted i q) ag)"
    then have j: "j \<in> set (queue_of q ag)" by simp
    show "j < length (aq_items (mark_deleted i q))
      \<and> (qi_deleted (aq_items (mark_deleted i q) ! j) \<or> is_pill (qi_task (aq_items (mark_deleted i q) ! j))
        \<or> qi_task (aq_items (mark_deleted i q) ! j) \<notin> {t}
          \<and> item_of (mark_deleted i q) (qi_task (aq_items (mark_deleted i q) ! j)) = Some j
          \<and> task_agent (qi_task (aq_items (mark_deleted i q) ! j)) = ag)"
      using queues_okD [OF d(3) j] i by (cases "j = i") auto
  qed
  ultimately show "aq_inv_but {t} (mark_deleted i q)"
    using d(1,4) by (simp add: aq_inv_but_def counts_ok_def)
  show "t' \<noteq> t \<Longrightarrow> spec_of (mark_deleted i q) t' = spec_of q t'"
    using other [of t'] by (cases "item_of q t'") (auto simp: spec_of_def)
qed

lemma mark_deleted_ok:
  assumes "aq_inv q" "item_of q t = Some i"
  shows "aq_inv_but {t} (mark_deleted i q)" "t' \<noteq> t \<Longrightarrow> spec_of (mark_deleted i q) t' = spec_of q t'"
proof -
  have inv: "aq_inv_but {} q" using assms(1) by (simp add: aq_inv_def)
  have "qi_task (aq_items q ! i) = t" using lookup_okD(3) [OF aq_invD(2) [OF inv] assms(2)] by simp
  from mark_deleted_but [OF inv _ assms(2) this] show "aq_inv_but {t} (mark_deleted i q)"
    "t' \<noteq> t \<Longrightarrow> spec_of (mark_deleted i q) t' = spec_of q t'" by auto
qed

lemma drop_lookup_ok:
  assumes "aq_inv_but {t} q"
  shows "aq_inv (drop_lookup t q)" "spec_of (drop_lookup t q) = (spec_of q)(t := None)"
proof -
  have w: "wf_lookup (aq_tasks_by_resource q)" using assms by (simp add: aq_inv_but_def)
  show "spec_of (drop_lookup t q) = (spec_of q)(t := None)"
    by (auto simp: fun_eq_iff spec_of_def item_of_drop_lookup [OF w])
  show "aq_inv (drop_lookup t q)"
    using assms wf_drop_lookup [OF w] by (auto simp: aq_inv_defs item_of_drop_lookup [OF w])
qed

lemma remove_ok:
  assumes "aq_inv q"
  shows "aq_remove t q = Inl KeyError \<longleftrightarrow> spec_of q t = None"
    and "aq_remove t q = Inr (it, q') \<Longrightarrow> aq_inv q' \<and> spec_of q' = (spec_of q)(t := None)
      \<and> spec_of q t = Some (qi_priority it, qi_requested_at it, qi_reason it) \<and> qi_task it = t"
proof -
  show "aq_remove t q = Inl KeyError \<longleftrightarrow> spec_of q t = None"
    by (simp add: aq_remove_def spec_of_def Let_def split: option.splits)
  assume r: "aq_remove t q = Inr (it, q')"
  then obtain i where i: "item_of q t = Some i" "q' = drop_lookup t (mark_deleted i q)" "it = aq_items q' ! i"
    by (auto simp: aq_remove_def Let_def split: option.splits)
  have l: "i < length (aq_items q)" "qi_task (aq_items q ! i) = t" using assms i(1) by (auto simp: aq_inv_defs)
  note m = mark_deleted_ok [OF assms i(1)]
  show "aq_inv q' \<and> spec_of q' = (spec_of q)(t := None)
      \<and> spec_of q t = Some (qi_priority it, qi_requested_at it, qi_reason it) \<and> qi_task it = t"
    using drop_lookup_ok [OF m(1)] m(2) i l by (auto simp: fun_eq_iff spec_of_def)
qed

lemma discard_ok:
  assumes "aq_inv q"
  shows "aq_inv (snd (aq_discard t q))" "spec_of (snd (aq_discard t q)) = (spec_of q)(t := None)"
    and "map_option (\<lambda>it. (qi_priority it, qi_requested_at it, qi_reason it)) (fst (aq_discard t q)) = spec_of q t"
proof -
  have "aq_inv (snd (aq_discard t q)) \<and> spec_of (snd (aq_discard t q)) = (spec_of q)(t := None)
    \<and> map_option (\<lambda>it. (qi_priority it, qi_requested_at it, qi_reason it)) (fst (aq_discard t q)) = spec_of q t"
  proof (cases "aq_remove t q")
    case (Inl e)
    then have "spec_of q t = None" by (auto simp: aq_remove_def spec_of_def Let_def split: option.splits)
    then show ?thesis using Inl assms by (simp add: aq_discard_def fun_upd_idem)
  next
    case (Inr p)
    then show ?thesis using remove_ok(2) [OF assms, of t "fst p" "snd p"] by (cases p) (simp add: aq_discard_def)
  qed
  then show "aq_inv (snd (aq_discard t q))" "spec_of (snd (aq_discard t q)) = (spec_of q)(t := None)"
    "map_option (\<lambda>it. (qi_priority it, qi_requested_at it, qi_reason it)) (fst (aq_discard t q)) = spec_of q t"
    by auto
qed

section \<open>Queueing\<close>

definition put_spec ::
  "task \<Rightarrow> task_priority \<Rightarrow> int option \<Rightarrow> string option \<Rightarrow> int
    \<Rightarrow> (task \<Rightarrow> (task_priority \<times> int \<times> string option) option) \<Rightarrow> task \<Rightarrow> (task_priority \<times> int \<times> string option) option" where
  \<comment> \<open>what \<open>queue_put_nowait\<close> promises on the requests, \<open>n\<close> being the next insert order\<close>
  "put_spec t p ra reason n f =
     (case f t of
        None \<Rightarrow> f(t \<mapsto> (p, (case ra of None \<Rightarrow> n | Some k \<Rightarrow> k), reason))
      | Some (p0, _) \<Rightarrow> if p0 \<le> p then f else f(t \<mapsto> (p, n, reason)))"

lemma aq_inv_but_entry_count [simp]: "aq_inv_but T (q\<lparr>aq_entry_count := n\<rparr>) = aq_inv_but T q"
  by (simp add: aq_inv_defs queue_of_def)

lemma spec_of_entry_count [simp]: "spec_of (q\<lparr>aq_entry_count := n\<rparr>) = spec_of q"
  by (simp add: fun_eq_iff spec_of_def)

lemma aq_inv_but_none:
  assumes "aq_inv q" "item_of q t = None"
  shows "aq_inv_but {t} q"
proof -
  have d: "queues_ok {} q" "aq_inv_but {} q" using assms(1) by (simp_all add: aq_inv_def aq_inv_but_def)
  have "queues_ok {t} q"
    unfolding queues_ok_def
  proof (intro allI ballI)
    fix ag i assume "i \<in> set (queue_of q ag)"
    from queues_okD [OF d(1) this] show "i < length (aq_items q)
     \<and> (qi_deleted (aq_items q ! i) \<or> is_pill (qi_task (aq_items q ! i))
        \<or> qi_task (aq_items q ! i) \<notin> {t} \<and> item_of q (qi_task (aq_items q ! i)) = Some i
          \<and> task_agent (qi_task (aq_items q ! i)) = ag)"
      using assms(2) by auto
  qed
  then show ?thesis using d(2) by (simp add: aq_inv_but_def lookup_ok_def)
qed

lemma insert_ok:
  assumes inv: "aq_inv_but {t} q" and it: "qi_task it = t" "\<not> qi_deleted it" "\<not> is_pill t"
    and i: "i = length (aq_items q)"
  defines "q' \<equiv> put_nowait (task_agent t) i (get_queue (task_agent t) (set_lookup t i (q\<lparr>aq_items := aq_items q @ [it]\<rparr>)))"
  shows "aq_inv q'" and "spec_of q' = (spec_of q)(t \<mapsto> (qi_priority it, qi_requested_at it, qi_reason it))"
proof -
  note d = aq_invD [OF inv]
  have qo: "queue_of (q\<lparr>aq_items := its\<rparr>) ag = queue_of q ag" for its ag by (simp add: queue_of_def)
  have lt': "j < length (aq_items q)" if "item_of q t' = Some j" "t' \<noteq> t" for j t'
    using lookup_okD(2) [OF d(2) that(1)] that(2) by simp
  have q'_items: "aq_items q' = aq_items q @ [it]" and q'_of: "item_of q' = (item_of q)(t \<mapsto> i)"
    and q'_queue: "queue_of q' ag = (if ag = task_agent t then queue_of q ag @ [i] else queue_of q ag)" for ag
    by (simp_all add: q'_def qo)
  have "wf_lookup (aq_tasks_by_resource q')"
    using d(1) wf_set_lookup [of "q\<lparr>aq_items := aq_items q @ [it]\<rparr>" t i] by (simp add: q'_def)
  moreover have "lookup_ok {} q'"
    unfolding lookup_ok_def
  proof (intro allI impI)
    fix t' j assume "item_of q' t' = Some j"
    then consider "t' = t" "j = i" | "t' \<noteq> t" "item_of q t' = Some j" by (auto simp: q'_of split: if_splits)
    then show "\<not> is_pill t' \<and> (t' \<notin> {} \<longrightarrow> j < length (aq_items q') \<and> qi_task (aq_items q' ! j) = t'
        \<and> \<not> qi_deleted (aq_items q' ! j) \<and> j \<in> set (queue_of q' (task_agent t')))"
    proof cases
      case 1
      then show ?thesis using it i by (simp add: q'_items q'_queue)
    next
      case 2
      then show ?thesis using lookup_okD [OF d(2) 2(2)] 2(1) by (auto simp: q'_items q'_queue nth_append)
    qed
  qed
  moreover have "queues_ok {} q'"
    unfolding queues_ok_def
  proof (intro allI ballI)
    fix ag j assume "j \<in> set (queue_of q' ag)"
    then consider "j \<in> set (queue_of q ag)" | "j = i" "ag = task_agent t" by (auto simp: q'_queue split: if_splits)
    then show "j < length (aq_items q') \<and> (qi_deleted (aq_items q' ! j) \<or> is_pill (qi_task (aq_items q' ! j))
        \<or> qi_task (aq_items q' ! j) \<notin> {} \<and> item_of q' (qi_task (aq_items q' ! j)) = Some j
          \<and> task_agent (qi_task (aq_items q' ! j)) = ag)"
    proof cases
      case 1
      then show ?thesis using queues_okD [OF d(3) 1] by (auto simp: q'_items q'_of nth_append)
    next
      case 2
      then show ?thesis using it i by (simp add: q'_items q'_of)
    qed
  qed
  moreover have "counts_ok q'"
  proof -
    have "i \<notin> set (queue_of q (task_agent t))" using queues_okD(1) [OF d(3), of i] i by blast
    moreover have "dget (aq_unfinished q') ag 0 = (if ag = task_agent t then Suc (dget (aq_unfinished q) ag 0) else dget (aq_unfinished q) ag 0)"
      if "has_key (aq_agent_queues q) (task_agent t)" for ag
      using that by (simp add: q'_def get_queue_def set_lookup_def put_nowait_def dict_simps)
    moreover have "dget (aq_unfinished q') ag 0 = (if ag = task_agent t then 1 else dget (aq_unfinished q) ag 0)"
      "queue_of q (task_agent t) = []"
      if "\<not> has_key (aq_agent_queues q) (task_agent t)" for ag
      using that by (simp_all add: q'_def get_queue_def set_lookup_def put_nowait_def dict_simps queue_of_def)
    ultimately show ?thesis using d(4)
      by (cases "has_key (aq_agent_queues q) (task_agent t)") (auto simp: counts_ok_def q'_queue)
  qed
  ultimately show "aq_inv q'" by (simp add: aq_inv_def aq_inv_but_def)
  show "spec_of q' = (spec_of q)(t \<mapsto> (qi_priority it, qi_requested_at it, qi_reason it))"
  proof (rule ext)
    fix x
    show "spec_of q' x = ((spec_of q)(t \<mapsto> (qi_priority it, qi_requested_at it, qi_reason it))) x"
      using lt' [of x] by (cases "x = t"; cases "item_of q x") (auto simp: spec_of_def q'_items q'_of nth_append i)
  qed
qed

lemma put_ok:
  assumes inv: "aq_inv q" and np: "\<not> is_pill t"
  shows "aq_inv (queue_put_nowait t p ra reason q)"
    and "spec_of (queue_put_nowait t p ra reason q) = put_spec t p ra reason (aq_entry_count q) (spec_of q)"
proof -
  let ?it = "\<lambda>n. \<lparr>qi_task = t, qi_priority = p, qi_requested_at = n, qi_reason = reason, qi_deleted = False\<rparr>"
  have "aq_inv (queue_put_nowait t p ra reason q)
    \<and> spec_of (queue_put_nowait t p ra reason q) = put_spec t p ra reason (aq_entry_count q) (spec_of q)"
  proof (cases "item_of q t")
    case None
    have "aq_inv_but {t} (q\<lparr>aq_entry_count := n\<rparr>)" for n
      using aq_inv_but_none [OF inv None] by simp
    note ins = insert_ok [OF this, of "?it k" for k]
    show ?thesis
      using ins np None aq_inv_but_none [OF inv None] insert_ok [of t q "?it k" "length (aq_items q)" for k]
      by (cases ra) (simp_all add: queue_put_nowait_def Let_def put_spec_def spec_of_def reserve_requested_at_def)
  next
    case (Some i)
    note m = mark_deleted_ok [OF inv Some]
    have "aq_inv_but {t} ((mark_deleted i q)\<lparr>aq_entry_count := n\<rparr>)" for n using m(1) by simp
    then have ins: "aq_inv (put_nowait (task_agent t) (length (aq_items q)) (get_queue (task_agent t)
          (set_lookup t (length (aq_items q)) (q2\<lparr>aq_items := aq_items q2 @ [?it k]\<rparr>))))"
      "spec_of (put_nowait (task_agent t) (length (aq_items q)) (get_queue (task_agent t)
          (set_lookup t (length (aq_items q)) (q2\<lparr>aq_items := aq_items q2 @ [?it k]\<rparr>))))
        = (spec_of (mark_deleted i q))(t \<mapsto> (p, k, reason))"
      if "q2 = (mark_deleted i q)\<lparr>aq_entry_count := n\<rparr>" for n k q2
      using insert_ok [of t q2 "?it k"] that np by auto
    have sp: "spec_of q t = Some (qi_priority (aq_items q ! i), qi_requested_at (aq_items q ! i), qi_reason (aq_items q ! i))"
      by (simp add: spec_of_def Some)
    have "spec_of (mark_deleted i q) = (spec_of q)(t := spec_of (mark_deleted i q) t)" using m(2) by auto
    then have up: "(spec_of (mark_deleted i q))(t \<mapsto> x) = (spec_of q)(t \<mapsto> x)" for x by (metis fun_upd_upd)
    show ?thesis
    proof (cases "qi_priority (aq_items q ! i) \<le> p")
      case True
      then show ?thesis using inv Some sp by (simp add: queue_put_nowait_def Let_def put_spec_def)
    next
      case False
      have e: "aq_entry_count (mark_deleted i q) = aq_entry_count q" by (simp add: mark_deleted_def)
      have "queue_put_nowait t p ra reason q =
          (let q2 = (mark_deleted i q)\<lparr>aq_entry_count := aq_entry_count q + 1\<rparr>
           in put_nowait (task_agent t) (length (aq_items q2)) (get_queue (task_agent t) (set_lookup t (length (aq_items q2))
             (q2\<lparr>aq_items := aq_items q2 @ [?it (aq_entry_count q)]\<rparr>))))"
        using False Some by (cases ra) (simp_all add: queue_put_nowait_def Let_def reserve_requested_at_def e)
      then show ?thesis
        using ins [OF refl, of "aq_entry_count q + 1" "aq_entry_count q"] False sp up
        by (simp add: Let_def put_spec_def)
    qed
  qed
  then show "aq_inv (queue_put_nowait t p ra reason q)"
    and "spec_of (queue_put_nowait t p ra reason q) = put_spec t p ra reason (aq_entry_count q) (spec_of q)" by auto
qed

section \<open>Consuming\<close>

lemma min_ref_le: "j \<in> insert m (set js) \<Longrightarrow> \<not> item_less (its ! j) (its ! min_ref its m js)"
proof (induction its m js arbitrary: j rule: min_ref.induct)
  case (2 its m i "is")
  let ?m = "if item_less (its ! i) (its ! m) then i else m"
  have step: "\<not> item_less (its ! j) (its ! min_ref its ?m is)" if "j \<in> insert ?m (set is)" for j
    using "2.IH" [OF that] .
  consider "j \<in> insert ?m (set is)" | "j = m" "item_less (its ! i) (its ! m)" | "j = i" "\<not> item_less (its ! i) (its ! m)"
    using "2.prems" by (cases "item_less (its ! i) (its ! m)") auto
  then show ?case
  proof cases
    case 1
    then show ?thesis using step by simp
  next
    case 2
    then show ?thesis using step [of i] by (auto simp: item_less_def)
  next
    case 3
    then show ?thesis using step [of m] by (auto simp: item_less_def)
  qed
qed (simp add: item_less_def)

abbreviation with_queue :: "string \<Rightarrow> nat list \<Rightarrow> agent_queues \<Rightarrow> agent_queues" where
  "with_queue ag refs q \<equiv> q\<lparr>aq_agent_queues := dset (aq_agent_queues q) ag refs\<rparr>"

lemma queue_of_with [simp]: "queue_of (with_queue ag refs q) ag' = (if ag' = ag then refs else queue_of q ag')"
  by (simp add: queue_of_def dict_simps)

lemma all_update: "(\<forall>a. P a (if a = b then x else f a)) \<longleftrightarrow> P b x \<and> (\<forall>a. a \<noteq> b \<longrightarrow> P a (f a))"
  by metis

lemma counts_with: "counts_ok (with_queue ag refs q) \<longleftrightarrow> distinct refs \<and> length refs \<le> dget (aq_unfinished q) ag 0
    \<and> (\<forall>a. a \<noteq> ag \<longrightarrow> distinct (queue_of q a) \<and> length (queue_of q a) \<le> dget (aq_unfinished q) a 0)"
  using all_update [of "\<lambda>a l. distinct l \<and> length l \<le> dget (aq_unfinished q) a 0" ag refs "queue_of q"]
  by (simp add: counts_ok_def)

lemma aq_inv_unfinished:
  assumes "aq_inv_but T (with_queue ag refs q)" "length refs \<le> n"
  shows "aq_inv_but T (with_queue ag refs (q\<lparr>aq_unfinished := dset (aq_unfinished q) ag n\<rparr>))"
proof -
  have "queue_of (q\<lparr>aq_unfinished := u\<rparr>) a = queue_of q a" for u a by (simp add: queue_of_def)
  then have "counts_ok (with_queue ag refs (q\<lparr>aq_unfinished := dset (aq_unfinished q) ag n\<rparr>))"
    using assms unfolding aq_inv_but_def counts_with by (simp add: dict_simps)
  then show ?thesis using aq_invD(1-3) [OF assms(1)]
    by (simp add: aq_inv_but_def lookup_ok_def queues_ok_def queue_of_def dict_simps)
qed

lemma aq_inv_take:
  assumes inv: "aq_inv (with_queue ag refs q)" and i: "i \<in> set refs"
  shows "aq_inv_but (if qi_deleted (aq_items q ! i) then {} else {qi_task (aq_items q ! i)}) (with_queue ag (remove1 i refs) q)"
proof -
  let ?T = "if qi_deleted (aq_items q ! i) then {} else {qi_task (aq_items q ! i)}"
  let ?q = "with_queue ag refs q" and ?q' = "with_queue ag (remove1 i refs) q"
  have inv': "aq_inv_but {} ?q" using inv by (simp add: aq_inv_def)
  note d = aq_invD [OF inv']
  have dist: "distinct refs" using d(4) unfolding counts_with by simp
  then have rem: "set (remove1 i refs) = set refs - {i}" by simp
  have "lookup_ok ?T ?q'"
    unfolding lookup_ok_def
  proof (intro allI impI)
    fix t j assume "item_of ?q' t = Some j"
    then have j: "item_of ?q t = Some j" by simp
    show "\<not> is_pill t \<and> (t \<notin> ?T \<longrightarrow> j < length (aq_items ?q') \<and> qi_task (aq_items ?q' ! j) = t
        \<and> \<not> qi_deleted (aq_items ?q' ! j) \<and> j \<in> set (queue_of ?q' (task_agent t)))"
      using lookup_okD [OF d(2) j] rem by (auto split: if_splits)
  qed
  moreover have "queues_ok ?T ?q'"
    unfolding queues_ok_def
  proof (intro allI ballI)
    fix ag' j assume "j \<in> set (queue_of ?q' ag')"
    then have j: "j \<in> set (queue_of ?q ag')" "ag' = ag \<longrightarrow> j \<noteq> i" using rem by (auto split: if_splits)
    have i': "i \<in> set (queue_of ?q ag)" using i by simp
    show "j < length (aq_items ?q') \<and> (qi_deleted (aq_items ?q' ! j) \<or> is_pill (qi_task (aq_items ?q' ! j))
        \<or> qi_task (aq_items ?q' ! j) \<notin> ?T \<and> item_of ?q' (qi_task (aq_items ?q' ! j)) = Some j
          \<and> task_agent (qi_task (aq_items ?q' ! j)) = ag')"
      using queues_okD [OF d(3) j(1)] queues_okD [OF d(3) i'] j(2) by auto
  qed
  moreover have "counts_ok ?q'"
    using d(4) dist i unfolding counts_with by (auto simp: length_remove1)
  ultimately show ?thesis using d(1) by (simp add: aq_inv_but_def)
qed

lemma get_loop_ok:
  assumes "aq_inv (with_queue ag refs q)"
  shows "\<exists>got q'. get_loop ag refs q = Inr (got, q') \<and> aq_items q' = aq_items q
    \<and> aq_tasks_by_resource q' = aq_tasks_by_resource q \<and> aq_in_progress q' = aq_in_progress q
    \<and> (case got of
         None \<Rightarrow> aq_inv q' \<and> queue_of q' ag = []
       | Some i \<Rightarrow> i \<in> set refs \<and> \<not> qi_deleted (aq_items q ! i) \<and> aq_inv_but {qi_task (aq_items q ! i)} q'
           \<and> (\<forall>j \<in> set refs. \<not> qi_deleted (aq_items q ! j) \<longrightarrow> \<not> item_less (aq_items q ! j) (aq_items q ! i)))"
  using assms
proof (induction ag refs q rule: get_loop.induct)
  case (1 ag q)
  then show ?case by simp
next
  case (2 ag r refs q)
  define i where "i = min_ref (aq_items q) r refs"
  let ?rest = "remove1 i (r # refs)"
  have mem: "i \<in> set (r # refs)" using min_ref_mem [of "aq_items q" r refs] by (simp add: i_def)
  note take = aq_inv_take [OF "2.prems" mem]
  have le: "\<not> item_less (aq_items q ! j) (aq_items q ! i)" if "j \<in> set (r # refs)" for j
    using min_ref_le [of j r refs] that by (simp add: i_def)
  show ?case
  proof (cases "qi_deleted (aq_items q ! i)")
    case False
    then have "get_loop ag (r # refs) q = Inr (Some i, with_queue ag ?rest q)" by (simp add: Let_def i_def)
    then show ?thesis using take mem le False by simp
  next
    case True
    have cnt: "length (r # refs) \<le> dget (aq_unfinished q) ag 0"
      using "2.prems" by (auto simp: aq_inv_defs dest: spec [of _ ag])
    then obtain n where n: "dget (aq_unfinished q) ag 0 = Suc n" by (cases "dget (aq_unfinished q) ag 0") auto
    let ?q1 = "q\<lparr>aq_unfinished := dset (aq_unfinished q) ag n\<rparr>"
    have dn: "queue_task_done ag q = Inr ?q1" by (simp add: queue_task_done_def n)
    have "length ?rest \<le> n" using cnt n remove1_less [of i r refs] mem by simp
    then have "aq_inv (with_queue ag ?rest ?q1)" using aq_inv_unfinished take True by (simp add: aq_inv_def)
    have same: "aq_items ?q1 = aq_items q" "aq_tasks_by_resource ?q1 = aq_tasks_by_resource q"
      "aq_in_progress ?q1 = aq_in_progress q" by simp_all
    note IH = "2.IH" [OF i_def refl True dn \<open>aq_inv (with_queue ag ?rest ?q1)\<close>, unfolded same]
    obtain got q' where q': "get_loop ag ?rest ?q1 = Inr (got, q')"
      "aq_items q' = aq_items q" "aq_tasks_by_resource q' = aq_tasks_by_resource q"
      "aq_in_progress q' = aq_in_progress q"
      "case got of None \<Rightarrow> aq_inv q' \<and> queue_of q' ag = []
       | Some i \<Rightarrow> i \<in> set ?rest \<and> \<not> qi_deleted (aq_items q ! i) \<and> aq_inv_but {qi_task (aq_items q ! i)} q'
           \<and> (\<forall>j \<in> set ?rest. \<not> qi_deleted (aq_items q ! j) \<longrightarrow> \<not> item_less (aq_items q ! j) (aq_items q ! i))"
      using IH by blast
    have "get_loop ag (r # refs) q = Inr (got, q')"
      using True dn q'(1) by (simp add: Let_def flip: i_def)
    moreover have keep: "j \<in> set ?rest" if "j \<in> set (r # refs)" "\<not> qi_deleted (aq_items q ! j)" for j
      using that True by (metis in_set_remove1)
    have sub: "set ?rest \<subseteq> set (r # refs)" by (rule set_remove1_subset)
    have "case got of None \<Rightarrow> aq_inv q' \<and> queue_of q' ag = []
       | Some i \<Rightarrow> i \<in> set (r # refs) \<and> \<not> qi_deleted (aq_items q ! i) \<and> aq_inv_but {qi_task (aq_items q ! i)} q'
           \<and> (\<forall>j \<in> set (r # refs). \<not> qi_deleted (aq_items q ! j) \<longrightarrow> \<not> item_less (aq_items q ! j) (aq_items q ! i))"
    proof (cases got)
      case None
      then show ?thesis using q'(5) by simp
    next
      case (Some k)
      from q'(5) [unfolded Some option.case] keep sub show ?thesis unfolding Some option.case by blast
    qed
    ultimately show ?thesis using q'(2-4) by blast
  qed
qed

lemma spec_of_cong:
  assumes "aq_items q' = aq_items q" "aq_tasks_by_resource q' = aq_tasks_by_resource q"
  shows "spec_of q' = spec_of q" "item_of q' = item_of q"
  using assms by (simp_all add: fun_eq_iff spec_of_def item_of_def)

lemma spec_of_in_progress [simp]: "spec_of (q\<lparr>aq_in_progress := x\<rparr>) = spec_of q"
  by (rule spec_of_cong(1)) simp_all

lemma aq_inv_in_progress [simp]: "aq_inv_but T (q\<lparr>aq_in_progress := x\<rparr>) = aq_inv_but T q"
  by (simp add: aq_inv_defs queue_of_def)

lemma discard_taken:
  assumes inv: "aq_inv_but {t} q" and i: "\<And>j. item_of q t = Some j \<Longrightarrow> qi_task (aq_items q ! j) = t"
  shows "aq_inv (snd (aq_discard t q))" "spec_of (snd (aq_discard t q)) = (spec_of q)(t := None)"
    "aq_in_progress (snd (aq_discard t q)) = aq_in_progress q"
proof -
  have "aq_inv (snd (aq_discard t q)) \<and> spec_of (snd (aq_discard t q)) = (spec_of q)(t := None)"
  proof (cases "item_of q t")
    case None
    note d = aq_invD [OF inv]
    have "lookup_ok {} q"
      unfolding lookup_ok_def
    proof (intro allI impI)
      fix t' j assume j: "item_of q t' = Some j"
      then have "t' \<notin> {t}" using None by auto
      with lookup_okD [OF d(2) j] show "\<not> is_pill t' \<and> (t' \<notin> {} \<longrightarrow> j < length (aq_items q)
        \<and> qi_task (aq_items q ! j) = t' \<and> \<not> qi_deleted (aq_items q ! j) \<and> j \<in> set (queue_of q (task_agent t')))"
        by blast
    qed
    moreover have "queues_ok {} q" using queues_okD [OF d(3)] unfolding queues_ok_def by blast
    ultimately have "aq_inv q" using d by (simp add: aq_inv_def aq_inv_but_def)
    then show ?thesis using None by (simp add: aq_discard_def aq_remove_def spec_of_def fun_upd_idem)
  next
    case (Some j)
    note m = mark_deleted_but [OF inv subset_refl Some i [OF Some]]
    have "snd (aq_discard t q) = drop_lookup t (mark_deleted j q)"
      using Some by (simp add: aq_discard_def aq_remove_def Let_def)
    then show ?thesis using drop_lookup_ok [OF m(1)] m(2) by auto
  qed
  then show "aq_inv (snd (aq_discard t q))" "spec_of (snd (aq_discard t q)) = (spec_of q)(t := None)" by auto
  show "aq_in_progress (snd (aq_discard t q)) = aq_in_progress q"
    by (auto simp: aq_discard_def aq_remove_def Let_def mark_deleted_def drop_lookup_def split: option.splits)
qed

definition first_of_agent :: "agent_queues \<Rightarrow> string \<Rightarrow> task \<Rightarrow> bool" where
  \<comment> \<open>no queued task of the agent was requested with a higher priority, or earlier with the same one\<close>
  "first_of_agent q ag t \<longleftrightarrow> task_agent t = ag \<and> (\<exists>p n r. spec_of q t = Some (p, n, r)
     \<and> (\<forall>t' p' n' r'. task_agent t' = ag \<longrightarrow> spec_of q t' = Some (p', n', r') \<longrightarrow> p < p' \<or> p = p' \<and> n \<le> n'))"

lemma not_item_less:
  assumes "\<not> item_less j i" "\<not> qi_deleted i" "\<not> qi_deleted j"
  shows "qi_priority i < qi_priority j \<or> qi_priority i = qi_priority j \<and> qi_requested_at i \<le> qi_requested_at j"
  using assms by (auto simp: item_less_def item_key_def)

lemma queue_get_ok:
  assumes inv: "aq_inv q" and k: "has_key (aq_agent_queues q) ag"
  shows "\<exists>got q'. queue_get ag q = Inr (got, q') \<and> aq_inv q'
    \<and> (case got of
         None \<Rightarrow> spec_of q' = spec_of q \<and> (\<forall>t. task_agent t = ag \<longrightarrow> spec_of q t = None)
       | Some (t, reason) \<Rightarrow> spec_of q' = (spec_of q)(t := None) \<and> has_key (aq_in_progress q') t
           \<and> (is_pill t \<or> first_of_agent q ag t \<and> map_of (aq_in_progress q') t = map_option fst (spec_of q t)))"
proof -
  obtain refs where refs: "map_of (aq_agent_queues q) ag = Some refs" using k by (auto elim: has_keyE)
  then have "with_queue ag refs q = q\<lparr>aq_agent_queues := dset (aq_agent_queues q) ag refs\<rparr>"
    and qo: "queue_of q ag = refs" by (simp_all add: queue_of_def)
  have "queue_of (with_queue ag refs q) = queue_of q" using qo by (auto simp: fun_eq_iff)
  then have "aq_inv (with_queue ag refs q)" using inv by (simp add: aq_inv_defs)
  from get_loop_ok [OF this] obtain got q1 where q1: "get_loop ag refs q = Inr (got, q1)" "aq_items q1 = aq_items q"
    "aq_tasks_by_resource q1 = aq_tasks_by_resource q"
    "case got of
         None \<Rightarrow> aq_inv q1 \<and> queue_of q1 ag = []
       | Some i \<Rightarrow> i \<in> set refs \<and> \<not> qi_deleted (aq_items q ! i) \<and> aq_inv_but {qi_task (aq_items q ! i)} q1
           \<and> (\<forall>j \<in> set refs. \<not> qi_deleted (aq_items q ! j) \<longrightarrow> \<not> item_less (aq_items q ! j) (aq_items q ! i))"
    by blast
  note sp = spec_of_cong [OF q1(2,3)]
  have d: "aq_inv_but {} q" using inv by (simp add: aq_inv_def)
  show ?thesis
  proof (cases got)
    case None
    have i1: "aq_inv q1" "queue_of q1 ag = []" using q1(4) None by auto
    have "spec_of q t = None" if "task_agent t = ag" for t
    proof (rule ccontr)
      assume "spec_of q t \<noteq> None"
      then obtain j where "item_of q1 t = Some j" using sp(2) by (auto simp: spec_of_def)
      then have "j \<in> set (queue_of q1 ag)" using i1(1) that lookup_okD(5) [of "{}" q1 t j] by (simp add: aq_inv_def aq_inv_but_def)
      then show False using i1(2) by simp
    qed
    then show ?thesis using None q1(1) i1 sp refs by (simp add: queue_get_def)
  next
    case (Some i)
    let ?it = "aq_items q ! i"
    have i: "i \<in> set refs" "\<not> qi_deleted ?it" "aq_inv_but {qi_task ?it} q1"
      "\<forall>j \<in> set refs. \<not> qi_deleted (aq_items q ! j) \<longrightarrow> \<not> item_less (aq_items q ! j) ?it"
      using q1(4) Some by auto
    have "qi_task (aq_items q1 ! j) = qi_task ?it" if "item_of q1 (qi_task ?it) = Some j" for j
      using lookup_okD(3) [OF aq_invD(2) [OF d], of "qi_task ?it" j] that sp(2) q1(2) by simp
    note disc = discard_taken [OF i(3) this]
    let ?q2 = "snd (aq_discard (qi_task ?it) q1)"
    have qg: "queue_get ag q = Inr (Some (qi_task ?it, qi_reason ?it),
        ?q2\<lparr>aq_in_progress := dset (aq_in_progress ?q2) (qi_task ?it) (qi_priority ?it)\<rparr>)"
      using q1(1,2) Some refs by (simp add: queue_get_def Let_def)
    have live: "item_of q (qi_task ?it) = Some i \<and> task_agent (qi_task ?it) = ag" if "\<not> is_pill (qi_task ?it)"
      using queues_okD(2) [OF aq_invD(3) [OF d], of i ag] i(1,2) that qo by auto
    have first: "qi_priority ?it < p' \<or> qi_priority ?it = p' \<and> qi_requested_at ?it \<le> n'"
      if "task_agent t' = ag" "spec_of q t' = Some (p', n', r')" for t' p' n' r'
    proof -
      from that(2) obtain j where j: "item_of q t' = Some j" "p' = qi_priority (aq_items q ! j)"
        "n' = qi_requested_at (aq_items q ! j)" by (auto simp: spec_of_def)
      have "j \<in> set refs" "\<not> qi_deleted (aq_items q ! j)"
        using lookup_okD(4,5) [OF aq_invD(2) [OF d] j(1)] that(1) qo by auto
      then show ?thesis using not_item_less i(2,4) j(2,3) by blast
    qed
    have "is_pill (qi_task ?it) \<or> first_of_agent q ag (qi_task ?it)
        \<and> Some (qi_priority ?it) = map_option fst (spec_of q (qi_task ?it))"
    proof (cases "is_pill (qi_task ?it)")
      case False
      have "spec_of q (qi_task ?it) = Some (qi_priority ?it, qi_requested_at ?it, qi_reason ?it)"
        using live [OF False] by (simp add: spec_of_def)
      then show ?thesis using live [OF False] first unfolding first_of_agent_def by auto
    qed simp
    then show ?thesis using qg disc(1,2) sp(1) by (auto simp: aq_inv_def)
  qed
qed

section \<open>The interface of the scheduled work\<close>

text \<open>
  A queue of requests of which every task has at most one: \<open>spec\<close> gives the request of a task,
  \<open>next\<close> the insert order of the next one.
\<close>

locale request_queue =
  fixes inv :: "'q \<Rightarrow> bool"
    and queueable :: "'t \<Rightarrow> bool"
    and spec :: "'q \<Rightarrow> 't \<Rightarrow> ('p::linorder \<times> int \<times> string option) option"
    and "next" :: "'q \<Rightarrow> int"
    and put :: "'t \<Rightarrow> 'p \<Rightarrow> int option \<Rightarrow> string option \<Rightarrow> 'q \<Rightarrow> 'q"
    and drop :: "'t \<Rightarrow> 'q \<Rightarrow> 'q"
  assumes put_inv: "inv q \<Longrightarrow> queueable t \<Longrightarrow> inv (put t p ra reason q)"
    and put_fresh: "inv q \<Longrightarrow> queueable t \<Longrightarrow> spec q t = None \<Longrightarrow>
      spec (put t p ra reason q) = (spec q)(t \<mapsto> (p, (case ra of None \<Rightarrow> next q | Some k \<Rightarrow> k), reason))"
    and put_queued: "inv q \<Longrightarrow> queueable t \<Longrightarrow> spec q t = Some (p0, n, r0) \<Longrightarrow>
      spec (put t p ra reason q) = (if p0 \<le> p then spec q else (spec q)(t \<mapsto> (p, next q, reason)))"
    and drop_inv: "inv q \<Longrightarrow> inv (drop t q)"
    and drop_spec: "inv q \<Longrightarrow> spec (drop t q) = (spec q)(t := None)"
begin

lemma put_other: "inv q \<Longrightarrow> queueable t \<Longrightarrow> t' \<noteq> t \<Longrightarrow> spec (put t p ra reason q) t' = spec q t'"
  by (cases "spec q t") (auto simp: put_fresh put_queued)

lemma put_dom: "inv q \<Longrightarrow> queueable t \<Longrightarrow> dom (spec (put t p ra reason q)) = insert t (dom (spec q))"
  by (cases "spec q t") (auto simp: put_fresh put_queued split: if_splits)

lemma put_priority:
  "inv q \<Longrightarrow> queueable t \<Longrightarrow> \<exists>p' n r. spec (put t p ra reason q) t = Some (p', n, r) \<and> p' \<le> p
     \<and> (\<forall>p0 n0 r0. spec q t = Some (p0, n0, r0) \<longrightarrow> p' \<le> p0)"
  by (cases "spec q t") (auto simp: put_fresh put_queued)

lemma put_again: "inv q \<Longrightarrow> queueable t \<Longrightarrow>
    spec (put t p ra' reason' (put t p ra reason q)) = spec (put t p ra reason q)"
  using put_priority [of q t p ra reason] put_inv [of q t p ra reason]
  by (auto simp: put_queued)

lemma drop_put: "inv q \<Longrightarrow> queueable t \<Longrightarrow> spec (drop t (put t p ra reason q)) = (spec q)(t := None)"
  by (cases "spec q t") (auto simp: put_fresh put_queued drop_spec put_inv)

end

interpretation aq: request_queue aq_inv "\<lambda>t. \<not> is_pill t" spec_of aq_entry_count queue_put_nowait
  "\<lambda>t q. snd (aq_discard t q)"
  by unfold_locales (simp_all add: put_ok discard_ok put_spec_def split: option.split)

section \<open>Properties\<close>

lemma aq_inv_init [simp]: "aq_inv aq_init"
  by (simp add: aq_inv_defs aq_init_def wf_lookup_def item_of_def queue_of_def)

lemma entry_count_init [simp]: "aq_entry_count aq_init = 0"
  by (simp add: aq_init_def)

lemma spec_of_init [simp]: "spec_of aq_init t = None"
  by (simp add: spec_of_def item_of_def aq_init_def)

text \<open>
  C8: each task is queued at most once. Queueing a task that is not queued adds the request with
  the reserved insert order, or the next one; queueing it again changes nothing unless the
  priority is higher, and then replaces the request by one with a fresh insert order, whatever
  order was passed. No other task is affected, and the shared queue items stay consistent.
\<close>

theorem queue_put_keeps_best_request:
  assumes "aq_inv q" and "\<not> is_pill t"
  shows "aq_inv (queue_put_nowait t p requested_at reason q)
    \<and> spec_of (queue_put_nowait t p requested_at reason q) =
       (case spec_of q t of
          None \<Rightarrow> (spec_of q)(t \<mapsto> (p, (case requested_at of None \<Rightarrow> aq_entry_count q | Some k \<Rightarrow> k), reason))
        | Some (p0, n, r0) \<Rightarrow> if p0 \<le> p then spec_of q else (spec_of q)(t \<mapsto> (p, aq_entry_count q, reason)))"
  using aq.put_inv [OF assms] aq.put_fresh [OF assms] aq.put_queued [OF assms] by (auto split: option.split)

definition twice_queued :: agent_queues where
  "twice_queued = queue_put_nowait (Deploy ''t::A[g,k=1]'') USER_DEPLOY None (Some ''again'')
     (queue_put_nowait (Deploy ''t::A[g,k=1]'') INTERVAL_REPAIR None (Some ''first'') aq_init)"

theorem queue_put_keeps_best_request_witness:
  "spec_of twice_queued (Deploy ''t::A[g,k=1]'') = Some (USER_DEPLOY, 1, Some ''again'') \<and> aq_inv twice_queued"
proof -
  let ?t = "Deploy ''t::A[g,k=1]''"
  let ?q = "queue_put_nowait ?t INTERVAL_REPAIR None (Some ''first'') aq_init"
  have q: "aq_inv ?q" "spec_of ?q = [?t \<mapsto> (INTERVAL_REPAIR, 0, Some ''first'')]"
    using queue_put_keeps_best_request [OF aq_inv_init, of ?t INTERVAL_REPAIR None "Some ''first''"]
    by (simp_all add: fun_eq_iff)
  have "aq_entry_count ?q = 1" by code_simp
  then show ?thesis
    using queue_put_keeps_best_request [OF q(1), of ?t USER_DEPLOY None "Some ''again''"] q(2)
    by (simp add: twice_queued_def less_eq_task_priority_def)
qed

text \<open>
  C9: \<open>queue_get\<close> on an agent with a queue never raises. It waits only if no task of the agent
  is queued; otherwise it takes, apart from a poison pill, a queued task of this agent for which
  none of higher priority, and none of the same priority requested earlier, is queued, moves
  exactly this task out of the queued ones, and records it as in progress at its priority.
\<close>

theorem queue_get_takes_first:
  assumes "aq_inv q" and "has_key (aq_agent_queues q) ag"
  shows "\<exists>got q'. queue_get ag q = Inr (got, q') \<and> aq_inv q'
    \<and> (case got of
         None \<Rightarrow> spec_of q' = spec_of q \<and> (\<forall>t. task_agent t = ag \<longrightarrow> spec_of q t = None)
       | Some (t, reason) \<Rightarrow> spec_of q' = (spec_of q)(t := None) \<and> has_key (aq_in_progress q') t
           \<and> (is_pill t \<or> first_of_agent q ag t \<and> map_of (aq_in_progress q') t = map_option fst (spec_of q t)))"
  by (rule queue_get_ok [OF assms])

theorem queue_get_takes_first_witness:
  "\<exists>q'. queue_get ''g'' twice_queued = Inr (Some (Deploy ''t::A[g,k=1]'', Some ''again''), q')
     \<and> aq_inv q' \<and> spec_of q' (Deploy ''t::A[g,k=1]'') = None"
proof -
  have "aq_inv twice_queued" by (simp add: twice_queued_def put_ok)
  moreover have "has_key (aq_agent_queues twice_queued) ''g''" by code_simp
  moreover have "(case queue_get ''g'' twice_queued of Inr (Some (t, r), q') \<Rightarrow>
      t = Deploy ''t::A[g,k=1]'' \<and> r = Some ''again'' | _ \<Rightarrow> False)" by code_simp
  ultimately show ?thesis
    using queue_get_takes_first [of twice_queued "''g''"] by (auto split: sum.splits option.splits)
qed

end
