(* ===== verification/Scheduled_Work.thy ===== *)
theory Scheduled_Work
  imports Agent_Queues
begin

text \<open>
  \<open>ScheduledWork\<close> of \<open>src/src/inmanta/deploy/work.py\<close>: deploy tasks that wait for their
  requirements, on top of the agent queues. The live views on the requires and provides
  relations are functions that the operations get as arguments; \<open>reqs r\<close> and \<open>provs r\<close> stand
  for \<open>self.requires.get(r, ())\<close> and \<open>self.provides.get(r, ())\<close>.
\<close>

section \<open>State\<close>

record blocked_deploy =
  bd_task :: task
  bd_blocked_on :: "rid pyset"
  bd_priority :: task_priority
  bd_requested_at :: int
  bd_reason :: "string option"

record scheduled_work =
  sw_agent_queues :: agent_queues
  sw_waiting :: "(rid, blocked_deploy) dict"

definition sw_init :: scheduled_work where
  "sw_init = \<lparr>sw_agent_queues = aq_init, sw_waiting = []\<rparr>"

definition sw_reset :: "scheduled_work \<Rightarrow> scheduled_work" where
  "sw_reset w = \<lparr>sw_agent_queues = aq_reset (sw_agent_queues w), sw_waiting = []\<rparr>"

definition add_poison_pill_to_agent_queues :: "string \<Rightarrow> scheduled_work \<Rightarrow> scheduled_work" where
  "add_poison_pill_to_agent_queues reason w = w\<lparr>sw_agent_queues := send_shutdown reason (sw_agent_queues w)\<rparr>"

definition queue_if_ready :: "blocked_deploy \<Rightarrow> scheduled_work \<Rightarrow> scheduled_work result" where
  "queue_if_ready bd w =
     (if bd_blocked_on bd \<noteq> [] then Inr w
      else
        let w1 = w\<lparr>sw_agent_queues := queue_put_nowait (bd_task bd) (bd_priority bd) (Some (bd_requested_at bd))
                    (bd_reason bd) (sw_agent_queues w)\<rparr>;
            r = task_resource (bd_task bd)
        in if has_key (sw_waiting w1) r then Inr (w1\<lparr>sw_waiting := ddel (sw_waiting w1) r\<rparr>) else Inl KeyError)"

section \<open>\<open>deploy_with_context\<close>\<close>

text \<open>The local variables of the method that its nested functions share.\<close>

record deploy_context =
  dc_work :: scheduled_work
  dc_queued :: "rid pyset"
  dc_not_scheduled :: "rid pyset"
  dc_maybe_runnable :: "rid pyset"

definition dc_waiting :: "deploy_context \<Rightarrow> (rid, blocked_deploy) dict" where
  "dc_waiting c = sw_waiting (dc_work c)"

definition set_waiting :: "rid \<Rightarrow> blocked_deploy \<Rightarrow> deploy_context \<Rightarrow> deploy_context" where
  \<comment> \<open>\<open>self._waiting[r] = bd\<close>, also for the assignment to a field of \<open>self._waiting[r]\<close>\<close>
  "set_waiting r bd c = c\<lparr>dc_work := (dc_work c)\<lparr>sw_waiting := dset (sw_waiting (dc_work c)) r bd\<rparr>\<rparr>"

definition set_queues :: "agent_queues \<Rightarrow> deploy_context \<Rightarrow> deploy_context" where
  "set_queues q c = c\<lparr>dc_work := (dc_work c)\<lparr>sw_agent_queues := q\<rparr>\<rparr>"

definition dc_queues :: "deploy_context \<Rightarrow> agent_queues" where
  "dc_queues c = sw_agent_queues (dc_work c)"

definition drop_blockers :: "rid \<times> rid pyset \<Rightarrow> deploy_context \<Rightarrow> deploy_context" where
  \<comment> \<open>the body of the loop over \<open>dropped_requires\<close>\<close>
  "drop_blockers = (\<lambda>(r, dropped) c.
     if dropped = [] then c
     else case map_of (dc_waiting c) r of
            None \<Rightarrow> c
          | Some bd \<Rightarrow>
              let c1 = set_waiting r (bd\<lparr>bd_blocked_on := sdiff (bd_blocked_on bd) dropped\<rparr>) c
              in c1\<lparr>dc_maybe_runnable := sadd r (dc_maybe_runnable c1)\<rparr>)"

definition is_scheduled :: "rid \<Rightarrow> deploy_context \<Rightarrow> bool \<times> deploy_context" where
  "is_scheduled r c =
     (if has_key (dc_waiting c) r \<or> r \<in> set (dc_queued c) then (True, c)
      else if r \<in> set (dc_not_scheduled c) then (False, c)
      else if aq_contains (Deploy r) (dc_queues c) then (True, c\<lparr>dc_queued := sadd r (dc_queued c)\<rparr>)
      else (False, c\<lparr>dc_not_scheduled := sadd r (dc_not_scheduled c)\<rparr>))"

fun filter_scheduled :: "rid list \<Rightarrow> deploy_context \<Rightarrow> rid pyset \<times> deploy_context" where
  \<comment> \<open>a set comprehension with the filter \<open>is_scheduled\<close>\<close>
  "filter_scheduled [] c = ([], c)"
| "filter_scheduled (r # rs) c =
     (let (b, c1) = is_scheduled r c; (out, c2) = filter_scheduled rs c1
      in (if b then sadd r out else out, c2))"

definition extend_blocked_on :: "task_priority \<Rightarrow> rid \<Rightarrow> rid pyset \<Rightarrow> deploy_context \<Rightarrow> deploy_context result" where
  "extend_blocked_on priority r new_blockers c =
     (if new_blockers = [] then Inr c
      else
        let (b, c1) = is_scheduled r c
        in if \<not> b then Inr c1
           else if r \<in> set (dc_queued c1) then
             let (discarded, q1) = aq_discard (Deploy r) (dc_queues c1);
                 (new_priority, new_requested_at, new_reason, q2) =
                   (case discarded of
                      Some it \<Rightarrow> (qi_priority it, qi_requested_at it, qi_reason it, q1)
                    | None \<Rightarrow>
                        let (n, q2) = reserve_requested_at q1
                        in (dget (aq_in_progress q2) (Deploy r) priority, n,
                            Some ''rescheduling because a dependency was scheduled while it was deploying'', q2));
                 c2 = (set_queues q2 c1)\<lparr>dc_queued := sdiscard r (dc_queued c1)\<rparr>
             in Inr (set_waiting r \<lparr>bd_task = Deploy r, bd_blocked_on = new_blockers, bd_priority = new_priority,
                   bd_requested_at = new_requested_at, bd_reason = new_reason\<rparr> c2)
           else
             rbind (dlookup (dc_waiting c1) r) (\<lambda>bd.
               let c2 = set_waiting r (bd\<lparr>bd_blocked_on := sunion (bd_blocked_on bd) new_blockers\<rparr>) c1
               in Inr (c2\<lparr>dc_maybe_runnable := sdiscard r (dc_maybe_runnable c2)\<rparr>)))"

definition bump_scheduled :: "rid \<Rightarrow> string \<Rightarrow> task_priority \<Rightarrow> deploy_context \<Rightarrow> deploy_context" where
  \<comment> \<open>a requested resource that is scheduled already: only its priority may rise\<close>
  "bump_scheduled r reason priority c =
     (if aq_contains (Deploy r) (dc_queues c)
      then set_queues (queue_put_nowait (Deploy r) priority None (Some reason) (dc_queues c)) c
      else case map_of (dc_waiting c) r of
             None \<Rightarrow> c
           | Some bd \<Rightarrow>
               if priority < bd_priority bd then
                 let (n, q1) = reserve_requested_at (dc_queues c)
                 in set_waiting r (bd\<lparr>bd_priority := priority, bd_requested_at := n, bd_reason := Some reason\<rparr>)
                      (set_queues q1 c)
               else c)"

definition schedule_resource ::
  "(rid \<Rightarrow> rid pyset) \<Rightarrow> (rid \<Rightarrow> rid pyset) \<Rightarrow> string \<Rightarrow> task_priority \<Rightarrow> rid
    \<Rightarrow> deploy_context \<Rightarrow> deploy_context result" where
  \<comment> \<open>the body of the loop over \<open>resources\<close>\<close>
  "schedule_resource reqs provs reason priority r c =
     (let (b, c1) = is_scheduled r c
      in if b then Inr (bump_scheduled r reason priority c1)
         else
           let (blocked_on, c2) = filter_scheduled (reqs r) c1;
               (n, q) = reserve_requested_at (dc_queues c2);
               c3 = set_waiting r \<lparr>bd_task = Deploy r, bd_blocked_on = blocked_on, bd_priority = priority,
                      bd_requested_at = n, bd_reason = Some reason\<rparr> (set_queues q c2);
               c4 = c3\<lparr>dc_not_scheduled := sdiscard r (dc_not_scheduled c3)\<rparr>;
               c5 = (if blocked_on = [] then c4\<lparr>dc_maybe_runnable := sadd r (dc_maybe_runnable c4)\<rparr> else c4)
           in rfold (\<lambda>dependant. extend_blocked_on priority dependant [r]) (provs r) c5)"

definition add_required :: "task_priority \<Rightarrow> rid \<times> rid pyset \<Rightarrow> deploy_context \<Rightarrow> deploy_context result" where
  \<comment> \<open>the body of the loop over \<open>added_requires\<close>\<close>
  "add_required priority = (\<lambda>(r, new) c. let (blockers, c1) = filter_scheduled new c
     in extend_blocked_on priority r blockers c1)"

definition run_if_ready :: "rid \<Rightarrow> scheduled_work \<Rightarrow> scheduled_work result" where
  "run_if_ready r w = rbind (dlookup (sw_waiting w) r) (\<lambda>bd. queue_if_ready bd w)"

definition start_context :: "rid pyset \<Rightarrow> task_priority \<Rightarrow> rid pyset \<Rightarrow> bool \<Rightarrow> scheduled_work \<Rightarrow> deploy_context" where
  "start_context resources priority running force_deploy w =
     \<lparr>dc_work = w\<lparr>sw_agent_queues := bump_in_progress_priorities (sinter resources running) priority (sw_agent_queues w)\<rparr>,
      dc_queued = (if force_deploy then sdiff running resources else running),
      dc_not_scheduled = [], dc_maybe_runnable = []\<rparr>"

definition deploy_with_context ::
  "(rid \<Rightarrow> rid pyset) \<Rightarrow> (rid \<Rightarrow> rid pyset) \<Rightarrow> rid pyset \<Rightarrow> string \<Rightarrow> task_priority \<Rightarrow> rid pyset
    \<Rightarrow> (rid, rid pyset) dict \<Rightarrow> (rid, rid pyset) dict \<Rightarrow> bool \<Rightarrow> scheduled_work \<Rightarrow> scheduled_work result" where
  "deploy_with_context reqs provs resources reason priority running added dropped force_deploy w =
     rbind (rfold (schedule_resource reqs provs reason priority) resources
             (fold drop_blockers dropped (start_context resources priority running force_deploy w))) (\<lambda>c1.
     rbind (rfold (add_required priority) added c1) (\<lambda>c2.
       rfold run_if_ready (dc_maybe_runnable c2) (dc_work c2)))"

section \<open>The other operations\<close>

definition sw_delete_resource :: "rid \<Rightarrow> scheduled_work \<Rightarrow> scheduled_work" where
  "sw_delete_resource r w =
     (let w1 = (if has_key (sw_waiting w) r then w\<lparr>sw_waiting := ddel (sw_waiting w) r\<rparr> else w)
      in w1\<lparr>sw_agent_queues :=
           fold (\<lambda>t q. if delete_with_resource t then snd (aq_discard t q) else q)
             (get_tasks_for_resource r (sw_agent_queues w1)) (sw_agent_queues w1)\<rparr>)"

definition unblock_dependant :: "rid \<Rightarrow> rid \<Rightarrow> scheduled_work \<Rightarrow> scheduled_work result" where
  \<comment> \<open>the body of the loop of \<open>finished_deploy\<close>\<close>
  "unblock_dependant r dependant w =
     (case map_of (sw_waiting w) dependant of
        None \<Rightarrow> Inr w
      | Some bd \<Rightarrow>
          let bd1 = bd\<lparr>bd_blocked_on := sdiscard r (bd_blocked_on bd)\<rparr>
          in queue_if_ready bd1 (w\<lparr>sw_waiting := dset (sw_waiting w) dependant bd1\<rparr>))"

definition finished_deploy :: "(rid \<Rightarrow> rid pyset) \<Rightarrow> rid \<Rightarrow> scheduled_work \<Rightarrow> scheduled_work result" where
  "finished_deploy provs r w =
     (if has_key (sw_waiting w) r \<or> aq_contains (Deploy r) (sw_agent_queues w) then Inr w
      else rfold (unblock_dependant r) (provs r) w)"

section \<open>Views on the local state\<close>

definition wait :: "deploy_context \<Rightarrow> rid \<Rightarrow> blocked_deploy option" where
  "wait c r = map_of (dc_waiting c) r"

definition qd :: "deploy_context \<Rightarrow> rid \<Rightarrow> bool" where
  "qd c r \<longleftrightarrow> spec_of (dc_queues c) (Deploy r) \<noteq> None"

definition cached :: "deploy_context \<Rightarrow> rid \<Rightarrow> bool" where
  "cached c r \<longleftrightarrow> r \<in> set (dc_queued c)"

definition sched :: "deploy_context \<Rightarrow> rid \<Rightarrow> bool" where
  \<comment> \<open>scheduled, or among the deploys in progress that count as such\<close>
  "sched c r \<longleftrightarrow> wait c r \<noteq> None \<or> cached c r \<or> qd c r"

definition blk :: "deploy_context \<Rightarrow> rid \<Rightarrow> rid set" where
  "blk c r = (case wait c r of None \<Rightarrow> {} | Some bd \<Rightarrow> set (bd_blocked_on bd))"

definition ctx_ok :: "deploy_context \<Rightarrow> bool" where
  "ctx_ok c \<longleftrightarrow> aq_inv (dc_queues c)
     \<and> (\<forall>r bd. wait c r = Some bd \<longrightarrow> bd_task bd = Deploy r \<and> \<not> qd c r \<and> (bd_blocked_on bd = [] \<longrightarrow> r \<in> set (dc_maybe_runnable c)))
     \<and> (\<forall>r \<in> set (dc_not_scheduled c). \<not> sched c r)
     \<and> distinct (dc_maybe_runnable c) \<and> (\<forall>r \<in> set (dc_maybe_runnable c). wait c r \<noteq> None)"

text \<open>Only caches may differ.\<close>

definition refined :: "deploy_context \<Rightarrow> deploy_context \<Rightarrow> bool" where
  "refined c c' \<longleftrightarrow> dc_work c' = dc_work c \<and> dc_maybe_runnable c' = dc_maybe_runnable c
     \<and> (\<forall>x. cached c x \<longrightarrow> cached c' x) \<and> (\<forall>x. cached c' x \<longrightarrow> cached c x \<or> qd c x \<and> wait c x = None)
     \<and> (ctx_ok c \<longrightarrow> ctx_ok c')"

lemma refined_work:
  assumes "dc_work c' = dc_work c"
  shows "wait c' = wait c" "qd c' = qd c" "blk c' = blk c" "dc_queues c' = dc_queues c" "dc_waiting c' = dc_waiting c"
  using assms by (simp_all add: fun_eq_iff wait_def qd_def blk_def dc_waiting_def dc_queues_def)

lemma refinedD:
  assumes "refined c c'"
  shows "wait c' = wait c" "qd c' = qd c" "blk c' = blk c" "sched c' = sched c" "dc_work c' = dc_work c"
    "dc_maybe_runnable c' = dc_maybe_runnable c" "ctx_ok c \<Longrightarrow> ctx_ok c'" "dc_queues c' = dc_queues c"
    "cached c x \<Longrightarrow> cached c' x" "cached c' x \<Longrightarrow> cached c x \<or> qd c x \<and> wait c x = None"
proof -
  have w: "dc_work c' = dc_work c" using assms by (simp add: refined_def)
  show "wait c' = wait c" "qd c' = qd c" "blk c' = blk c" "dc_queues c' = dc_queues c" using refined_work [OF w] by auto
  then show "sched c' = sched c" using assms by (auto simp: fun_eq_iff sched_def refined_def)
qed (use assms in \<open>auto simp: refined_def\<close>)

lemma refined_refl [simp]: "refined c c"
  by (simp add: refined_def)

lemma refined_trans: "refined c c' \<Longrightarrow> refined c' c'' \<Longrightarrow> refined c c''"
  unfolding refined_def using refined_work [of c' c] by metis

lemma is_scheduled_ok:
  assumes "ctx_ok c"
  shows "fst (is_scheduled r c) = sched c r" "refined c (snd (is_scheduled r c))"
    "sched c r \<Longrightarrow> cached (snd (is_scheduled r c)) r \<longleftrightarrow> cached c r \<or> wait c r = None"
proof -
  have hk: "has_key (dc_waiting c) r \<longleftrightarrow> wait c r \<noteq> None" by (simp add: has_key_def wait_def)
  have aq: "aq_contains (Deploy r) (dc_queues c) \<longleftrightarrow> qd c r" by (simp add: aq_contains_iff qd_def)
  have cq: "cached (c\<lparr>dc_queued := x\<rparr>) y \<longleftrightarrow> y \<in> set x" "cached (c\<lparr>dc_not_scheduled := x'\<rparr>) y = cached c y" for x x' y
    by (simp_all add: cached_def)
  note w1 = refined_work [of "c\<lparr>dc_queued := x\<rparr>" c for x] and w2 = refined_work [of "c\<lparr>dc_not_scheduled := x\<rparr>" c for x]
  show "fst (is_scheduled r c) = sched c r"
    using assms by (auto simp: is_scheduled_def hk aq sched_def cached_def ctx_ok_def)
  have s1: "sched (c\<lparr>dc_queued := sadd r (dc_queued c)\<rparr>) x \<longleftrightarrow> sched c x" if "qd c r" for x
    using that by (auto simp: sched_def cq w1 cached_def)
  have s2: "sched (c\<lparr>dc_not_scheduled := x\<rparr>) y = sched c y" for x y by (simp add: sched_def cq w2)
  show "refined c (snd (is_scheduled r c))"
    using assms by (auto simp: is_scheduled_def hk aq refined_def ctx_ok_def s1 s2 cq w1 w2 cached_def) (auto simp: sched_def cached_def)
  show "sched c r \<Longrightarrow> cached (snd (is_scheduled r c)) r \<longleftrightarrow> cached c r \<or> wait c r = None"
    using assms by (auto simp: is_scheduled_def hk aq cached_def ctx_ok_def sched_def)
qed

lemma filter_scheduled_ok:
  assumes "ctx_ok c"
  shows "set (fst (filter_scheduled rs c)) = {r \<in> set rs. sched c r}" "distinct (fst (filter_scheduled rs c))"
    "refined c (snd (filter_scheduled rs c))"
proof -
  have "set (fst (filter_scheduled rs c)) = {r \<in> set rs. sched c r} \<and> distinct (fst (filter_scheduled rs c))
    \<and> refined c (snd (filter_scheduled rs c))"
    using assms
  proof (induction rs arbitrary: c)
    case (Cons r rs)
    obtain b c1 where b: "is_scheduled r c = (b, c1)" by (cases "is_scheduled r c")
    then have r: "b = sched c r" "refined c c1" using is_scheduled_ok [OF Cons.prems, of r] by auto
    from Cons.IH [of c1] refinedD(4,7) [OF r(2)] Cons.prems show ?case
      using b r refined_trans by (auto simp: split_beta Let_def)
  qed simp
  then show "set (fst (filter_scheduled rs c)) = {r \<in> set rs. sched c r}" "distinct (fst (filter_scheduled rs c))"
    "refined c (snd (filter_scheduled rs c))" by auto
qed

section \<open>Effect of the nested functions\<close>

lemma view_ops [simp]:
  "wait (set_waiting r bd c) = (wait c)(r \<mapsto> bd)" "qd (set_waiting r bd c) = qd c"
  "cached (set_waiting r bd c) = cached c" "dc_queues (set_waiting r bd c) = dc_queues c"
  "wait (set_queues q c) = wait c" "cached (set_queues q c) = cached c" "dc_queues (set_queues q c) = q"
  "wait (c\<lparr>dc_queued := a\<rparr>) = wait c" "wait (c\<lparr>dc_not_scheduled := a\<rparr>) = wait c"
  "wait (c\<lparr>dc_maybe_runnable := a\<rparr>) = wait c"
  "dc_queues (c\<lparr>dc_queued := a\<rparr>) = dc_queues c" "dc_queues (c\<lparr>dc_not_scheduled := a\<rparr>) = dc_queues c"
  "dc_queues (c\<lparr>dc_maybe_runnable := a\<rparr>) = dc_queues c"
  "cached (c\<lparr>dc_not_scheduled := a\<rparr>) = cached c" "cached (c\<lparr>dc_maybe_runnable := a\<rparr>) = cached c"
  "cached (c\<lparr>dc_queued := a\<rparr>) x \<longleftrightarrow> x \<in> set a"
  "qd (c\<lparr>dc_queued := a\<rparr>) = qd c" "qd (c\<lparr>dc_not_scheduled := a\<rparr>) = qd c" "qd (c\<lparr>dc_maybe_runnable := a\<rparr>) = qd c"
  by (simp_all add: fun_eq_iff wait_def qd_def cached_def dc_waiting_def dc_queues_def set_waiting_def set_queues_def)

lemma ctx_fields [simp]:
  "dc_maybe_runnable (set_waiting r bd c) = dc_maybe_runnable c" "dc_not_scheduled (set_waiting r bd c) = dc_not_scheduled c"
  "dc_maybe_runnable (set_queues q c) = dc_maybe_runnable c" "dc_not_scheduled (set_queues q c) = dc_not_scheduled c"
  "dc_queued (set_waiting r bd c) = dc_queued c" "dc_queued (set_queues q c) = dc_queued c"
  by (simp_all add: set_waiting_def set_queues_def)

lemma qd_set_queues [simp]: "qd (set_queues q c) r \<longleftrightarrow> spec_of q (Deploy r) \<noteq> None"
  by (simp add: qd_def)

lemma dc_waiting_wait: "map_of (dc_waiting c) r = wait c r"
  by (simp add: wait_def)

lemma reserve_spec [simp]: "spec_of (snd (reserve_requested_at q)) = spec_of q"
  "aq_inv (snd (reserve_requested_at q)) = aq_inv q"
  by (simp_all add: reserve_requested_at_def aq_inv_def)

lemma extend_blocked_on_waiting:
  assumes ok: "ctx_ok c" and s: "sched c r" and B: "B \<noteq> []"
    and w: "wait c r = Some bd" "\<not> cached c r"
  shows "\<exists>c'. extend_blocked_on p r B c = Inr c' \<and> ctx_ok c' \<and> cached c' = cached c
    \<and> wait c' = (wait c)(r \<mapsto> bd\<lparr>bd_blocked_on := sunion (bd_blocked_on bd) B\<rparr>) \<and> qd c' = qd c"
proof -
  obtain c1 where c1: "is_scheduled r c = (True, c1)" using is_scheduled_ok(1) [OF ok, of r] s
    by (cases "is_scheduled r c") auto
  have "is_scheduled r c = (True, c)" using w by (simp add: is_scheduled_def has_key_def dc_waiting_wait)
  then have e: "c1 = c" using c1 by simp
  let ?c = "set_waiting r (bd\<lparr>bd_blocked_on := sunion (bd_blocked_on bd) B\<rparr>) c"
  let ?c' = "?c\<lparr>dc_maybe_runnable := sdiscard r (dc_maybe_runnable ?c)\<rparr>"
  have "extend_blocked_on p r B c = Inr ?c'"
    using c1 e w B by (simp add: extend_blocked_on_def cached_def dc_waiting_wait dlookup_def)
  moreover have "sunion (bd_blocked_on bd) B \<noteq> []" using B by (metis Un_empty set_empty set_sunion)
  then have "ctx_ok ?c'" using ok w by (auto simp: ctx_ok_def sched_def)
  ultimately show ?thesis by (intro exI [of _ ?c'] conjI) simp_all
qed

lemma extend_blocked_on_queued:
  assumes ok: "ctx_ok c" and s: "sched c r" and B: "B \<noteq> []" and w: "wait c r = None \<or> cached c r"
  shows "\<exists>c' bd. extend_blocked_on p r B c = Inr c' \<and> ctx_ok c'
    \<and> (\<forall>x. cached c' x = (cached c x \<and> x \<noteq> r)) \<and> (\<forall>x. qd c' x = (qd c x \<and> x \<noteq> r))
    \<and> bd_blocked_on bd = B \<and> wait c' = (wait c)(r \<mapsto> bd)"
proof -
  obtain c1 where c1: "is_scheduled r c = (True, c1)" using is_scheduled_ok(1) [OF ok, of r] s
    by (cases "is_scheduled r c") auto
  have ref: "refined c c1" and cr: "cached c1 r" using is_scheduled_ok(2,3) [OF ok, of r] c1 s w by auto
  note rd = refinedD [OF ref]
  have cx: "x \<noteq> r \<Longrightarrow> cached c1 x = cached c x" for x
    using c1 by (auto simp: is_scheduled_def cached_def split: if_splits)
  obtain d q1 where dq: "aq_discard (Deploy r) (dc_queues c1) = (d, q1)" by (metis surj_pair)
  have ok1: "ctx_ok c1" using rd(7) ok by blast
  then have inv: "aq_inv (dc_queues c1)" by (simp add: ctx_ok_def)
  have q1: "aq_inv q1" "spec_of q1 = (spec_of (dc_queues c1))(Deploy r := None)"
    using discard_ok(1,2) [OF inv, of "Deploy r"] dq by auto
  obtain bd q2 where q2: "extend_blocked_on p r B c =
      Inr (set_waiting r bd ((set_queues q2 c1)\<lparr>dc_queued := sdiscard r (dc_queued c1)\<rparr>))"
    "bd_task bd = Deploy r" "bd_blocked_on bd = B" "aq_inv q2" "spec_of q2 = spec_of q1"
  proof (cases d)
    case (Some it)
    show ?thesis
      by (rule that [of "\<lparr>bd_task = Deploy r, bd_blocked_on = B, bd_priority = qi_priority it,
          bd_requested_at = qi_requested_at it, bd_reason = qi_reason it\<rparr>" q1]) (use c1 cr B dq Some q1 in \<open>simp_all add: extend_blocked_on_def cached_def\<close>)
  next
    case None
    obtain n q2 where n: "reserve_requested_at q1 = (n, q2)" by (metis surj_pair)
    then have "aq_inv q2" "spec_of q2 = spec_of q1" using reserve_spec [of q1] q1(1) by auto
    then show ?thesis
      by (intro that [of "\<lparr>bd_task = Deploy r, bd_blocked_on = B,
          bd_priority = dget (aq_in_progress q2) (Deploy r) p, bd_requested_at = n,
          bd_reason = Some ''rescheduling because a dependency was scheduled while it was deploying''\<rparr>" q2]) (use c1 cr B dq None n in \<open>simp_all add: extend_blocked_on_def cached_def\<close>)
  qed
  let ?c' = "set_waiting r bd ((set_queues q2 c1)\<lparr>dc_queued := sdiscard r (dc_queued c1)\<rparr>)"
  have qd': "qd ?c' x = (qd c x \<and> x \<noteq> r)" for x
    using q2(5) q1(2) rd(8) by (auto simp: qd_def)
  have cached': "cached ?c' x = (cached c x \<and> x \<noteq> r)" for x
    using cx [of x] by (auto simp: cached_def)
  have "ctx_ok ?c'"
    using ok1 q2(2,3,4) s rd(4) B qd' cached' rd(1,2)
    by (auto simp: ctx_ok_def sched_def simp del: qd_set_queues)
  then show ?thesis using q2(1,3) qd' cached' rd(1) by auto
qed

lemma extend_ok:
  assumes ok: "ctx_ok c"
  shows "\<exists>c'. extend_blocked_on p r B c = Inr c' \<and> ctx_ok c' \<and> sched c' = sched c
    \<and> (\<forall>x. x \<noteq> r \<longrightarrow> wait c' x = wait c x \<and> qd c' x = qd c x)
    \<and> (\<forall>x. cached c' x \<longrightarrow> cached c x \<or> qd c' x \<and> wait c' x = None)
    \<and> (\<forall>x. cached c x \<longrightarrow> cached c' x \<or> wait c' x \<noteq> None)
    \<and> (if B = [] \<or> \<not> sched c r then wait c' = wait c \<and> qd c' = qd c
       else wait c' r \<noteq> None \<and> \<not> cached c' r \<and> \<not> qd c' r
         \<and> blk c' r = (if cached c r then set B else blk c r \<union> set B))"
proof -
  obtain b c1 where c1: "is_scheduled r c = (b, c1)" by (metis surj_pair)
  note i = is_scheduled_ok [OF ok, of r, unfolded c1, simplified]
  note rd = refinedD [OF i(2)]
  consider "B = []" | "B \<noteq> []" "\<not> sched c r" | "B \<noteq> []" "sched c r" "wait c r = None \<or> cached c r"
    | bd where "B \<noteq> []" "sched c r" "wait c r = Some bd" "\<not> cached c r"
    by (metis not_None_eq)
  then show ?thesis
  proof cases
    case 1
    then show ?thesis using ok by (simp add: extend_blocked_on_def)
  next
    case 2
    then have "extend_blocked_on p r B c = Inr c1" using c1 i(1) by (simp add: extend_blocked_on_def)
    then show ?thesis using 2(2) rd(7) [OF ok] rd(9,10)
      by (intro exI [of _ c1] conjI) (auto simp: rd(1,2,4))
  next
    case 3
    obtain c' bd where c': "extend_blocked_on p r B c = Inr c'" "ctx_ok c'"
      "\<And>x. cached c' x = (cached c x \<and> x \<noteq> r)" "\<And>x. qd c' x = (qd c x \<and> x \<noteq> r)"
      "bd_blocked_on bd = B" "wait c' = (wait c)(r \<mapsto> bd)"
      using extend_blocked_on_queued [OF ok 3(2,1,3)] by blast
    have "sched c' = sched c" using c' 3(2) by (auto simp: fun_eq_iff sched_def)
    then show ?thesis using c' 3 by (intro exI [of _ c']) (auto simp: blk_def)
  next
    case 4
    obtain c' where c': "extend_blocked_on p r B c = Inr c'" "ctx_ok c'" "cached c' = cached c"
      "wait c' = (wait c)(r \<mapsto> bd\<lparr>bd_blocked_on := sunion (bd_blocked_on bd) B\<rparr>)" "qd c' = qd c"
      using extend_blocked_on_waiting [OF ok 4(2,1,3,4)] by blast
    have "\<not> qd c r" using ok 4(3) by (auto simp: ctx_ok_def)
    moreover have "sched c' = sched c" using c' 4(3) by (auto simp: fun_eq_iff sched_def)
    ultimately show ?thesis using c' 4 by (intro exI [of _ c']) (auto simp: blk_def)
  qed
qed

text \<open>
  What the loops maintain. \<open>D\<close>: the deploys in progress that count as scheduled; \<open>R\<close>: the
  resources that are being deployed; \<open>E\<close>: the edges \<open>(r, x)\<close>, \<open>r\<close> requiring \<open>x\<close>, that are
  enforced so far. The order is only tracked when \<open>b\<close> holds: it is not known of a deploy in
  progress that was rescheduled already that it waits for all that it should. That nothing waits without a reason is tracked when \<open>j\<close> holds.
\<close>

definition cache_ok :: "rid set \<Rightarrow> deploy_context \<Rightarrow> bool" where
  "cache_ok D c \<longleftrightarrow> (\<forall>x. cached c x \<longrightarrow> x \<in> D \<or> qd c x) \<and> (\<forall>x \<in> D. wait c x \<noteq> None \<or> cached c x)"

definition disj :: "deploy_context \<Rightarrow> bool" where
  "disj c \<longleftrightarrow> (\<forall>x. cached c x \<longrightarrow> wait c x = None)"

definition ord :: "(rid \<times> rid) set \<Rightarrow> deploy_context \<Rightarrow> bool" where
  "ord E c \<longleftrightarrow> (\<forall>r x. (r, x) \<in> E \<longrightarrow> sched c x \<longrightarrow> sched c r \<longrightarrow> x \<in> blk c r)"

definition justified :: "rid set \<Rightarrow> (rid \<Rightarrow> rid pyset) \<Rightarrow> deploy_context \<Rightarrow> bool" where
  "justified R reqs c \<longleftrightarrow> (\<forall>r x. x \<in> blk c r \<longrightarrow> x \<in> set (reqs r) \<and> (sched c x \<or> x \<in> R))"

definition ctx_inv :: "bool \<Rightarrow> bool \<Rightarrow> rid set \<Rightarrow> rid set \<Rightarrow> (rid \<Rightarrow> rid pyset) \<Rightarrow> (rid \<times> rid) set \<Rightarrow> deploy_context \<Rightarrow> bool" where
  "ctx_inv b j D R reqs E c \<longleftrightarrow> ctx_ok c \<and> cache_ok D c \<and> (b \<longrightarrow> disj c \<and> ord E c) \<and> (j \<longrightarrow> justified R reqs c)"

lemma refined_inv:
  assumes "ctx_inv b j D R reqs E c" "refined c c'"
  shows "ctx_inv b j D R reqs E c'"
proof -
  note rd = refinedD(1-8) [OF assms(2)] and up = refinedD(9) [OF assms(2)] and down = refinedD(10) [OF assms(2)]
  have "ctx_ok c'" using assms(1) rd(7) by (simp add: ctx_inv_def)
  moreover have "cache_ok D c'" using assms(1) up down by (auto simp: ctx_inv_def cache_ok_def rd(1,2))
  moreover have "b \<longrightarrow> disj c'" using assms(1) down by (auto simp: ctx_inv_def disj_def rd(1))
  moreover have "b \<longrightarrow> ord E c'" "j \<longrightarrow> justified R reqs c'"
    using assms(1) by (simp_all add: ctx_inv_def ord_def justified_def rd(3,4))
  ultimately show ?thesis by (simp add: ctx_inv_def)
qed

lemma extend_inv:
  assumes inv: "ctx_inv b j D R reqs E c" and B: "\<And>x. x \<in> set B \<Longrightarrow> x \<in> set (reqs r) \<and> sched c x"
  shows "\<exists>c'. extend_blocked_on p r B c = Inr c' \<and> ctx_inv b j D R reqs (E \<union> {r} \<times> set B) c' \<and> sched c' = sched c"
proof -
  have ok: "ctx_ok c" and ca: "cache_ok D c" and dj: "b \<Longrightarrow> disj c" and od: "b \<Longrightarrow> ord E c"
    and ju: "j \<Longrightarrow> justified R reqs c"
    using inv by (simp_all add: ctx_inv_def)
  obtain c' where c': "extend_blocked_on p r B c = Inr c'" "ctx_ok c'" "sched c' = sched c"
    "\<And>x. x \<noteq> r \<Longrightarrow> wait c' x = wait c x" "\<And>x. x \<noteq> r \<Longrightarrow> qd c' x = qd c x"
    "\<And>x. cached c' x \<Longrightarrow> cached c x \<or> qd c' x \<and> wait c' x = None"
    "\<And>x. cached c x \<Longrightarrow> cached c' x \<or> wait c' x \<noteq> None"
    "if B = [] \<or> \<not> sched c r then wait c' = wait c \<and> qd c' = qd c
       else wait c' r \<noteq> None \<and> \<not> cached c' r \<and> \<not> qd c' r
         \<and> blk c' r = (if cached c r then set B else blk c r \<union> set B)"
    using extend_ok [OF ok, of p r B] by blast
  have none: "b \<Longrightarrow> cached c r \<Longrightarrow> blk c r = {}" using dj by (simp add: disj_def blk_def)
  have blk: "b \<Longrightarrow> blk c' x = (if x = r \<and> sched c r then blk c r \<union> set B else blk c x)" for x
    using c'(4) [of x] c'(8) none by (cases "x = r") (auto simp: blk_def split: if_splits)
  have blk_sub: "blk c' x \<subseteq> blk c x \<union> (if x = r then set B else {})" for x
    using c'(4) [of x] c'(8) by (cases "x = r") (auto simp: blk_def split: if_splits)
  have "cache_ok D c'"
    unfolding cache_ok_def
  proof (intro conjI allI impI ballI)
    fix x assume x: "cached c' x"
    show "x \<in> D \<or> qd c' x"
      using c'(5) [of x] c'(6) [OF x] c'(8) x ca by (cases "x = r") (auto simp: cache_ok_def split: if_splits)
  next
    fix x assume "x \<in> D"
    then show "wait c' x \<noteq> None \<or> cached c' x"
      using ca c'(4) [of x] c'(7) [of x] c'(8) by (cases "x = r") (auto simp: cache_ok_def split: if_splits)
  qed
  moreover have "b \<longrightarrow> disj c'"
    unfolding disj_def
  proof (intro allI impI)
    fix x assume b: b and x: "cached c' x"
    show "wait c' x = None"
      using c'(4) [of x] c'(6) [OF x] c'(8) x dj [OF b] by (cases "x = r") (auto simp: disj_def split: if_splits)
  qed
  moreover have "b \<longrightarrow> ord (E \<union> {r} \<times> set B) c'" using od by (auto simp: ord_def blk c'(3))
  moreover have "j \<longrightarrow> justified R reqs c'" using ju B unfolding justified_def c'(3) by (auto dest!: subsetD [OF blk_sub] split: if_splits)
  ultimately show ?thesis using c'(1-3) by (auto simp: ctx_inv_def)
qed

lemma extend_all_inv:
  assumes "ctx_inv b j D R reqs E c" "sched c r" "\<And>y. y \<in> set ys \<Longrightarrow> r \<in> set (reqs y)"
  shows "\<exists>c'. rfold (\<lambda>y. extend_blocked_on p y [r]) ys c = Inr c'
    \<and> ctx_inv b j D R reqs (E \<union> set ys \<times> {r}) c' \<and> sched c' = sched c"
  using assms
proof (induction ys arbitrary: c E)
  case (Cons y ys)
  obtain c1 where c1: "extend_blocked_on p y [r] c = Inr c1" "ctx_inv b j D R reqs (E \<union> {y} \<times> {r}) c1" "sched c1 = sched c"
    using extend_inv [OF Cons.prems(1), of "[r]" y p] Cons.prems(2,3) by auto
  have "sched c1 r" "\<And>y. y \<in> set ys \<Longrightarrow> r \<in> set (reqs y)" using Cons.prems c1(3) by auto
  from Cons.IH [OF c1(2) this] c1(1,3) show ?case
    by (auto simp: insert_Times_insert Un_commute Un_assoc Un_insert_left [symmetric] simp del: Un_insert_left)
qed auto

section \<open>Effect of the loops\<close>

lemma set_waiting_new_inv:
  assumes inv: "ctx_inv b j D R reqs E c" and new: "\<not> sched c r"
    and bd: "bd_task bd = Deploy r" "set (bd_blocked_on bd) = {x \<in> set (reqs r). sched c x}"
    and q: "aq_inv q" "spec_of q = spec_of (dc_queues c)"
    and c': "c' = set_waiting r bd (set_queues q c)"
    and c'': "c'' = (c'\<lparr>dc_not_scheduled := sdiscard r (dc_not_scheduled c')\<rparr>)
      \<lparr>dc_maybe_runnable := (if bd_blocked_on bd = [] then sadd r (dc_maybe_runnable c') else dc_maybe_runnable c')\<rparr>"
    and E: "E \<subseteq> {(y, x). x \<in> set (reqs y)}"
  shows "ctx_inv b j D R reqs (E - UNIV \<times> {r}) c''" "sched c'' x \<longleftrightarrow> x = r \<or> sched c x"
proof -
  have w: "wait c'' = (wait c)(r \<mapsto> bd)" "cached c'' = cached c" "qd c'' = qd c"
    using q(2) by (auto simp: c' c'' fun_eq_iff qd_def)
  show s: "sched c'' x \<longleftrightarrow> x = r \<or> sched c x" for x by (auto simp: sched_def w)
  have blk: "blk c'' x = (if x = r then {x \<in> set (reqs r). sched c x} else blk c x)" for x
    using bd(2) by (simp add: blk_def w)
  have nr: "wait c r = None" "\<not> qd c r" "\<not> cached c r" using new by (auto simp: sched_def)
  have "ctx_ok c''"
  proof -
    have ok: "ctx_ok c" using inv by (simp add: ctx_inv_def)
    have "aq_inv (dc_queues c'')" using q(1) by (simp add: c' c'')
    moreover have "r' \<in> set (dc_maybe_runnable c'') \<longleftrightarrow> r' \<in> set (dc_maybe_runnable c) \<or> r' = r \<and> bd_blocked_on bd = []" for r'
      by (auto simp: c' c'')
    moreover have "distinct (dc_maybe_runnable c'')" using ok by (simp add: c' c'' ctx_ok_def)
    moreover have "set (dc_not_scheduled c'') = set (dc_not_scheduled c) - {r}" by (simp add: c' c'')
    ultimately show ?thesis using ok bd(1) nr by (auto simp: ctx_ok_def w s)
  qed
  moreover have "cache_ok D c''" using inv by (auto simp: ctx_inv_def cache_ok_def w)
  moreover have "b \<longrightarrow> disj c''" using inv nr by (auto simp: ctx_inv_def disj_def w)
  moreover have "b \<longrightarrow> ord (E - UNIV \<times> {r}) c''"
    using inv E by (auto simp: ctx_inv_def ord_def s blk)
  moreover have "j \<longrightarrow> justified R reqs c''" using inv by (auto simp: ctx_inv_def justified_def s blk)
  ultimately show "ctx_inv b j D R reqs (E - UNIV \<times> {r}) c''" by (simp add: ctx_inv_def)
qed

lemma bump_scheduled_inv:
  assumes inv: "ctx_inv b j D R reqs E c"
  shows "ctx_inv b j D R reqs E (bump_scheduled r reason p c)" "sched (bump_scheduled r reason p c) = sched c"
proof -
  have q: "aq_inv (dc_queues c)" using inv by (simp add: ctx_inv_def ctx_ok_def)
  let ?c' = "bump_scheduled r reason p c"
  have v: "qd ?c' = qd c \<and> cached ?c' = cached c \<and> blk ?c' = blk c \<and> ctx_ok ?c' \<and> (\<forall>x. wait ?c' x = None \<longleftrightarrow> wait c x = None)"
  proof (cases "aq_contains (Deploy r) (dc_queues c)")
    case True
    let ?q = "queue_put_nowait (Deploy r) p None (Some reason) (dc_queues c)"
    have "aq_inv ?q" "dom (spec_of ?q) = dom (spec_of (dc_queues c))"
      using aq.put_inv [OF q] aq.put_dom [OF q] True by (auto simp: aq_contains_iff)
    then have "aq_inv ?q" "spec_of ?q t \<noteq> None \<longleftrightarrow> spec_of (dc_queues c) t \<noteq> None" for t
      by (simp, metis domIff)
    then show ?thesis using True inv
      by (auto simp: bump_scheduled_def fun_eq_iff blk_def ctx_inv_def ctx_ok_def sched_def qd_def)
  next
    case False
    show ?thesis
    proof (cases "wait c r")
      case None
      then show ?thesis using False inv by (simp add: bump_scheduled_def dc_waiting_wait ctx_inv_def)
    next
      case (Some bd)
      obtain n q1 where n: "reserve_requested_at (dc_queues c) = (n, q1)" by (metis surj_pair)
      then have q1: "aq_inv q1" "spec_of q1 = spec_of (dc_queues c)" using reserve_spec [of "dc_queues c"] q by auto
      show ?thesis using False Some n q1 inv
        by (auto simp: bump_scheduled_def dc_waiting_wait fun_eq_iff blk_def ctx_inv_def ctx_ok_def sched_def qd_def)
    qed
  qed
  then show "sched ?c' = sched c" by (auto simp: fun_eq_iff sched_def)
  with v show "ctx_inv b j D R reqs E ?c'"
    using inv by (auto simp: ctx_inv_def cache_ok_def disj_def ord_def justified_def)
qed

lemma schedule_resource_inv:
  assumes inv: "ctx_inv b j D R reqs E c" and E: "E \<subseteq> {(y, x). x \<in> set (reqs y)}"
    and rel: "\<And>y. r \<in> set (reqs y) \<longleftrightarrow> y \<in> set (provs r)"
  shows "\<exists>c'. schedule_resource reqs provs reason p r c = Inr c' \<and> ctx_inv b j D R reqs E c'
    \<and> (\<forall>x. sched c' x \<longleftrightarrow> x = r \<or> sched c x)"
proof -
  have ok: "ctx_ok c" using inv by (simp add: ctx_inv_def)
  obtain d c1 where c1: "is_scheduled r c = (d, c1)" by (metis surj_pair)
  have d: "d = sched c r" and ref: "refined c c1" using is_scheduled_ok [OF ok, of r] c1 by auto
  have inv1: "ctx_inv b j D R reqs E c1" using refined_inv [OF inv ref] .
  show ?thesis
  proof (cases d)
    case True
    then have "schedule_resource reqs provs reason p r c = Inr (bump_scheduled r reason p c1)"
      using c1 by (simp add: schedule_resource_def)
    then show ?thesis using bump_scheduled_inv [OF inv1] refinedD(4) [OF ref] d True by auto
  next
    case False
    obtain bl c2 where c2: "filter_scheduled (reqs r) c1 = (bl, c2)" by (metis surj_pair)
    have ok1: "ctx_ok c1" using inv1 by (simp add: ctx_inv_def)
    have bl: "set bl = {x \<in> set (reqs r). sched c1 x}" and ref2: "refined c1 c2"
      using filter_scheduled_ok [OF ok1, of "reqs r"] c2 by auto
    have inv2: "ctx_inv b j D R reqs E c2" using refined_inv [OF inv1 ref2] .
    have s2: "sched c2 = sched c" using refinedD(4) [OF ref] refinedD(4) [OF ref2] by simp
    obtain n q where n: "reserve_requested_at (dc_queues c2) = (n, q)" by (metis surj_pair)
    have q: "aq_inv q" "spec_of q = spec_of (dc_queues c2)"
      using reserve_spec [of "dc_queues c2"] n inv2 by (auto simp: ctx_inv_def ctx_ok_def)
    define bd where "bd = \<lparr>bd_task = Deploy r, bd_blocked_on = bl, bd_priority = p, bd_requested_at = n, bd_reason = Some reason\<rparr>"
    define c3 where "c3 = set_waiting r bd (set_queues q c2)"
    define c5 where "c5 = (c3\<lparr>dc_not_scheduled := sdiscard r (dc_not_scheduled c3)\<rparr>)
      \<lparr>dc_maybe_runnable := (if bd_blocked_on bd = [] then sadd r (dc_maybe_runnable c3) else dc_maybe_runnable c3)\<rparr>"
    have "\<not> sched c2 r" using d False s2 by simp
    note five = set_waiting_new_inv [OF inv2 this _ _ q c3_def c5_def E]
    have inv5: "ctx_inv b j D R reqs (E - UNIV \<times> {r}) c5" and s5: "\<And>x. sched c5 x \<longleftrightarrow> x = r \<or> sched c x"
      using five refinedD(4) [OF ref2] bl s2 by (simp_all add: bd_def)
    obtain c' where c': "rfold (\<lambda>y. extend_blocked_on p y [r]) (provs r) c5 = Inr c'"
      "ctx_inv b j D R reqs (E - UNIV \<times> {r} \<union> set (provs r) \<times> {r}) c'" "sched c' = sched c5"
      using extend_all_inv [OF inv5, of r "provs r" p] s5 rel by auto
    have "E \<subseteq> E - UNIV \<times> {r} \<union> set (provs r) \<times> {r}" using E rel by auto
    then have "ctx_inv b j D R reqs E c'" using c'(2) by (auto simp: ctx_inv_def ord_def)
    moreover have "schedule_resource reqs provs reason p r c = Inr c'"
    proof -
      have "c5 = (if bl = [] then (c3\<lparr>dc_not_scheduled := sdiscard r (dc_not_scheduled c3)\<rparr>)
          \<lparr>dc_maybe_runnable := sadd r (dc_maybe_runnable (c3\<lparr>dc_not_scheduled := sdiscard r (dc_not_scheduled c3)\<rparr>))\<rparr>
        else c3\<lparr>dc_not_scheduled := sdiscard r (dc_not_scheduled c3)\<rparr>)"
        by (cases c3) (simp add: c5_def bd_def)
      then have "schedule_resource reqs provs reason p r c = rfold (\<lambda>y. extend_blocked_on p y [r]) (provs r) c5"
        unfolding schedule_resource_def Let_def c1 c2 n c3_def bd_def using False by (simp add: c2 n Let_def)
      then show ?thesis using c'(1) by simp
    qed
    ultimately show ?thesis using c'(3) s5 by auto
  qed
qed

lemma schedule_all_inv:
  assumes "ctx_inv b j D R reqs E c" and E: "E \<subseteq> {(y, x). x \<in> set (reqs y)}"
    and rel: "\<And>r y. r \<in> set (reqs y) \<longleftrightarrow> y \<in> set (provs r)"
  shows "\<exists>c'. rfold (schedule_resource reqs provs reason p) rs c = Inr c' \<and> ctx_inv b j D R reqs E c'
    \<and> (\<forall>x. sched c' x \<longleftrightarrow> x \<in> set rs \<or> sched c x)"
  using assms(1)
proof (induction rs arbitrary: c)
  case (Cons r rs)
  obtain c1 where c1: "schedule_resource reqs provs reason p r c = Inr c1" "ctx_inv b j D R reqs E c1"
    "\<forall>x. sched c1 x \<longleftrightarrow> x = r \<or> sched c x"
    using schedule_resource_inv [OF Cons.prems E, of r provs reason p] rel by blast
  from Cons.IH [OF c1(2)] c1(1,3) show ?case by auto
qed simp

lemma add_required_inv:
  assumes inv: "ctx_inv b j D R reqs E c" and new: "set new \<subseteq> set (reqs r)"
  shows "\<exists>c'. add_required p (r, new) c = Inr c' \<and> ctx_inv b j D R reqs (E \<union> {r} \<times> set new) c' \<and> sched c' = sched c"
proof -
  have ok: "ctx_ok c" using inv by (simp add: ctx_inv_def)
  obtain bl c1 where c1: "filter_scheduled new c = (bl, c1)" by (metis surj_pair)
  have bl: "set bl = {x \<in> set new. sched c x}" and ref: "refined c c1"
    using filter_scheduled_ok [OF ok, of new] c1 by auto
  have s1: "sched c1 = sched c" using refinedD(4) [OF ref] .
  have "x \<in> set (reqs r) \<and> sched c1 x" if "x \<in> set bl" for x using that bl s1 new by auto
  from extend_inv [OF refined_inv [OF inv ref] this] obtain c' where c': "extend_blocked_on p r bl c1 = Inr c'"
    "ctx_inv b j D R reqs (E \<union> {r} \<times> set bl) c'" "sched c' = sched c1" by blast
  have "b \<longrightarrow> ord (E \<union> {r} \<times> set new) c'"
    using c'(2,3) bl s1 by (auto simp: ctx_inv_def ord_def)
  then have "ctx_inv b j D R reqs (E \<union> {r} \<times> set new) c'" using c'(2) by (simp add: ctx_inv_def)
  then show ?thesis using c' c1 s1 by (auto simp: add_required_def)
qed

definition edges :: "(rid, rid pyset) dict \<Rightarrow> (rid \<times> rid) set" where
  "edges d = {(r, x). \<exists>xs. (r, xs) \<in> set d \<and> x \<in> set xs}"

lemma add_all_inv:
  assumes "ctx_inv b j D R reqs E c" and "edges added \<subseteq> {(y, x). x \<in> set (reqs y)}"
  shows "\<exists>c'. rfold (add_required p) added c = Inr c' \<and> ctx_inv b j D R reqs (E \<union> edges added) c' \<and> sched c' = sched c"
  using assms
proof (induction added arbitrary: c E)
  case (Cons a added)
  obtain r new where a: "a = (r, new)" by (cases a)
  have sub: "set new \<subseteq> set (reqs r)" "edges added \<subseteq> {(y, x). x \<in> set (reqs y)}"
    using Cons.prems(2) a by (auto simp: edges_def)
  obtain c1 where c1: "add_required p a c = Inr c1" "ctx_inv b j D R reqs (E \<union> {r} \<times> set new) c1" "sched c1 = sched c"
    using add_required_inv [OF Cons.prems(1) sub(1)] a by blast
  have "edges (a # added) = {r} \<times> set new \<union> edges added" by (auto simp: edges_def a)
  with Cons.IH [OF c1(2) sub(2)] c1(1,3) show ?case by (simp add: Un_assoc)
qed (simp add: edges_def)

lemma drop_blockers_ok:
  assumes "ctx_ok c"
  shows "ctx_ok (drop_blockers (r, d) c)" "cached (drop_blockers (r, d) c) = cached c" "qd (drop_blockers (r, d) c) = qd c"
    "blk (drop_blockers (r, d) c) x = (if x = r then blk c x - set d else blk c x)"
    "wait (drop_blockers (r, d) c) x = None \<longleftrightarrow> wait c x = None"
  using assms
  by (auto simp: drop_blockers_def Let_def dc_waiting_wait blk_def ctx_ok_def sched_def fun_eq_iff qd_def
      split: option.splits if_splits)

lemma drop_all_ok:
  assumes "ctx_ok c"
  shows "ctx_ok (fold drop_blockers ds c) \<and> cached (fold drop_blockers ds c) = cached c \<and> qd (fold drop_blockers ds c) = qd c
    \<and> (\<forall>x. blk (fold drop_blockers ds c) x = blk c x - {y. (x, y) \<in> edges ds})
    \<and> (\<forall>x. wait (fold drop_blockers ds c) x = None \<longleftrightarrow> wait c x = None)"
  using assms
proof (induction ds arbitrary: c)
  case (Cons rd ds)
  obtain r d where rd: "rd = (r, d)" by (cases rd)
  note one = drop_blockers_ok [OF Cons.prems, of r d]
  have e: "{y. (x, y) \<in> edges (rd # ds)} = (if x = r then set d else {}) \<union> {y. (x, y) \<in> edges ds}" for x
    by (auto simp: edges_def rd)
  show ?case using Cons.IH [OF one(1)] one(2-5) by (auto simp: rd e [unfolded rd])
qed (simp add: edges_def)

section \<open>The invariant between calls\<close>

definition wsched :: "scheduled_work \<Rightarrow> rid set \<Rightarrow> rid \<Rightarrow> bool" where
  \<comment> \<open>waiting, queued, or in the given set of deploys in progress\<close>
  "wsched w D r \<longleftrightarrow> has_key (sw_waiting w) r \<or> aq_contains (Deploy r) (sw_agent_queues w) \<or> r \<in> D"

definition wblk :: "scheduled_work \<Rightarrow> rid \<Rightarrow> rid set" where
  "wblk w r = (case map_of (sw_waiting w) r of None \<Rightarrow> {} | Some bd \<Rightarrow> set (bd_blocked_on bd))"

definition sw_weak :: "scheduled_work \<Rightarrow> bool" where
  "sw_weak w \<longleftrightarrow> aq_inv (sw_agent_queues w) \<and> (\<forall>r bd. map_of (sw_waiting w) r = Some bd \<longrightarrow>
     bd_task bd = Deploy r \<and> \<not> aq_contains (Deploy r) (sw_agent_queues w))"

definition sw_inv :: "scheduled_work \<Rightarrow> bool" where
  \<comment> \<open>every deploy is scheduled at most once, and a waiting one waits for something\<close>
  "sw_inv w \<longleftrightarrow> sw_weak w \<and> (\<forall>r bd. map_of (sw_waiting w) r = Some bd \<longrightarrow> bd_blocked_on bd \<noteq> [])"

definition enforced :: "(rid \<times> rid) set \<Rightarrow> rid set \<Rightarrow> scheduled_work \<Rightarrow> bool" where
  \<comment> \<open>for each edge \<open>(r, x)\<close> between scheduled resources, \<open>r\<close> waits for \<open>x\<close>\<close>
  "enforced E D w \<longleftrightarrow> (\<forall>r x. (r, x) \<in> E \<longrightarrow> wsched w D x \<longrightarrow> wsched w D r \<longrightarrow> x \<in> wblk w r)"

definition explained :: "rid set \<Rightarrow> (rid \<Rightarrow> rid pyset) \<Rightarrow> rid set \<Rightarrow> scheduled_work \<Rightarrow> bool" where
  \<comment> \<open>nothing waits for a resource that it does not require, or that will not finish\<close>
  "explained R reqs D w \<longleftrightarrow> (\<forall>r x. x \<in> wblk w r \<longrightarrow> x \<in> set (reqs r) \<and> (wsched w D x \<or> x \<in> R))"

definition graph :: "(rid \<Rightarrow> rid pyset) \<Rightarrow> (rid \<times> rid) set" where
  "graph reqs = {(r, x). x \<in> set (reqs r)}"

lemma put_contains:
  "aq_inv q \<Longrightarrow> \<not> is_pill t \<Longrightarrow> aq_contains x (queue_put_nowait t p ra reason q) \<longleftrightarrow> x = t \<or> aq_contains x q"
  by (metis aq_contains_iff aq.put_dom domIff insert_iff)

lemma queue_if_ready_ok:
  assumes ok: "sw_weak w" and bd: "map_of (sw_waiting w) r = Some bd"
  shows "\<exists>w'. queue_if_ready bd w = Inr w' \<and> sw_weak w' \<and> wsched w' D = wsched w D \<and> wblk w' = wblk w
    \<and> (\<forall>x. map_of (sw_waiting w') x = (if x = r \<and> bd_blocked_on bd = [] then None else map_of (sw_waiting w) x))"
proof (cases "bd_blocked_on bd = []")
  case False
  then show ?thesis using ok by (simp add: queue_if_ready_def)
next
  case True
  have t: "bd_task bd = Deploy r" and q: "aq_inv (sw_agent_queues w)" using ok bd by (auto simp: sw_weak_def)
  let ?q = "queue_put_nowait (Deploy r) (bd_priority bd) (Some (bd_requested_at bd)) (bd_reason bd) (sw_agent_queues w)"
  have q': "aq_inv ?q" "aq_contains x ?q \<longleftrightarrow> x = Deploy r \<or> aq_contains x (sw_agent_queues w)" for x
    using aq.put_inv [OF q] put_contains [OF q] by auto
  let ?w' = "w\<lparr>sw_agent_queues := ?q, sw_waiting := ddel (sw_waiting w) r\<rparr>"
  have "queue_if_ready bd w = Inr ?w'" using True t bd by (simp add: queue_if_ready_def Let_def)
  moreover have "sw_weak ?w'" using ok q' by (auto simp: sw_weak_def)
  moreover have "wsched ?w' D = wsched w D" using bd q'(2) by (auto simp: fun_eq_iff wsched_def)
  moreover have "wblk ?w' = wblk w" using bd True by (auto simp: fun_eq_iff wblk_def)
  ultimately show ?thesis using True by auto
qed

lemma run_all_ok:
  assumes "sw_weak w" "distinct rs" "\<forall>r \<in> set rs. has_key (sw_waiting w) r"
  shows "\<exists>w'. rfold run_if_ready rs w = Inr w' \<and> sw_weak w' \<and> wsched w' D = wsched w D \<and> wblk w' = wblk w
    \<and> (\<forall>r bd. map_of (sw_waiting w') r = Some bd \<longrightarrow> map_of (sw_waiting w) r = Some bd \<and> (r \<in> set rs \<longrightarrow> bd_blocked_on bd \<noteq> []))"
  using assms
proof (induction rs arbitrary: w)
  case (Cons r rs)
  obtain bd where bd: "map_of (sw_waiting w) r = Some bd" using Cons.prems(3) by (auto elim: has_keyE)
  obtain w1 where w1: "queue_if_ready bd w = Inr w1" "sw_weak w1" "wsched w1 D = wsched w D" "wblk w1 = wblk w"
    "\<And>x. map_of (sw_waiting w1) x = (if x = r \<and> bd_blocked_on bd = [] then None else map_of (sw_waiting w) x)"
    using queue_if_ready_ok [OF Cons.prems(1) bd] by blast
  have "\<forall>x \<in> set rs. has_key (sw_waiting w1) x" using Cons.prems(2,3) by (auto simp: has_key_def w1(5))
  with Cons.IH [OF w1(2)] Cons.prems(2) obtain w' where w': "rfold run_if_ready rs w1 = Inr w'" "sw_weak w'"
    "wsched w' D = wsched w1 D" "wblk w' = wblk w1"
    "\<And>x b. map_of (sw_waiting w') x = Some b \<Longrightarrow> map_of (sw_waiting w1) x = Some b \<and> (x \<in> set rs \<longrightarrow> bd_blocked_on b \<noteq> [])"
    by auto
  have "rfold run_if_ready (r # rs) w = Inr w'" using bd w1(1) w'(1) by (simp add: run_if_ready_def)
  moreover have "map_of (sw_waiting w) x = Some b \<and> (x \<in> set (r # rs) \<longrightarrow> bd_blocked_on b \<noteq> [])"
    if "map_of (sw_waiting w') x = Some b" for x b
    using w'(5) [OF that] bd by (auto simp: w1(5) split: if_splits)
  ultimately show ?case using w'(2-4) w1(3,4) by auto
qed simp

lemma bump_in_progress_ok [simp]:
  "aq_inv (bump_in_progress_priorities rs p q) = aq_inv q" "spec_of (bump_in_progress_priorities rs p q) = spec_of q"
proof -
  let ?f = "\<lambda>r q. case map_of (aq_in_progress q) (Deploy r) of
      Some p0 \<Rightarrow> if p < p0 then q\<lparr>aq_in_progress := dset (aq_in_progress q) (Deploy r) p\<rparr> else q | None \<Rightarrow> q"
  have "aq_inv (?f r q) = aq_inv q \<and> spec_of (?f r q) = spec_of q" for r q
    by (auto simp: aq_inv_def split: option.split)
  then have "aq_inv (fold ?f rs q) = aq_inv q \<and> spec_of (fold ?f rs q) = spec_of q"
    by (induction rs arbitrary: q) auto
  then show "aq_inv (bump_in_progress_priorities rs p q) = aq_inv q" "spec_of (bump_in_progress_priorities rs p q) = spec_of q"
    by (auto simp: bump_in_progress_priorities_def)
qed

definition counted :: "rid pyset \<Rightarrow> rid pyset \<Rightarrow> bool \<Rightarrow> rid set" where
  \<comment> \<open>the deploys in progress that count as scheduled\<close>
  "counted resources running force_deploy = (if force_deploy then set running - set resources else set running)"

lemma start_context_ok:
  fixes p :: task_priority
  assumes w: "sw_inv w" and D: "D = counted resources running force_deploy"
  defines "c \<equiv> start_context resources p running force_deploy w"
  shows "ctx_ok c" "cached c x \<longleftrightarrow> x \<in> D" "wait c x = map_of (sw_waiting w) x" "qd c x \<longleftrightarrow> aq_contains (Deploy x) (sw_agent_queues w)"
    "sched c x \<longleftrightarrow> wsched w D x" "blk c x = wblk w x"
proof -
  show c: "cached c x \<longleftrightarrow> x \<in> D" and wt: "wait c x = map_of (sw_waiting w) x"
    and q: "qd c x \<longleftrightarrow> aq_contains (Deploy x) (sw_agent_queues w)" for x
    by (auto simp: c_def start_context_def cached_def D counted_def wait_def dc_waiting_def qd_def dc_queues_def aq_contains_iff)
  show "sched c x \<longleftrightarrow> wsched w D x" using c wt q by (auto simp: sched_def wsched_def has_key_def)
  show "blk c x = wblk w x" by (simp add: blk_def wblk_def wt)
  have "aq_inv (dc_queues c)" using w by (simp add: c_def start_context_def dc_queues_def sw_inv_def sw_weak_def)
  moreover have "dc_not_scheduled c = []" "dc_maybe_runnable c = []" by (simp_all add: c_def start_context_def)
  ultimately show "ctx_ok c" using w by (auto simp: ctx_ok_def wt q sw_inv_def sw_weak_def)
qed

lemma deploy_with_context_ok:
  assumes w: "sw_inv w"
    and rel: "\<And>r y. r \<in> set (reqs y) \<longleftrightarrow> y \<in> set (provs r)"
    and dropped: "b \<Longrightarrow> edges dropped \<inter> graph reqs = {}" and added: "edges added \<subseteq> graph reqs"
    and D: "D = counted resources running force_deploy"
    and nowait: "\<And>x. b \<Longrightarrow> x \<in> D \<Longrightarrow> \<not> has_key (sw_waiting w) x"
    and enf: "b \<Longrightarrow> enforced (graph reqs - edges added) D w"
    and expl: "\<And>r x. j \<Longrightarrow> x \<in> wblk w r \<Longrightarrow> (r, x) \<in> edges dropped \<or> x \<in> set (reqs r) \<and> (wsched w D x \<or> x \<in> R)"
  shows "\<exists>w'. deploy_with_context reqs provs resources reason p running added dropped force_deploy w = Inr w'
    \<and> sw_inv w' \<and> (b \<longrightarrow> enforced (graph reqs) D w') \<and> (j \<longrightarrow> explained R reqs D w')
    \<and> (\<forall>x. wsched w' D x \<longleftrightarrow> x \<in> set resources \<or> wsched w D x)"
proof -
  define c0 where "c0 = start_context resources p running force_deploy w"
  note st = start_context_ok [OF w D, where p = p, folded c0_def]
  let ?c1 = "fold drop_blockers dropped c0"
  note dr = drop_all_ok [OF st(1), of dropped]
  have s1: "sched ?c1 x \<longleftrightarrow> wsched w D x" for x using dr st(5) [of x] by (simp add: sched_def)
  have b1: "blk ?c1 x = wblk w x - {y. (x, y) \<in> edges dropped}" for x using dr st(6) [of x] by simp
  have w1: "wait ?c1 x = None \<longleftrightarrow> \<not> has_key (sw_waiting w) x" for x
    using dr st(3) [of x] by (simp add: has_key_def)
  have "cache_ok D ?c1" "b \<longrightarrow> disj ?c1" using dr st(2) nowait w1 by (auto simp: cache_ok_def disj_def)
  moreover have "b \<longrightarrow> ord (graph reqs - edges added) ?c1"
    unfolding ord_def
  proof (intro allI impI)
    fix r x assume b: b and e: "(r, x) \<in> graph reqs - edges added" "sched ?c1 x" "sched ?c1 r"
    then have "x \<in> wblk w r" using enf [OF b] by (simp add: enforced_def s1)
    then show "x \<in> blk ?c1 r" using e(1) dropped [OF b] by (auto simp: b1)
  qed
  moreover have "j \<longrightarrow> justified R reqs ?c1" using expl by (auto simp: justified_def b1 s1)
  ultimately have "ctx_inv b j D R reqs (graph reqs - edges added) ?c1" using dr by (simp add: ctx_inv_def)
  from schedule_all_inv [OF this _ rel, of reason p resources] obtain c2 where
    c2: "rfold (schedule_resource reqs provs reason p) resources ?c1 = Inr c2"
      "ctx_inv b j D R reqs (graph reqs - edges added) c2" "\<forall>x. sched c2 x \<longleftrightarrow> x \<in> set resources \<or> sched ?c1 x"
    by (auto simp: graph_def)
  from add_all_inv [OF c2(2), of added p] added obtain c3 where c3: "rfold (add_required p) added c2 = Inr c3"
    "ctx_inv b j D R reqs (graph reqs - edges added \<union> edges added) c3" "sched c3 = sched c2"
    by (auto simp: graph_def)
  let ?w3 = "dc_work c3"
  have ok3: "ctx_ok c3" "cache_ok D c3" using c3(2) by (simp_all add: ctx_inv_def)
  have q3: "qd c3 x \<longleftrightarrow> aq_contains (Deploy x) (sw_agent_queues ?w3)" for x by (simp add: qd_def aq_contains_iff dc_queues_def)
  have wt3: "wait c3 x = map_of (sw_waiting ?w3) x" for x by (simp add: wait_def dc_waiting_def)
  have weak3: "sw_weak ?w3" using ok3(1) by (auto simp: sw_weak_def ctx_ok_def q3 wt3 dc_queues_def)
  have s3: "wsched ?w3 D x \<longleftrightarrow> sched c3 x" for x
    using ok3(2) by (auto simp: wsched_def sched_def cache_ok_def q3 wt3 has_key_def)
  have b3: "wblk ?w3 x = blk c3 x" for x by (simp add: wblk_def blk_def wt3)
  have m3: "distinct (dc_maybe_runnable c3)" "\<forall>r \<in> set (dc_maybe_runnable c3). has_key (sw_waiting ?w3) r"
    using ok3(1) by (auto simp: ctx_ok_def wt3 has_key_def)
  from run_all_ok [OF weak3 m3, of D] obtain w' where w': "rfold run_if_ready (dc_maybe_runnable c3) ?w3 = Inr w'"
    "sw_weak w'" "wsched w' D = wsched ?w3 D" "wblk w' = wblk ?w3"
    "\<forall>r bd. map_of (sw_waiting w') r = Some bd \<longrightarrow> map_of (sw_waiting ?w3) r = Some bd
      \<and> (r \<in> set (dc_maybe_runnable c3) \<longrightarrow> bd_blocked_on bd \<noteq> [])" by blast
  have "sw_inv w'" using w'(2,5) ok3(1) by (auto simp: sw_inv_def ctx_ok_def wt3)
  moreover have "b \<longrightarrow> enforced (graph reqs) D w'"
    using c3(2) w'(3,4) by (auto simp: enforced_def s3 b3 ctx_inv_def ord_def)
  moreover have "j \<longrightarrow> explained R reqs D w'"
    using c3(2) w'(3,4) by (auto simp: explained_def s3 b3 ctx_inv_def justified_def)
  moreover have "\<forall>x. wsched w' D x \<longleftrightarrow> x \<in> set resources \<or> wsched w D x"
    using w'(3) c2(3) c3(3) s1 by (simp add: s3)
  moreover have "deploy_with_context reqs provs resources reason p running added dropped force_deploy w = Inr w'"
    using c2(1) c3(1) w'(1) by (simp add: deploy_with_context_def c0_def)
  ultimately show ?thesis by blast
qed

text \<open>What holds whatever was rescheduled before.\<close>

lemma deploy_with_context_weak:
  assumes "sw_inv w" "\<And>r y. r \<in> set (reqs y) \<longleftrightarrow> y \<in> set (provs r)" "edges added \<subseteq> graph reqs"
    and "D = counted resources running force_deploy"
  shows "\<exists>w'. deploy_with_context reqs provs resources reason p running added dropped force_deploy w = Inr w'
    \<and> sw_inv w' \<and> (\<forall>x. wsched w' D x \<longleftrightarrow> x \<in> set resources \<or> wsched w D x)"
  using deploy_with_context_ok [where b = False and j = False, OF assms(1,2) _ assms(3,4)] by simp

lemma unblock_dependant_ok:
  assumes w: "sw_inv w"
  shows "\<exists>w'. unblock_dependant r y w = Inr w' \<and> sw_inv w' \<and> wsched w' D = wsched w D \<and> wblk w' = (wblk w)(y := wblk w y - {r})"
proof (cases "map_of (sw_waiting w) y")
  case None
  then have "wblk w y = {}" by (simp add: wblk_def)
  then show ?thesis using w None by (simp add: unblock_dependant_def fun_upd_idem)
next
  case (Some bd)
  let ?bd = "bd\<lparr>bd_blocked_on := sdiscard r (bd_blocked_on bd)\<rparr>"
  let ?w = "w\<lparr>sw_waiting := dset (sw_waiting w) y ?bd\<rparr>"
  have weak: "sw_weak ?w" using w Some by (auto simp: sw_inv_def sw_weak_def)
  have s: "wsched ?w D = wsched w D" using Some by (auto simp: fun_eq_iff wsched_def)
  have b: "wblk ?w = (wblk w)(y := wblk w y - {r})" using Some by (auto simp: fun_eq_iff wblk_def)
  obtain w' where w': "queue_if_ready ?bd ?w = Inr w'" "sw_weak w'" "wsched w' D = wsched ?w D" "wblk w' = wblk ?w"
    "\<And>x. map_of (sw_waiting w') x = (if x = y \<and> bd_blocked_on ?bd = [] then None else map_of (sw_waiting ?w) x)"
    using queue_if_ready_ok [OF weak, of y ?bd D] by auto
  have "sw_inv w'" using w w'(2) by (auto simp: sw_inv_def w'(5) split: if_splits)
  then show ?thesis using Some w'(1,3,4) s b by (simp add: unblock_dependant_def Let_def)
qed

lemma finished_loop_ok:
  assumes "sw_inv w"
  shows "\<exists>w'. rfold (unblock_dependant r) ys w = Inr w' \<and> sw_inv w' \<and> wsched w' {} = wsched w {}
    \<and> (\<forall>y. wblk w' y = (if y \<in> set ys then wblk w y - {r} else wblk w y))"
  using assms
proof (induction ys arbitrary: w)
  case (Cons y ys)
  obtain w1 where w1: "unblock_dependant r y w = Inr w1" "sw_inv w1" "wsched w1 {} = wsched w {}"
    "wblk w1 = (wblk w)(y := wblk w y - {r})"
    using unblock_dependant_ok [OF Cons.prems, of r y "{}"] by blast
  from Cons.IH [OF w1(2)] w1 show ?case by fastforce
qed simp

lemma finished_deploy_weak:
  "sw_inv w \<Longrightarrow> \<exists>w'. finished_deploy provs r w = Inr w' \<and> sw_inv w' \<and> wsched w' {} = wsched w {}"
  using finished_loop_ok [of w r "provs r"] by (auto simp: finished_deploy_def)

lemma finished_deploy_ok:
  assumes w: "sw_inv w" and rel: "\<And>y. r \<in> set (reqs y) \<longleftrightarrow> y \<in> set (provs r)"
    and enf: "enforced (graph reqs) D w" and expl: "explained R reqs D w"
    and fin: "\<not> has_key (sw_waiting w) r" "\<not> aq_contains (Deploy r) (sw_agent_queues w)"
  shows "\<exists>w'. finished_deploy provs r w = Inr w' \<and> sw_inv w' \<and> enforced (graph reqs) (D - {r}) w'
    \<and> explained (R - {r}) reqs (D - {r}) w' \<and> (\<forall>x. wsched w' (D - {r}) x \<longleftrightarrow> x \<noteq> r \<and> wsched w D x)"
proof -
  note finished_loop_ok [OF w, of r]
  then obtain w' where w': "rfold (unblock_dependant r) (provs r) w = Inr w'" "sw_inv w'" "wsched w' {} = wsched w {}"
    "\<And>y. wblk w' y = (if y \<in> set (provs r) then wblk w y - {r} else wblk w y)" by metis
  have s0: "wsched v D' x \<longleftrightarrow> wsched v {} x \<or> x \<in> D'" for v D' x by (auto simp: wsched_def)
  have nr: "\<not> wsched w {} r" using fin by (simp add: wsched_def)
  have s: "wsched w' (D - {r}) x \<longleftrightarrow> x \<noteq> r \<and> wsched w D x" for x
    using nr s0 [of w'] s0 [of w D] w'(3) by auto
  have b: "x \<in> wblk w' a \<longleftrightarrow> x \<in> wblk w a \<and> x \<noteq> r" for a x
    using expl rel [of a] by (auto simp: w'(4) explained_def)
  have "enforced (graph reqs) (D - {r}) w'" using enf by (auto simp: enforced_def s b)
  moreover have "explained (R - {r}) reqs (D - {r}) w'" using expl by (auto simp: explained_def s b)
  ultimately show ?thesis using w'(1,2) s fin by (auto simp: finished_deploy_def)
qed

lemma delete_resource_ok:
  assumes "sw_inv w"
  shows "sw_inv (sw_delete_resource r w)" "x \<noteq> r \<Longrightarrow> wsched (sw_delete_resource r w) D x = wsched w D x"
    "wblk (sw_delete_resource r w) x = (if x = r then {} else wblk w x)"
proof -
  define w1 where "w1 = (if has_key (sw_waiting w) r then w\<lparr>sw_waiting := ddel (sw_waiting w) r\<rparr> else w)"
  have w1: "aq_inv (sw_agent_queues w1)" "sw_agent_queues w1 = sw_agent_queues w"
    "\<And>x. map_of (sw_waiting w1) x = (if x = r then None else map_of (sw_waiting w) x)"
    using assms by (auto simp: w1_def sw_inv_def sw_weak_def has_key_def)
  define del where "del = (\<lambda>t q. if delete_with_resource t then snd (aq_discard t q) else q)"
  have one: "aq_inv (del t q)" "aq_contains x (del t q) \<Longrightarrow> aq_contains x q" "x \<noteq> t \<Longrightarrow> aq_contains x (del t q) = aq_contains x q"
    if "aq_inv q" for t x q
    using discard_ok(1,2) [OF that] that by (simp_all add: del_def aq_contains_iff split: if_split_asm)
  have loop: "aq_inv (fold del ts q) \<and> (\<forall>t. aq_contains t (fold del ts q) \<longrightarrow> aq_contains t q)
      \<and> (\<forall>t. t \<notin> set ts \<longrightarrow> aq_contains t (fold del ts q) = aq_contains t q)"
    if "aq_inv q" for ts q
    using that
  proof (induction ts arbitrary: q)
    case (Cons t ts)
    have step: "\<And>x. aq_contains x (del t q) \<Longrightarrow> aq_contains x q" "\<And>x. x \<noteq> t \<Longrightarrow> aq_contains x (del t q) = aq_contains x q"
      using one(2,3) [OF Cons.prems] by blast+
    have "\<forall>x. x \<notin> set (t # ts) \<longrightarrow> x \<notin> set ts \<and> x \<noteq> t" by simp
    then show ?case using Cons.IH [OF one(1) [OF Cons.prems], of t] step unfolding fold_Cons comp_def by blast
  qed simp
  have "task_resource t = r" if "t \<in> set (get_tasks_for_resource r (sw_agent_queues w))" for t
  proof (cases "map_of (aq_tasks_by_resource (sw_agent_queues w)) r")
    case None
    then show ?thesis using that by (simp add: get_tasks_for_resource_def)
  next
    case (Some ts)
    moreover have "wf_lookup (aq_tasks_by_resource (sw_agent_queues w))" using w1(1,2) by (simp add: aq_inv_def aq_inv_but_def)
    ultimately show ?thesis using that by (auto simp: get_tasks_for_resource_def wf_lookup_def has_key_iff)
  qed
  then have other: "Deploy x \<notin> set (get_tasks_for_resource r (sw_agent_queues w))" if "x \<noteq> r" for x using that by fastforce
  note l = loop [OF w1(1), of "get_tasks_for_resource r (sw_agent_queues w1)", unfolded w1(2)]
  have d: "sw_delete_resource r w = w1\<lparr>sw_agent_queues := fold del (get_tasks_for_resource r (sw_agent_queues w)) (sw_agent_queues w)\<rparr>"
    by (simp add: sw_delete_resource_def w1_def [symmetric] w1(2) Let_def del_def)
  show "sw_inv (sw_delete_resource r w)"
    using assms l unfolding d sw_inv_def sw_weak_def by (auto simp: w1(3) split: if_splits)
  show "x \<noteq> r \<Longrightarrow> wsched (sw_delete_resource r w) D x = wsched w D x"
    using l other [of x] unfolding d wsched_def by (auto simp: w1(3) has_key_def)
  show "wblk (sw_delete_resource r w) x = (if x = r then {} else wblk w x)"
    unfolding d wblk_def by (simp add: w1(3))
qed

lemma delete_resources_ok:
  assumes "sw_inv w"
  shows "sw_inv (fold sw_delete_resource rs w)" "x \<notin> set rs \<Longrightarrow> wsched (fold sw_delete_resource rs w) D x = wsched w D x"
    "wblk (fold sw_delete_resource rs w) x = (if x \<in> set rs then {} else wblk w x)"
proof -
  have "sw_inv (fold sw_delete_resource rs w) \<and> (x \<notin> set rs \<longrightarrow> wsched (fold sw_delete_resource rs w) D x = wsched w D x)
      \<and> wblk (fold sw_delete_resource rs w) x = (if x \<in> set rs then {} else wblk w x)"
    using assms by (induction rs arbitrary: w) (auto simp: delete_resource_ok)
  then show "sw_inv (fold sw_delete_resource rs w)" "x \<notin> set rs \<Longrightarrow> wsched (fold sw_delete_resource rs w) D x = wsched w D x"
    "wblk (fold sw_delete_resource rs w) x = (if x \<in> set rs then {} else wblk w x)"
    by auto
qed

lemma finished_deploy_explained:
  assumes w: "sw_inv w" and rel: "\<And>y. r \<in> set (reqs y) \<longleftrightarrow> y \<in> set (provs r)" and expl: "explained {} reqs D w"
    and fin: "\<not> (has_key (sw_waiting w) r \<or> aq_contains (Deploy r) (sw_agent_queues w))"
  shows "\<exists>w'. finished_deploy provs r w = Inr w' \<and> sw_inv w' \<and> explained {} reqs (D - {r}) w'"
proof -
  obtain w' where w': "rfold (unblock_dependant r) (provs r) w = Inr w'" "sw_inv w'" "wsched w' {} = wsched w {}"
    "\<And>y. wblk w' y = (if y \<in> set (provs r) then wblk w y - {r} else wblk w y)" using finished_loop_ok [OF w, of r] by metis
  have "wsched w' (D - {r}) x" if "x \<noteq> r" "wsched w D x" for x
    using that fun_cong [OF w'(3), of x] by (auto simp: wsched_def)
  moreover have "x \<in> wblk w' a \<longleftrightarrow> x \<in> wblk w a \<and> x \<noteq> r" for a x
    using expl rel [of a] by (auto simp: w'(4) explained_def)
  ultimately have "explained {} reqs (D - {r}) w'" using expl unfolding explained_def by blast
  then show ?thesis using w'(1,2) fin by (simp add: finished_deploy_def)
qed

text \<open>No deadlock: along the requirements that deploys wait for, some deploy can run.\<close>

lemma waiting_not_stuck:
  assumes w: "sw_inv w" and expl: "explained R reqs D w" and wf: "wf ((graph reqs)\<inverse>)"
    and r: "has_key (sw_waiting w) r"
  shows "\<exists>x. (r, x) \<in> (graph reqs)\<^sup>+ \<and> (aq_contains (Deploy x) (sw_agent_queues w) \<or> x \<in> D \<union> R)"
  using r
proof (induction r rule: wf_induct_rule [OF wf])
  case (1 r)
  then obtain bd where "map_of (sw_waiting w) r = Some bd" by (auto elim: has_keyE)
  moreover from this w have "bd_blocked_on bd \<noteq> []" by (auto simp: sw_inv_def)
  ultimately obtain x where x: "x \<in> wblk w r" by (cases "bd_blocked_on bd") (auto simp: wblk_def)
  with expl have e: "(r, x) \<in> graph reqs" "wsched w D x \<or> x \<in> R" by (auto simp: explained_def graph_def)
  show ?case
  proof (cases "has_key (sw_waiting w) x")
    case True
    with "1.IH" [of x] e(1) show ?thesis by (meson converseI trancl_into_trancl2)
  next
    case False
    with e show ?thesis by (auto simp: wsched_def)
  qed
qed

section \<open>Properties\<close>

text \<open>
  C2: scheduling a set of resources. From a consistent state in which the edges that were not
  just added are enforced and in which no deploy in progress has been rescheduled already,
  \<open>deploy_with_context\<close> never raises, schedules exactly the requested resources in addition
  to those already scheduled, keeps every deploy scheduled at most once, makes every scheduled
  deploy wait for each of its requirements that is scheduled or being deployed, and lets none
  wait for anything else.
\<close>

theorem deploy_with_context_enforces_requires:
  assumes "sw_inv w"
    and "\<And>r y. r \<in> set (reqs y) \<longleftrightarrow> y \<in> set (provs r)"
    and "edges dropped \<inter> graph reqs = {}" and "edges added \<subseteq> graph reqs"
    and "\<And>x. x \<in> counted resources running force_deploy \<Longrightarrow> \<not> has_key (sw_waiting w) x"
    and "enforced (graph reqs - edges added) (counted resources running force_deploy) w"
    and "\<And>r x. x \<in> wblk w r \<Longrightarrow> (r, x) \<in> edges dropped
      \<or> x \<in> set (reqs r) \<and> (wsched w (counted resources running force_deploy) x \<or> x \<in> R)"
  shows "\<exists>w'. deploy_with_context reqs provs resources reason priority running added dropped force_deploy w = Inr w'
    \<and> sw_inv w' \<and> enforced (graph reqs) (counted resources running force_deploy) w'
    \<and> explained R reqs (counted resources running force_deploy) w'
    \<and> (\<forall>x. wsched w' (counted resources running force_deploy) x
          \<longleftrightarrow> x \<in> set resources \<or> wsched w (counted resources running force_deploy) x)"
  using deploy_with_context_ok [where b = True and j = True, OF assms(1-4) refl assms(5-7)] by simp

definition ab_requires :: "rid \<Rightarrow> rid pyset" where
  \<comment> \<open>\<open>b\<close> requires \<open>a\<close>\<close>
  "ab_requires r = (if r = ''b'' then [''a''] else [])"

definition ab_provides :: "rid \<Rightarrow> rid pyset" where
  "ab_provides r = (if r = ''a'' then [''b''] else [])"

lemma ab_converse: "r \<in> set (ab_requires y) \<longleftrightarrow> y \<in> set (ab_provides r)"
  by (auto simp: ab_requires_def ab_provides_def)

lemma sw_init_ok [simp]: "sw_inv sw_init" "wblk sw_init r = {}" "\<not> has_key (sw_waiting sw_init) r"
  "wsched sw_init D r \<longleftrightarrow> r \<in> D"
  by (simp_all add: sw_inv_def sw_weak_def sw_init_def wblk_def wsched_def aq_contains_iff)

theorem deploy_with_context_enforces_requires_witness:
  "\<exists>w'. deploy_with_context ab_requires ab_provides [''b'', ''a''] ''r'' USER_DEPLOY [] [] [] False sw_init = Inr w'
     \<and> ''a'' \<in> wblk w' ''b''"
proof -
  have "\<exists>w'. deploy_with_context ab_requires ab_provides [''b'', ''a''] ''r'' USER_DEPLOY [] [] [] False sw_init = Inr w'
    \<and> sw_inv w' \<and> enforced (graph ab_requires) (counted [''b'', ''a''] [] False) w'
    \<and> explained {} ab_requires (counted [''b'', ''a''] [] False) w'
    \<and> (\<forall>x. wsched w' (counted [''b'', ''a''] [] False) x
          \<longleftrightarrow> x \<in> set [''b'', ''a''] \<or> wsched sw_init (counted [''b'', ''a''] [] False) x)"
    by (rule deploy_with_context_enforces_requires)
      (auto simp: ab_converse counted_def edges_def enforced_def)
  then show ?thesis by (auto simp: enforced_def graph_def ab_requires_def counted_def)
qed

text \<open>
  C3: a finished deploy that was not rescheduled is removed from everything that waits for it:
  what waited for it alone becomes ready, the requires order stays enforced among the rest, and
  nothing waits for it any more.
\<close>

theorem finished_deploy_releases_dependants:
  assumes "sw_inv w" and "\<And>y. r \<in> set (reqs y) \<longleftrightarrow> y \<in> set (provs r)"
    and "enforced (graph reqs) D w" and "explained R reqs D w"
    and "\<not> has_key (sw_waiting w) r" and "\<not> aq_contains (Deploy r) (sw_agent_queues w)"
  shows "\<exists>w'. finished_deploy provs r w = Inr w' \<and> sw_inv w' \<and> enforced (graph reqs) (D - {r}) w'
    \<and> explained (R - {r}) reqs (D - {r}) w' \<and> (\<forall>x. wsched w' (D - {r}) x \<longleftrightarrow> x \<noteq> r \<and> wsched w D x)"
  by (rule finished_deploy_ok [where provs = provs and reqs = reqs, OF assms(1) _ assms(3-6)]) (rule assms(2))

definition b_waits :: scheduled_work where
  "b_waits = \<lparr>sw_agent_queues = aq_init, sw_waiting = [(''b'', \<lparr>bd_task = Deploy ''b'', bd_blocked_on = [''a''],
     bd_priority = USER_DEPLOY, bd_requested_at = 0, bd_reason = None\<rparr>)]\<rparr>"

lemma b_waits_ok: "sw_inv b_waits" "enforced (graph ab_requires) {''a''} b_waits" "explained {''a''} ab_requires {''a''} b_waits"
  by (auto simp: b_waits_def sw_inv_def sw_weak_def enforced_def explained_def graph_def wblk_def wsched_def
      ab_requires_def aq_contains_iff split: if_splits)

theorem finished_deploy_releases_dependants_witness:
  "\<exists>w'. finished_deploy ab_provides ''a'' b_waits = Inr w' \<and> wsched w' {} ''b'' \<and> wblk w' ''b'' = {}"
proof -
  have n: "\<not> has_key (sw_waiting b_waits) ''a''" "\<not> aq_contains (Deploy ''a'') (sw_agent_queues b_waits)"
    "wsched b_waits {''a''} ''b''"
    by (simp_all add: b_waits_def aq_contains_iff has_key_def wsched_def)
  from finished_deploy_releases_dependants [where provs = ab_provides and reqs = ab_requires,
      OF b_waits_ok(1) _ b_waits_ok(2,3) n(1,2), OF ab_converse]
  obtain w' where w': "finished_deploy ab_provides ''a'' b_waits = Inr w'" "explained ({''a''} - {''a''}) ab_requires ({''a''} - {''a''}) w'"
    "\<forall>x. wsched w' ({''a''} - {''a''}) x \<longleftrightarrow> x \<noteq> ''a'' \<and> wsched b_waits {''a''} x" by blast
  then have "x \<notin> wblk w' ''b''" for x by (auto simp: explained_def ab_requires_def)
  then show ?thesis using w' n(3) by auto
qed

definition r_requires :: "rid \<Rightarrow> rid pyset" where
  "r_requires x = (if x = ''r'' then [''d2'', ''d3''] else [])"

definition r_provides :: "rid \<Rightarrow> rid pyset" where
  "r_provides x = (if x = ''d2'' \<or> x = ''d3'' then [''r''] else [])"

text \<open>
  the restriction on rescheduled deploys is needed. While \<open>r\<close> is being deployed, scheduling
  its requirement \<open>d2\<close> and then, in a second call, its requirement \<open>d3\<close> overwrites what \<open>r\<close>
  waits for: \<open>d2\<close> is queued, and \<open>r\<close> waits for \<open>d3\<close> alone.
\<close>

theorem rescheduled_deploy_forgets_blocker:
  "case deploy_with_context r_requires r_provides [''d2''] ''m'' USER_DEPLOY [''r''] [] [] False sw_init of
     Inl _ \<Rightarrow> False
   | Inr w1 \<Rightarrow>
       wblk w1 ''r'' = {''d2''}
       \<and> (case deploy_with_context r_requires r_provides [''d3''] ''m'' USER_DEPLOY [''r''] [] [] False w1 of
            Inl _ \<Rightarrow> False
          | Inr w2 \<Rightarrow> wblk w2 ''r'' = {''d3''} \<and> aq_contains (Deploy ''d2'') (sw_agent_queues w2))"
  by code_simp

end
