(* ===== verification/Resource_Timers.thy ===== *)
theory Resource_Timers
  imports Agent_Queues
begin

text \<open>
  The per-resource repair and deploy timers of \<open>src/src/inmanta/deploy/timers.py\<close>, with the
  part of \<open>util.Scheduler\<close> (\<open>src/src/inmanta/util/__init__.py\<close>) that they use. Times are in
  seconds. A scheduled callback of the event loop is the time at which it will be called.
\<close>

section \<open>One timer\<close>

record resource_timer =
  rt_next_schedule_handle :: "time option"
  rt_next_scheduled_time :: "time option"
  rt_reason :: "string option"
  rt_priority :: "task_priority option"

definition new_timer :: resource_timer where
  "new_timer = \<lparr>rt_next_schedule_handle = None, rt_next_scheduled_time = None, rt_reason = None, rt_priority = None\<rparr>"

definition timer_activate :: "resource_timer \<Rightarrow> (string \<times> task_priority) result" where
  \<comment> \<open>\<open>_activate\<close>: the reason and the priority of the \<open>deploy_resource\<close> request\<close>
  "timer_activate t =
     (case (rt_reason t, rt_priority t) of
        (Some r, Some p) \<Rightarrow> Inr (r, p)
      | _ \<Rightarrow> Inl AssertionError)"

definition timer_cancel :: "resource_timer \<Rightarrow> resource_timer" where
  "timer_cancel t = t\<lparr>rt_next_schedule_handle := None, rt_next_scheduled_time := None\<rparr>"

definition set_timer :: "time \<Rightarrow> string \<Rightarrow> task_priority \<Rightarrow> resource_timer \<Rightarrow> resource_timer" where
  "set_timer when reason priority t =
     (let t1 = t\<lparr>rt_reason := Some reason, rt_priority := Some priority\<rparr>
      in if rt_next_scheduled_time t1 = Some when then t1
         else (timer_cancel t1)\<lparr>rt_next_scheduled_time := Some when, rt_next_schedule_handle := Some when\<rparr>)"

section \<open>The cron scheduler\<close>

datatype cron_action = GlobalRepair | GlobalDeploy

text \<open>Every call that adds an action makes a new function, so a task has an identity.\<close>

record cron_task =
  ct_action :: cron_action
  ct_schedule :: string
  ct_id :: nat

record cron_scheduler =
  cs_scheduled :: "cron_task list"
  cs_stopped :: bool
  cs_next :: nat

definition new_cron_scheduler :: cron_scheduler where
  "new_cron_scheduler = \<lparr>cs_scheduled = [], cs_stopped = False, cs_next = 0\<rparr>"

definition cs_remove :: "cron_task \<Rightarrow> cron_scheduler \<Rightarrow> cron_scheduler" where
  "cs_remove t s = s\<lparr>cs_scheduled := filter (\<lambda>u. u \<noteq> t) (cs_scheduled s)\<rparr>"

definition cs_add_action :: "cron_action \<Rightarrow> string \<Rightarrow> cron_scheduler \<Rightarrow> cron_task option \<times> cron_scheduler" where
  "cs_add_action action schedule s =
     (if cs_stopped s then (None, s)
      else
        let t = \<lparr>ct_action = action, ct_schedule = schedule, ct_id = cs_next s\<rparr>;
            s1 = (if t \<in> set (cs_scheduled s) then cs_remove t s else s)
        in (Some t, s1\<lparr>cs_scheduled := cs_scheduled s1 @ [t], cs_next := Suc (cs_next s1)\<rparr>))"

definition cs_stop :: "cron_scheduler \<Rightarrow> cron_scheduler" where
  "cs_stop s = s\<lparr>cs_stopped := True, cs_scheduled := []\<rparr>"

section \<open>The timer manager\<close>

record timer_manager =
  tm_resource_timers :: "(rid, resource_timer) dict"
  tm_global_periodic_repair_task :: "cron_task option"
  tm_global_periodic_deploy_task :: "cron_task option"
  tm_periodic_repair_interval :: "int option"
  tm_periodic_deploy_interval :: "int option"
  tm_cron_scheduler :: cron_scheduler

definition tm_init :: timer_manager where
  "tm_init = \<lparr>tm_resource_timers = [], tm_global_periodic_repair_task = None, tm_global_periodic_deploy_task = None,
     tm_periodic_repair_interval = None, tm_periodic_deploy_interval = None, tm_cron_scheduler = new_cron_scheduler\<rparr>"

definition cancel_all :: "(rid, resource_timer) dict \<Rightarrow> (rid, resource_timer) dict" where
  "cancel_all = map (\<lambda>(r, t). (r, timer_cancel t))"

definition tm_stop :: "timer_manager \<Rightarrow> timer_manager" where
  "tm_stop m = m\<lparr>tm_resource_timers := cancel_all (tm_resource_timers m),
     tm_cron_scheduler := cs_stop (tm_cron_scheduler m)\<rparr>"

definition tm_reset :: "timer_manager \<Rightarrow> timer_manager" where
  "tm_reset m = (tm_stop m)\<lparr>tm_cron_scheduler := new_cron_scheduler, tm_global_periodic_repair_task := None,
     tm_global_periodic_deploy_task := None, tm_periodic_repair_interval := None,
     tm_periodic_deploy_interval := None, tm_resource_timers := []\<rparr>"

text \<open>\<open>int(s)\<close> on a string of ASCII characters.\<close>

definition is_space :: "char \<Rightarrow> bool" where
  "is_space c = (let n = (of_char c :: nat) in n = 32 \<or> 9 \<le> n \<and> n \<le> 13 \<or> 28 \<le> n \<and> n \<le> 31)"

definition py_strip :: "string \<Rightarrow> string" where
  "py_strip s = rev (dropWhile is_space (rev (dropWhile is_space s)))"

fun digit_groups :: "bool \<Rightarrow> string \<Rightarrow> string option" where
  \<comment> \<open>the digits, with single underscores between them removed; the flag: a digit has to follow\<close>
  "digit_groups must [] = (if must then None else Some [])"
| "digit_groups must (c # cs) =
     (if is_digit c then map_option (\<lambda>ds. c # ds) (digit_groups False cs)
      else if c = CHR ''_'' \<and> \<not> must then digit_groups True cs
      else None)"

definition py_int :: "string \<Rightarrow> int option" where
  "py_int s =
     (let t = py_strip s;
          neg = (t \<noteq> [] \<and> hd t = CHR ''-'');
          u = (if t \<noteq> [] \<and> (hd t = CHR ''-'' \<or> hd t = CHR ''+'') then tl t else t)
      in map_option (\<lambda>ds. if neg then - int (nat_of_digits ds) else int (nat_of_digits ds)) (digit_groups True u))"

definition update_global_timer ::
  "(string \<Rightarrow> bool) \<Rightarrow> string option \<Rightarrow> cron_task option \<Rightarrow> cron_action \<Rightarrow> cron_scheduler
    \<Rightarrow> (cron_task option \<times> cron_scheduler) result" where
  \<comment> \<open>\<open>cron_ok\<close>: the strings that the library \<open>crontab\<close> accepts\<close>
  "update_global_timer cron_ok cron_expression previous_value action s =
     (case cron_expression of
        None \<Rightarrow> Inr (None, (case previous_value of None \<Rightarrow> s | Some p \<Rightarrow> cs_remove p s))
      | Some cron \<Rightarrow>
          if \<not> cron_ok cron then Inl ValueError
          else case previous_value of
                 None \<Rightarrow> Inr (cs_add_action action cron s)
               | Some p \<Rightarrow> if ct_schedule p = cron then Inr (Some p, s)
                           else Inr (cs_add_action action cron (cs_remove p s)))"

definition update_global_deploy :: "(string \<Rightarrow> bool) \<Rightarrow> string option \<Rightarrow> timer_manager \<Rightarrow> timer_manager result" where
  "update_global_deploy cron_ok cron m =
     rbind (update_global_timer cron_ok cron (tm_global_periodic_deploy_task m) GlobalDeploy (tm_cron_scheduler m))
       (\<lambda>(t, s). Inr (m\<lparr>tm_global_periodic_deploy_task := t, tm_cron_scheduler := s\<rparr>))"

definition update_global_repair :: "(string \<Rightarrow> bool) \<Rightarrow> string option \<Rightarrow> timer_manager \<Rightarrow> timer_manager result" where
  "update_global_repair cron_ok cron m =
     rbind (update_global_timer cron_ok cron (tm_global_periodic_repair_task m) GlobalRepair (tm_cron_scheduler m))
       (\<lambda>(t, s). Inr (m\<lparr>tm_global_periodic_repair_task := t, tm_cron_scheduler := s\<rparr>))"

definition parse_setting :: "string \<Rightarrow> string option \<times> int option" where
  \<comment> \<open>the cron expression and the interval that a setting stands for\<close>
  "parse_setting s =
     (case py_int s of
        Some n \<Rightarrow> (None, if n > 0 then Some n else None)
      | None \<Rightarrow> (Some s, None))"

definition reload_config ::
  "(string \<Rightarrow> bool) \<Rightarrow> string \<Rightarrow> string \<Rightarrow> (timer_manager \<Rightarrow> timer_manager) \<Rightarrow> timer_manager \<Rightarrow> timer_manager result" where
  \<comment> \<open>with the two settings of the environment, and \<open>reload_all_timers\<close> of the scheduler\<close>
  "reload_config cron_ok deploy_timer repair_timer reload_all_timers m =
     (let (new_deploy_cron, new_deploy) = parse_setting deploy_timer;
          (new_repair_cron, new_repair) = parse_setting repair_timer;
          m1 = (if new_repair = None \<and> new_deploy = None
                then m\<lparr>tm_periodic_repair_interval := new_repair, tm_periodic_deploy_interval := new_deploy,
                       tm_resource_timers := cancel_all (tm_resource_timers m)\<rparr>
                else m)
      in rbind (update_global_repair cron_ok new_repair_cron m1) (\<lambda>m2.
         rbind (update_global_deploy cron_ok new_deploy_cron m2) (\<lambda>m3.
           if new_repair \<noteq> tm_periodic_repair_interval m3 \<or> new_deploy \<noteq> tm_periodic_deploy_interval m3
           then Inr (reload_all_timers (m3\<lparr>tm_periodic_repair_interval := new_repair,
                                           tm_periodic_deploy_interval := new_deploy\<rparr>))
           else Inr m3)))"

definition reason_text :: "string \<Rightarrow> int \<Rightarrow> string" where
  "reason_text what n = ''previous '' @ what @ '' happened more than '' @ show_nat (nat n) @ ''s ago''"

definition upd_timer :: "rid \<Rightarrow> (resource_timer \<Rightarrow> resource_timer) \<Rightarrow> timer_manager \<Rightarrow> timer_manager" where
  "upd_timer r f m = (case map_of (tm_resource_timers m) r of
     None \<Rightarrow> m | Some t \<Rightarrow> m\<lparr>tm_resource_timers := dset (tm_resource_timers m) r (f t)\<rparr>)"

definition make_known :: "rid \<Rightarrow> timer_manager \<Rightarrow> timer_manager" where
  \<comment> \<open>create the timer of the resource if it is not known yet\<close>
  "make_known r m = (if has_key (tm_resource_timers m) r then m
     else m\<lparr>tm_resource_timers := dset (tm_resource_timers m) r new_timer\<rparr>)"

definition update_timer :: "rid \<Rightarrow> resource_state \<Rightarrow> timer_manager \<Rightarrow> timer_manager" where
  "update_timer r state m0 =
     (let m = make_known r m0;
          repair_interval = tm_periodic_repair_interval m;
          deploy_interval = tm_periodic_deploy_interval m;
          setup_repair = (\<lambda>ld n. upd_timer r (set_timer (ld + n) (reason_text ''repair'' n) INTERVAL_REPAIR) m);
          setup_deploy = (\<lambda>ld n. upd_timer r (set_timer (ld + n) (reason_text ''deploy'' n) INTERVAL_DEPLOY) m);
          repair_only = (case rs_blocked state of
             TEMPORARILY_BLOCKED \<Rightarrow> True | _ \<Rightarrow> rs_compliance state = COMPLIANT)
      in if rs_blocked state = BLOCKED then upd_timer r timer_cancel m
         else if repair_interval = None \<and> deploy_interval = None then upd_timer r timer_cancel m
         else case rs_last_deployed state of
                None \<Rightarrow> m
              | Some ld \<Rightarrow>
                  if repair_only then
                    (case repair_interval of
                       Some n \<Rightarrow> if n \<noteq> 0 then setup_repair ld n else upd_timer r timer_cancel m
                     | None \<Rightarrow> upd_timer r timer_cancel m)
                  else (case (repair_interval, deploy_interval) of
                          (Some rn, Some dn) \<Rightarrow> if rn < dn then setup_repair ld rn else setup_deploy ld dn
                        | (Some rn, None) \<Rightarrow> setup_repair ld rn
                        | (None, Some dn) \<Rightarrow> setup_deploy ld dn
                        | (None, None) \<Rightarrow> m))"

definition update_timers :: "rid list \<Rightarrow> (rid, resource_state) dict \<Rightarrow> timer_manager \<Rightarrow> timer_manager result" where
  "update_timers resources states m =
     rfold (\<lambda>r m. rbind (dlookup states r) (\<lambda>st. Inr (update_timer r st m))) resources m"

definition stop_timer :: "rid \<Rightarrow> timer_manager \<Rightarrow> timer_manager" where
  "stop_timer r m = (if has_key (tm_resource_timers m) r then upd_timer r timer_cancel m else m)"

definition stop_timers :: "rid list \<Rightarrow> timer_manager \<Rightarrow> timer_manager" where
  "stop_timers resources m = fold stop_timer resources m"

definition remove_timers :: "rid list \<Rightarrow> timer_manager \<Rightarrow> timer_manager" where
  "remove_timers resources m0 =
     fold (\<lambda>r m. m\<lparr>tm_resource_timers := ddel (tm_resource_timers m) r\<rparr>) resources (stop_timers resources m0)"

section \<open>When a resource is due\<close>

definition due :: "timer_manager \<Rightarrow> rid \<Rightarrow> time option" where
  "due m r = (case map_of (tm_resource_timers m) r of None \<Rightarrow> None | Some t \<Rightarrow> rt_next_schedule_handle t)"

definition timer_ok :: "resource_timer \<Rightarrow> bool" where
  \<comment> \<open>the callback is scheduled at the recorded time, and knows its reason and priority\<close>
  "timer_ok t \<longleftrightarrow> rt_next_schedule_handle t = rt_next_scheduled_time t
     \<and> (rt_next_schedule_handle t \<noteq> None \<longrightarrow> rt_reason t \<noteq> None \<and> rt_priority t \<noteq> None)"

definition tm_inv :: "timer_manager \<Rightarrow> bool" where
  "tm_inv m \<longleftrightarrow> wf_dict (tm_resource_timers m)
     \<and> (\<forall>r t. map_of (tm_resource_timers m) r = Some t \<longrightarrow> timer_ok t)
     \<and> (\<forall>n. tm_periodic_repair_interval m = Some n \<longrightarrow> n > 0) \<and> (\<forall>n. tm_periodic_deploy_interval m = Some n \<longrightarrow> n > 0)"

text \<open>What the documentation of the class promises.\<close>

definition due_spec :: "int option \<Rightarrow> int option \<Rightarrow> resource_state \<Rightarrow> time option \<Rightarrow> time option" where
  "due_spec repair_interval deploy_interval state before =
     (if rs_blocked state = BLOCKED \<or> repair_interval = None \<and> deploy_interval = None then None
      else case rs_last_deployed state of
             None \<Rightarrow> before
           | Some ld \<Rightarrow>
               if rs_blocked state = TEMPORARILY_BLOCKED \<or> rs_compliance state = COMPLIANT
               then map_option (\<lambda>n. ld + n) repair_interval
               else Some (ld + (case (repair_interval, deploy_interval) of
                      (Some rn, Some dn) \<Rightarrow> min rn dn | (Some rn, None) \<Rightarrow> rn | (None, Some dn) \<Rightarrow> dn | _ \<Rightarrow> 0)))"

lemma timer_ok_set [simp]: "timer_ok t \<Longrightarrow> timer_ok (set_timer w reason p t)"
  by (auto simp: timer_ok_def set_timer_def timer_cancel_def Let_def)

lemma timer_ok_cancel [simp]: "timer_ok (timer_cancel t)"
  by (simp add: timer_ok_def timer_cancel_def)

lemma handle_set: "timer_ok t \<Longrightarrow> rt_next_schedule_handle (set_timer w reason p t) = Some w"
  by (auto simp: timer_ok_def set_timer_def timer_cancel_def Let_def)

lemma handle_cancel [simp]: "rt_next_schedule_handle (timer_cancel t) = None"
  by (simp add: timer_cancel_def)

lemma tm_inv_upd:
  assumes "tm_inv m" "\<And>t. timer_ok t \<Longrightarrow> timer_ok (f t)"
  shows "tm_inv (upd_timer r f m)"
  using assms by (auto simp: tm_inv_def upd_timer_def split: option.splits)

lemma due_upd: "due (upd_timer r f m) x = (if x = r then (case map_of (tm_resource_timers m) r of
    None \<Rightarrow> None | Some t \<Rightarrow> rt_next_schedule_handle (f t)) else due m x)"
  by (auto simp: due_def upd_timer_def split: option.splits)

lemma make_known_ok:
  assumes "tm_inv m"
  shows "tm_inv (make_known r m)" "due (make_known r m) x = due m x"
    "\<exists>t. map_of (tm_resource_timers (make_known r m)) r = Some t \<and> timer_ok t"
    "tm_periodic_repair_interval (make_known r m) = tm_periodic_repair_interval m"
    "tm_periodic_deploy_interval (make_known r m) = tm_periodic_deploy_interval m"
  using assms by (auto simp: make_known_def tm_inv_def due_def new_timer_def timer_ok_def has_key_def)

lemma update_timer_ok:
  assumes inv: "tm_inv m"
  shows "tm_inv (update_timer r state m)"
    and "due (update_timer r state m) x = (if x = r
      then due_spec (tm_periodic_repair_interval m) (tm_periodic_deploy_interval m) state (due m r) else due m x)"
proof -
  note k = make_known_ok [OF inv, of r]
  obtain t where t: "map_of (tm_resource_timers (make_known r m)) r = Some t" "timer_ok t" using k(3) by blast
  have pos: "tm_periodic_repair_interval m = Some n \<Longrightarrow> n \<noteq> 0" for n using inv by (auto simp: tm_inv_def)
  have c: "rs_blocked state = BLOCKED \<or> rs_blocked state = NOT_BLOCKED \<or> rs_blocked state = TEMPORARILY_BLOCKED"
    by (cases "rs_blocked state") auto
  show "tm_inv (update_timer r state m)"
    unfolding update_timer_def Let_def using k(1)
    by (auto intro!: tm_inv_upd split: option.split blocked.split)
  show "due (update_timer r state m) x = (if x = r
      then due_spec (tm_periodic_repair_interval m) (tm_periodic_deploy_interval m) state (due m r) else due m x)"
    using c pos
    by (cases "tm_periodic_repair_interval m"; cases "tm_periodic_deploy_interval m"; cases "rs_last_deployed state")
      (auto simp: update_timer_def Let_def k(2,4,5) due_upd t(1) handle_set [OF t(2)] due_spec_def min_def)
qed

section \<open>Cron tasks\<close>

definition cron_inv :: "timer_manager \<Rightarrow> bool" where
  \<comment> \<open>the scheduled actions are those that the manager remembers, one for each kind\<close>
  "cron_inv m \<longleftrightarrow> \<not> cs_stopped (tm_cron_scheduler m)
     \<and> set (cs_scheduled (tm_cron_scheduler m))
         = set_option (tm_global_periodic_repair_task m) \<union> set_option (tm_global_periodic_deploy_task m)
     \<and> (\<forall>t \<in> set (cs_scheduled (tm_cron_scheduler m)). ct_id t < cs_next (tm_cron_scheduler m))
     \<and> (\<forall>t \<in> set_option (tm_global_periodic_repair_task m). ct_action t = GlobalRepair)
     \<and> (\<forall>t \<in> set_option (tm_global_periodic_deploy_task m). ct_action t = GlobalDeploy)"

definition same_but_cron :: "timer_manager \<Rightarrow> timer_manager \<Rightarrow> bool" where
  "same_but_cron m m' \<longleftrightarrow> tm_resource_timers m' = tm_resource_timers m
     \<and> tm_periodic_repair_interval m' = tm_periodic_repair_interval m
     \<and> tm_periodic_deploy_interval m' = tm_periodic_deploy_interval m"

lemma cs_add_remove [simp]:
  "\<not> cs_stopped s \<Longrightarrow> fst (cs_add_action a c s) = Some \<lparr>ct_action = a, ct_schedule = c, ct_id = cs_next s\<rparr>"
  "\<not> cs_stopped s \<Longrightarrow> set (cs_scheduled (snd (cs_add_action a c s)))
     = insert \<lparr>ct_action = a, ct_schedule = c, ct_id = cs_next s\<rparr> (set (cs_scheduled s))"
  "\<not> cs_stopped s \<Longrightarrow> cs_next (snd (cs_add_action a c s)) = Suc (cs_next s)"
  "cs_stopped (snd (cs_add_action a c s)) = cs_stopped s"
  "set (cs_scheduled (cs_remove t s)) = set (cs_scheduled s) - {t}" "cs_next (cs_remove t s) = cs_next s"
  "cs_stopped (cs_remove t s) = cs_stopped s"
  by (auto simp: cs_add_action_def cs_remove_def Let_def)

lemma update_global_timer_ok:
  assumes "\<not> cs_stopped s" "\<forall>t \<in> set (cs_scheduled s). ct_id t < cs_next s"
    and "\<forall>t \<in> set_option prev. t \<in> set (cs_scheduled s) \<and> ct_action t = a"
  shows "case update_global_timer ok cron prev a s of
      Inl e \<Rightarrow> e = ValueError \<and> (\<exists>c. cron = Some c \<and> \<not> ok c)
    | Inr p \<Rightarrow> (\<forall>c. cron = Some c \<longrightarrow> ok c) \<and> map_option ct_schedule (fst p) = cron \<and> \<not> cs_stopped (snd p)
        \<and> set (cs_scheduled (snd p)) = (set (cs_scheduled s) - set_option prev) \<union> set_option (fst p)
        \<and> (\<forall>t \<in> set (cs_scheduled (snd p)). ct_id t < cs_next (snd p))
        \<and> (\<forall>t \<in> set_option (fst p). ct_action t = a \<and> (prev = Some t \<or> t \<notin> set (cs_scheduled s)))"
proof (cases cron)
  case None
  then show ?thesis using assms by (cases prev) (auto simp: update_global_timer_def)
next
  case (Some c)
  have fresh: "\<lparr>ct_action = a, ct_schedule = c, ct_id = cs_next s\<rparr> \<notin> set (cs_scheduled s)"
    using assms(2) by fastforce
  show ?thesis
  proof (cases prev)
    case None
    then show ?thesis using assms Some fresh
      by (auto simp: update_global_timer_def less_Suc_eq split: prod.split)
  next
    case (Some p)
    then show ?thesis using assms \<open>cron = Some c\<close> fresh
      by (auto simp: update_global_timer_def less_Suc_eq split: prod.split)
  qed
qed

lemma update_global_repair_ok:
  assumes inv: "cron_inv m"
  shows "case update_global_repair ok cron m of
      Inl e \<Rightarrow> e = ValueError \<and> (\<exists>c. cron = Some c \<and> \<not> ok c)
    | Inr m' \<Rightarrow> cron_inv m' \<and> same_but_cron m m' \<and> (\<forall>c. cron = Some c \<longrightarrow> ok c)
        \<and> map_option ct_schedule (tm_global_periodic_repair_task m') = cron
        \<and> tm_global_periodic_deploy_task m' = tm_global_periodic_deploy_task m"
proof -
  have d: "set_option (tm_global_periodic_repair_task m) \<inter> set_option (tm_global_periodic_deploy_task m) = {}"
    using inv by (fastforce simp: cron_inv_def)
  note u = update_global_timer_ok [of "tm_cron_scheduler m" "tm_global_periodic_repair_task m" GlobalRepair cron ok]
  show ?thesis
    using inv d u by (auto simp: update_global_repair_def cron_inv_def same_but_cron_def rbind_def split: sum.splits)
qed

lemma update_global_deploy_ok:
  assumes inv: "cron_inv m"
  shows "case update_global_deploy ok cron m of
      Inl e \<Rightarrow> e = ValueError \<and> (\<exists>c. cron = Some c \<and> \<not> ok c)
    | Inr m' \<Rightarrow> cron_inv m' \<and> same_but_cron m m' \<and> (\<forall>c. cron = Some c \<longrightarrow> ok c)
        \<and> map_option ct_schedule (tm_global_periodic_deploy_task m') = cron
        \<and> tm_global_periodic_repair_task m' = tm_global_periodic_repair_task m"
proof -
  have d: "set_option (tm_global_periodic_repair_task m) \<inter> set_option (tm_global_periodic_deploy_task m) = {}"
    using inv by (fastforce simp: cron_inv_def)
  note u = update_global_timer_ok [of "tm_cron_scheduler m" "tm_global_periodic_deploy_task m" GlobalDeploy cron ok]
  show ?thesis
    using inv d u by (auto simp: update_global_deploy_def cron_inv_def same_but_cron_def rbind_def split: sum.splits)
qed

lemma map_of_cancel_all: "map_of (cancel_all d) r = map_option timer_cancel (map_of d r)"
  by (induction d) (auto simp: cancel_all_def)

lemma wf_cancel_all [simp]: "wf_dict (cancel_all d) = wf_dict d"
proof -
  have "map fst (cancel_all d) = map fst d" by (induction d) (auto simp: cancel_all_def)
  then show ?thesis by (simp add: wf_dict_def)
qed

lemma parse_setting_pos: "snd (parse_setting s) = Some n \<Longrightarrow> n > 0"
  by (auto simp: parse_setting_def split: option.splits if_splits)

lemma tm_inv_fields:
  assumes "tm_inv m" "same_but_cron m m'"
  shows "tm_inv m'"
  using assms by (simp add: tm_inv_def same_but_cron_def)

section \<open>Properties\<close>

text \<open>
  C10: \<open>update_timer\<close> leaves the timers of other resources alone. A blocked resource, or one for
  which neither interval is set, has no timer; a compliant or temporarily blocked one is due for
  a repair; any other one is due at the earlier of the repair and the deploy interval, counted
  from its last deploy. Without a last deploy the timer is not touched.
\<close>

theorem update_timer_due:
  assumes "tm_inv m"
  shows "tm_inv (update_timer r state m) \<and> due (update_timer r state m) x = (if x = r
      then due_spec (tm_periodic_repair_interval m) (tm_periodic_deploy_interval m) state (due m r) else due m x)"
  using update_timer_ok [OF assms] by blast

definition interval_manager :: timer_manager where
  "interval_manager = tm_init\<lparr>tm_periodic_repair_interval := Some 600, tm_periodic_deploy_interval := Some 60\<rparr>"

theorem update_timer_due_witness:
  "due (update_timer ''a'' \<lparr>rs_compliance = NON_COMPLIANT, rs_last_handler_run = FAILED, rs_blocked = NOT_BLOCKED,
     rs_last_deployed = Some 1000, rs_last_handler_run_compliant = Some False\<rparr> interval_manager) ''a'' = Some 1060"
proof -
  have "tm_inv interval_manager" by (simp add: interval_manager_def tm_init_def tm_inv_def)
  from update_timer_due [OF this, of "''a''" _ "''a''"] show ?thesis
    by (simp add: due_spec_def interval_manager_def tm_init_def)
qed

text \<open>
  reloading the configuration raises only for a setting that is neither a number nor a valid
  cron expression. Otherwise the intervals are those of the settings (no interval for zero or a
  negative number), and the cron scheduler runs exactly one action for each setting that is a
  cron expression, with that expression, and no other. \<open>reload_all_timers\<close> may change timers
  of resources only.
\<close>

theorem reload_config_follows_settings:
  assumes "tm_inv m" and "cron_inv m"
    and "\<And>m. tm_inv m \<Longrightarrow> tm_inv (reload m) \<and> reload m = m\<lparr>tm_resource_timers := tm_resource_timers (reload m)\<rparr>"
  shows "case reload_config cron_ok deploy_timer repair_timer reload m of
      Inl e \<Rightarrow> e = ValueError \<and> (\<exists>c. (fst (parse_setting deploy_timer) = Some c \<or> fst (parse_setting repair_timer) = Some c) \<and> \<not> cron_ok c)
    | Inr m' \<Rightarrow> tm_inv m' \<and> cron_inv m'
        \<and> (tm_periodic_deploy_interval m', tm_periodic_repair_interval m') = (snd (parse_setting deploy_timer), snd (parse_setting repair_timer))
        \<and> map_option ct_schedule (tm_global_periodic_deploy_task m') = fst (parse_setting deploy_timer)
        \<and> map_option ct_schedule (tm_global_periodic_repair_task m') = fst (parse_setting repair_timer)"
proof -
  obtain dc di where d: "parse_setting deploy_timer = (dc, di)" by (metis surj_pair)
  obtain rc ri where r: "parse_setting repair_timer = (rc, ri)" by (metis surj_pair)
  have pos: "di = Some n \<Longrightarrow> n > 0" "ri = Some n \<Longrightarrow> n > 0" for n
    using parse_setting_pos [of deploy_timer n] parse_setting_pos [of repair_timer n] d r by auto
  define m1 where "m1 = (if ri = None \<and> di = None then m\<lparr>tm_periodic_repair_interval := ri,
      tm_periodic_deploy_interval := di, tm_resource_timers := cancel_all (tm_resource_timers m)\<rparr> else m)"
  have m1: "tm_inv m1" "cron_inv m1"
    using assms(1,2) by (auto simp: m1_def tm_inv_def cron_inv_def map_of_cancel_all)
  note rp = update_global_repair_ok [OF m1(2), of rc cron_ok]
  show ?thesis
  proof (cases "update_global_repair cron_ok rc m1")
    case (Inl e)
    then show ?thesis using rp by (auto simp: reload_config_def d r m1_def [symmetric] Let_def)
  next
    case (Inr m2)
    with rp have m2: "cron_inv m2" "same_but_cron m1 m2" "map_option ct_schedule (tm_global_periodic_repair_task m2) = rc"
      by auto
    note dp = update_global_deploy_ok [OF m2(1), of dc cron_ok]
    show ?thesis
    proof (cases "update_global_deploy cron_ok dc m2")
      case (Inl e)
      then show ?thesis using dp Inr by (auto simp: reload_config_def d r m1_def [symmetric] Let_def)
    next
      case (Inr m3)
      with dp have m3: "cron_inv m3" "same_but_cron m2 m3" "map_option ct_schedule (tm_global_periodic_deploy_task m3) = dc"
        "tm_global_periodic_repair_task m3 = tm_global_periodic_repair_task m2" by auto
      have i3: "tm_inv m3" using tm_inv_fields m1(1) m2(2) m3(2) by blast
      let ?m4 = "m3\<lparr>tm_periodic_repair_interval := ri, tm_periodic_deploy_interval := di\<rparr>"
      have i4: "tm_inv ?m4" using i3 pos by (simp add: tm_inv_def)
      obtain ts where ts: "reload ?m4 = ?m4\<lparr>tm_resource_timers := ts\<rparr>" "tm_inv (reload ?m4)"
        using assms(3) [OF i4] by blast
      have "cron_inv (reload ?m4)" using m3(1) by (simp add: ts(1) cron_inv_def)
      then show ?thesis
        using \<open>update_global_repair cron_ok rc m1 = Inr m2\<close> Inr i3 ts m2(3) m3
        by (auto simp: reload_config_def d r m1_def [symmetric] Let_def)
    qed
  qed
qed

theorem reload_config_follows_settings_witness:
  "case reload_config (\<lambda>c. c = ''0 1 * * *'') '' 60 '' ''0 1 * * *'' (\<lambda>m. m) tm_init of
     Inl _ \<Rightarrow> False
   | Inr m \<Rightarrow> tm_periodic_deploy_interval m = Some 60 \<and> map_option ct_schedule (tm_global_periodic_repair_task m) = Some ''0 1 * * *''"
proof -
  have "tm_inv tm_init" "cron_inv tm_init" by (simp_all add: tm_init_def tm_inv_def cron_inv_def new_cron_scheduler_def)
  moreover have "parse_setting '' 60 '' = (None, Some 60)" "parse_setting ''0 1 * * *'' = (Some ''0 1 * * *'', None)"
    by code_simp+
  ultimately show ?thesis
    using reload_config_follows_settings [where m = tm_init and reload = "\<lambda>m. m" and cron_ok = "\<lambda>c. c = ''0 1 * * *''"
        and deploy_timer = "'' 60 ''" and repair_timer = "''0 1 * * *''"]
    by (auto split: sum.splits)
qed

end
