(* ===== verification/Bidirectional_Mapping.thy ===== *)
theory Bidirectional_Mapping
  imports Core_Prelude
begin

text \<open>
  The many-to-many mapping with a maintained inverse of
  \<open>src/src/inmanta/util/collections.py\<close>, which carries the requires/provides relation of the
  resource scheduler. The state is the pair of dictionaries of the class; the reverse view
  of \<open>reverse_mapping()\<close> shares them, so an operation on the view is the operation on the
  swapped pair.
\<close>

section \<open>State and operations\<close>

record ('s, 't) bimap =
  bm_primary :: "('s, 't pyset) dict"
  bm_reverse :: "('t, 's pyset) dict"

definition reverse_add :: "'k \<Rightarrow> 'v \<Rightarrow> ('v, 'k pyset) dict \<Rightarrow> ('v, 'k pyset) dict" where
  \<comment> \<open>create the entry of \<open>v\<close> if it is missing, then \<open>reverse[v].add(key)\<close>\<close>
  "reverse_add key v rv =
     (let rev1 = (if has_key rv v then rv else dset rv v []) in dset rev1 v (sadd key (dget rev1 v [])))"

definition reverse_remove :: "'k \<Rightarrow> 'v \<Rightarrow> ('v, 'k pyset) dict \<Rightarrow> ('v, 'k pyset) dict result" where
  \<comment> \<open>\<open>reverse[v].remove(key)\<close>, which raises where the entry or the element is missing\<close>
  "reverse_remove key v rv =
     rbind (dlookup rv v) (\<lambda>ks. if key \<in> set ks then Inr (dset rv v (sdiscard key ks)) else Inl KeyError)"

definition bm_set_dicts ::
  "('k, 'v pyset) dict \<Rightarrow> ('v, 'k pyset) dict \<Rightarrow> 'k \<Rightarrow> 'v pyset
    \<Rightarrow> (('k, 'v pyset) dict \<times> ('v, 'k pyset) dict) result" where
  \<comment> \<open>the static method \<open>_set\<close>\<close>
  "bm_set_dicts primary rv key values =
     (let current = dget primary key [];
          new = sdiff values current;
          missing = sdiff current values;
          primary' = dset primary key values;
          rev1 = fold (reverse_add key) new rv
      in rbind (rfold (reverse_remove key) missing rev1) (\<lambda>rev2. Inr (primary', rev2)))"

definition bm_get :: "('s, 't) bimap \<Rightarrow> 's \<Rightarrow> 't pyset result" where
  "bm_get m key = dlookup (bm_primary m) key"

definition bm_set :: "'s \<Rightarrow> 't pyset \<Rightarrow> ('s, 't) bimap \<Rightarrow> ('s, 't) bimap result" where
  "bm_set key value m =
     rbind (bm_set_dicts (bm_primary m) (bm_reverse m) key value)
       (\<lambda>(p, r). Inr \<lparr>bm_primary = p, bm_reverse = r\<rparr>)"

definition bm_del :: "'s \<Rightarrow> ('s, 't) bimap \<Rightarrow> ('s, 't) bimap result" where
  "bm_del key m =
     (if \<not> has_key (bm_primary m) key then Inl KeyError
      else rbind (bm_set key [] m) (\<lambda>m1. Inr (m1\<lparr>bm_primary := ddel (bm_primary m1) key\<rparr>)))"

definition bm_iter :: "('s, 't) bimap \<Rightarrow> 's list" where
  "bm_iter m = dkeys (bm_primary m)"

definition bm_len :: "('s, 't) bimap \<Rightarrow> nat" where
  "bm_len m = length (bm_primary m)"

definition reverse_mapping :: "('s, 't) bimap \<Rightarrow> ('t, 's) bimap" where
  "reverse_mapping m = \<lparr>bm_primary = bm_reverse m, bm_reverse = bm_primary m\<rparr>"

definition get_reverse :: "('s, 't) bimap \<Rightarrow> 't \<Rightarrow> 's pyset option" where
  "get_reverse m key = map_of (bm_reverse m) key"

definition set_reverse :: "'t \<Rightarrow> 's pyset \<Rightarrow> ('s, 't) bimap \<Rightarrow> ('s, 't) bimap result" where
  "set_reverse key values m =
     rbind (bm_set_dicts (bm_reverse m) (bm_primary m) key values)
       (\<lambda>(p, r). Inr \<lparr>bm_primary = r, bm_reverse = p\<rparr>)"

definition del_reverse :: "'t \<Rightarrow> ('s, 't) bimap \<Rightarrow> ('s, 't) bimap result" where
  \<comment> \<open>\<open>del m.reverse_mapping()[key]\<close>\<close>
  "del_reverse key m = rbind (bm_del key (reverse_mapping m)) (\<lambda>r. Inr (reverse_mapping r))"

definition bm_clear :: "('s, 't) bimap \<Rightarrow> ('s, 't) bimap result" where
  \<comment> \<open>\<open>MutableMapping.clear\<close>: pop the first key until there is none\<close>
  "bm_clear m = rfold bm_del (bm_iter m) m"

definition bm_empty :: "('s, 't) bimap" where
  "bm_empty = \<lparr>bm_primary = [], bm_reverse = []\<rparr>"

definition bm_init :: "('s, 't pyset) dict \<Rightarrow> ('s, 't) bimap result" where
  \<comment> \<open>\<open>__init__\<close> with a mapping\<close>
  "bm_init mapping = rfold (\<lambda>(key, values) m. bm_set key values m) mapping bm_empty"

section \<open>Both directions as relations\<close>

definition fwd :: "('s, 't) bimap \<Rightarrow> 's \<Rightarrow> 't set" where
  "fwd m s = set (dget (bm_primary m) s [])"

definition bwd :: "('s, 't) bimap \<Rightarrow> 't \<Rightarrow> 's set" where
  "bwd m t = set (dget (bm_reverse m) t [])"

definition wf_sets :: "('k, 'v pyset) dict \<Rightarrow> bool" where
  "wf_sets d \<longleftrightarrow> wf_dict d \<and> (\<forall>k. distinct (dget d k []))"

definition bm_inv :: "('s, 't) bimap \<Rightarrow> bool" where
  "bm_inv m \<longleftrightarrow> (\<forall>s t. t \<in> fwd m s \<longleftrightarrow> s \<in> bwd m t)
     \<and> wf_sets (bm_primary m) \<and> wf_sets (bm_reverse m)"

lemma wf_sets_dset [simp]: "wf_sets d \<Longrightarrow> distinct vs \<Longrightarrow> wf_sets (dset d k vs)"
  by (simp add: wf_sets_def dict_simps)

lemma wf_sets_ddel [simp]: "wf_sets d \<Longrightarrow> wf_sets (ddel d k)"
  by (simp add: wf_sets_def dict_simps)

lemma wf_sets_distinct: "wf_sets d \<Longrightarrow> distinct (dget d k [])"
  by (simp add: wf_sets_def)

lemma fwd_reverse [simp]: "fwd (reverse_mapping m) = bwd m"
  by (simp add: fun_eq_iff fwd_def bwd_def reverse_mapping_def)

lemma bwd_reverse [simp]: "bwd (reverse_mapping m) = fwd m"
  by (simp add: fun_eq_iff fwd_def bwd_def reverse_mapping_def)

lemma reverse_reverse [simp]: "reverse_mapping (reverse_mapping m) = m"
  by (simp add: reverse_mapping_def)

lemma primary_reverse [simp]: "bm_primary (reverse_mapping m) = bm_reverse m"
  by (simp add: reverse_mapping_def)

lemma bm_inv_reverse [simp]: "bm_inv (reverse_mapping m) = bm_inv m"
  by (auto simp: bm_inv_def reverse_mapping_def fwd_def bwd_def)

lemma set_reverse_eq: "set_reverse key values m =
    rbind (bm_set key values (reverse_mapping m)) (\<lambda>r. Inr (reverse_mapping r))"
  by (auto simp: set_reverse_def bm_set_def reverse_mapping_def rbind_def split: sum.splits)

lemma reverse_add_get: "set (dget (reverse_add key v rv) w []) =
    (if w = v then insert key (set (dget rv v [])) else set (dget rv w []))"
  by (auto simp: reverse_add_def Let_def dict_simps)

lemma fold_reverse_add_get: "set (dget (fold (reverse_add key) vs rv) w []) =
    (if w \<in> set vs then insert key (set (dget rv w [])) else set (dget rv w []))"
  by (induction vs arbitrary: rv) (auto simp: reverse_add_get)

lemma wf_reverse_add [simp]: "wf_sets rv \<Longrightarrow> wf_sets (reverse_add key v rv)"
  by (simp add: reverse_add_def Let_def dict_simps wf_sets_distinct)

lemma wf_fold_reverse_add [simp]: "wf_sets rv \<Longrightarrow> wf_sets (fold (reverse_add key) vs rv)"
  by (induction vs arbitrary: rv) auto

lemma has_key_reverse_add: "has_key (reverse_add key v rv) w \<longleftrightarrow> w = v \<or> has_key rv w"
  by (auto simp: reverse_add_def Let_def)

lemma has_key_fold_reverse_add:
  "has_key (fold (reverse_add key) vs rv) w \<longleftrightarrow> w \<in> set vs \<or> has_key rv w"
proof (induction vs arbitrary: rv)
  case (Cons v vs)
  show ?case unfolding fold_simps comp_def Cons.IH by (auto simp: has_key_reverse_add)
qed simp

lemma reverse_remove_ok:
  assumes "key \<in> set (dget rv v [])"
  shows "\<exists>r. reverse_remove key v rv = Inr r
    \<and> (\<forall>w. set (dget r w []) = (if w = v then set (dget rv v []) - {key} else set (dget rv w [])))
    \<and> (\<forall>w. has_key r w = has_key rv w) \<and> (wf_sets rv \<longrightarrow> wf_sets r)"
proof -
  from assms obtain ks where ks: "map_of rv v = Some ks" "key \<in> set ks"
    by (cases "map_of rv v") auto
  then show ?thesis
    using wf_sets_distinct [of rv v]
    by (intro exI [of _ "dset rv v (sdiscard key ks)"]) (auto simp: reverse_remove_def dict_simps)
qed

lemma rfold_reverse_remove:
  assumes "\<forall>v \<in> set vs. key \<in> set (dget rv v [])" "distinct vs"
  shows "\<exists>r. rfold (reverse_remove key) vs rv = Inr r
    \<and> (\<forall>w. set (dget r w []) = (if w \<in> set vs then set (dget rv w []) - {key} else set (dget rv w [])))
    \<and> (\<forall>w. has_key r w = has_key rv w) \<and> (wf_sets rv \<longrightarrow> wf_sets r)"
  using assms
proof (induction vs arbitrary: rv)
  case (Cons v vs)
  from Cons.prems obtain r1 where r1: "reverse_remove key v rv = Inr r1"
    "\<And>w. set (dget r1 w []) = (if w = v then set (dget rv v []) - {key} else set (dget rv w []))"
    "\<And>w. has_key r1 w = has_key rv w" "wf_sets rv \<longrightarrow> wf_sets r1"
    using reverse_remove_ok [of key rv v] by auto
  have "\<forall>v' \<in> set vs. key \<in> set (dget r1 v' [])" using Cons.prems r1(2) by auto
  from Cons.IH [OF this] Cons.prems(2) obtain r where
    "rfold (reverse_remove key) vs r1 = Inr r"
    "\<forall>w. set (dget r w []) = (if w \<in> set vs then set (dget r1 w []) - {key} else set (dget r1 w []))"
    "\<forall>w. has_key r w = has_key r1 w" "wf_sets r1 \<longrightarrow> wf_sets r"
    by auto
  with r1 Cons.prems(2) show ?case by auto
qed simp

text \<open>One assignment: it cannot raise under the invariant, keeps it, and changes one key.\<close>

lemma bm_set_ok:
  assumes inv: "bm_inv m" and d: "distinct value"
  shows "\<exists>m'. bm_set key value m = Inr m' \<and> bm_inv m' \<and> fwd m' = (fwd m)(key := set value)
    \<and> map_of (bm_primary m') = (map_of (bm_primary m))(key \<mapsto> value)
    \<and> (\<forall>t. has_key (bm_reverse m') t \<longleftrightarrow> has_key (bm_reverse m) t \<or> t \<in> set value - fwd m key)"
proof -
  let ?cur = "dget (bm_primary m) key []"
  let ?r1 = "fold (reverse_add key) (sdiff value ?cur) (bm_reverse m)"
  have cur: "t \<in> set ?cur \<longleftrightarrow> key \<in> bwd m t" for t
    using inv by (auto simp: bm_inv_def fwd_def)
  have r1: "set (dget ?r1 w []) = (if w \<in> set value - set ?cur then insert key (bwd m w) else bwd m w)" for w
    by (simp add: fold_reverse_add_get bwd_def)
  have "\<forall>v \<in> set (sdiff ?cur value). key \<in> set (dget ?r1 v [])"
    using cur by (auto simp: r1)
  moreover have "distinct (sdiff ?cur value)"
    using inv by (simp add: bm_inv_def wf_sets_distinct)
  ultimately obtain r where r:
    "rfold (reverse_remove key) (sdiff ?cur value) ?r1 = Inr r"
    "\<And>w. set (dget r w []) = (if w \<in> set ?cur - set value then set (dget ?r1 w []) - {key} else set (dget ?r1 w []))"
    "\<And>w. has_key r w = has_key ?r1 w" "wf_sets ?r1 \<Longrightarrow> wf_sets r"
    using rfold_reverse_remove [of "sdiff ?cur value" key ?r1] by auto
  let ?m' = "\<lparr>bm_primary = dset (bm_primary m) key value, bm_reverse = r\<rparr>"
  have "bm_set key value m = Inr ?m'"
    by (simp add: bm_set_def bm_set_dicts_def Let_def r(1))
  moreover have f: "fwd ?m' = (fwd m)(key := set value)"
    by (auto simp: fun_eq_iff fwd_def dict_simps)
  moreover have "bm_inv ?m'"
  proof -
    have "t \<in> fwd ?m' s \<longleftrightarrow> s \<in> bwd ?m' t" for s t
      using inv cur by (auto simp: f bwd_def r(2) r1 bm_inv_def fwd_def)
    moreover have "wf_sets (bm_primary m)" "wf_sets (bm_reverse m)" using inv by (auto simp: bm_inv_def)
    ultimately show ?thesis using r(4) d by (simp add: bm_inv_def)
  qed
  ultimately show ?thesis
    using r(3) by (auto simp: has_key_fold_reverse_add fwd_def)
qed


lemma bm_del_ok:
  assumes inv: "bm_inv m" and k: "has_key (bm_primary m) key"
  shows "\<exists>m'. bm_del key m = Inr m' \<and> bm_inv m' \<and> fwd m' = (fwd m)(key := {})
    \<and> map_of (bm_primary m') = (map_of (bm_primary m))(key := None)
    \<and> (\<forall>t. has_key (bm_reverse m') t = has_key (bm_reverse m) t)"
proof -
  obtain m1 where m1: "bm_set key [] m = Inr m1" "bm_inv m1" "fwd m1 = (fwd m)(key := {})"
    "map_of (bm_primary m1) = (map_of (bm_primary m))(key \<mapsto> [])"
    "\<forall>t. has_key (bm_reverse m1) t = has_key (bm_reverse m) t"
    using bm_set_ok [OF inv, of "[]" key] by auto
  let ?m' = "m1\<lparr>bm_primary := ddel (bm_primary m1) key\<rparr>"
  have f: "fwd ?m' = (fwd m)(key := {})"
    using m1(3) by (auto simp: fun_eq_iff fwd_def dict_simps)
  have b: "bwd ?m' = bwd m1" by (simp add: fun_eq_iff bwd_def)
  have "bm_inv ?m'" using m1(2,3) by (simp add: bm_inv_def f b)
  then show ?thesis using k m1 f by (simp add: bm_del_def)
qed

lemma bm_del_missing: "\<not> has_key (bm_primary m) key \<Longrightarrow> bm_del key m = Inl KeyError"
  by (simp add: bm_del_def)

lemma bm_inv_empty [simp]: "bm_inv bm_empty"
  by (simp add: bm_inv_def bm_empty_def fwd_def bwd_def wf_sets_def)

lemma bwd_eq: "bm_inv m \<Longrightarrow> bwd m t = {s. t \<in> fwd m s}"
  by (auto simp: bm_inv_def)

lemma fwd_eq: "bm_inv m \<Longrightarrow> fwd m s = {t. s \<in> bwd m t}"
  by (auto simp: bm_inv_def)

lemma bm_set_converse: "bm_inv m \<Longrightarrow> t \<in> fwd m s \<longleftrightarrow> s \<in> bwd m t"
  by (simp add: bm_inv_def)

lemma set_reverse_ok:
  assumes "bm_inv m" "distinct values"
  shows "\<exists>m'. set_reverse key values m = Inr m' \<and> bm_inv m' \<and> bwd m' = (bwd m)(key := set values)"
  using bm_set_ok [of "reverse_mapping m" "values" key] assms
  by (auto simp: set_reverse_eq)

lemma del_reverse_ok:
  assumes "bm_inv m" "has_key (bm_reverse m) key"
  shows "\<exists>m'. del_reverse key m = Inr m' \<and> bm_inv m' \<and> bwd m' = (bwd m)(key := {})
    \<and> (\<forall>s. has_key (bm_primary m') s = has_key (bm_primary m) s)"
proof -
  have r: "bm_reverse (reverse_mapping x) = bm_primary x" for x :: "('a, 'b) bimap"
    by (simp add: reverse_mapping_def)
  show ?thesis
    using bm_del_ok [of "reverse_mapping m" key] assms
    by (auto simp: del_reverse_def r)
qed

lemma fwd_del_reverse: "bm_inv m \<Longrightarrow> bm_inv m' \<Longrightarrow> bwd m' = (bwd m)(key := {}) \<Longrightarrow> fwd m' s = fwd m s - {key}"
  by (auto simp: fwd_eq)

lemma bm_init_primary:
  assumes "distinct (map fst mapping)" "\<forall>(k, vs) \<in> set mapping. distinct vs"
  shows "\<exists>m. bm_init mapping = Inr m \<and> bm_inv m \<and> map_of (bm_primary m) = map_of mapping"
proof -
  have "\<exists>m'. rfold (\<lambda>(key, values) m. bm_set key values m) mapping m = Inr m' \<and> bm_inv m'
      \<and> map_of (bm_primary m') = map_of (bm_primary m) ++ map_of mapping" if "bm_inv m" for m :: "('a, 'b) bimap"
    using that assms
  proof (induction mapping arbitrary: m)
    case (Cons row rows)
    obtain k vs where row: "row = (k, vs)" by (cases row)
    with Cons.prems bm_set_ok [of m vs k] obtain m1 where m1: "bm_set k vs m = Inr m1" "bm_inv m1"
      "map_of (bm_primary m1) = (map_of (bm_primary m))(k \<mapsto> vs)" by auto
    from Cons.IH [OF m1(2)] Cons.prems obtain m' where "rfold (\<lambda>(key, values) m. bm_set key values m) rows m1 = Inr m'"
      "bm_inv m'" "map_of (bm_primary m') = map_of (bm_primary m1) ++ map_of rows" by auto
    moreover have "map_of rows k = None" using Cons.prems(2) row by (simp add: map_of_eq_None_iff)
    ultimately show ?case using m1 row
      by (auto simp: fun_eq_iff map_add_def split: option.splits)
  qed simp
  from this [OF bm_inv_empty] show ?thesis by (simp add: bm_init_def bm_empty_def)
qed

section \<open>The interface: a relation with assignable rows\<close>

text \<open>
  What the scheduler relies on: the two directions are converse, and an assignment replaces
  one row. Everything the other direction sees follows.
\<close>

locale many_to_many =
  fixes inv :: "'m \<Rightarrow> bool"
    and out :: "'m \<Rightarrow> 'a \<Rightarrow> 'b set"
    and inn :: "'m \<Rightarrow> 'b \<Rightarrow> 'a set"
    and assign :: "'a \<Rightarrow> 'b pyset \<Rightarrow> 'm \<Rightarrow> 'm result"
  assumes converse: "inv m \<Longrightarrow> b \<in> out m a \<longleftrightarrow> a \<in> inn m b"
    and assign_total: "inv m \<Longrightarrow> distinct bs \<Longrightarrow>
      \<exists>m'. assign a bs m = Inr m' \<and> inv m' \<and> out m' = (out m)(a := set bs)"
begin

lemma assign_inv: "inv m \<Longrightarrow> distinct bs \<Longrightarrow> assign a bs m = Inr m' \<Longrightarrow> inv m'"
  using assign_total [of m bs a] by auto

lemma assign_out: "inv m \<Longrightarrow> distinct bs \<Longrightarrow> assign a bs m = Inr m' \<Longrightarrow> out m' = (out m)(a := set bs)"
  using assign_total [of m bs a] by auto

lemma assign_inn:
  assumes "inv m" "distinct bs" "assign a bs m = Inr m'"
  shows "inn m' b = (if b \<in> set bs then insert a (inn m b) else inn m b - {a})"
proof -
  have "x \<in> inn m' b \<longleftrightarrow> b \<in> out m' x" for x
    using converse assign_inv [OF assms] by blast
  moreover have "x \<in> inn m b \<longleftrightarrow> b \<in> out m x" for x
    using converse assms(1) by blast
  ultimately show ?thesis
    by (auto simp: assign_out [OF assms] split: if_splits)
qed

lemma assign_all:
  assumes "inv m" "\<forall>(a, bs) \<in> set rows. distinct bs" "distinct (map fst rows)"
  shows "\<exists>m'. rfold (\<lambda>(a, bs). assign a bs) rows m = Inr m' \<and> inv m'
    \<and> (\<forall>a. out m' a = (case map_of rows a of None \<Rightarrow> out m a | Some bs \<Rightarrow> set bs))"
  using assms
proof (induction rows arbitrary: m)
  case (Cons row rows)
  obtain a bs where row: "row = (a, bs)" by (cases row)
  with Cons.prems assign_total obtain m1 where m1: "assign a bs m = Inr m1" "inv m1"
    "out m1 = (out m)(a := set bs)" by fastforce
  from Cons.IH [OF m1(2)] Cons.prems row obtain m' where m': "rfold (\<lambda>(a, bs). assign a bs) rows m1 = Inr m'"
    "inv m'" "\<forall>x. out m' x = (case map_of rows x of None \<Rightarrow> out m1 x | Some bs \<Rightarrow> set bs)"
    by auto
  have "map_of rows a = None" using Cons.prems(3) row by (simp add: map_of_eq_None_iff)
  with m' m1 row show ?case by (auto split: option.splits)
qed simp

end

interpretation reqs: many_to_many bm_inv fwd bwd bm_set
  by unfold_locales (auto simp: bm_set_converse dest: bm_set_ok)

interpretation provs: many_to_many bm_inv bwd fwd set_reverse
  by unfold_locales (auto simp: bm_set_converse set_reverse_ok)

section \<open>Properties\<close>

text \<open>
  C11: assigning a key of the mapping never raises from a consistent state, leaves the state
  consistent, replaces the values of that key and of no other, and the reverse side gains
  the key at exactly the new values and loses it everywhere else.
\<close>

theorem assignment_upholds_bidirectionality:
  assumes "bm_inv m" and "distinct values"
  shows "\<exists>m'. bm_set key values m = Inr m' \<and> bm_inv m'
    \<and> fwd m' = (fwd m)(key := set values)
    \<and> (\<forall>t. bwd m' t = (if t \<in> set values then insert key (bwd m t) else bwd m t - {key}))"
  using bm_set_ok [OF assms, of key] reqs.assign_inn [OF assms] by blast

theorem assignment_upholds_bidirectionality_witness:
  "\<exists>m'. bm_set (7::nat) [20, 30] \<lparr>bm_primary = [(7, [10::nat, 20])], bm_reverse = [(10, [7]), (20, [7])]\<rparr> = Inr m'
     \<and> bwd m' 10 = {} \<and> bwd m' 30 = {7}"
proof -
  let ?m = "\<lparr>bm_primary = [(7::nat, [10::nat, 20])], bm_reverse = [(10, [7]), (20, [7])]\<rparr>"
  have inv: "bm_inv ?m"
    by (auto simp: bm_inv_def fwd_def bwd_def wf_sets_def wf_dict_def dget_def split: if_splits)
  have "bwd ?m 10 = {7}" "bwd ?m 30 = {}" by (simp_all add: bwd_def dget_def)
  then show ?thesis
    using assignment_upholds_bidirectionality [OF inv, of "[20, 30]" 7] by auto
qed

text \<open>
  the constructor accepts any mapping of distinct keys to sets, and the object it builds
  is consistent and maps each key to its values and the reverse side to the keys.
\<close>

theorem constructor_builds_converse_relation:
  assumes "distinct (map fst mapping)" and "\<forall>(k, vs) \<in> set mapping. distinct vs"
  shows "\<exists>m. bm_init mapping = Inr m \<and> bm_inv m
    \<and> (\<forall>k. fwd m k = set (dget mapping k []))
    \<and> (\<forall>v. bwd m v = {k. v \<in> set (dget mapping k [])})"
proof -
  from reqs.assign_all [OF bm_inv_empty assms(2,1)] obtain m where m:
    "bm_init mapping = Inr m" "bm_inv m"
    "\<forall>k. fwd m k = (case map_of mapping k of None \<Rightarrow> fwd bm_empty k | Some vs \<Rightarrow> set vs)"
    by (auto simp: bm_init_def)
  then have "fwd m k = set (dget mapping k [])" for k
    by (simp add: dget_def fwd_def bm_empty_def split: option.splits)
  with m(1,2) bwd_eq [OF m(2)] show ?thesis by simp
qed

theorem constructor_builds_converse_relation_witness:
  "\<exists>m. bm_init [(1::nat, [10::nat, 20]), (2, [20])] = Inr m \<and> bwd m 20 = {1, 2}"
  using constructor_builds_converse_relation [of "[(1::nat, [10::nat, 20]), (2, [20])]"]
  by (auto simp: dget_def split: if_splits)

end
