(* ===== verification/Model_State.thy ===== *)
theory Model_State
  imports Resource_State Bidirectional_Mapping
begin

text \<open>
  The class \<open>ModelState\<close> of \<open>src/src/inmanta/deploy/state.py\<close>: intent and state of every
  resource of the managed model, the requires relation, the dirty set and the grouping by
  agent, with every operation but \<open>update_transitive_state\<close> (theory \<open>Transitive_State\<close>).
\<close>

section \<open>State\<close>

record model_state =
  ms_version :: int
  ms_intent :: "(rid, resource_intent) dict"
  ms_resource_sets :: "(string option, rid pyset) dict"
  ms_requires :: "(rid, rid) bimap"
  ms_resource_state :: "(rid, resource_state) dict"
  ms_dirty :: "rid pyset"
  ms_resources_by_agent :: "(string, rid pyset) dict"

definition empty_model_state :: "int \<Rightarrow> model_state" where
  "empty_model_state v = \<lparr>ms_version = v, ms_intent = [], ms_resource_sets = [], ms_requires = bm_empty,
     ms_resource_state = [], ms_dirty = [], ms_resources_by_agent = []\<rparr>"

definition requires_of :: "model_state \<Rightarrow> rid \<Rightarrow> rid pyset" where
  \<comment> \<open>\<open>self.requires.get(resource, set())\<close>\<close>
  "requires_of s r = dget (bm_primary (ms_requires s)) r []"

definition provides_of :: "model_state \<Rightarrow> rid \<Rightarrow> rid pyset" where
  \<comment> \<open>\<open>self.requires.provides_view().get(resource, set())\<close>\<close>
  "provides_of s r = dget (bm_reverse (ms_requires s)) r []"

definition upd_state :: "rid \<Rightarrow> (resource_state \<Rightarrow> resource_state) \<Rightarrow> model_state \<Rightarrow> model_state result" where
  \<comment> \<open>an assignment to a field of \<open>self.resource_state[resource]\<close>\<close>
  "upd_state r f s =
     rbind (dlookup (ms_resource_state s) r)
       (\<lambda>st. Inr (s\<lparr>ms_resource_state := dset (ms_resource_state s) r (f st)\<rparr>))"

definition add_to_agent :: "string \<Rightarrow> rid \<Rightarrow> model_state \<Rightarrow> model_state" where
  \<comment> \<open>\<open>self.resources_by_agent[agent].add(resource)\<close> on the defaultdict\<close>
  "add_to_agent ag r s = s\<lparr>ms_resources_by_agent :=
     dset (ms_resources_by_agent s) ag (sadd r (dget (ms_resources_by_agent s) ag []))\<rparr>"

definition remove_from_agent :: "string \<Rightarrow> rid \<Rightarrow> model_state \<Rightarrow> model_state" where
  "remove_from_agent ag r s =
     (let rs = sdiscard r (dget (ms_resources_by_agent s) ag [])
      in s\<lparr>ms_resources_by_agent :=
           (if rs = [] then ddel (ms_resources_by_agent s) ag else dset (ms_resources_by_agent s) ag rs)\<rparr>)"

section \<open>Restoring from the database\<close>

text \<open>
  One record of \<open>Resource.get_resources_for_version_raw\<close>, with the projected columns.
\<close>

record db_row =
  row_resource_id :: rid
  row_attribute_hash :: string
  row_attributes :: "(string, pyval) dict"
  row_requires :: "rid list"
  row_orphaned_after :: "int option"
  row_is_undefined :: bool
  row_current_intent_attribute_hash :: "string option"
  row_last_deployed_attribute_hash :: "string option"
  row_last_handler_run :: string
  row_last_handler_run_compliant :: "bool option"
  row_blocked :: string
  row_last_success :: "time option"
  row_last_handler_run_at :: "time option"
  row_last_produced_events :: "time option"
  row_events :: "(string, pyval) dict"

definition db_compliance :: "db_row \<Rightarrow> compliance result" where
  "db_compliance r =
     (if row_is_undefined r then Inr UNDEFINED
      else rbind (handler_result_of_name (row_last_handler_run r)) (\<lambda>h.
        if h = NEW \<or> row_last_deployed_attribute_hash r = None
           \<or> row_current_intent_attribute_hash r \<noteq> row_last_deployed_attribute_hash r
        then Inr HAS_UPDATE
        else if row_last_handler_run_compliant r = Some True then Inr COMPLIANT
        else Inr NON_COMPLIANT))"

definition db_resource_state :: "db_row \<Rightarrow> resource_state result" where
  "db_resource_state r =
     rbind (db_compliance r) (\<lambda>c.
     rbind (handler_result_of_name (row_last_handler_run r)) (\<lambda>h.
     rbind (blocked_of_name (row_blocked r)) (\<lambda>b.
       Inr \<lparr>rs_compliance = c, rs_last_handler_run = h, rs_blocked = b,
            rs_last_deployed = row_last_handler_run_at r,
            rs_last_handler_run_compliant = row_last_handler_run_compliant r\<rparr>)))"

fun outstanding_event :: "(rid, string option \<times> db_row) dict \<Rightarrow> time \<Rightarrow> rid list \<Rightarrow> bool result" where
  \<comment> \<open>the loop over the requires that looks for an event newer than the last success\<close>
  "outstanding_event rows last_success [] = Inr False"
| "outstanding_event rows last_success (req # reqs) =
     rbind (dlookup rows req) (\<lambda>(_, req_res).
       case row_last_produced_events req_res of
         Some t \<Rightarrow> if t > last_success \<and> truthy (dget (row_events req_res) ''send_event'' (PBool False))
                   then Inr True else outstanding_event rows last_success reqs
       | None \<Rightarrow> outstanding_event rows last_success reqs)"

definition canonical_rid :: "rid \<Rightarrow> rid result" where
  \<comment> \<open>\<open>Id.parse_id(req).resource_str()\<close>\<close>
  "canonical_rid r = rbind (parse_id r None) (\<lambda>i. Inr (resource_str i))"

definition restore_resource ::
  "(rid, string option \<times> db_row) dict \<Rightarrow> rid \<times> (string option \<times> db_row) \<Rightarrow> model_state \<Rightarrow> model_state result" where
  \<comment> \<open>the body of the loop over \<open>by_resource_id\<close>\<close>
  "restore_resource rows = (\<lambda>(r, resource_set, res) s.
     if row_orphaned_after res \<noteq> None then Inr s
     else
       rbind (db_resource_state res) (\<lambda>st.
       rbind (mk_resource_intent r (row_attribute_hash res) (row_attributes res)) (\<lambda>i.
       rbind (rmap canonical_rid (row_requires res)) (\<lambda>reqs0.
       let reqs = mk_set reqs0;
           s1 = s\<lparr>ms_resource_state := dset (ms_resource_state s) r st,
                  ms_intent := dset (ms_intent s) r i,
                  ms_resource_sets := dset (ms_resource_sets s) resource_set
                    (sadd r (dget (ms_resource_sets s) resource_set []))\<rparr>;
           s2 = add_to_agent (agent_name (ri_id i)) r s1
       in rbind (bm_set r reqs (ms_requires s2)) (\<lambda>m.
          let s3 = s2\<lparr>ms_requires := m\<rparr> in
          if rs_blocked st = NOT_BLOCKED then
            if rs_is_dirty st then Inr (s3\<lparr>ms_dirty := sadd (resource_str (ri_id i)) (ms_dirty s3)\<rparr>)
            else if truthy (dget (row_events res) ''receive_events'' (PBool True)) then
              rbind (outstanding_event rows
                  (case row_last_success res of Some t \<Rightarrow> t | None \<Rightarrow> DATETIME_MIN_UTC) reqs)
                (\<lambda>b. Inr (if b then s3\<lparr>ms_dirty := sadd (resource_str (ri_id i)) (ms_dirty s3)\<rparr> else s3))
            else Inr s3
          else Inr s3)))))"

definition by_resource_id :: "(string option \<times> db_row list) list \<Rightarrow> (rid, string option \<times> db_row) dict" where
  "by_resource_id sets =
     fold (\<lambda>(rs, rows) d. fold (\<lambda>r d. dset d (row_resource_id r) (rs, r)) rows d) sets []"

definition create_from_db ::
  "int option \<Rightarrow> (int \<Rightarrow> (int \<times> (string option \<times> db_row list) list) option) \<Rightarrow> model_state option result" where
  \<comment> \<open>the scheduler record's last processed version, and the query for the resources of a version\<close>
  "create_from_db last_processed get_resources_for_version_raw =
     (case last_processed of
        None \<Rightarrow> Inr None
      | Some v \<Rightarrow>
         (case get_resources_for_version_raw v of
            None \<Rightarrow> Inr None
          | Some (_, sets) \<Rightarrow>
              let rows = by_resource_id sets
              in rbind (rfold (restore_resource rows) rows (empty_model_state v)) (\<lambda>s. Inr (Some s))))"

section \<open>Operations\<close>

definition reset :: "model_state \<Rightarrow> model_state result" where
  \<comment> \<open>the mapping of resource sets is not cleared\<close>
  "reset s = rbind (bm_clear (ms_requires s)) (\<lambda>m.
     Inr (s\<lparr>ms_version := 0, ms_intent := [], ms_requires := m, ms_resource_state := [],
            ms_resources_by_agent := [], ms_dirty := []\<rparr>))"

definition drop_resource :: "rid \<Rightarrow> model_state \<Rightarrow> model_state result" where
  "drop_resource r s =
     rbind (dlookup (ms_intent s) r) (\<lambda>i.
     if \<not> has_key (ms_resource_state s) r then Inl KeyError
     else
       let m0 = ms_requires s;
           m1 = (case bm_del r m0 of Inr m \<Rightarrow> m | Inl _ \<Rightarrow> m0);
           m2 = (case del_reverse r m1 of Inr m \<Rightarrow> m | Inl _ \<Rightarrow> m1);
           s1 = s\<lparr>ms_intent := ddel (ms_intent s) r,
                  ms_resource_state := ddel (ms_resource_state s) r, ms_requires := m2\<rparr>;
           s2 = remove_from_agent (agent_name (ri_id i)) r s1
       in Inr (s2\<lparr>ms_dirty := sdiscard r (ms_dirty s2)\<rparr>))"

definition new_resource_state :: "bool \<Rightarrow> bool \<Rightarrow> time option \<Rightarrow> resource_state" where
  \<comment> \<open>the state given to a resource that is not known yet\<close>
  "new_resource_state is_undefined known_compliant last_deployed =
     \<lparr>rs_compliance = (if known_compliant then COMPLIANT else if is_undefined then UNDEFINED else HAS_UPDATE),
      rs_last_handler_run = (if known_compliant then SUCCESSFUL else NEW),
      rs_blocked = (if is_undefined then BLOCKED else NOT_BLOCKED),
      rs_last_deployed = last_deployed,
      rs_last_handler_run_compliant = (if known_compliant then Some True else None)\<rparr>"

definition updated_resource_state :: "bool \<Rightarrow> bool \<Rightarrow> resource_state \<Rightarrow> resource_state" where
  \<comment> \<open>the state of a known resource after a change of its intent\<close>
  "updated_resource_state is_undefined known_compliant st =
     st\<lparr>rs_compliance := (if known_compliant then COMPLIANT else if is_undefined then UNDEFINED else HAS_UPDATE),
        rs_last_handler_run := (if known_compliant then SUCCESSFUL else rs_last_handler_run st),
        rs_blocked := (if rs_blocked st \<noteq> BLOCKED then (if is_undefined then BLOCKED else NOT_BLOCKED)
                       else rs_blocked st)\<rparr>"

definition update_resource ::
  "resource_intent \<Rightarrow> bool \<Rightarrow> bool \<Rightarrow> bool \<Rightarrow> time option \<Rightarrow> model_state \<Rightarrow> model_state result" where
  "update_resource i force_new is_undefined known_compliant last_deployed s =
     (if is_undefined \<and> known_compliant then Inl ValueError
      else
        let r = ri_resource_id i;
            already_known = has_key (ms_intent s) r
        in
        rbind (if force_new \<and> already_known then drop_resource r s else Inr s) (\<lambda>s1.
        rbind
          (if \<not> already_known \<or> force_new then
             let s2 = s1\<lparr>ms_resource_state := dset (ms_resource_state s1) r
                          (new_resource_state is_undefined known_compliant last_deployed)\<rparr>
             in rbind (if \<not> has_key (bm_primary (ms_requires s2)) r then bm_set r [] (ms_requires s2)
                       else Inr (ms_requires s2))
                  (\<lambda>m. Inr (add_to_agent (agent_name (ri_id i)) r (s2\<lparr>ms_requires := m\<rparr>)))
           else upd_state r (updated_resource_state is_undefined known_compliant) s1)
          (\<lambda>s3.
             let s4 = s3\<lparr>ms_intent := dset (ms_intent s3) r i\<rparr>
             in rbind (dlookup (ms_resource_state s4) r) (\<lambda>st.
               Inr (s4\<lparr>ms_dirty :=
                 (if \<not> known_compliant \<and> rs_blocked st = NOT_BLOCKED then sadd r (ms_dirty s4)
                  else sdiscard r (ms_dirty s4))\<rparr>)))))"

fun rany :: "('a \<Rightarrow> bool result) \<Rightarrow> 'a list \<Rightarrow> bool result" where
  \<comment> \<open>\<open>any(\<dots>)\<close>: stops at the first hit\<close>
  "rany p [] = Inr False"
| "rany p (x # xs) = rbind (p x) (\<lambda>b. if b then Inr True else rany p xs)"

definition should_skip_for_dependencies :: "rid \<Rightarrow> model_state \<Rightarrow> bool result" where
  "should_skip_for_dependencies r s =
     rany (\<lambda>d. rbind (dlookup (ms_resource_state s) d)
              (\<lambda>st. Inr (rs_last_handler_run_compliant st = Some False)))
       (requires_of s r)"

definition update_requires :: "rid \<Rightarrow> rid pyset \<Rightarrow> model_state \<Rightarrow> model_state result" where
  "update_requires r requires s =
     rbind (dlookup (ms_resource_state s) r) (\<lambda>st.
     rbind (if rs_blocked st = TEMPORARILY_BLOCKED
            then rbind (bm_get (ms_requires s) r) (\<lambda>old. Inr (sdiff old requires \<noteq> []))
            else Inr False) (\<lambda>check_dependencies.
     rbind (bm_set r requires (ms_requires s)) (\<lambda>m.
     let s1 = s\<lparr>ms_requires := m\<rparr> in
     rbind (if check_dependencies
            then rbind (should_skip_for_dependencies r s1) (\<lambda>b. Inr (\<not> b))
            else Inr False) (\<lambda>unblock.
     if unblock
     then rbind (upd_state r (\<lambda>st. st\<lparr>rs_blocked := NOT_BLOCKED\<rparr>) s1)
            (\<lambda>s2. Inr (s2\<lparr>ms_dirty := sadd r (ms_dirty s2)\<rparr>))
     else Inr s1))))"

definition block_resource_transitive :: "rid \<Rightarrow> model_state \<Rightarrow> model_state result" where
  "block_resource_transitive r s =
     rbind (upd_state r (\<lambda>st. st\<lparr>rs_blocked := BLOCKED\<rparr>) s)
       (\<lambda>s1. Inr (s1\<lparr>ms_dirty := sdiscard r (ms_dirty s1)\<rparr>))"

definition unblock_resource :: "rid \<Rightarrow> model_state \<Rightarrow> model_state result" where
  "unblock_resource r s =
     rbind (upd_state r (\<lambda>st. st\<lparr>rs_blocked := NOT_BLOCKED\<rparr>) s) (\<lambda>s1.
     rbind (dlookup (ms_resource_state s1) r) (\<lambda>st.
       Inr (if rs_compliance st \<in> set [HAS_UPDATE, NON_COMPLIANT]
            then s1\<lparr>ms_dirty := sadd r (ms_dirty s1)\<rparr> else s1)))"

section \<open>The invariant of the class\<close>

definition wf_intent :: "resource_intent \<Rightarrow> bool" where
  \<comment> \<open>built by the constructor\<close>
  "wf_intent i \<longleftrightarrow> parse_id (ri_resource_id i) None = Inr (ri_id i)"

lemma wf_intent_agent: "wf_intent i \<Longrightarrow> agent_name (ri_id i) = agent_of_rid (ri_resource_id i)"
  by (simp add: wf_intent_def agent_of_rid_def)

lemma wf_intent_mk: "mk_resource_intent r h attrs = Inr i \<Longrightarrow> wf_intent i"
  by (auto simp: mk_resource_intent_def wf_intent_def rbind_eq_Inr)

lemma wf_intent_nonempty: "wf_intent i \<Longrightarrow> ri_resource_id i \<noteq> []"
  by (auto simp: wf_intent_def parse_id_def PARSE_ID_REGEX_def scan_id_def split_at_def)

definition known :: "model_state \<Rightarrow> rid \<Rightarrow> bool" where
  "known s r = has_key (ms_intent s) r"

definition state_of :: "model_state \<Rightarrow> rid \<Rightarrow> resource_state option" where
  "state_of s r = map_of (ms_resource_state s) r"

definition is_blocked_in :: "model_state \<Rightarrow> rid \<Rightarrow> bool" where
  "is_blocked_in s r \<longleftrightarrow> (\<exists>st. state_of s r = Some st \<and> rs_blocked st = BLOCKED)"

definition by_agent_ok :: "model_state \<Rightarrow> bool" where
  "by_agent_ok s \<longleftrightarrow>
     (\<forall>a r. r \<in> set (dget (ms_resources_by_agent s) a []) \<longleftrightarrow> known s r \<and> agent_of_rid r = a)
     \<and> (\<forall>a. has_key (ms_resources_by_agent s) a \<longrightarrow> dget (ms_resources_by_agent s) a [] \<noteq> [])"

definition dirty_ok :: "model_state \<Rightarrow> bool" where
  "dirty_ok s \<longleftrightarrow> distinct (ms_dirty s)
     \<and> (\<forall>r \<in> set (ms_dirty s). known s r \<and> \<not> is_blocked_in s r)"

definition intents_ok :: "model_state \<Rightarrow> bool" where
  "intents_ok s \<longleftrightarrow>
     wf_dict (ms_intent s) \<and> wf_dict (ms_resource_state s)
     \<and> (\<forall>r. has_key (ms_resource_state s) r \<longleftrightarrow> known s r)
     \<and> (\<forall>r i. map_of (ms_intent s) r = Some i \<longrightarrow> ri_resource_id i = r \<and> wf_intent i)"

definition requires_ok :: "model_state \<Rightarrow> bool" where
  "requires_ok s \<longleftrightarrow> bm_inv (ms_requires s)
     \<and> (\<forall>r. has_key (bm_primary (ms_requires s)) r \<longleftrightarrow> known s r)"

definition model_inv :: "model_state \<Rightarrow> bool" where
  "model_inv s \<longleftrightarrow> intents_ok s \<and> requires_ok s \<and> dirty_ok s \<and> by_agent_ok s"

definition requires_closed :: "model_state \<Rightarrow> bool" where
  \<comment> \<open>every requirement is itself part of the model\<close>
  "requires_closed s \<longleftrightarrow> (\<forall>r d. d \<in> set (requires_of s r) \<longrightarrow> known s d)"

lemmas model_inv_defs = model_inv_def intents_ok_def requires_ok_def dirty_ok_def by_agent_ok_def

lemma model_inv_empty [simp]: "model_inv (empty_model_state v)"
  by (simp add: model_inv_defs empty_model_state_def known_def) (simp add: bm_empty_def)

lemma known_state: "model_inv s \<Longrightarrow> known s r \<longleftrightarrow> (\<exists>st. state_of s r = Some st)"
  by (auto simp: model_inv_defs state_of_def has_key_def)

lemma known_stateE:
  assumes "model_inv s" "known s r"
  obtains st where "map_of (ms_resource_state s) r = Some st" "state_of s r = Some st"
  using assms by (auto simp: known_state state_of_def)

lemma is_blocked_in_iff: "state_of s r = Some st \<Longrightarrow> is_blocked_in s r \<longleftrightarrow> rs_blocked st = BLOCKED"
  by (simp add: is_blocked_in_def)

text \<open>Setting one field of the state of a known resource.\<close>

lemma upd_state_ok:
  assumes "known s r" "model_inv s"
  shows "\<exists>st. state_of s r = Some st \<and>
     upd_state r f s = Inr (s\<lparr>ms_resource_state := dset (ms_resource_state s) r (f st)\<rparr>)"
  using assms by (auto simp: known_state state_of_def upd_state_def)

lemma block_ok:
  assumes "model_inv s" "known s r"
  shows "\<exists>s' st. block_resource_transitive r s = Inr s' \<and> model_inv s' \<and> state_of s r = Some st
    \<and> state_of s' = (state_of s)(r \<mapsto> st\<lparr>rs_blocked := BLOCKED\<rparr>)
    \<and> ms_dirty s' = sdiscard r (ms_dirty s) \<and> ms_intent s' = ms_intent s \<and> ms_requires s' = ms_requires s
    \<and> ms_resources_by_agent s' = ms_resources_by_agent s"
proof -
  obtain st where st: "state_of s r = Some st"
    "upd_state r (\<lambda>st. st\<lparr>rs_blocked := BLOCKED\<rparr>) s
       = Inr (s\<lparr>ms_resource_state := dset (ms_resource_state s) r (st\<lparr>rs_blocked := BLOCKED\<rparr>)\<rparr>)"
    using upd_state_ok [OF assms(2,1)] by blast
  then show ?thesis
    using assms
    by (auto simp: block_resource_transitive_def model_inv_defs known_def state_of_def is_blocked_in_def fun_eq_iff)
qed

lemma unblock_ok:
  assumes "model_inv s" "known s r"
  shows "\<exists>s' st. unblock_resource r s = Inr s' \<and> model_inv s' \<and> state_of s r = Some st
    \<and> state_of s' = (state_of s)(r \<mapsto> st\<lparr>rs_blocked := NOT_BLOCKED\<rparr>)
    \<and> ms_dirty s' = (if rs_is_dirty st then sadd r (ms_dirty s) else ms_dirty s)
    \<and> ms_intent s' = ms_intent s \<and> ms_requires s' = ms_requires s
    \<and> ms_resources_by_agent s' = ms_resources_by_agent s"
proof -
  obtain st where st: "state_of s r = Some st"
    "upd_state r (\<lambda>st. st\<lparr>rs_blocked := NOT_BLOCKED\<rparr>) s
       = Inr (s\<lparr>ms_resource_state := dset (ms_resource_state s) r (st\<lparr>rs_blocked := NOT_BLOCKED\<rparr>)\<rparr>)"
    using upd_state_ok [OF assms(2,1)] by blast
  then show ?thesis
    using assms
    by (auto simp: unblock_resource_def model_inv_defs known_def state_of_def is_blocked_in_def
        fun_eq_iff rs_is_dirty_def is_dirty_compliance_def)
qed

lemma drop_ok:
  assumes "model_inv s" "known s r"
  shows "\<exists>s'. drop_resource r s = Inr s' \<and> model_inv s'
    \<and> map_of (ms_intent s') = (map_of (ms_intent s))(r := None)
    \<and> state_of s' = (state_of s)(r := None)
    \<and> (\<forall>x. fwd (ms_requires s') x = (if x = r then {} else fwd (ms_requires s) x - {r}))
    \<and> ms_dirty s' = sdiscard r (ms_dirty s) \<and> ms_version s' = ms_version s"
proof -
  obtain i where i: "map_of (ms_intent s) r = Some i" "ri_resource_id i = r" "wf_intent i"
    using assms by (auto simp: model_inv_defs known_def has_key_def)
  have hk: "has_key (ms_resource_state s) r" using assms by (simp add: model_inv_defs)
  have bm: "bm_inv (ms_requires s)" "has_key (bm_primary (ms_requires s)) r"
    using assms by (auto simp: model_inv_defs)
  obtain m1 where m1: "bm_del r (ms_requires s) = Inr m1" "bm_inv m1" "fwd m1 = (fwd (ms_requires s))(r := {})"
    "map_of (bm_primary m1) = (map_of (bm_primary (ms_requires s)))(r := None)"
    using bm_del_ok [OF bm] by blast
  define m2 where "m2 = (case del_reverse r m1 of Inr m \<Rightarrow> m | Inl _ \<Rightarrow> m1)"
  have m2: "bm_inv m2" "\<And>x. fwd m2 x = fwd m1 x - {r}"
    "\<And>x. has_key (bm_primary m2) x = has_key (bm_primary m1) x"
  proof -
    have "bm_inv m2 \<and> (\<forall>x. fwd m2 x = fwd m1 x - {r}) \<and> (\<forall>x. has_key (bm_primary m2) x = has_key (bm_primary m1) x)"
    proof (cases "has_key (bm_reverse m1) r")
      case True
      from del_reverse_ok [OF m1(2) True] show ?thesis
        using fwd_del_reverse [OF m1(2)] by (auto simp: m2_def)
    next
      case False
      then have "del_reverse r m1 = Inl KeyError" by (simp add: del_reverse_def bm_del_missing)
      moreover have "bwd m1 r = {}" using False by (simp add: bwd_def)
      then have "r \<notin> fwd m1 x" for x using bm_set_converse [OF m1(2)] by blast
      ultimately show ?thesis using m1(2) by (simp add: m2_def)
    qed
    then show "bm_inv m2" "\<And>x. fwd m2 x = fwd m1 x - {r}"
      "\<And>x. has_key (bm_primary m2) x = has_key (bm_primary m1) x" by auto
  qed
  let ?s' = "(remove_from_agent (agent_name (ri_id i)) r
      (s\<lparr>ms_intent := ddel (ms_intent s) r, ms_resource_state := ddel (ms_resource_state s) r, ms_requires := m2\<rparr>))
      \<lparr>ms_dirty := sdiscard r (ms_dirty s)\<rparr>"
  have d: "drop_resource r s = Inr ?s'"
    using i hk m1(1) by (simp add: drop_resource_def m2_def remove_from_agent_def Let_def split: sum.split)
  have hk': "has_key (bm_primary m2) x \<longleftrightarrow> x \<noteq> r \<and> known s x" for x
    using assms m2(3) m1(4) by (simp add: model_inv_defs has_key_def)
  have ag: "agent_name (ri_id i) = agent_of_rid r" using i wf_intent_agent by blast
  have "model_inv ?s'"
    using assms m2(1) hk'
    by (auto simp: model_inv_defs known_def is_blocked_in_def state_of_def remove_from_agent_def Let_def
        dict_simps ag split: if_splits)
  then show ?thesis
    using d m1(3) m2(2)
    by (auto simp: remove_from_agent_def Let_def state_of_def fun_eq_iff)
qed

lemma update_new_ok:
  assumes inv: "model_inv s" and w: "wf_intent i" and new: "\<not> known s (ri_resource_id i)"
    and ex: "\<not> (is_undefined \<and> known_compliant)"
  shows "\<exists>s'. update_resource i force_new is_undefined known_compliant last_deployed s = Inr s' \<and> model_inv s'
    \<and> map_of (ms_intent s') = (map_of (ms_intent s))(ri_resource_id i \<mapsto> i)
    \<and> state_of s' = (state_of s)(ri_resource_id i \<mapsto> new_resource_state is_undefined known_compliant last_deployed)
    \<and> fwd (ms_requires s') = fwd (ms_requires s)"
proof -
  let ?r = "ri_resource_id i"
  have bm: "bm_inv (ms_requires s)" using inv by (simp add: model_inv_defs)
  define res where "res = (if \<not> has_key (bm_primary (ms_requires s)) ?r then bm_set ?r [] (ms_requires s)
     else Inr (ms_requires s))"
  obtain m where m: "res = Inr m" "bm_inv m" "fwd m = fwd (ms_requires s)"
    "\<And>x. has_key (bm_primary m) x \<longleftrightarrow> x = ?r \<or> has_key (bm_primary (ms_requires s)) x"
  proof (cases "has_key (bm_primary (ms_requires s)) ?r")
    case True
    then show ?thesis using that [of "ms_requires s"] bm by (auto simp: res_def)
  next
    case False
    then have "fwd (ms_requires s) ?r = {}" by (simp add: fwd_def)
    with bm_set_ok [OF bm, of "[]" ?r] obtain m where "bm_set ?r [] (ms_requires s) = Inr m" "bm_inv m"
      "fwd m = fwd (ms_requires s)" "map_of (bm_primary m) = (map_of (bm_primary (ms_requires s)))(?r \<mapsto> [])"
      by (auto simp: fun_upd_idem)
    then show ?thesis using that [of m] False by (auto simp: res_def has_key_def)
  qed
  let ?st = "new_resource_state is_undefined known_compliant last_deployed"
  let ?s3 = "add_to_agent (agent_name (ri_id i)) ?r
     (s\<lparr>ms_resource_state := dset (ms_resource_state s) ?r ?st, ms_requires := m\<rparr>)"
  let ?s' = "?s3\<lparr>ms_intent := dset (ms_intent s) ?r i,
     ms_dirty := (if \<not> known_compliant \<and> rs_blocked ?st = NOT_BLOCKED then sadd ?r (ms_dirty s)
                  else sdiscard ?r (ms_dirty s))\<rparr>"
  have "update_resource i force_new is_undefined known_compliant last_deployed s = Inr ?s'"
  proof (cases "has_key (bm_primary (ms_requires s)) ?r")
    case True
    then have "m = ms_requires s" using m(1) by (simp add: res_def)
    then show ?thesis using new ex True
      by (cases known_compliant) (simp_all add: update_resource_def known_def Let_def add_to_agent_def)
  next
    case False
    then have "bm_set ?r [] (ms_requires s) = Inr m" using m(1) by (simp add: res_def)
    then show ?thesis using new ex False
      by (cases known_compliant) (simp_all add: update_resource_def known_def Let_def add_to_agent_def)
  qed
  moreover have "model_inv ?s'"
    using inv m(2,4) w new wf_intent_agent [OF w]
    by (auto simp: model_inv_defs known_def is_blocked_in_def state_of_def add_to_agent_def dict_simps
        split: if_splits)
  ultimately show ?thesis
    using m(3) by (auto simp: add_to_agent_def state_of_def fun_eq_iff)
qed

lemma update_known_ok:
  assumes inv: "model_inv s" and w: "wf_intent i" and st: "state_of s (ri_resource_id i) = Some st"
    and ex: "\<not> (is_undefined \<and> known_compliant)"
  shows "\<exists>s'. update_resource i False is_undefined known_compliant last_deployed s = Inr s' \<and> model_inv s'
    \<and> map_of (ms_intent s') = (map_of (ms_intent s))(ri_resource_id i \<mapsto> i)
    \<and> state_of s' = (state_of s)(ri_resource_id i \<mapsto> updated_resource_state is_undefined known_compliant st)
    \<and> ms_requires s' = ms_requires s"
proof -
  let ?r = "ri_resource_id i"
  have k: "known s ?r" using inv st by (auto simp: known_state)
  let ?st = "updated_resource_state is_undefined known_compliant st"
  let ?s' = "s\<lparr>ms_resource_state := dset (ms_resource_state s) ?r ?st, ms_intent := dset (ms_intent s) ?r i,
     ms_dirty := (if \<not> known_compliant \<and> rs_blocked ?st = NOT_BLOCKED then sadd ?r (ms_dirty s)
                  else sdiscard ?r (ms_dirty s))\<rparr>"
  have "update_resource i False is_undefined known_compliant last_deployed s = Inr ?s'"
    using k ex upd_state_ok [OF k inv] st by (auto simp: update_resource_def known_def Let_def)
  moreover have "model_inv ?s'"
    using inv k w
    by (auto simp: model_inv_defs known_def is_blocked_in_def state_of_def dict_simps split: if_splits)
  ultimately show ?thesis
    by (auto simp: state_of_def fun_eq_iff)
qed

lemma update_force_ok:
  assumes inv: "model_inv s" and w: "wf_intent i" and k: "known s (ri_resource_id i)"
    and ex: "\<not> (is_undefined \<and> known_compliant)"
  shows "\<exists>s'. update_resource i True is_undefined known_compliant last_deployed s = Inr s' \<and> model_inv s'
    \<and> map_of (ms_intent s') = (map_of (ms_intent s))(ri_resource_id i \<mapsto> i)
    \<and> state_of s' = (state_of s)(ri_resource_id i \<mapsto> new_resource_state is_undefined known_compliant last_deployed)
    \<and> (\<forall>x. fwd (ms_requires s') x = (if x = ri_resource_id i then {} else fwd (ms_requires s) x - {ri_resource_id i}))"
proof -
  let ?r = "ri_resource_id i"
  obtain s1 where s1: "drop_resource ?r s = Inr s1" "model_inv s1"
    "map_of (ms_intent s1) = (map_of (ms_intent s))(?r := None)" "state_of s1 = (state_of s)(?r := None)"
    "\<forall>x. fwd (ms_requires s1) x = (if x = ?r then {} else fwd (ms_requires s) x - {?r})"
    using drop_ok [OF inv k] by blast
  have n: "\<not> known s1 ?r" by (simp add: known_def has_key_def s1(3))
  have "update_resource i True is_undefined known_compliant last_deployed s
      = update_resource i True is_undefined known_compliant last_deployed s1"
    using k n s1(1) by (simp add: update_resource_def known_def Let_def)
  with update_new_ok [OF s1(2) w n ex, of True last_deployed] s1(3-5) show ?thesis by auto
qed

lemma rany_total: "(\<And>x. x \<in> set xs \<Longrightarrow> p x = Inr (q x)) \<Longrightarrow> rany p xs = Inr (\<exists>x \<in> set xs. q x)"
  by (induction xs) auto

definition failed_dep :: "model_state \<Rightarrow> rid \<Rightarrow> bool" where
  "failed_dep s d \<longleftrightarrow> (\<exists>st. state_of s d = Some st \<and> rs_last_handler_run_compliant st = Some False)"

lemma should_skip_ok:
  assumes "model_inv s" "\<forall>d \<in> set (requires_of s r). known s d"
  shows "should_skip_for_dependencies r s = Inr (\<exists>d \<in> set (requires_of s r). failed_dep s d)"
  unfolding should_skip_for_dependencies_def
proof (rule rany_total)
  fix d assume "d \<in> set (requires_of s r)"
  with assms obtain st where "map_of (ms_resource_state s) d = Some st" "state_of s d = Some st"
    by (auto elim: known_stateE)
  then show "rbind (dlookup (ms_resource_state s) d) (\<lambda>st. Inr (rs_last_handler_run_compliant st = Some False))
      = Inr (failed_dep s d)"
    by (simp add: failed_dep_def)
qed

lemma fwd_requires_of: "fwd (ms_requires s) r = set (requires_of s r)"
  by (simp add: fwd_def requires_of_def)

lemma bwd_provides_of: "bwd (ms_requires s) r = set (provides_of s r)"
  by (simp add: bwd_def provides_of_def)

lemma provides_iff: "model_inv s \<Longrightarrow> x \<in> set (provides_of s r) \<longleftrightarrow> r \<in> set (requires_of s x)"
  using bm_set_converse [of "ms_requires s" r x]
  by (simp add: model_inv_defs fwd_requires_of bwd_provides_of)

lemma requires_known: "model_inv s \<Longrightarrow> d \<in> set (requires_of s r) \<Longrightarrow> known s r"
  by (cases "has_key (bm_primary (ms_requires s)) r") (auto simp: model_inv_defs requires_of_def)

lemma provides_known: "model_inv s \<Longrightarrow> x \<in> set (provides_of s r) \<Longrightarrow> known s x"
  using provides_iff requires_known by blast

lemma known_nonempty:
  assumes "model_inv s" "known s r"
  shows "r \<noteq> []"
  using assms wf_intent_nonempty by (fastforce simp: model_inv_defs known_def has_key_def)

section \<open>The requires relation\<close>

definition requires_rel :: "model_state \<Rightarrow> (rid \<times> rid) set" where
  "requires_rel s = {(d, r). d \<in> set (requires_of s r)}"

lemma finite_requires_rel: "finite (requires_rel s)"
proof -
  have "r \<in> set (dkeys (bm_primary (ms_requires s)))" if "d \<in> set (requires_of s r)" for d r
    using that by (cases "has_key (bm_primary (ms_requires s)) r") (auto simp: requires_of_def has_key_iff)
  then have "requires_rel s \<subseteq> (\<Union>r \<in> set (dkeys (bm_primary (ms_requires s))). set (requires_of s r) \<times> {r})"
    unfolding requires_rel_def by blast
  then show ?thesis by (rule finite_subset) auto
qed

lemma wf_requires_rel: "acyclic (requires_rel s) \<Longrightarrow> wf (requires_rel s)"
  by (rule finite_acyclic_wf [OF finite_requires_rel])

lemma wf_provides: "acyclic (requires_rel s) \<Longrightarrow> wf ((requires_rel s)\<inverse>)"
  by (rule finite_acyclic_wf_converse [OF finite_requires_rel])

end
