(* ===== verification/Model_Versions.thy ===== *)
theory Model_Versions
  imports Model_State
begin

text \<open>
  Model versions and their consolidation, from \<open>src/src/inmanta/deploy/scheduler.py\<close>:
  \<open>ModelVersion.from_db_records\<close> and \<open>ResourceScheduler._get_intent_changes\<close>, which turns a
  sequence of released versions into one change with respect to the managed model.
\<close>

section \<open>Versions\<close>

datatype intent_change = New | Updated | Deleted int

record resource_record =
  rr_resource_id :: rid
  rr_is_undefined :: bool
  rr_attributes :: "(string, pyval) dict"
  rr_attribute_hash :: string

record model_version =
  mv_version :: int
  mv_resources :: "(rid, resource_intent) dict"
  mv_resource_sets :: "(string option, rid pyset) dict"
  mv_requires :: "(rid, rid pyset) dict"
  mv_undefined :: "rid pyset"
  mv_partial :: bool

fun py_iter :: "pyval \<Rightarrow> pyval list result" where
  \<comment> \<open>iteration over a JSON value\<close>
  "py_iter (PList xs) = Inr xs"
| "py_iter (PStr s) = Inr (map (\<lambda>c. PStr [c]) s)"
| "py_iter (PDict d) = Inr (map (\<lambda>(k, _). PStr k) d)"
| "py_iter _ = Inl TypeError"

fun canonical_requirement :: "pyval \<Rightarrow> rid result" where
  \<comment> \<open>\<open>Id.parse_id(req).resource_str()\<close>\<close>
  "canonical_requirement (PStr s) = canonical_rid s"
| "canonical_requirement _ = Inl TypeError"

definition record_requires :: "(string, pyval) dict \<Rightarrow> rid pyset result" where
  "record_requires attrs =
     rbind (py_iter (dget attrs ''requires'' (PList []))) (\<lambda>xs.
     rbind (rmap canonical_requirement xs) (\<lambda>rs. Inr (mk_set rs)))"

definition add_record :: "string option \<Rightarrow> resource_record \<Rightarrow> model_version \<Rightarrow> model_version result" where
  \<comment> \<open>the body of the inner loop\<close>
  "add_record resource_set res m =
     (let r = rr_resource_id res;
          sets = dset (mv_resource_sets m) resource_set (sadd r (dget (mv_resource_sets m) resource_set []))
      in rbind (mk_resource_intent r (rr_attribute_hash res) (rr_attributes res)) (\<lambda>i.
         rbind (record_requires (rr_attributes res)) (\<lambda>reqs.
           Inr (m\<lparr>mv_resource_sets := sets, mv_resources := dset (mv_resources m) r i,
                  mv_requires := dset (mv_requires m) r reqs,
                  mv_undefined := (if rr_is_undefined res then sadd r (mv_undefined m) else mv_undefined m)\<rparr>))))"

definition from_db_records ::
  "int \<Rightarrow> (string option, resource_record list) dict \<Rightarrow> bool \<Rightarrow> model_version result" where
  "from_db_records version resource_sets partial =
     rfold (\<lambda>(s, rs) m. rfold (add_record s) rs (m\<lparr>mv_resource_sets := dset (mv_resource_sets m) s []\<rparr>)) resource_sets
       \<lparr>mv_version = version, mv_resources = [], mv_resource_sets = [], mv_requires = [], mv_undefined = [],
        mv_partial = partial\<rparr>"

section \<open>Consolidating versions\<close>

record changes =
  ic_partial :: bool
  ic_version :: int
  ic_intent :: "(rid, resource_intent) dict"
  ic_resource_sets :: "(string option, rid pyset) dict"
  ic_requires :: "(rid, rid pyset) dict"
  ic_changes :: "(rid, intent_change) dict"
  ic_undefined :: "rid pyset"

definition dunion :: "('k, 'v) dict \<Rightarrow> ('k, 'v) dict \<Rightarrow> ('k, 'v) dict" where
  \<comment> \<open>\<open>d.update(e)\<close>\<close>
  "dunion d e = fold (\<lambda>(k, v) d. dset d k v) e d"

definition known_resources :: "model_state \<Rightarrow> model_version \<Rightarrow> changes \<Rightarrow> rid pyset" where
  "known_resources s m c =
     (if mv_partial m
      then mk_set (concat (map (\<lambda>rs. dget (ic_resource_sets c) rs
             (if ic_partial c then dget (ms_resource_sets s) rs [] else [])) (dkeys (mv_resource_sets m))))
      else sunion (dkeys (ic_intent c)) (if ic_partial c then dkeys (ms_intent s) else []))"

definition delete_change :: "rid \<Rightarrow> changes \<Rightarrow> changes" where
  \<comment> \<open>the body of the loop over the known resources that the version no longer has;
     \<open>ic_version\<close> is still the previous version\<close>
  "delete_change r c =
     (let c1 = (if has_key (ic_intent c) r
                then c\<lparr>ic_intent := ddel (ic_intent c) r, ic_requires := ddel (ic_requires c) r\<rparr> else c);
          c2 = (case map_of (ic_changes c1) r of
                  Some (Deleted _) \<Rightarrow> c1
                | _ \<Rightarrow> c1\<lparr>ic_changes := dset (ic_changes c1) r (Deleted (ic_version c1))\<rparr>)
      in c2\<lparr>ic_undefined := sdiscard r (ic_undefined c2)\<rparr>)"

definition resource_change ::
  "model_state \<Rightarrow> rid pyset \<Rightarrow> model_version \<Rightarrow> rid \<times> resource_intent \<Rightarrow> changes \<Rightarrow> changes result" where
  \<comment> \<open>the body of the loop over the resources of the version\<close>
  "resource_change s up_to_date_resources m = (\<lambda>(r, i) c.
     let c1 = c\<lparr>ic_intent := dset (ic_intent c) r i, ic_requires := dset (ic_requires c) r (dget (mv_requires m) r [])\<rparr>
     in if r \<in> set up_to_date_resources then Inr c1
        else
          rbind
            (if \<not> has_key (ms_intent s) r
                \<or> (case map_of (ic_changes c1) r of Some (Deleted _) \<Rightarrow> True | Some New \<Rightarrow> True | _ \<Rightarrow> False)
             then Inr (c1\<lparr>ic_changes := dset (ic_changes c1) r New\<rparr>)
             else rbind (dlookup (ms_intent s) r) (\<lambda>old.
               if ri_attribute_hash i \<noteq> ri_attribute_hash old
               then Inr (c1\<lparr>ic_changes := dset (ic_changes c1) r Updated\<rparr>) else Inr c1))
            (\<lambda>c2.
               let is_undefined = (r \<in> set (mv_undefined m));
                   c3 = c2\<lparr>ic_undefined := (if is_undefined then sadd r (ic_undefined c2) else sdiscard r (ic_undefined c2))\<rparr>
               in if \<not> has_key (ic_changes c3) r
                  then rbind (dlookup (ms_resource_state s) r) (\<lambda>st.
                    if is_undefined \<noteq> (rs_compliance st = UNDEFINED)
                    then Inr (c3\<lparr>ic_changes := dset (ic_changes c3) r Updated\<rparr>) else Inr c3)
                  else Inr c3))"

definition version_changes :: "model_state \<Rightarrow> rid pyset \<Rightarrow> model_version \<Rightarrow> changes \<Rightarrow> changes result" where
  \<comment> \<open>one iteration of the loop over the versions\<close>
  "version_changes s up_to_date_resources m c =
     (let known = known_resources s m c;
          c1 = (if mv_partial m then c\<lparr>ic_resource_sets := dunion (ic_resource_sets c) (mv_resource_sets m)\<rparr>
                else c\<lparr>ic_partial := False, ic_resource_sets := mv_resource_sets m\<rparr>);
          c2 = fold delete_change (sdiff known (dkeys (mv_resources m))) c1
      in rbind (rfold (resource_change s up_to_date_resources m) (mv_resources m) c2) (\<lambda>c3.
           Inr (c3\<lparr>ic_version := mv_version m\<rparr>)))"

definition get_intent_changes ::
  "model_state \<Rightarrow> model_version list \<Rightarrow> rid pyset \<Rightarrow> (model_version \<times> (rid, intent_change) dict) result" where
  "get_intent_changes s new_versions up_to_date_resources =
     (if new_versions = [] then Inl ValueError
      else
        rbind (rfold (version_changes s up_to_date_resources) new_versions
                \<lparr>ic_partial = True, ic_version = ms_version s, ic_intent = [], ic_resource_sets = [], ic_requires = [],
                 ic_changes = [], ic_undefined = []\<rparr>)
          (\<lambda>c. Inr (\<lparr>mv_version = ic_version c, mv_resources = ic_intent c, mv_resource_sets = ic_resource_sets c,
                     mv_requires = ic_requires c, mv_undefined = ic_undefined c, mv_partial = ic_partial c\<rparr>,
                    ic_changes c)))"

section \<open>Applying versions one after the other\<close>

type_synonym world = "(rid \<Rightarrow> resource_intent option) \<times> (string option \<Rightarrow> rid set)"

definition apply_version :: "model_version \<Rightarrow> world \<Rightarrow> world" where
  \<comment> \<open>a partial version replaces the resource sets that it has, a full version everything. The requires and what is
    undefined are not part of the world: \<open>Version_Takeover\<close> compares the requires\<close>
  "apply_version m = (\<lambda>(I, S).
     if mv_partial m
     then ((I |` (- (\<Union>rs \<in> set (dkeys (mv_resource_sets m)). S rs))) ++ map_of (mv_resources m),
           \<lambda>rs. case map_of (mv_resource_sets m) rs of Some x \<Rightarrow> set x | None \<Rightarrow> S rs)
     else (map_of (mv_resources m), \<lambda>rs. set (dget (mv_resource_sets m) rs [])))"

definition managed :: "model_state \<Rightarrow> world" where
  "managed s = (map_of (ms_intent s), \<lambda>rs. set (dget (ms_resource_sets s) rs []))"

definition is_deleted :: "(rid, intent_change) dict \<Rightarrow> rid \<Rightarrow> bool" where
  "is_deleted d r \<longleftrightarrow> (case map_of d r of Some (Deleted _) \<Rightarrow> True | _ \<Rightarrow> False)"

definition overlay :: "model_state \<Rightarrow> model_version \<times> (rid, intent_change) dict \<Rightarrow> world" where
  \<comment> \<open>what a consolidated version says of the model, on top of the managed one\<close>
  "overlay s = (\<lambda>(m, ch).
     ((\<lambda>r. case map_of (mv_resources m) r of
             Some i \<Rightarrow> Some i
           | None \<Rightarrow> if mv_partial m \<and> \<not> is_deleted ch r then map_of (ms_intent s) r else None),
      (\<lambda>rs. case map_of (mv_resource_sets m) rs of
              Some x \<Rightarrow> set x
            | None \<Rightarrow> if mv_partial m then set (dget (ms_resource_sets s) rs []) else {})))"

definition as_version :: "changes \<Rightarrow> model_version \<times> (rid, intent_change) dict" where
  "as_version c = (\<lparr>mv_version = ic_version c, mv_resources = ic_intent c, mv_resource_sets = ic_resource_sets c,
     mv_requires = ic_requires c, mv_undefined = ic_undefined c, mv_partial = ic_partial c\<rparr>, ic_changes c)"

section \<open>The loops\<close>

definition wf_version :: "model_version \<Rightarrow> bool" where
  \<comment> \<open>dictionaries have distinct keys, and the requires are given for resources of the version\<close>
  "wf_version m \<longleftrightarrow> wf_dict (mv_resources m) \<and> wf_dict (mv_resource_sets m)"

lemma map_of_dunion: "wf_dict e \<Longrightarrow> map_of (dunion d e) = map_of d ++ map_of e"
proof (induction e arbitrary: d)
  case (Cons kv e)
  obtain k v where kv: "kv = (k, v)" by (cases kv)
  have "map_of e k = None" "wf_dict e" using Cons.prems kv by (auto simp: wf_dict_def map_of_eq_None_iff)
  moreover from this have "map_of (dunion (dset d k v) e) = (map_of d)(k \<mapsto> v) ++ map_of e" using Cons.IH by simp
  ultimately show ?case by (auto simp: dunion_def kv fun_eq_iff map_add_def split: option.splits)
qed (simp add: dunion_def)

text \<open>What the loops keep about the classification; \<open>U\<close>: the resources taken to be up to date.\<close>

definition class_ok ::
  "model_state \<Rightarrow> rid set \<Rightarrow> rid \<Rightarrow> intent_change option \<Rightarrow> resource_intent option \<Rightarrow> bool \<Rightarrow> bool" where
  "class_ok s U r change intent undef \<longleftrightarrow> (case change of
       None \<Rightarrow> (\<forall>i. intent = Some i \<longrightarrow> r \<in> U \<or> (\<exists>i0. map_of (ms_intent s) r = Some i0
           \<and> ri_attribute_hash i = ri_attribute_hash i0 \<and> (undef \<longleftrightarrow>
             (\<exists>st. state_of s r = Some st \<and> rs_compliance st = UNDEFINED))))
     | Some New \<Rightarrow> intent \<noteq> None
     | Some Updated \<Rightarrow> intent \<noteq> None \<and> map_of (ms_intent s) r \<noteq> None
     | Some (Deleted _) \<Rightarrow> r \<in> U \<or> intent = None)"

definition classified :: "model_state \<Rightarrow> rid set \<Rightarrow> changes \<Rightarrow> rid \<Rightarrow> bool" where
  "classified s U c r \<longleftrightarrow>
     class_ok s U r (map_of (ic_changes c) r) (map_of (ic_intent c) r) (r \<in> set (ic_undefined c))"

lemma delete_change_ok:
  "map_of (ic_intent (delete_change r c)) = (map_of (ic_intent c))(r := None)"
  "is_deleted (ic_changes (delete_change r c)) x \<longleftrightarrow> x = r \<or> is_deleted (ic_changes c) x"
  "ic_partial (delete_change r c) = ic_partial c" "ic_resource_sets (delete_change r c) = ic_resource_sets c"
  "x \<noteq> r \<Longrightarrow> map_of (ic_changes (delete_change r c)) x = map_of (ic_changes c) x"
  "set (ic_undefined (delete_change r c)) = set (ic_undefined c) - {r}"
  by (auto simp: delete_change_def Let_def is_deleted_def fun_eq_iff has_key_def split: option.split intent_change.split)

lemma delete_change_classified:
  assumes "\<And>x. classified s U c x"
  shows "classified s U (delete_change r c) x"
proof (cases "x = r")
  case True
  have "is_deleted (ic_changes (delete_change r c)) r" by (simp add: delete_change_ok(2))
  then obtain v where "map_of (ic_changes (delete_change r c)) r = Some (Deleted v)"
    by (auto simp: is_deleted_def split: option.splits intent_change.splits)
  then show ?thesis by (simp add: True classified_def class_ok_def delete_change_ok(1))
next
  case False
  then show ?thesis using assms [of x] by (simp add: classified_def delete_change_ok)
qed

lemma delete_all_ok:
  assumes "\<And>x. classified s U c x"
  shows "map_of (ic_intent (fold delete_change rs c)) = map_of (ic_intent c) |` (- set rs)
    \<and> (\<forall>x. is_deleted (ic_changes (fold delete_change rs c)) x \<longleftrightarrow> x \<in> set rs \<or> is_deleted (ic_changes c) x)
    \<and> ic_partial (fold delete_change rs c) = ic_partial c
    \<and> ic_resource_sets (fold delete_change rs c) = ic_resource_sets c
    \<and> (\<forall>x. classified s U (fold delete_change rs c) x)"
  using assms
proof (induction rs arbitrary: c)
  case (Cons r rs)
  have step: "\<And>x. classified s U (delete_change r c) x" using delete_change_classified Cons.prems by blast
  show ?case using Cons.IH [OF step] by (auto simp: delete_change_ok restrict_map_def fun_eq_iff)
qed (auto simp: restrict_map_def)

lemma resource_change_ok:
  assumes s: "model_inv s" and cl: "\<And>x. classified s U c x" and U: "U = set up_to_date"
  shows "\<exists>c'. resource_change s up_to_date m (r, i) c = Inr c'
    \<and> map_of (ic_intent c') = (map_of (ic_intent c))(r \<mapsto> i)
    \<and> (\<forall>x. x \<noteq> r \<longrightarrow> is_deleted (ic_changes c') x = is_deleted (ic_changes c) x)
    \<and> ic_partial c' = ic_partial c \<and> ic_resource_sets c' = ic_resource_sets c \<and> (\<forall>x. classified s U c' x)"
proof (cases "r \<in> set up_to_date")
  case True
  let ?c = "c\<lparr>ic_intent := dset (ic_intent c) r i, ic_requires := dset (ic_requires c) r (dget (mv_requires m) r [])\<rparr>"
  have "classified s U ?c x" for x
    using cl [of x] True U by (cases "x = r") (auto simp: classified_def class_ok_def split: option.splits intent_change.splits)
  then show ?thesis using True by (auto simp: resource_change_def)
next
  case False
  define u where "u = (if r \<in> set (mv_undefined m) then sadd r (ic_undefined c) else sdiscard r (ic_undefined c))"
  have u: "set u = (if r \<in> set (mv_undefined m) then insert r (set (ic_undefined c)) else set (ic_undefined c) - {r})"
    by (simp add: u_def)
  let ?c = "c\<lparr>ic_intent := dset (ic_intent c) r i, ic_requires := dset (ic_requires c) r (dget (mv_requires m) r []), ic_undefined := u\<rparr>"
  have finish: "?thesis" if c': "resource_change s up_to_date m (r, i) c = Inr (?c\<lparr>ic_changes := ch\<rparr>)"
    and ch: "\<And>x. x \<noteq> r \<Longrightarrow> map_of ch x = map_of (ic_changes c) x" and r: "classified s U (?c\<lparr>ic_changes := ch\<rparr>) r" for ch
  proof -
    have "classified s U (?c\<lparr>ic_changes := ch\<rparr>) x" for x
      using cl [of x] ch [of x] r u by (cases "x = r") (simp_all add: classified_def)
    then show ?thesis using c' ch by (auto simp: is_deleted_def)
  qed
  have is_new: "resource_change s up_to_date m (r, i) c = Inr (?c\<lparr>ic_changes := dset (ic_changes c) r New\<rparr>)"
    if "\<not> has_key (ms_intent s) r \<or> (\<exists>v. map_of (ic_changes c) r = Some (Deleted v)) \<or> map_of (ic_changes c) r = Some New"
    using that False by (auto simp: resource_change_def Let_def u_def)
  show ?thesis
  proof (cases "\<not> has_key (ms_intent s) r \<or> (\<exists>v. map_of (ic_changes c) r = Some (Deleted v)) \<or> map_of (ic_changes c) r = Some New")
    case True
    show ?thesis by (rule finish [OF is_new [OF True]]) (auto simp: classified_def class_ok_def)
  next
    case old: False
    then obtain i0 where i0: "map_of (ms_intent s) r = Some i0" by (auto elim: has_keyE)
    obtain st where st: "map_of (ms_resource_state s) r = Some st" "state_of s r = Some st"
      using known_stateE [OF s, of r] i0 by (auto simp: known_def)
    have sm: "map_of (ic_changes c) r = None \<or> map_of (ic_changes c) r = Some Updated"
      using old by (cases "map_of (ic_changes c) r") (auto split: intent_change.splits, metis intent_change.exhaust)
    show ?thesis
    proof (cases "ri_attribute_hash i \<noteq> ri_attribute_hash i0")
      case True
      then have "resource_change s up_to_date m (r, i) c = Inr (?c\<lparr>ic_changes := dset (ic_changes c) r Updated\<rparr>)"
        using False sm i0 by (auto simp: resource_change_def Let_def u_def)
      then show ?thesis by (rule finish) (auto simp: classified_def class_ok_def i0)
    next
      case same: False
      show ?thesis
      proof (cases "map_of (ic_changes c) r = Some Updated \<or> (r \<in> set (mv_undefined m)) = (rs_compliance st = UNDEFINED)")
        case True
        have e: "?c\<lparr>ic_changes := ic_changes c\<rparr> = ?c" by simp
        have "resource_change s up_to_date m (r, i) c = Inr ?c"
          using False sm same i0 st True
          by (cases "map_of (ic_changes c) r") (auto simp: resource_change_def Let_def u_def)
        then have "resource_change s up_to_date m (r, i) c = Inr (?c\<lparr>ic_changes := ic_changes c\<rparr>)" by (simp only: e)
        then show ?thesis
          by (rule finish) (use sm True i0 st same u in \<open>auto simp: classified_def class_ok_def\<close>)
      next
        case differs: False
        then have n: "map_of (ic_changes c) r = None" "(r \<in> set (mv_undefined m)) \<noteq> (rs_compliance st = UNDEFINED)"
          using sm by auto
        then have "resource_change s up_to_date m (r, i) c = Inr (?c\<lparr>ic_changes := dset (ic_changes c) r Updated\<rparr>)"
          using False same i0 st by (simp add: resource_change_def Let_def u_def)
        then show ?thesis by (rule finish) (auto simp: classified_def class_ok_def i0)
      qed
    qed
  qed
qed

lemma resources_ok:
  assumes s: "model_inv s" and U: "U = set up_to_date"
    and "wf_dict res" "\<And>x. classified s U c x"
  shows "\<exists>c'. rfold (resource_change s up_to_date m) res c = Inr c'
    \<and> map_of (ic_intent c') = map_of (ic_intent c) ++ map_of res
    \<and> (\<forall>x. map_of res x = None \<longrightarrow> is_deleted (ic_changes c') x = is_deleted (ic_changes c) x)
    \<and> ic_partial c' = ic_partial c \<and> ic_resource_sets c' = ic_resource_sets c \<and> (\<forall>x. classified s U c' x)"
  using assms(3,4)
proof (induction res arbitrary: c)
  case (Cons ri res)
  obtain r i where ri: "ri = (r, i)" by (cases ri)
  have wf: "wf_dict res" "map_of res r = None" using Cons.prems(1) ri by (auto simp: wf_dict_def map_of_eq_None_iff)
  obtain c1 where c1: "resource_change s up_to_date m (r, i) c = Inr c1" "map_of (ic_intent c1) = (map_of (ic_intent c))(r \<mapsto> i)"
    "\<forall>x. x \<noteq> r \<longrightarrow> is_deleted (ic_changes c1) x = is_deleted (ic_changes c) x" "ic_partial c1 = ic_partial c"
    "ic_resource_sets c1 = ic_resource_sets c" "\<And>x. classified s U c1 x"
    using resource_change_ok [OF s Cons.prems(2) U, of m r i] by blast
  obtain c' where c': "rfold (resource_change s up_to_date m) res c1 = Inr c'"
    "map_of (ic_intent c') = map_of (ic_intent c1) ++ map_of res"
    "\<forall>x. map_of res x = None \<longrightarrow> is_deleted (ic_changes c') x = is_deleted (ic_changes c1) x"
    "ic_partial c' = ic_partial c1" "ic_resource_sets c' = ic_resource_sets c1" "\<forall>x. classified s U c' x"
    using Cons.IH [OF wf(1) c1(6)] by blast
  have "map_of (ic_intent c') = map_of (ic_intent c) ++ map_of (ri # res)"
    using c'(2) c1(2) wf(2) by (auto simp: ri fun_eq_iff map_add_def split: option.splits)
  moreover have "rfold (resource_change s up_to_date m) (ri # res) c = Inr c'" using c'(1) c1(1) by (simp add: ri)
  moreover have "\<forall>x. map_of (ri # res) x = None \<longrightarrow> is_deleted (ic_changes c') x = is_deleted (ic_changes c) x"
    using c'(3) c1(3) by (auto simp: ri)
  ultimately show ?case using c'(4-6) c1(4,5) by metis
qed auto

definition complete :: "model_state \<Rightarrow> changes \<Rightarrow> bool" where
  "complete s c \<longleftrightarrow> ic_partial c \<or> (\<forall>x. map_of (ms_intent s) x \<noteq> None \<longrightarrow>
     map_of (ic_intent c) x \<noteq> None \<or> is_deleted (ic_changes c) x)"

lemma overlay_alt: "overlay s (as_version c) =
     ((\<lambda>r. case map_of (ic_intent c) r of Some i \<Rightarrow> Some i
        | None \<Rightarrow> if ic_partial c \<and> \<not> is_deleted (ic_changes c) r then map_of (ms_intent s) r else None),
      (\<lambda>rs. set (dget (ic_resource_sets c) rs (if ic_partial c then dget (ms_resource_sets s) rs [] else []))))"
  by (auto simp: overlay_def as_version_def fun_eq_iff dget_def split: option.splits)

lemma set_concat_sets: "set (mk_set (concat (map f xs))) = (\<Union>x \<in> set xs. set (f x))"
  by auto

lemma apply_version_pair: "apply_version m W =
     (if mv_partial m
      then ((fst W |` (- (\<Union>rs \<in> set (dkeys (mv_resource_sets m)). snd W rs))) ++ map_of (mv_resources m),
            \<lambda>rs. case map_of (mv_resource_sets m) rs of Some x \<Rightarrow> set x | None \<Rightarrow> snd W rs)
      else (map_of (mv_resources m), \<lambda>rs. set (dget (mv_resource_sets m) rs [])))"
  by (simp add: apply_version_def split_beta del: set_map)

lemma version_changes_ok:
  assumes s: "model_inv s" and U: "U = set up_to_date" and wf: "wf_version m"
    and cl: "\<And>x. classified s U c x" and co: "complete s c"
  shows "\<exists>c'. version_changes s up_to_date m c = Inr c' \<and> (\<forall>x. classified s U c' x) \<and> complete s c'
    \<and> overlay s (as_version c') = apply_version m (overlay s (as_version c))"
proof -
  define c1 where "c1 = (if mv_partial m then c\<lparr>ic_resource_sets := dunion (ic_resource_sets c) (mv_resource_sets m)\<rparr>
                else c\<lparr>ic_partial := False, ic_resource_sets := mv_resource_sets m\<rparr>)"
  have cl1: "classified s U c1 x" for x using cl [of x] by (auto simp: c1_def classified_def)
  let ?gone = "sdiff (known_resources s m c) (dkeys (mv_resources m))"
  define c2 where "c2 = fold delete_change ?gone c1"
  have c2: "map_of (ic_intent c2) = map_of (ic_intent c1) |` (- set ?gone)"
    "\<And>x. is_deleted (ic_changes c2) x \<longleftrightarrow> x \<in> set ?gone \<or> is_deleted (ic_changes c1) x"
    "ic_partial c2 = ic_partial c1" "ic_resource_sets c2 = ic_resource_sets c1" "\<And>x. classified s U c2 x"
    using delete_all_ok [OF cl1, of ?gone] by (auto simp: c2_def)
  have wfr: "wf_dict (mv_resources m)" "wf_dict (mv_resource_sets m)" using wf by (simp_all add: wf_version_def)
  obtain c3 where c3: "rfold (resource_change s up_to_date m) (mv_resources m) c2 = Inr c3"
    "map_of (ic_intent c3) = map_of (ic_intent c2) ++ map_of (mv_resources m)"
    "\<And>x. map_of (mv_resources m) x = None \<Longrightarrow> is_deleted (ic_changes c3) x = is_deleted (ic_changes c2) x"
    "ic_partial c3 = ic_partial c2" "ic_resource_sets c3 = ic_resource_sets c2" "\<And>x. classified s U c3 x"
    using resources_ok [OF s U wfr(1) c2(5), of m] by blast
  let ?c' = "c3\<lparr>ic_version := mv_version m\<rparr>"
  have "version_changes s up_to_date m c = Inr ?c'"
    using c3(1) by (simp add: version_changes_def Let_def c2_def c1_def)
  moreover have "classified s U ?c' x" for x using c3(6) [of x] by (simp add: classified_def)
  moreover have i1: "ic_intent c1 = ic_intent c" "ic_changes c1 = ic_changes c" by (simp_all add: c1_def)
  have gone: "x \<in> set ?gone \<longleftrightarrow> x \<in> set (known_resources s m c) \<and> map_of (mv_resources m) x = None" for x
    by (auto simp: set_dkeys simp del: set_map)
  have full: "set (known_resources s m c) = {x. map_of (ic_intent c) x \<noteq> None \<or> ic_partial c \<and> map_of (ms_intent s) x \<noteq> None}"
    if "\<not> mv_partial m"
    using that by (auto simp: known_resources_def set_dkeys simp del: set_map)
  have intent: "map_of (ic_intent ?c') x = (case map_of (mv_resources m) x of Some i \<Rightarrow> Some i
      | None \<Rightarrow> if x \<in> set (known_resources s m c) then None else map_of (ic_intent c) x)" for x
    using gone [of x] by (auto simp: c3(2) c2(1) i1 map_add_def restrict_map_def split: option.splits)
  have del: "is_deleted (ic_changes ?c') x \<longleftrightarrow> x \<in> set (known_resources s m c) \<or> is_deleted (ic_changes c) x"
    if "map_of (mv_resources m) x = None" for x
    using gone [of x] that c3(3) [OF that] by (simp add: c2(2) i1)
  have part: "ic_partial ?c' \<longleftrightarrow> mv_partial m \<and> ic_partial c" by (auto simp: c3(4) c2(3) c1_def)
  have "complete s ?c'"
  proof (cases "mv_partial m")
    case False
    have "map_of (ic_intent ?c') x \<noteq> None \<or> is_deleted (ic_changes ?c') x" if "map_of (ms_intent s) x \<noteq> None" for x
      using intent [of x] del [of x] that co by (cases "map_of (mv_resources m) x") (auto simp: full [OF False] complete_def)
    then show ?thesis by (simp add: complete_def)
  next
    case True
    have "map_of (ic_intent ?c') x \<noteq> None \<or> is_deleted (ic_changes ?c') x"
      if "map_of (ms_intent s) x \<noteq> None" "\<not> ic_partial c" for x
      using intent [of x] del [of x] that co by (cases "map_of (mv_resources m) x") (auto simp: complete_def)
    then show ?thesis using part True by (auto simp: complete_def)
  qed
  moreover have "overlay s (as_version ?c') = apply_version m (overlay s (as_version c))"
  proof (cases "mv_partial m")
    case False
    have "fst (overlay s (as_version ?c')) x = map_of (mv_resources m) x" for x
      using intent [of x] by (cases "map_of (mv_resources m) x") (auto simp: overlay_alt part False full [OF False])
    moreover have "snd (overlay s (as_version ?c')) rs = set (dget (mv_resource_sets m) rs [])" for rs
      by (simp add: overlay_alt part False c3(5) c2(4) c1_def)
    ultimately show ?thesis using False
      unfolding apply_version_pair by (simp add: prod_eq_iff fun_eq_iff)
  next
    case True
    let ?I = "fst (overlay s (as_version c))" and ?S = "snd (overlay s (as_version c))"
    have known: "set (known_resources s m c) = (\<Union>rs \<in> set (dkeys (mv_resource_sets m)). ?S rs)"
      using True unfolding known_resources_def overlay_alt snd_conv by (simp only: if_True set_concat_sets)
    have "fst (overlay s (as_version ?c')) x = (?I |` (- set (known_resources s m c)) ++ map_of (mv_resources m)) x" for x
      using intent [of x] del [of x] True
      by (cases "map_of (mv_resources m) x") (auto simp: overlay_alt part map_add_def restrict_map_def)
    moreover have "snd (overlay s (as_version ?c')) rs
        = (case map_of (mv_resource_sets m) rs of Some x \<Rightarrow> set x | None \<Rightarrow> ?S rs)" for rs
      using True by (auto simp: overlay_alt part c3(5) c2(4) c1_def dget_def map_of_dunion [OF wfr(2)] map_add_def split: option.split)
    ultimately show ?thesis using True unfolding known
      unfolding apply_version_pair by (simp add: prod_eq_iff fun_eq_iff del: set_map)
  qed
  ultimately show ?thesis by blast
qed

lemma get_intent_changes_ok:
  assumes s: "model_inv s" and ne: "new_versions \<noteq> []" and wf: "\<forall>m \<in> set new_versions. wf_version m"
  shows "\<exists>c. get_intent_changes s new_versions up_to_date = Inr (as_version c)
    \<and> overlay s (as_version c) = fold apply_version new_versions (managed s)
    \<and> (\<forall>x. classified s (set up_to_date) c x) \<and> complete s c"
proof -
  have loop: "\<exists>c'. rfold (version_changes s up_to_date) ms c = Inr c' \<and> (\<forall>x. classified s (set up_to_date) c' x) \<and> complete s c'
      \<and> overlay s (as_version c') = fold apply_version ms (overlay s (as_version c))"
    if "\<forall>m \<in> set ms. wf_version m" "\<And>x. classified s (set up_to_date) c x" "complete s c" for ms c
    using that
  proof (induction ms arbitrary: c)
    case (Cons m ms)
    have wm: "wf_version m" using Cons.prems(1) by simp
    obtain c1 where c1: "version_changes s up_to_date m c = Inr c1" "\<And>x. classified s (set up_to_date) c1 x" "complete s c1"
      "overlay s (as_version c1) = apply_version m (overlay s (as_version c))"
      using version_changes_ok [OF s refl wm Cons.prems(2,3)] by blast
    have "\<forall>m \<in> set ms. wf_version m" using Cons.prems(1) by simp
    from Cons.IH [OF this c1(2,3)] c1(1,4) show ?case by auto
  qed auto
  let ?c0 = "\<lparr>ic_partial = True, ic_version = ms_version s, ic_intent = [], ic_resource_sets = [], ic_requires = [],
                 ic_changes = [], ic_undefined = []\<rparr>"
  have "overlay s (as_version ?c0) = managed s"
    by (auto simp: overlay_alt managed_def is_deleted_def fun_eq_iff)
  with loop [OF wf, of ?c0] ne show ?thesis
    by (auto simp: classified_def class_ok_def complete_def get_intent_changes_def as_version_def)
qed

section \<open>Properties\<close>

text \<open>
  C7: consolidating a sequence of versions never raises, and means the same as applying the
  versions to the managed model one after the other: every partial version replaces the
  resources of the sets it has, every full version the whole model. A resource of the managed
  model that the consolidated version neither has nor marks as deleted keeps its intent.
\<close>

theorem get_intent_changes_consolidates:
  assumes "model_inv s" and "new_versions \<noteq> []" and "\<forall>m \<in> set new_versions. wf_version m"
  shows "\<exists>res. get_intent_changes s new_versions up_to_date = Inr res
    \<and> overlay s res = fold apply_version new_versions (managed s)"
  using get_intent_changes_ok [OF assms] by blast

definition sample_version :: "int \<Rightarrow> bool \<Rightarrow> (string option \<times> (rid \<times> string) list) list \<Rightarrow> model_version" where
  "sample_version v p sets = \<lparr>mv_version = v,
     mv_resources = concat (map (\<lambda>(_, rs). map (\<lambda>(r, h). (r, \<lparr>ri_resource_id = r, ri_attribute_hash = h, ri_attributes = [],
       ri_id = \<lparr>entity_type = [], agent_name = [], id_attribute = [], attribute_value = [], id_version = 0\<rparr>\<rparr>)) rs) sets),
     mv_resource_sets = map (\<lambda>(s, rs). (s, map fst rs)) sets, mv_requires = [], mv_undefined = [], mv_partial = p\<rparr>"

text \<open>A full version with the resources \<open>a\<close> and \<open>b\<close>; then the set of \<open>a\<close> is exported without it.\<close>

definition two_versions :: "model_version list" where
  "two_versions = [sample_version 1 False [(Some ''x'', [(''a'', ''1'')]), (None, [(''b'', ''1'')])],
     sample_version 2 True [(Some ''x'', [(''c'', ''1'')])]]"

lemma two_versions_wf: "\<forall>m \<in> set two_versions. wf_version m"
  by (simp add: two_versions_def sample_version_def wf_version_def wf_dict_def)

theorem get_intent_changes_consolidates_witness:
  "\<exists>res. get_intent_changes (empty_model_state 0) two_versions [] = Inr res
     \<and> fst (overlay (empty_model_state 0) res) ''a'' = None \<and> fst (overlay (empty_model_state 0) res) ''c'' \<noteq> None"
proof -
  have "two_versions \<noteq> []" by (simp add: two_versions_def)
  from get_intent_changes_consolidates [OF model_inv_empty this two_versions_wf] obtain res where
    res: "get_intent_changes (empty_model_state 0) two_versions [] = Inr res"
    "overlay (empty_model_state 0) res = fold apply_version two_versions (managed (empty_model_state 0))" by blast
  have "fst (overlay (empty_model_state 0) res) ''a'' = None \<and> fst (overlay (empty_model_state 0) res) ''c'' \<noteq> None"
    unfolding res(2)
    by (simp add: two_versions_def sample_version_def apply_version_def managed_def restrict_map_def map_add_def dget_def)
  with res(1) show ?thesis by blast
qed

text \<open>
  the classification of the changes is exact on both sides. Without resources assumed to be
  up to date, a resource marked as deleted is not in the resulting model; one marked as new is;
  one marked as updated is in both models; and one that is not marked is in neither model, or in
  both with the same attribute hash, and, if the new versions have it, with the same defined
  status.
\<close>

theorem get_intent_changes_classifies:
  assumes "model_inv s" and "new_versions \<noteq> []" and "\<forall>m \<in> set new_versions. wf_version m"
  shows "\<exists>m ch. get_intent_changes s new_versions [] = Inr (m, ch)
    \<and> (\<forall>r. let new = fst (fold apply_version new_versions (managed s)) r; old = map_of (ms_intent s) r
         in case map_of ch r of
              Some (Deleted _) \<Rightarrow> new = None
            | Some New \<Rightarrow> new \<noteq> None
            | Some Updated \<Rightarrow> new \<noteq> None \<and> old \<noteq> None
            | None \<Rightarrow> map_option ri_attribute_hash new = map_option ri_attribute_hash old
                \<and> (has_key (mv_resources m) r \<longrightarrow> (r \<in> set (mv_undefined m)) =
                     (\<exists>st. state_of s r = Some st \<and> rs_compliance st = UNDEFINED)))"
proof -
  obtain c where c: "get_intent_changes s new_versions [] = Inr (as_version c)"
    "overlay s (as_version c) = fold apply_version new_versions (managed s)"
    "\<And>x. classified s {} c x" "complete s c"
    using get_intent_changes_ok [OF assms, of "[]"] by auto
  have co: "ic_partial c \<or> (map_of (ms_intent s) r \<noteq> None \<longrightarrow> map_of (ic_intent c) r \<noteq> None \<or> is_deleted (ic_changes c) r)" for r
    using c(4) by (auto simp: complete_def)
  have new: "fst (fold apply_version new_versions (managed s)) r = (case map_of (ic_intent c) r of Some i \<Rightarrow> Some i
        | None \<Rightarrow> if ic_partial c \<and> \<not> is_deleted (ic_changes c) r then map_of (ms_intent s) r else None)" for r
    unfolding c(2) [symmetric] by (simp add: overlay_alt)
  have "case map_of (ic_changes c) r of
              Some (Deleted _) \<Rightarrow> fst (fold apply_version new_versions (managed s)) r = None
            | Some New \<Rightarrow> fst (fold apply_version new_versions (managed s)) r \<noteq> None
            | Some Updated \<Rightarrow> fst (fold apply_version new_versions (managed s)) r \<noteq> None \<and> map_of (ms_intent s) r \<noteq> None
            | None \<Rightarrow> map_option ri_attribute_hash (fst (fold apply_version new_versions (managed s)) r)
                    = map_option ri_attribute_hash (map_of (ms_intent s) r)
                \<and> (has_key (ic_intent c) r \<longrightarrow> (r \<in> set (ic_undefined c)) =
                     (\<exists>st. state_of s r = Some st \<and> rs_compliance st = UNDEFINED))" for r
    using c(3) [of r] co [of r] unfolding new
    by (auto simp: classified_def class_ok_def is_deleted_def has_key_def
        split: option.splits intent_change.splits)
  moreover define m where "m = fst (as_version c)"
  then have m: "as_version c = (m, ic_changes c)" "ic_intent c = mv_resources m" "ic_undefined c = mv_undefined m"
    by (simp_all add: as_version_def)
  ultimately show ?thesis using c(1) unfolding m Let_def by blast
qed

theorem get_intent_changes_classifies_witness:
  "\<exists>m ch. get_intent_changes (empty_model_state 0) two_versions [] = Inr (m, ch) \<and> map_of ch ''c'' \<noteq> None"
proof -
  have ne: "two_versions \<noteq> []" by (simp add: two_versions_def)
  have new: "fst (fold apply_version two_versions (managed (empty_model_state 0))) ''c'' \<noteq> None"
    by (simp add: two_versions_def sample_version_def apply_version_def managed_def map_add_def)
  obtain m ch where g: "get_intent_changes (empty_model_state 0) two_versions [] = Inr (m, ch)" and c:
    "case map_of ch ''c'' of Some (Deleted _) \<Rightarrow> fst (fold apply_version two_versions (managed (empty_model_state 0))) ''c'' = None
      | Some New \<Rightarrow> fst (fold apply_version two_versions (managed (empty_model_state 0))) ''c'' \<noteq> None
      | Some Updated \<Rightarrow> fst (fold apply_version two_versions (managed (empty_model_state 0))) ''c'' \<noteq> None
          \<and> map_of (ms_intent (empty_model_state 0)) ''c'' \<noteq> None
      | None \<Rightarrow> map_option ri_attribute_hash (fst (fold apply_version two_versions (managed (empty_model_state 0))) ''c'')
          = map_option ri_attribute_hash (map_of (ms_intent (empty_model_state 0)) ''c'')
          \<and> (has_key (mv_resources m) ''c'' \<longrightarrow> (''c'' \<in> set (mv_undefined m)) =
               (\<exists>st. state_of (empty_model_state 0) ''c'' = Some st \<and> rs_compliance st = UNDEFINED))"
    using get_intent_changes_classifies [OF model_inv_empty ne two_versions_wf] unfolding Let_def by blast
  have "map_of ch ''c'' \<noteq> None"
  proof
    assume "map_of ch ''c'' = None"
    with c new show False by (auto simp: empty_model_state_def)
  qed
  with g show ?thesis by blast
qed

end
