(* ===== verification/Sample_Model.thy ===== *)
theory Sample_Model
  imports Model_State
begin

text \<open>
  Small concrete models for the witnesses: every resource is given by its id, its compliance,
  its blocked status and its requirements; all belong to the agent \<open>g\<close> and send events.
\<close>

definition no_id :: id_obj where
  "no_id = \<lparr>entity_type = [], agent_name = [], attribute = [], attribute_value = [], version = 0\<rparr>"

definition sample_intent :: "rid \<Rightarrow> resource_intent" where
  "sample_intent r = \<lparr>ri_resource_id = r, ri_attribute_hash = ''h'', ri_attributes = [(''send_event'', PBool True)],
     ri_id = (case parse_id r None of Inr i \<Rightarrow> i | Inl _ \<Rightarrow> no_id)\<rparr>"

definition sample_state :: "compliance \<Rightarrow> blocked \<Rightarrow> resource_state" where
  "sample_state c b = \<lparr>rs_compliance = c, rs_last_handler_run = NEW, rs_blocked = b, rs_last_deployed = None,
     rs_last_handler_run_compliant = None\<rparr>"

type_synonym sample_row = "rid \<times> compliance \<times> blocked \<times> rid list"

definition sample_model :: "sample_row list \<Rightarrow> model_state" where
  "sample_model rows = \<lparr>ms_version = 1, ms_intent = map (\<lambda>(r, _). (r, sample_intent r)) rows, ms_resource_sets = [],
     ms_requires = (case bm_init (map (\<lambda>(r, _, _, reqs). (r, reqs)) rows) of Inr m \<Rightarrow> m | Inl _ \<Rightarrow> bm_empty),
     ms_resource_state = map (\<lambda>(r, c, b, _). (r, sample_state c b)) rows, ms_dirty = [],
     ms_resources_by_agent = (if rows = [] then [] else [(''g'', map fst rows)])\<rparr>"

definition sample_ok :: "sample_row list \<Rightarrow> bool" where
  "sample_ok rows \<longleftrightarrow> distinct (map fst rows) \<and> (\<forall>(r, c, b, ds) \<in> set rows. distinct ds
     \<and> (case parse_id r None of Inr i \<Rightarrow> agent_name i = ''g'' | Inl _ \<Rightarrow> False))"

lemma map_of_rows:
  "map_of (map (\<lambda>(r, c, b, ds). (r, f r c b ds)) rows) x = map_option (\<lambda>(c, b, ds). f x c b ds) (map_of rows x)"
  by (induction rows) auto

lemma map_of_intents:
  "map_of (map (\<lambda>(r, _). (r, f r)) rows) x = map_option (\<lambda>_. f x) (map_of rows x)"
  by (induction rows) auto

lemma fst_row [simp]: "fst \<circ> (\<lambda>(r, c, b, ds). (r, f r c b ds)) = fst" "fst \<circ> (\<lambda>(r, y). (r, g r)) = fst"
  by auto

lemma in_rows: "x \<in> set (map fst rows) \<longleftrightarrow> (\<exists>row. map_of rows x = Some row)"
  using map_of_eq_None_iff [of rows x] by auto

lemma sample_requires:
  assumes "sample_ok rows"
  shows "bm_inv (ms_requires (sample_model rows))
    \<and> map_of (bm_primary (ms_requires (sample_model rows))) x = map_option (\<lambda>(c, b, ds). ds) (map_of rows x)"
proof -
  let ?m = "map (\<lambda>(r, _, _, reqs). (r, reqs)) rows"
  have "distinct (map fst ?m)" "\<forall>(k, vs) \<in> set ?m. distinct vs"
    using assms by (auto simp: sample_ok_def)
  then obtain m where "bm_init ?m = Inr m" "bm_inv m" "map_of (bm_primary m) = map_of ?m"
    using bm_init_primary by blast
  then show ?thesis by (simp add: sample_model_def map_of_rows)
qed

lemma sample_lookups:
  assumes "sample_ok rows"
  shows "requires_of (sample_model rows) x = (case map_of rows x of None \<Rightarrow> [] | Some (c, b, ds) \<Rightarrow> ds)"
    and "state_of (sample_model rows) x = map_option (\<lambda>(c, b, _). sample_state c b) (map_of rows x)"
    and "known (sample_model rows) x \<longleftrightarrow> x \<in> set (map fst rows)"
    and "map_of (ms_intent (sample_model rows)) x = map_option (\<lambda>_. sample_intent x) (map_of rows x)"
    and "has_key (ms_resource_state (sample_model rows)) x \<longleftrightarrow> x \<in> set (map fst rows)"
    and "has_key (bm_primary (ms_requires (sample_model rows))) x \<longleftrightarrow> x \<in> set (map fst rows)"
  using sample_requires [OF assms, of x]
  unfolding in_rows
  by (auto simp: requires_of_def dget_def state_of_def known_def has_key_def sample_model_def map_of_rows
      map_of_intents split: option.splits)

lemma sample_row_id:
  assumes "sample_ok rows" "x \<in> set (map fst rows)"
  shows "wf_intent (sample_intent x)" "agent_of_rid x = ''g''" "ri_resource_id (sample_intent x) = x"
  using assms by (auto simp: sample_ok_def wf_intent_def sample_intent_def agent_of_rid_def split: sum.splits)

lemma sample_model_inv:
  assumes ok: "sample_ok rows"
  shows "model_inv (sample_model rows)"
proof -
  note l = sample_lookups [OF ok] and i = sample_row_id [OF ok]
  have "\<forall>x j. map_of (ms_intent (sample_model rows)) x = Some j \<longrightarrow> ri_resource_id j = x \<and> wf_intent j"
    using i(1,3) [unfolded in_rows] by (auto simp: l(4))
  moreover have "wf_dict (ms_intent (sample_model rows))" "wf_dict (ms_resource_state (sample_model rows))"
    using ok by (simp_all add: sample_ok_def wf_dict_def sample_model_def)
  ultimately have "intents_ok (sample_model rows)" by (simp add: intents_ok_def l)
  moreover have "requires_ok (sample_model rows)"
    using sample_requires [OF ok] by (auto simp: requires_ok_def l)
  moreover have "dirty_ok (sample_model rows)" by (simp add: dirty_ok_def sample_model_def)
  moreover have "dget (ms_resources_by_agent (sample_model rows)) a [] = (if a = ''g'' then map fst rows else [])"
    and "has_key (ms_resources_by_agent (sample_model rows)) a \<longleftrightarrow> rows \<noteq> [] \<and> a = ''g''" for a
    by (simp_all add: sample_model_def dget_def has_key_def)
  then have "by_agent_ok (sample_model rows)"
    using i(2) by (auto simp only: by_agent_ok_def l set_map list.set image_is_empty set_empty map_is_Nil_conv
        split: if_splits)
  ultimately show ?thesis by (simp add: model_inv_def)
qed

text \<open>Requirements that only point to earlier rows: the relation is closed and acyclic.\<close>

definition row_rank :: "sample_row list \<Rightarrow> rid \<Rightarrow> nat" where
  "row_rank rows r = length (takeWhile (\<lambda>x. x \<noteq> r) (map fst rows))"

definition sample_dag :: "sample_row list \<Rightarrow> bool" where
  "sample_dag rows \<longleftrightarrow> sample_ok rows
     \<and> (\<forall>(r, c, b, ds) \<in> set rows. \<forall>d \<in> set ds. d \<in> set (map fst rows) \<and> row_rank rows d < row_rank rows r)"

lemma sample_dag_model:
  assumes "sample_dag rows"
  shows "model_inv (sample_model rows)" "requires_closed (sample_model rows)"
    "acyclic (requires_rel (sample_model rows))"
proof -
  have ok: "sample_ok rows" using assms by (simp add: sample_dag_def)
  show "model_inv (sample_model rows)" using ok by (rule sample_model_inv)
  have d: "d \<in> set (map fst rows) \<and> row_rank rows d < row_rank rows r"
    if "d \<in> set (requires_of (sample_model rows) r)" for d r
  proof (cases "map_of rows r")
    case None
    then show ?thesis using that by (simp add: sample_lookups(1) [OF ok])
  next
    case (Some row)
    then show ?thesis using that assms map_of_SomeD [OF Some]
      by (auto simp: sample_lookups(1) [OF ok] sample_dag_def split: prod.splits)
  qed
  then show "requires_closed (sample_model rows)"
    unfolding requires_closed_def sample_lookups(3) [OF ok] by blast
  have "requires_rel (sample_model rows) \<subseteq> measure (row_rank rows)"
    using d by (auto simp: requires_rel_def)
  then show "acyclic (requires_rel (sample_model rows))"
    using wf_acyclic wf_subset [OF wf_measure] by blast
qed

text \<open>Four resources: \<open>A\<close> is required by \<open>B\<close>, which is required by \<open>C\<close>; \<open>D\<close> stands alone.\<close>

definition rA :: rid where "rA = ''t::A[g,k=1]''"
definition rB :: rid where "rB = ''t::B[g,k=1]''"
definition rC :: rid where "rC = ''t::C[g,k=1]''"
definition rD :: rid where "rD = ''t::D[g,k=1]''"

definition chain_rows :: "blocked \<Rightarrow> blocked \<Rightarrow> blocked \<Rightarrow> sample_row list" where
  "chain_rows b c d =
     [(rA, UNDEFINED, BLOCKED, []), (rB, HAS_UPDATE, b, [rA]), (rC, HAS_UPDATE, c, [rB]), (rD, HAS_UPDATE, d, [])]"

lemma rABCD_neq [simp]: "rA \<noteq> rB" "rA \<noteq> rC" "rA \<noteq> rD" "rB \<noteq> rA" "rB \<noteq> rC" "rB \<noteq> rD"
  "rC \<noteq> rA" "rC \<noteq> rB" "rC \<noteq> rD" "rD \<noteq> rA" "rD \<noteq> rB" "rD \<noteq> rC"
  by (simp_all add: rA_def rB_def rC_def rD_def)

lemma sample_ids:
  "case parse_id rA None of Inr i \<Rightarrow> agent_name i = ''g'' | Inl _ \<Rightarrow> False"
  "case parse_id rB None of Inr i \<Rightarrow> agent_name i = ''g'' | Inl _ \<Rightarrow> False"
  "case parse_id rC None of Inr i \<Rightarrow> agent_name i = ''g'' | Inl _ \<Rightarrow> False"
  "case parse_id rD None of Inr i \<Rightarrow> agent_name i = ''g'' | Inl _ \<Rightarrow> False"
  by code_simp+

lemma chain_rows_dag [simp]: "sample_dag (chain_rows b c d)"
  using sample_ids by (simp add: sample_dag_def sample_ok_def chain_rows_def row_rank_def)

lemma chain_lookups:
  "requires_of (sample_model (chain_rows b c d)) x = (if x = rB then [rA] else if x = rC then [rB] else [])"
  "state_of (sample_model (chain_rows b c d)) x =
     (if x = rA then Some (sample_state UNDEFINED BLOCKED) else if x = rB then Some (sample_state HAS_UPDATE b)
      else if x = rC then Some (sample_state HAS_UPDATE c)
      else if x = rD then Some (sample_state HAS_UPDATE d) else None)"
  "known (sample_model (chain_rows b c d)) x \<longleftrightarrow> x = rA \<or> x = rB \<or> x = rC \<or> x = rD"
proof -
  have ok: "sample_ok (chain_rows b c d)" using chain_rows_dag sample_dag_def by blast
  show "requires_of (sample_model (chain_rows b c d)) x = (if x = rB then [rA] else if x = rC then [rB] else [])"
    unfolding sample_lookups(1) [OF ok] by (auto simp: chain_rows_def)
  show "state_of (sample_model (chain_rows b c d)) x =
     (if x = rA then Some (sample_state UNDEFINED BLOCKED) else if x = rB then Some (sample_state HAS_UPDATE b)
      else if x = rC then Some (sample_state HAS_UPDATE c)
      else if x = rD then Some (sample_state HAS_UPDATE d) else None)"
    unfolding sample_lookups(2) [OF ok] by (auto simp: chain_rows_def)
  show "known (sample_model (chain_rows b c d)) x \<longleftrightarrow> x = rA \<or> x = rB \<or> x = rC \<or> x = rD"
    unfolding sample_lookups(3) [OF ok] by (simp add: chain_rows_def)
qed

lemma sample_state_simps [simp]:
  "rs_compliance (sample_state c b) = c" "rs_blocked (sample_state c b) = b"
  by (simp_all add: sample_state_def)

end
