(* ===== verification/Resource_Scheduler.thy ===== *)
theory Resource_Scheduler
  imports Scheduled_Work Resource_Timers Model_Versions Sample_Model
begin

text \<open>
  \<open>ResourceScheduler\<close> of \<open>src/src/inmanta/deploy/scheduler.py\<close>: the requests that make it
  schedule work, and its task manager interface, through which a task reports the start and
  the end of a deploy. A method whose exception is raised after a change of the state returns
  the result together with the state. Writes to the database do not change the scheduler;
  where a method can fail on one, an argument says whether it does. Log messages are left out,
  except for the lines that are added to the report of a deploy.
\<close>

section \<open>State\<close>

record scheduler =
  sc_state :: model_state
  sc_work :: scheduled_work
  sc_running :: bool
  sc_deploying_latest :: "rid pyset"
  sc_deploying_unmanaged :: "rid pyset"
  sc_timers :: timer_manager
  sc_deployment_suspended :: bool
  sc_compliance_reporting :: bool

definition sc_init :: scheduler where
  "sc_init = \<lparr>sc_state = empty_model_state 0, sc_work = sw_init, sc_running = False,
     sc_deploying_latest = [], sc_deploying_unmanaged = [], sc_timers = tm_init,
     sc_deployment_suspended = False, sc_compliance_reporting = False\<rparr>"

definition sc_reset :: "scheduler \<Rightarrow> scheduler result" where
  \<comment> \<open>\<open>_reset\<close>, apart from waiting for the task runners\<close>
  "sc_reset s =
     (if sc_running s then Inl AssertionError
      else rbind (reset (sc_state s)) (\<lambda>m.
        Inr (s\<lparr>sc_state := m, sc_work := sw_reset (sc_work s), sc_deploying_latest := [],
               sc_deploying_unmanaged := [], sc_timers := tm_reset (sc_timers s)\<rparr>)))"

definition sc_stop :: "scheduler \<Rightarrow> scheduler" where
  \<comment> \<open>\<open>stop\<close>, apart from the task runners\<close>
  "sc_stop s =
     (if \<not> sc_running s then s
      else s\<lparr>sc_running := False, sc_timers := tm_stop (sc_timers s),
             sc_work := (sc_work s)\<lparr>sw_agent_queues := send_shutdown ''Scheduler shutdown'' (sw_agent_queues (sc_work s))\<rparr>\<rparr>)"

definition should_runner_be_running :: "bool \<Rightarrow> (string \<Rightarrow> bool) \<Rightarrow> string \<Rightarrow> scheduler \<Rightarrow> bool" where
  \<comment> \<open>with the halted status of the environment and the paused agents of the database\<close>
  "should_runner_be_running environment_halted agent_paused endpoint s =
     (if sc_deployment_suspended s \<or> \<not> sc_running s then False
      else if environment_halted then False
      else \<not> agent_paused endpoint)"

section \<open>Requests\<close>

definition schedule_deploys ::
  "rid pyset \<Rightarrow> string \<Rightarrow> task_priority \<Rightarrow> (rid, rid pyset) dict \<Rightarrow> (rid, rid pyset) dict \<Rightarrow> bool
    \<Rightarrow> scheduler \<Rightarrow> scheduler result" where
  \<comment> \<open>\<open>self._work.deploy_with_context(\<dots>, deploying=self._deploying_latest, \<dots>)\<close>\<close>
  "schedule_deploys resources reason priority added dropped force_deploy s =
     rbind (deploy_with_context (requires_of (sc_state s)) (provides_of (sc_state s)) resources reason priority
             (sc_deploying_latest s) added dropped force_deploy (sc_work s))
       (\<lambda>w. Inr (s\<lparr>sc_work := w\<rparr>))"

definition deploys_requested :: "string option \<Rightarrow> rid list option \<Rightarrow> model_state \<Rightarrow> rid pyset" where
  \<comment> \<open>\<open>set.intersection(self._state.dirty, *intersection_filters)\<close>\<close>
  "deploys_requested agent resources m =
     (let d1 = (case resources of None \<Rightarrow> ms_dirty m | Some rs \<Rightarrow> sinter (ms_dirty m) rs)
      in case agent of None \<Rightarrow> d1 | Some ag \<Rightarrow> sinter d1 (dget (ms_resources_by_agent m) ag []))"

definition deploy :: "string \<Rightarrow> task_priority \<Rightarrow> string option \<Rightarrow> rid list option \<Rightarrow> scheduler \<Rightarrow> scheduler result" where
  "deploy reason priority agent resources s =
     (if \<not> sc_running s then Inr s
      else
        let to_deploy = deploys_requested agent resources (sc_state s)
        in schedule_deploys to_deploy reason priority [] [] False (s\<lparr>sc_timers := stop_timers to_deploy (sc_timers s)\<rparr>))"

definition should_deploy_resource :: "model_state \<Rightarrow> rid \<Rightarrow> bool" where
  "should_deploy_resource m r =
     (case map_of (ms_resource_state m) r of Some st \<Rightarrow> rs_blocked st \<noteq> BLOCKED | None \<Rightarrow> True)"

definition repairs_requested :: "string option \<Rightarrow> rid list option \<Rightarrow> model_state \<Rightarrow> rid pyset" where
  "repairs_requested agent resources m =
     (let base_in_scope = (case agent of None \<Rightarrow> dkeys (ms_intent m) | Some ag \<Rightarrow> dget (ms_resources_by_agent m) ag []);
          in_scope = (case resources of None \<Rightarrow> base_in_scope | Some rs \<Rightarrow> sinter base_in_scope rs)
      in mk_set (filter (should_deploy_resource m) in_scope))"

definition repair :: "string \<Rightarrow> task_priority \<Rightarrow> string option \<Rightarrow> rid list option \<Rightarrow> scheduler \<Rightarrow> scheduler result" where
  "repair reason priority agent resources s =
     (if \<not> sc_running s then Inr s
      else
        let to_deploy = repairs_requested agent resources (sc_state s);
            s1 = s\<lparr>sc_state := (sc_state s)\<lparr>ms_dirty := sunion (ms_dirty (sc_state s)) to_deploy\<rparr>\<rparr>
        in schedule_deploys to_deploy reason priority [] [] False (s1\<lparr>sc_timers := stop_timers to_deploy (sc_timers s1)\<rparr>))"

definition put_task :: "task \<Rightarrow> task_priority \<Rightarrow> scheduler \<Rightarrow> scheduler" where
  \<comment> \<open>\<open>self._work.agent_queues.queue_put_nowait(task, priority=\<dots>)\<close>\<close>
  "put_task t p s = s\<lparr>sc_work := (sc_work s)\<lparr>sw_agent_queues := queue_put_nowait t p None None (sw_agent_queues (sc_work s))\<rparr>\<rparr>"

definition dryrun :: "string \<Rightarrow> model_version \<Rightarrow> string list \<Rightarrow> scheduler \<Rightarrow> scheduler" where
  \<comment> \<open>with the version and the paused agents that the database returns\<close>
  "dryrun dry_run_id model paused_agents s =
     (if \<not> sc_running s then s
      else fold (\<lambda>(r, i) s.
          if r \<in> set (mv_undefined model) then s
          else if agent_name (ri_id i) \<in> set paused_agents then s
          else put_task (DryRun (ri_resource_id i) (mv_version model) i dry_run_id) DRYRUN s)
        (mv_resources model) s)"

definition get_facts :: "id_obj \<Rightarrow> scheduler \<Rightarrow> scheduler" where
  "get_facts i s = (if \<not> sc_running s then s else put_task (RefreshFact (resource_str i)) FACT_REFRESH s)"

definition deploy_resource :: "rid \<Rightarrow> string \<Rightarrow> task_priority \<Rightarrow> scheduler \<Rightarrow> scheduler result" where
  "deploy_resource r reason priority s =
     (case map_of (ms_resource_state (sc_state s)) r of
        None \<Rightarrow> Inr s
      | Some st \<Rightarrow>
          if rs_blocked st = BLOCKED then Inr s
          else schedule_deploys [r] reason priority [] [] False (s\<lparr>sc_timers := stop_timer r (sc_timers s)\<rparr>))"

definition reload_timer :: "scheduled_work \<Rightarrow> rid \<times> resource_state \<Rightarrow> timer_manager \<Rightarrow> timer_manager" where
  \<comment> \<open>the body of the loop of \<open>reload_all_timers\<close>\<close>
  "reload_timer w = (\<lambda>(r, st) m.
     if aq_contains (Deploy r) (sw_agent_queues w) \<or> has_key (aq_in_progress (sw_agent_queues w)) (Deploy r)
        \<or> has_key (sw_waiting w) r
     then stop_timer r m else update_timer r st m)"

definition reload_all_timers :: "scheduler \<Rightarrow> scheduler" where
  "reload_all_timers s =
     s\<lparr>sc_timers := fold (reload_timer (sc_work s)) (ms_resource_state (sc_state s)) (sc_timers s)\<rparr>"

definition load_timer_settings ::
  "(string \<Rightarrow> bool) \<Rightarrow> string \<Rightarrow> string \<Rightarrow> scheduler \<Rightarrow> scheduler result" where
  "load_timer_settings cron_ok deploy_timer repair_timer s =
     (if \<not> sc_running s then Inr s
      else rbind (reload_config cron_ok deploy_timer repair_timer
              (fold (reload_timer (sc_work s)) (ms_resource_state (sc_state s))) (sc_timers s))
        (\<lambda>m. Inr (s\<lparr>sc_timers := m\<rparr>)))"

section \<open>The task manager interface\<close>

record deploy_intent =
  di_model_version :: int
  di_intent :: resource_intent
  di_dependencies :: "(rid, const_resource_state) dict"
  di_deploy_start :: time

datatype log_line =
    FeatureNotEnabled
  | IncorrectSkip rid "(rid \<times> const_resource_state) list"
  | InconsistentState rid
  | TaskLog string

record deploy_report =
  dr_rvid :: string
  dr_resource_id :: rid
  dr_resource_state :: handler_resource_state
  dr_messages :: "log_line list"

fun report_status :: "handler_resource_state \<Rightarrow> const_resource_state" where
  \<comment> \<open>\<open>DeployReport.status\<close>\<close>
  "report_status h_skipped_for_dependency = skipped"
| "report_status h_skipped = skipped"
| "report_status h_deployed = deployed"
| "report_status h_failed = failed"
| "report_status h_dry = dry"
| "report_status h_unavailable = unavailable"
| "report_status h_non_compliant = non_compliant"

definition mk_deploy_report :: "string \<Rightarrow> handler_resource_state \<Rightarrow> log_line list \<Rightarrow> deploy_report result" where
  \<comment> \<open>the constructor with its \<open>__post_init__\<close>\<close>
  "mk_deploy_report rvid st msgs =
     (if report_status st \<in> set [available, deploying, undefined_state, skipped_for_undefined, dry] then Inl ValueError
      else rbind (parse_id rvid None) (\<lambda>i.
        Inr \<lparr>dr_rvid = rvid, dr_resource_id = resource_str i, dr_resource_state = st, dr_messages = msgs\<rparr>))"

definition get_resource_intent :: "rid \<Rightarrow> scheduler \<Rightarrow> resource_intent option" where
  "get_resource_intent r s =
     (case map_of (ms_resource_state (sc_state s)) r of
        None \<Rightarrow> None
      | Some st \<Rightarrow> if rs_blocked st = BLOCKED then None else map_of (ms_intent (sc_state s)) r)"

definition get_resource_version_intent :: "rid \<Rightarrow> scheduler \<Rightarrow> (int \<times> resource_intent) option" where
  "get_resource_version_intent r s =
     (case get_resource_intent r s of None \<Rightarrow> None | Some i \<Rightarrow> Some (ms_version (sc_state s), i))"

definition dependency_states :: "rid \<Rightarrow> scheduler \<Rightarrow> (rid, const_resource_state) dict result" where
  \<comment> \<open>\<open>_get_last_non_deploying_state_for_dependencies\<close>\<close>
  "dependency_states r s =
     rfold (\<lambda>d acc.
         rbind (dlookup (ms_resource_state (sc_state s)) d) (\<lambda>st.
         case to_handler_state st of Inl _ \<Rightarrow> Inl GeneralException | Inr c \<Rightarrow> Inr (dset acc d c)))
       (requires_of (sc_state s) r) []"

definition deploy_start :: "time \<Rightarrow> bool \<Rightarrow> rid \<Rightarrow> scheduler \<Rightarrow> deploy_intent option result \<times> scheduler" where
  \<comment> \<open>\<open>db_ok\<close>: the write of \<open>send_in_progress\<close> succeeds\<close>
  "deploy_start now db_ok r s =
     (case get_resource_intent r s of
        None \<Rightarrow> (Inr None, s)
      | Some i \<Rightarrow>
          (case dependency_states r s of
             Inl e \<Rightarrow> (Inl e, s)
           | Inr deps \<Rightarrow>
               let s1 = s\<lparr>sc_deploying_latest := sadd r (sc_deploying_latest s)\<rparr>;
                   d = \<lparr>di_model_version = ms_version (sc_state s), di_intent = i, di_dependencies = deps,
                        di_deploy_start = now\<rparr>
               in (case parse_id (r @ '',v='' @ show_int (ms_version (sc_state s))) None of
                     Inl e \<Rightarrow> (Inl e, s1)
                   | Inr _ \<Rightarrow> if db_ok then (Inr (Some d), s1) else (Inl GeneralException, s1))))"

definition enforce_compliance_reporting :: "scheduler \<Rightarrow> deploy_report \<Rightarrow> deploy_report" where
  \<comment> \<open>\<open>_enforce_compliance_reporting_entitlement\<close>\<close>
  "enforce_compliance_reporting s report =
     (if \<not> sc_compliance_reporting s \<and> report_status (dr_resource_state report) = non_compliant
      then report\<lparr>dr_resource_state := h_failed, dr_messages := dr_messages report @ [FeatureNotEnabled]\<rparr>
      else report)"

definition temporarily_blocked_warning :: "deploy_intent \<Rightarrow> log_line" where
  "temporarily_blocked_warning d =
     (let bad_dependencies = filter (\<lambda>(_, c). c \<noteq> deployed) (di_dependencies d)
      in if bad_dependencies \<noteq> [] then IncorrectSkip (ri_resource_id (di_intent d)) bad_dependencies
         else InconsistentState (ri_resource_id (di_intent d)))"

fun rfilter :: "('a \<Rightarrow> bool result) \<Rightarrow> 'a list \<Rightarrow> 'a list result" where
  \<comment> \<open>a set comprehension whose condition may raise\<close>
  "rfilter p [] = Inr []"
| "rfilter p (x # xs) = rbind (p x) (\<lambda>b. rbind (rfilter p xs) (\<lambda>ys. Inr (if b then x # ys else ys)))"

definition blocked_is :: "model_state \<Rightarrow> blocked \<Rightarrow> rid \<Rightarrow> bool result" where
  \<comment> \<open>\<open>self._state.resource_state[r].blocked is b\<close>\<close>
  "blocked_is m b r = rbind (dlookup (ms_resource_state m) r) (\<lambda>st. Inr (rs_blocked st = b))"

definition listens :: "model_state \<Rightarrow> rid \<Rightarrow> bool result" where
  \<comment> \<open>the condition on an event listener\<close>
  "listens m r =
     (case map_of (ms_intent m) r of
        None \<Rightarrow> Inr False
      | Some i \<Rightarrow> rbind (blocked_is m NOT_BLOCKED r) (\<lambda>b.
          Inr (b \<and> truthy (dget (ri_attributes i) ''receive_events'' (PBool True)))))"

definition event_listeners :: "resource_intent \<Rightarrow> bool \<Rightarrow> model_state \<Rightarrow> rid pyset result" where
  "event_listeners i stale_deploy m =
     (if stale_deploy \<or> \<not> truthy (dget (ri_attributes i) ''send_event'' (PBool False)) then Inr []
      else rfilter (listens m) (provides_of m (ri_resource_id i)))"

definition recovery_listeners :: "resource_intent \<Rightarrow> bool \<Rightarrow> model_state \<Rightarrow> rid pyset result" where
  "recovery_listeners i recovered m =
     (if \<not> recovered then Inr [] else rfilter (blocked_is m TEMPORARILY_BLOCKED) (provides_of m (ri_resource_id i)))"

definition unblock_listener :: "rid \<Rightarrow> model_state \<Rightarrow> model_state" where
  "unblock_listener r m = (case upd_state r (\<lambda>st. st\<lparr>rs_blocked := NOT_BLOCKED\<rparr>) m of Inr m' \<Rightarrow> m' | Inl _ \<Rightarrow> m)"

definition send_events :: "resource_intent \<Rightarrow> bool \<Rightarrow> bool \<Rightarrow> scheduler \<Rightarrow> unit result \<times> scheduler" where
  "send_events i stale_deploy recovered s =
     (let r = ri_resource_id i; m = sc_state s in
      case event_listeners i stale_deploy m of
        Inl e \<Rightarrow> (Inl e, s)
      | Inr events \<Rightarrow>
        (case recovery_listeners i recovered m of
           Inl e \<Rightarrow> (Inl e, s)
         | Inr recoveries \<Rightarrow>
             let s1 = s\<lparr>sc_state := fold unblock_listener recoveries (m\<lparr>ms_dirty := sunion (ms_dirty m) recoveries\<rparr>)\<rparr>;
                 all_listeners = sunion events recoveries
             in if all_listeners = [] then (Inr (), s1)
                else (case map_of (aq_in_progress (sw_agent_queues (sc_work s1))) (Deploy r) of
                        None \<Rightarrow> (Inl AssertionError, s1)
                      | Some priority \<Rightarrow>
                          let s2 = s1\<lparr>sc_timers := stop_timers all_listeners (sc_timers s1)\<rparr>;
                              reason = (if recovered then ''a recovery event was received from '' @ r
                                        else ''an event was received from '' @ r)
                          in (case schedule_deploys all_listeners reason priority [] [] True s2 of
                                Inl e \<Rightarrow> (Inl e, s2)
                              | Inr s3 \<Rightarrow> (Inr (), s3)))))"

definition put_resource_state :: "rid \<Rightarrow> resource_state \<Rightarrow> scheduler \<Rightarrow> scheduler" where
  \<comment> \<open>assignments to the fields of the object \<open>self._state.resource_state[r]\<close>\<close>
  "put_resource_state r st s =
     s\<lparr>sc_state := (sc_state s)\<lparr>ms_resource_state := dset (ms_resource_state (sc_state s)) r st\<rparr>\<rparr>"

definition set_dirty :: "rid pyset \<Rightarrow> scheduler \<Rightarrow> scheduler" where
  "set_dirty d s = s\<lparr>sc_state := (sc_state s)\<lparr>ms_dirty := d\<rparr>\<rparr>"

definition finish_stale ::
  "resource_intent \<Rightarrow> rid \<Rightarrow> handler_result \<Rightarrow> time \<Rightarrow> bool \<Rightarrow> resource_state \<Rightarrow> scheduler
    \<Rightarrow> resource_state result \<times> scheduler" where
  \<comment> \<open>the branch for a deploy of an outdated intent\<close>
  "finish_stale i r deploy_result finished recovered st s =
     (let s1 = put_resource_state r (st\<lparr>rs_last_handler_run := deploy_result, rs_last_deployed := Some finished\<rparr>) s
      in if recovered
         then (case send_events i True True s1 of
                 (Inl e, s2) \<Rightarrow> (Inl e, s2)
               | (Inr _, s2) \<Rightarrow> (dlookup (ms_resource_state (sc_state s2)) r, s2))
         else (dlookup (ms_resource_state (sc_state s1)) r, s1))"

definition settle_outcome ::
  "deploy_intent \<Rightarrow> handler_resource_state \<Rightarrow> handler_result \<Rightarrow> rid \<Rightarrow> resource_state \<Rightarrow> scheduler
    \<Rightarrow> (log_line list \<times> scheduler) result" where
  \<comment> \<open>block the resource until a dependency recovers, or else update the dirty set\<close>
  "settle_outcome d reported deploy_result r st s =
     (let dirty = ms_dirty (sc_state s) in
      rbind (if rs_blocked st \<noteq> BLOCKED \<and> reported = h_skipped_for_dependency
             then should_skip_for_dependencies r (sc_state s) else Inr False) (\<lambda>skip.
        if skip then
          Inr ([], set_dirty (sdiscard r dirty) (put_resource_state r (st\<lparr>rs_blocked := TEMPORARILY_BLOCKED\<rparr>) s))
        else if deploy_result = SUCCESSFUL then
          let s1 = set_dirty (sdiscard r dirty) s
          in if rs_blocked st = TEMPORARILY_BLOCKED
             then Inr ([temporarily_blocked_warning d], put_resource_state r (st\<lparr>rs_blocked := NOT_BLOCKED\<rparr>) s1)
             else Inr ([], s1)
        else Inr ([], set_dirty (sadd r dirty) s)))"

definition finish_latest ::
  "deploy_intent \<Rightarrow> deploy_report \<Rightarrow> resource_intent \<Rightarrow> handler_result \<Rightarrow> time \<Rightarrow> bool \<Rightarrow> resource_state \<Rightarrow> scheduler
    \<Rightarrow> (resource_state \<times> deploy_report) result \<times> scheduler" where
  \<comment> \<open>the branch for a deploy of the latest intent\<close>
  "finish_latest d report i deploy_result finished recovered st s =
     (let r = dr_resource_id report;
          st1 = st\<lparr>rs_compliance := (if dr_resource_state report = h_deployed then COMPLIANT else NON_COMPLIANT)\<rparr>;
          s1 = put_resource_state r st1 s
      in if r \<notin> set (sc_deploying_latest s1) then (Inl KeyError, s1)
         else
           let st2 = st1\<lparr>rs_last_handler_run := deploy_result, rs_last_deployed := Some finished,
                         rs_last_handler_run_compliant := Some (rs_compliance st1 = COMPLIANT)\<rparr>;
               s2 = (put_resource_state r st2 s1)\<lparr>sc_deploying_latest := sdiscard r (sc_deploying_latest s1)\<rparr>
           in (case settle_outcome d (dr_resource_state report) deploy_result r st2 s2 of
                 Inl e \<Rightarrow> (Inl e, s2)
               | Inr (msgs, s3) \<Rightarrow>
                   (case send_events i False recovered s3 of
                      (Inl e, s4) \<Rightarrow> (Inl e, s4)
                    | (Inr _, s4) \<Rightarrow>
                        (rbind (dlookup (ms_resource_state (sc_state s4)) r) (\<lambda>st4.
                           Inr (st4, report\<lparr>dr_messages := dr_messages report @ msgs\<rparr>)), s4))))"

definition update_scheduler_state_for_finished_deploy ::
  "deploy_intent \<Rightarrow> deploy_report \<Rightarrow> time \<Rightarrow> scheduler \<Rightarrow> (resource_state \<times> deploy_report) result \<times> scheduler" where
  "update_scheduler_state_for_finished_deploy d report finished s =
     (let r = dr_resource_id report in
      case from_handler_resource_state (dr_resource_state report) of
        Inl e \<Rightarrow> (Inl e, s)
      | Inr deploy_result \<Rightarrow>
          (case map_of (ms_intent (sc_state s)) r of
             None \<Rightarrow> (Inl StaleResource, s\<lparr>sc_deploying_unmanaged := sdiscard r (sc_deploying_unmanaged s)\<rparr>)
           | Some i \<Rightarrow>
               if r \<in> set (sc_deploying_unmanaged s)
               then (Inl StaleResource, s\<lparr>sc_deploying_unmanaged := sdiscard r (sc_deploying_unmanaged s)\<rparr>)
               else
                 (case map_of (ms_resource_state (sc_state s)) r of
                    None \<Rightarrow> (Inl KeyError, s)
                  | Some st \<Rightarrow>
                      let result_compliant = (dr_resource_state report = h_deployed);
                          recovered = (rs_last_handler_run_compliant st = Some False \<and> result_compliant)
                      in if ri_attribute_hash i \<noteq> ri_attribute_hash (di_intent d) \<or> rs_compliance st = UNDEFINED
                         then (case finish_stale i r deploy_result finished recovered st s of
                                 (Inl e, s1) \<Rightarrow> (Inl e, s1)
                               | (Inr st1, s1) \<Rightarrow> (Inr (st1, report), s1))
                         else finish_latest d report i deploy_result finished recovered st s)))"

definition report_end :: "deploy_intent \<Rightarrow> deploy_report \<Rightarrow> scheduler \<Rightarrow> scheduler result" where
  \<comment> \<open>the \<open>finally\<close> block of \<open>deploy_done\<close>\<close>
  "report_end d report s =
     rbind (finished_deploy (provides_of (sc_state s)) (dr_resource_id report) (sc_work s)) (\<lambda>w.
       let s1 = s\<lparr>sc_work := w\<rparr>; r = ri_resource_id (di_intent d)
       in Inr (case map_of (ms_resource_state (sc_state s1)) r of
                 None \<Rightarrow> s1
               | Some st \<Rightarrow> s1\<lparr>sc_timers := update_timer r st (sc_timers s1)\<rparr>))"

definition deploy_done ::
  "deploy_intent \<Rightarrow> deploy_report \<Rightarrow> time \<Rightarrow> bool \<Rightarrow> scheduler
    \<Rightarrow> (deploy_report \<times> resource_state option) result \<times> scheduler" where
  \<comment> \<open>the value is what \<open>send_deploy_done\<close> is called with; \<open>db_ok\<close>: it succeeds\<close>
  "deploy_done d report0 finished db_ok s =
     (let report = enforce_compliance_reporting s report0;
          (res, s1) = update_scheduler_state_for_finished_deploy d report finished s;
          out = (case res of
                   Inr (st, report1) \<Rightarrow> if db_ok then Inr (report1, Some st) else Inl GeneralException
                 | Inl StaleResource \<Rightarrow> if db_ok then Inr (report, None) else Inl GeneralException
                 | Inl e \<Rightarrow> Inl e)
      in case report_end d report s1 of Inl e \<Rightarrow> (Inl e, s1) | Inr s2 \<Rightarrow> (out, s2))"

section \<open>The invariant of the scheduler\<close>

definition settled :: "resource_state \<Rightarrow> bool" where
  \<comment> \<open>a compliant resource has been deployed\<close>
  "settled st \<longleftrightarrow> \<not> (rs_compliance st = COMPLIANT \<and> rs_last_handler_run st = NEW)"

definition sched_inv :: "scheduler \<Rightarrow> bool" where
  "sched_inv s \<longleftrightarrow> model_inv (sc_state s) \<and> requires_closed (sc_state s)
     \<and> (\<forall>r st. state_of (sc_state s) r = Some st \<longrightarrow> settled st)
     \<and> sw_inv (sc_work s) \<and> tm_inv (sc_timers s)
     \<and> (\<forall>r \<in> set (sc_deploying_latest s). known (sc_state s) r \<and> \<not> is_blocked_in (sc_state s) r)"

lemma sched_init [simp]: "sched_inv sc_init"
  by (simp add: sched_inv_def sc_init_def requires_closed_def requires_of_def empty_model_state_def state_of_def
      bm_empty_def tm_init_def tm_inv_def model_inv_empty [unfolded empty_model_state_def bm_empty_def])

lemma model_inv_change:
  assumes "model_inv m" "wf_dict states" "\<And>x. has_key states x = has_key (ms_resource_state m) x" "distinct d"
    and "\<And>x. x \<in> set d \<Longrightarrow> known m x \<and> \<not> (\<exists>st. map_of states x = Some st \<and> rs_blocked st = BLOCKED)"
  shows "model_inv (m\<lparr>ms_resource_state := states, ms_dirty := d\<rparr>)"
  using assms by (auto simp: model_inv_defs known_def is_blocked_in_def state_of_def)

lemma view_change [simp]:
  "known (m\<lparr>ms_resource_state := states\<rparr>) = known m" "known (m\<lparr>ms_dirty := d\<rparr>) = known m"
  "state_of (m\<lparr>ms_resource_state := states\<rparr>) = map_of states" "state_of (m\<lparr>ms_dirty := d\<rparr>) = state_of m"
  "requires_of (m\<lparr>ms_resource_state := states\<rparr>) = requires_of m" "requires_of (m\<lparr>ms_dirty := d\<rparr>) = requires_of m"
  "provides_of (m\<lparr>ms_resource_state := states\<rparr>) = provides_of m" "provides_of (m\<lparr>ms_dirty := d\<rparr>) = provides_of m"
  "is_blocked_in (m\<lparr>ms_dirty := d\<rparr>) = is_blocked_in m"
  "requires_closed (m\<lparr>ms_resource_state := states\<rparr>) = requires_closed m"
  "requires_closed (m\<lparr>ms_dirty := d\<rparr>) = requires_closed m"
  by (simp_all add: fun_eq_iff known_def state_of_def requires_of_def provides_of_def is_blocked_in_def
      requires_closed_def)

lemma stop_timers_ok:
  assumes "tm_inv m"
  shows "tm_inv (stop_timers rs m)" "due (stop_timers rs m) x = (if x \<in> set rs then None else due m x)"
proof -
  have one: "tm_inv (stop_timer r m) \<and> (\<forall>x. due (stop_timer r m) x = (if x = r then None else due m x))"
    if "tm_inv m" for r m
  proof (cases "map_of (tm_resource_timers m) r")
    case None
    then have "due m r = None" by (simp add: due_def)
    with None that show ?thesis by (simp add: stop_timer_def)
  next
    case (Some t)
    with that show ?thesis by (simp add: stop_timer_def due_upd tm_inv_upd)
  qed
  then have "tm_inv (stop_timers rs m) \<and> (\<forall>x. due (stop_timers rs m) x = (if x \<in> set rs then None else due m x))"
    using assms unfolding stop_timers_def by (induction rs arbitrary: m) auto
  then show "tm_inv (stop_timers rs m)" "due (stop_timers rs m) x = (if x \<in> set rs then None else due m x)" by auto
qed

lemma sched_inv_timers: "sched_inv s \<Longrightarrow> tm_inv m \<Longrightarrow> sched_inv (s\<lparr>sc_timers := m\<rparr>)"
  and sched_inv_work: "sched_inv s \<Longrightarrow> sw_inv w \<Longrightarrow> sched_inv (s\<lparr>sc_work := w\<rparr>)"
  and sched_inv_unmanaged: "sched_inv s \<Longrightarrow> sched_inv (s\<lparr>sc_deploying_unmanaged := u\<rparr>)"
  by (simp_all add: sched_inv_def)

lemma schedule_ok:
  assumes "sched_inv s" "edges added \<subseteq> graph (requires_of (sc_state s))"
    and "D = counted rs (sc_deploying_latest s) force_deploy"
  shows "\<exists>w. schedule_deploys rs reason p added dropped force_deploy s = Inr (s\<lparr>sc_work := w\<rparr>) \<and> sw_inv w
    \<and> (\<forall>x. wsched w D x \<longleftrightarrow> x \<in> set rs \<or> wsched (sc_work s) D x)"
proof -
  have "y \<in> set (requires_of (sc_state s) x) \<longleftrightarrow> x \<in> set (provides_of (sc_state s) y)" for x y
    using assms(1) provides_iff by (simp add: sched_inv_def)
  from deploy_with_context_weak [OF _ this assms(2,3), of "sc_work s" reason p dropped] assms(1)
  show ?thesis unfolding schedule_deploys_def sched_inv_def rbind_def by force
qed

lemma request_ok:
  assumes "sched_inv s"
  shows "\<exists>w. schedule_deploys rs reason p [] [] False (s\<lparr>sc_timers := stop_timers rs (sc_timers s)\<rparr>)
      = Inr (s\<lparr>sc_timers := stop_timers rs (sc_timers s), sc_work := w\<rparr>)
    \<and> sched_inv (s\<lparr>sc_timers := stop_timers rs (sc_timers s), sc_work := w\<rparr>)
    \<and> (\<forall>x. wsched w (set (sc_deploying_latest s)) x
         \<longleftrightarrow> x \<in> set rs \<or> wsched (sc_work s) (set (sc_deploying_latest s)) x)"
proof -
  let ?s = "s\<lparr>sc_timers := stop_timers rs (sc_timers s)\<rparr>"
  have "sched_inv ?s" using assms stop_timers_ok(1) by (simp add: sched_inv_def)
  from schedule_ok [OF this _ refl, where added = "[]" and rs = rs and force_deploy = False and dropped = "[]"
      and reason = reason and p = p] obtain w where w:
    "schedule_deploys rs reason p [] [] False ?s = Inr (?s\<lparr>sc_work := w\<rparr>)" "sw_inv w"
    "\<forall>x. wsched w (set (sc_deploying_latest s)) x \<longleftrightarrow> x \<in> set rs \<or> wsched (sc_work s) (set (sc_deploying_latest s)) x"
    by (auto simp: edges_def counted_def)
  then show ?thesis using sched_inv_work [OF \<open>sched_inv ?s\<close> w(2)] by auto
qed

section \<open>Requests\<close>

definition in_scope :: "string option \<Rightarrow> rid list option \<Rightarrow> rid \<Rightarrow> bool" where
  \<comment> \<open>what the two filters of a request mean\<close>
  "in_scope agent resources r \<longleftrightarrow> (\<forall>ag \<in> set_option agent. agent_of_rid r = ag) \<and> (\<forall>rs \<in> set_option resources. r \<in> set rs)"

lemma known_of_agent: "model_inv m \<Longrightarrow> r \<in> set (dget (ms_resources_by_agent m) ag []) \<longleftrightarrow> known m r \<and> agent_of_rid r = ag"
  by (simp add: model_inv_defs)

lemma dirty_known: "model_inv m \<Longrightarrow> r \<in> set (ms_dirty m) \<Longrightarrow> known m r \<and> \<not> is_blocked_in m r"
  by (simp add: model_inv_defs)

lemma set_deploys_requested:
  "model_inv m \<Longrightarrow> set (deploys_requested agent resources m) = {r \<in> set (ms_dirty m). in_scope agent resources r}"
  using dirty_known [of m]
  by (cases agent; cases resources) (auto simp: deploys_requested_def in_scope_def known_of_agent)

lemma set_repairs_requested:
  assumes "model_inv m"
  shows "set (repairs_requested agent resources m)
    = {r. known m r \<and> \<not> is_blocked_in m r \<and> in_scope agent resources r}"
proof -
  have "should_deploy_resource m r \<longleftrightarrow> \<not> is_blocked_in m r" for r
    by (simp add: should_deploy_resource_def is_blocked_in_def state_of_def split: option.split)
  moreover have "r \<in> set (dkeys (ms_intent m)) \<longleftrightarrow> known m r" for r by (simp add: known_def has_key_iff)
  ultimately show ?thesis using assms
    by (cases agent; cases resources) (auto simp: repairs_requested_def in_scope_def known_of_agent)
qed

lemma dirty_more:
  assumes "model_inv m" "\<And>r. r \<in> set rs \<Longrightarrow> known m r \<and> \<not> is_blocked_in m r"
  shows "model_inv (m\<lparr>ms_dirty := sunion (ms_dirty m) rs\<rparr>)"
  using assms by (auto simp: model_inv_defs known_def is_blocked_in_def state_of_def)

text \<open>
  C14: a deploy request. While the scheduler runs, it never raises: exactly the dirty resources
  within the two filters are scheduled in addition to those already scheduled or being
  deployed, their timers are stopped and no other timer is touched, and the model is unchanged.
\<close>

theorem deploy_schedules_dirty:
  assumes "sched_inv s" and "sc_running s"
  shows "\<exists>s'. deploy reason priority agent resources s = Inr s' \<and> sched_inv s' \<and> sc_state s' = sc_state s
    \<and> (\<forall>r. wsched (sc_work s') (set (sc_deploying_latest s)) r
          \<longleftrightarrow> r \<in> set (ms_dirty (sc_state s)) \<and> in_scope agent resources r
              \<or> wsched (sc_work s) (set (sc_deploying_latest s)) r)
    \<and> (\<forall>r. due (sc_timers s') r
          = (if r \<in> set (ms_dirty (sc_state s)) \<and> in_scope agent resources r then None else due (sc_timers s) r))"
proof -
  have inv: "model_inv (sc_state s)" "tm_inv (sc_timers s)" using assms(1) by (simp_all add: sched_inv_def)
  obtain w where "deploy reason priority agent resources s
      = Inr (s\<lparr>sc_timers := stop_timers (deploys_requested agent resources (sc_state s)) (sc_timers s), sc_work := w\<rparr>)"
    "sched_inv (s\<lparr>sc_timers := stop_timers (deploys_requested agent resources (sc_state s)) (sc_timers s), sc_work := w\<rparr>)"
    "\<forall>x. wsched w (set (sc_deploying_latest s)) x \<longleftrightarrow> x \<in> set (deploys_requested agent resources (sc_state s))
       \<or> wsched (sc_work s) (set (sc_deploying_latest s)) x"
    using request_ok [OF assms(1), of "deploys_requested agent resources (sc_state s)" reason priority] assms(2)
    by (auto simp: deploy_def)
  then show ?thesis
    using set_deploys_requested [OF inv(1), of agent resources] stop_timers_ok(2) [OF inv(2)] by auto
qed

text \<open>
  C15: a repair request. While the scheduler runs, it never raises: every resource within the
  two filters that is not blocked is added to the dirty set and scheduled, whatever its
  status, its timer is stopped, and a blocked resource is neither marked nor scheduled.
\<close>

theorem repair_schedules_unblocked:
  assumes "sched_inv s" and "sc_running s"
  shows "\<exists>s'. repair reason priority agent resources s = Inr s' \<and> sched_inv s'
    \<and> (\<forall>r. r \<in> set (ms_dirty (sc_state s')) \<longleftrightarrow> r \<in> set (ms_dirty (sc_state s))
          \<or> known (sc_state s) r \<and> \<not> is_blocked_in (sc_state s) r \<and> in_scope agent resources r)
    \<and> (\<forall>r. wsched (sc_work s') (set (sc_deploying_latest s)) r
          \<longleftrightarrow> known (sc_state s) r \<and> \<not> is_blocked_in (sc_state s) r \<and> in_scope agent resources r
              \<or> wsched (sc_work s) (set (sc_deploying_latest s)) r)
    \<and> state_of (sc_state s') = state_of (sc_state s)"
proof -
  let ?rs = "repairs_requested agent resources (sc_state s)"
  let ?m = "(sc_state s)\<lparr>ms_dirty := sunion (ms_dirty (sc_state s)) ?rs\<rparr>"
  have inv: "model_inv (sc_state s)" using assms(1) by (simp add: sched_inv_def)
  have "sched_inv (s\<lparr>sc_state := ?m\<rparr>)"
    using assms(1) dirty_more [OF inv, of ?rs] set_repairs_requested [OF inv, of agent resources]
    by (simp add: sched_inv_def)
  from request_ok [OF this, of ?rs reason priority] assms(2) set_repairs_requested [OF inv, of agent resources]
  show ?thesis by (auto simp: repair_def Let_def)
qed

section \<open>Events\<close>

lemma rfilter_total: "(\<And>x. x \<in> set xs \<Longrightarrow> p x = Inr (q x)) \<Longrightarrow> rfilter p xs = Inr (filter q xs)"
  by (induction xs) auto

lemma blocked_is_known:
  assumes "model_inv m" "known m r"
  shows "blocked_is m b r = Inr (\<exists>st. state_of m r = Some st \<and> rs_blocked st = b)"
proof -
  obtain st where "map_of (ms_resource_state m) r = Some st" "state_of m r = Some st"
    using known_stateE [OF assms] .
  then show ?thesis by (simp add: blocked_is_def)
qed

definition status :: "model_state \<Rightarrow> rid \<Rightarrow> blocked option" where
  "status m r = map_option rs_blocked (state_of m r)"

definition receives :: "model_state \<Rightarrow> rid \<Rightarrow> bool" where
  \<comment> \<open>the intent of the resource lets it receive events\<close>
  "receives m r \<longleftrightarrow> (\<exists>i. map_of (ms_intent m) r = Some i \<and> truthy (dget (ri_attributes i) ''receive_events'' (PBool True)))"

definition sends :: "resource_intent \<Rightarrow> bool" where
  "sends i \<longleftrightarrow> truthy (dget (ri_attributes i) ''send_event'' (PBool False))"

definition event_targets :: "resource_intent \<Rightarrow> bool \<Rightarrow> model_state \<Rightarrow> rid set" where
  "event_targets i stale m = {x \<in> set (provides_of m (ri_resource_id i)).
     \<not> stale \<and> sends i \<and> status m x = Some NOT_BLOCKED \<and> receives m x}"

definition recovery_targets :: "resource_intent \<Rightarrow> bool \<Rightarrow> model_state \<Rightarrow> rid set" where
  "recovery_targets i recovered m = {x \<in> set (provides_of m (ri_resource_id i)).
     recovered \<and> status m x = Some TEMPORARILY_BLOCKED}"

lemma event_listeners_ok:
  assumes m: "model_inv m"
  shows "\<exists>xs. event_listeners i stale m = Inr xs \<and> set xs = event_targets i stale m"
proof (cases "stale \<or> \<not> sends i")
  case True
  then show ?thesis by (auto simp: event_listeners_def event_targets_def sends_def)
next
  case False
  have "listens m x = Inr (status m x = Some NOT_BLOCKED \<and> receives m x)"
    if "x \<in> set (provides_of m (ri_resource_id i))" for x
  proof -
    have k: "known m x" using provides_known [OF m that] .
    then obtain j where "map_of (ms_intent m) x = Some j" by (auto simp: known_def elim: has_keyE)
    with blocked_is_known [OF m k] show ?thesis by (auto simp: listens_def status_def receives_def)
  qed
  from rfilter_total [of "provides_of m (ri_resource_id i)", OF this] False show ?thesis
    by (auto simp: event_listeners_def event_targets_def sends_def)
qed

lemma recovery_listeners_ok:
  assumes m: "model_inv m"
  shows "\<exists>xs. recovery_listeners i recovered m = Inr xs \<and> set xs = recovery_targets i recovered m"
proof (cases recovered)
  case True
  have "blocked_is m TEMPORARILY_BLOCKED x = Inr (status m x = Some TEMPORARILY_BLOCKED)"
    if "x \<in> set (provides_of m (ri_resource_id i))" for x
    using blocked_is_known [OF m provides_known [OF m that]] by (simp add: status_def) 
  from rfilter_total [of "provides_of m (ri_resource_id i)", OF this] True show ?thesis by (auto simp: recovery_listeners_def recovery_targets_def)
qed (simp add: recovery_listeners_def recovery_targets_def)

lemma unblock_listener_ok:
  assumes "known m r" "model_inv m" "rs_blocked (the (state_of m r)) \<noteq> BLOCKED"
  shows "model_inv (unblock_listener r m)"
    "state_of (unblock_listener r m) = (state_of m)(r \<mapsto> (the (state_of m r))\<lparr>rs_blocked := NOT_BLOCKED\<rparr>)"
    "ms_intent (unblock_listener r m) = ms_intent m" "ms_requires (unblock_listener r m) = ms_requires m"
    "ms_dirty (unblock_listener r m) = ms_dirty m" "ms_version (unblock_listener r m) = ms_version m"
proof -
  obtain st where st: "state_of m r = Some st"
    "upd_state r (\<lambda>st. st\<lparr>rs_blocked := NOT_BLOCKED\<rparr>) m
       = Inr (m\<lparr>ms_resource_state := dset (ms_resource_state m) r (st\<lparr>rs_blocked := NOT_BLOCKED\<rparr>)\<rparr>)"
    using upd_state_ok [OF assms(1,2)] by blast
  then have e: "unblock_listener r m
      = m\<lparr>ms_resource_state := dset (ms_resource_state m) r (st\<lparr>rs_blocked := NOT_BLOCKED\<rparr>)\<rparr>"
    by (simp add: unblock_listener_def)
  show "model_inv (unblock_listener r m)"
    using assms(1,2) st(1) unfolding e
    by (auto simp: model_inv_defs known_def is_blocked_in_def state_of_def)
  show "state_of (unblock_listener r m) = (state_of m)(r \<mapsto> (the (state_of m r))\<lparr>rs_blocked := NOT_BLOCKED\<rparr>)"
    using st(1) by (simp add: e) (simp add: fun_eq_iff state_of_def)
qed (simp_all add: unblock_listener_def upd_state_def rbind_def dlookup_def split: option.split)

definition unblocking :: "rid set \<Rightarrow> (rid \<Rightarrow> resource_state option) \<Rightarrow> rid \<Rightarrow> resource_state option" where
  "unblocking X f = (\<lambda>x. if x \<in> X then map_option (\<lambda>st. st\<lparr>rs_blocked := NOT_BLOCKED\<rparr>) (f x) else f x)"

lemma unblock_all_ok:
  assumes "model_inv m" "\<And>x. x \<in> set xs \<Longrightarrow> known m x \<and> \<not> is_blocked_in m x"
  shows "model_inv (fold unblock_listener xs m) \<and> state_of (fold unblock_listener xs m) = unblocking (set xs) (state_of m)
    \<and> ms_intent (fold unblock_listener xs m) = ms_intent m \<and> ms_requires (fold unblock_listener xs m) = ms_requires m
    \<and> ms_dirty (fold unblock_listener xs m) = ms_dirty m \<and> ms_version (fold unblock_listener xs m) = ms_version m"
  using assms
proof (induction xs arbitrary: m)
  case (Cons x xs)
  obtain st where st: "state_of m x = Some st" using Cons.prems by (auto elim: known_stateE)
  have nb: "rs_blocked (the (state_of m x)) \<noteq> BLOCKED" using st Cons.prems(2) [of x] by (simp add: is_blocked_in_def)
  note one = unblock_listener_ok [OF _ Cons.prems(1) nb]
  have k: "known m x" using Cons.prems(2) by simp
  have "\<And>y. y \<in> set xs \<Longrightarrow> known (unblock_listener x m) y \<and> \<not> is_blocked_in (unblock_listener x m) y"
    using Cons.prems(2) one(2,3) [OF k] by (auto simp: known_def is_blocked_in_def)
  from Cons.IH [OF one(1) [OF k] this] one(2-6) [OF k] st show ?case
    by (auto simp: unblocking_def fun_eq_iff)
qed (simp add: unblocking_def fun_eq_iff)

lemma same_requires:
  assumes "ms_requires m' = ms_requires m" "ms_intent m' = ms_intent m"
  shows "requires_of m' = requires_of m" "provides_of m' = provides_of m" "known m' = known m"
    "requires_closed m' = requires_closed m" "receives m' = receives m"
  using assms by (simp_all add: fun_eq_iff requires_of_def provides_of_def known_def requires_closed_def receives_def)

text \<open>Replacing the model by one with the same intents and weaker blocked statuses.\<close>

lemma sched_inv_state:
  assumes s: "sched_inv s" and m: "model_inv m" "ms_requires m = ms_requires (sc_state s)" "ms_intent m = ms_intent (sc_state s)"
    and st: "\<And>r st. state_of m r = Some st \<Longrightarrow> settled st"
    and dl: "\<And>r. r \<in> set (sc_deploying_latest s) \<Longrightarrow> is_blocked_in m r \<Longrightarrow> is_blocked_in (sc_state s) r"
  shows "sched_inv (s\<lparr>sc_state := m\<rparr>)"
  using s m(1) st dl same_requires [OF m(2,3)] by (auto simp: sched_inv_def)

lemma send_events_ok:
  fixes stale recovered :: bool
  assumes s: "sched_inv s" and p: "has_key (aq_in_progress (sw_agent_queues (sc_work s))) (Deploy (ri_resource_id i))"
  defines "X \<equiv> recovery_targets i recovered (sc_state s)"
  defines "Y \<equiv> event_targets i stale (sc_state s) \<union> X"
  shows "\<exists>s'. send_events i stale recovered s = (Inr (), s') \<and> sched_inv s'
    \<and> state_of (sc_state s') = unblocking X (state_of (sc_state s))
    \<and> set (ms_dirty (sc_state s')) = set (ms_dirty (sc_state s)) \<union> X
    \<and> ms_intent (sc_state s') = ms_intent (sc_state s) \<and> ms_requires (sc_state s') = ms_requires (sc_state s)
    \<and> sc_deploying_latest s' = sc_deploying_latest s \<and> sc_deploying_unmanaged s' = sc_deploying_unmanaged s
    \<and> (\<forall>x. wsched (sc_work s') (set (sc_deploying_latest s) - Y) x
          \<longleftrightarrow> x \<in> Y \<or> wsched (sc_work s) (set (sc_deploying_latest s) - Y) x)"
proof -
  let ?m = "sc_state s"
  have m: "model_inv ?m" using s by (simp add: sched_inv_def)
  obtain es where es: "event_listeners i stale ?m = Inr es" "set es = event_targets i stale ?m"
    using event_listeners_ok [OF m] by blast
  obtain rs where rs: "recovery_listeners i recovered ?m = Inr rs" "set rs = X"
    using recovery_listeners_ok [OF m] X_def by blast
  have k: "known ?m x \<and> \<not> is_blocked_in ?m x" if "x \<in> X" for x
    using that provides_known [OF m] by (auto simp: X_def recovery_targets_def status_def is_blocked_in_def)
  let ?md = "?m\<lparr>ms_dirty := sunion (ms_dirty ?m) rs\<rparr>"
  define m1 where "m1 = fold unblock_listener rs ?md"
  have m0: "model_inv ?md" using dirty_more [OF m] k rs(2) by blast
  note m1 = unblock_all_ok [OF m0, of rs, folded m1_def]
  have m1': "model_inv m1" "state_of m1 = unblocking X (state_of ?m)" "ms_intent m1 = ms_intent ?m"
    "ms_requires m1 = ms_requires ?m" "set (ms_dirty m1) = set (ms_dirty ?m) \<union> X"
    using m1 k rs(2) by auto
  let ?s1 = "s\<lparr>sc_state := m1\<rparr>"
  have s1: "sched_inv ?s1"
  proof (rule sched_inv_state [OF s m1'(1,4,3)])
    show "settled st" if "state_of m1 r = Some st" for r st
      using that s by (auto simp: m1'(2) unblocking_def sched_inv_def settled_def split: if_splits)
    show "is_blocked_in ?m r" if "is_blocked_in m1 r" for r
      using that by (auto simp: is_blocked_in_def m1'(2) unblocking_def split: if_splits)
  qed
  let ?all = "sunion es rs"
  have all: "set ?all = Y" using es(2) rs(2) by (simp add: Y_def)
  have start: "send_events i stale recovered s = (if ?all = [] then (Inr (), ?s1)
      else (case map_of (aq_in_progress (sw_agent_queues (sc_work ?s1))) (Deploy (ri_resource_id i)) of
              None \<Rightarrow> (Inl AssertionError, ?s1)
            | Some priority \<Rightarrow>
                (case schedule_deploys ?all (if recovered then ''a recovery event was received from '' @ ri_resource_id i
                        else ''an event was received from '' @ ri_resource_id i) priority [] [] True
                      (?s1\<lparr>sc_timers := stop_timers ?all (sc_timers ?s1)\<rparr>) of
                   Inl e \<Rightarrow> (Inl e, ?s1\<lparr>sc_timers := stop_timers ?all (sc_timers ?s1)\<rparr>)
                 | Inr s3 \<Rightarrow> (Inr (), s3))))"
    unfolding send_events_def Let_def es(1) rs(1) sum.case m1_def by (rule refl)
  show ?thesis
  proof (cases "?all = []")
    case True
    then have "Y = {}" using all by auto
    then show ?thesis using True start s1 m1' by auto
  next
    case False
    obtain priority where pr: "map_of (aq_in_progress (sw_agent_queues (sc_work s))) (Deploy (ri_resource_id i)) = Some priority"
      using p by (auto elim: has_keyE)
    let ?reason = "if recovered then ''a recovery event was received from '' @ ri_resource_id i
      else ''an event was received from '' @ ri_resource_id i"
    let ?s2 = "?s1\<lparr>sc_timers := stop_timers ?all (sc_timers s)\<rparr>"
    have "tm_inv (sc_timers s)" using s by (simp add: sched_inv_def)
    then have s2: "sched_inv ?s2" using sched_inv_timers [OF s1 stop_timers_ok(1)] by simp
    have D: "set (sc_deploying_latest s) - Y = counted ?all (sc_deploying_latest ?s2) True"
      using all by (simp add: counted_def)
    from schedule_ok [OF s2 _ D, where added = "[]" and dropped = "[]" and reason = ?reason and p = priority]
    obtain w where w: "schedule_deploys ?all ?reason priority [] [] True ?s2 = Inr (?s2\<lparr>sc_work := w\<rparr>)" "sw_inv w"
      "\<forall>x. wsched w (set (sc_deploying_latest s) - Y) x \<longleftrightarrow> x \<in> Y \<or> wsched (sc_work s) (set (sc_deploying_latest s) - Y) x"
      unfolding all by (auto simp: edges_def)
    have "send_events i stale recovered s = (Inr (), ?s2\<lparr>sc_work := w\<rparr>)"
      using False start pr w(1) by simp
    moreover have "sched_inv (?s2\<lparr>sc_work := w\<rparr>)" using sched_inv_work [OF s2 w(2)] by simp
    ultimately show ?thesis using w(3) m1' by auto
  qed
qed

section \<open>The end of a deploy\<close>

lemma put_fields [simp]:
  "sc_work (put_resource_state r st s) = sc_work s" "sc_timers (put_resource_state r st s) = sc_timers s"
  "sc_deploying_latest (put_resource_state r st s) = sc_deploying_latest s"
  "sc_deploying_unmanaged (put_resource_state r st s) = sc_deploying_unmanaged s"
  "state_of (sc_state (put_resource_state r st s)) = (state_of (sc_state s))(r \<mapsto> st)"
  "ms_dirty (sc_state (put_resource_state r st s)) = ms_dirty (sc_state s)"
  "ms_intent (sc_state (put_resource_state r st s)) = ms_intent (sc_state s)"
  "ms_requires (sc_state (put_resource_state r st s)) = ms_requires (sc_state s)"
  "sc_work (set_dirty d s) = sc_work s" "sc_timers (set_dirty d s) = sc_timers s"
  "sc_deploying_latest (set_dirty d s) = sc_deploying_latest s"
  "sc_deploying_unmanaged (set_dirty d s) = sc_deploying_unmanaged s"
  "state_of (sc_state (set_dirty d s)) = state_of (sc_state s)" "ms_dirty (sc_state (set_dirty d s)) = d"
  "ms_intent (sc_state (set_dirty d s)) = ms_intent (sc_state s)"
  "ms_requires (sc_state (set_dirty d s)) = ms_requires (sc_state s)"
  by (simp_all add: put_resource_state_def set_dirty_def fun_eq_iff state_of_def)

lemma sched_inv_put:
  assumes s: "sched_inv s" and k: "known (sc_state s) r" and st: "settled st" "rs_blocked st \<noteq> BLOCKED"
    and d: "distinct d" "set d \<subseteq> insert r (set (ms_dirty (sc_state s)))"
  shows "sched_inv (set_dirty d (put_resource_state r st s))"
proof -
  let ?m = "sc_state s"
  have e: "set_dirty d (put_resource_state r st s)
      = s\<lparr>sc_state := ?m\<lparr>ms_resource_state := dset (ms_resource_state ?m) r st, ms_dirty := d\<rparr>\<rparr>"
    by (simp add: set_dirty_def put_resource_state_def)
  have m: "model_inv ?m" using s by (simp add: sched_inv_def)
  have k': "has_key (ms_resource_state ?m) r" "wf_dict (ms_resource_state ?m)" using m k by (auto simp: model_inv_defs)
  have "model_inv (?m\<lparr>ms_resource_state := dset (ms_resource_state ?m) r st, ms_dirty := d\<rparr>)"
  proof (rule model_inv_change [OF m])
    show "known ?m x \<and> \<not> (\<exists>st'. map_of (dset (ms_resource_state ?m) r st) x = Some st' \<and> rs_blocked st' = BLOCKED)"
      if "x \<in> set d" for x
      using that d(2) st(2) k dirty_known [OF m, of x] by (cases "x = r") (auto simp: is_blocked_in_def state_of_def)
  qed (use k' d(1) in auto)
  moreover have "is_blocked_in (?m\<lparr>ms_resource_state := dset (ms_resource_state ?m) r st\<rparr>) x \<longrightarrow> is_blocked_in ?m x" for x
    using st(2) by (simp add: is_blocked_in_def) (auto simp: state_of_def)
  ultimately show ?thesis
    using s st(1) unfolding e by (auto simp: sched_inv_def split: if_splits) (auto simp: state_of_def)
qed

definition outcome_skips :: "model_state \<Rightarrow> handler_resource_state \<Rightarrow> rid \<Rightarrow> bool" where
  \<comment> \<open>the handler skipped for a dependency, and one is indeed in a bad state\<close>
  "outcome_skips m reported r \<longleftrightarrow> reported = h_skipped_for_dependency \<and> (\<exists>d \<in> set (requires_of m r). failed_dep m d)"

definition outcome_blocked :: "bool \<Rightarrow> handler_result \<Rightarrow> resource_state \<Rightarrow> blocked" where
  "outcome_blocked skips result st =
     (if skips then TEMPORARILY_BLOCKED else if result = SUCCESSFUL then NOT_BLOCKED else rs_blocked st)"

definition outcome_dirty :: "bool \<Rightarrow> handler_result \<Rightarrow> rid \<Rightarrow> rid set \<Rightarrow> rid set" where
  "outcome_dirty skips result r d = (if skips \<or> result = SUCCESSFUL then d - {r} else insert r d)"

lemma settle_outcome_ok:
  fixes reported :: handler_resource_state
  assumes s: "sched_inv s" and st: "state_of (sc_state s) r = Some st" "settled st" "rs_blocked st \<noteq> BLOCKED"
  defines "k \<equiv> outcome_skips (sc_state s) reported r"
  shows "\<exists>msgs s'. settle_outcome d reported result r st s = Inr (msgs, s') \<and> sched_inv s'
    \<and> state_of (sc_state s') = (state_of (sc_state s))(r \<mapsto> st\<lparr>rs_blocked := outcome_blocked k result st\<rparr>)
    \<and> set (ms_dirty (sc_state s')) = outcome_dirty k result r (set (ms_dirty (sc_state s)))
    \<and> ms_intent (sc_state s') = ms_intent (sc_state s) \<and> ms_requires (sc_state s') = ms_requires (sc_state s)
    \<and> sc_work s' = sc_work s \<and> sc_timers s' = sc_timers s
    \<and> sc_deploying_latest s' = sc_deploying_latest s \<and> sc_deploying_unmanaged s' = sc_deploying_unmanaged s"
proof -
  let ?m = "sc_state s"
  have m: "model_inv ?m" "requires_closed ?m" using s by (simp_all add: sched_inv_def)
  have kn: "known ?m r" using m(1) st(1) by (auto simp: known_state)
  have dd: "distinct (ms_dirty ?m)" using m(1) by (simp add: model_inv_defs)
  have skip: "(if rs_blocked st \<noteq> BLOCKED \<and> reported = h_skipped_for_dependency
      then should_skip_for_dependencies r ?m else Inr False) = Inr k"
    using should_skip_ok [OF m(1), of r] m(2) st(3) by (auto simp: k_def outcome_skips_def requires_closed_def)
  let ?put = "\<lambda>b d. set_dirty d (put_resource_state r (st\<lparr>rs_blocked := b\<rparr>) s)"
  have inv: "sched_inv (?put b ds)" if "b \<noteq> BLOCKED" "distinct ds" "set ds \<subseteq> insert r (set (ms_dirty ?m))" for b ds
    using sched_inv_put [OF s kn, of "st\<lparr>rs_blocked := b\<rparr>" ds] that st(2) by (simp add: settled_def)
  have same: "put_resource_state r st (set_dirty ds s) = ?put (rs_blocked st) ds" "rs_blocked st = b \<Longrightarrow> st\<lparr>rs_blocked := b\<rparr> = st"
    for ds b by (auto simp: set_dirty_def put_resource_state_def)
  have plain: "sched_inv (set_dirty ds s)" if "distinct ds" "set ds \<subseteq> insert r (set (ms_dirty ?m))" for ds
    using s m(1) that kn st(1,3) by (auto simp: sched_inv_def set_dirty_def model_inv_defs is_blocked_in_def known_def state_of_def)
  have swap: "put_resource_state r st' (set_dirty ds s) = set_dirty ds (put_resource_state r st' s)" for st' ds
    by (simp add: set_dirty_def put_resource_state_def)
  show ?thesis
  proof (cases k)
    case True
    then have "settle_outcome d reported result r st s = Inr ([], ?put TEMPORARILY_BLOCKED (sdiscard r (ms_dirty ?m)))"
      unfolding settle_outcome_def Let_def skip by simp
    then show ?thesis using True inv [of TEMPORARILY_BLOCKED "sdiscard r (ms_dirty ?m)"] dd
      by (auto simp: outcome_blocked_def outcome_dirty_def)
  next
    case False
    consider "result = SUCCESSFUL" "rs_blocked st = TEMPORARILY_BLOCKED"
      | "result = SUCCESSFUL" "rs_blocked st = NOT_BLOCKED" | "result \<noteq> SUCCESSFUL"
      using st(3) by (cases "rs_blocked st") auto
    then show ?thesis
    proof cases
      case 1
      then have "settle_outcome d reported result r st s
          = Inr ([temporarily_blocked_warning d], ?put NOT_BLOCKED (sdiscard r (ms_dirty ?m)))"
        unfolding settle_outcome_def Let_def skip using False by (simp add: swap)
      then show ?thesis using 1 False inv [of NOT_BLOCKED "sdiscard r (ms_dirty ?m)"] dd
        by (auto simp: outcome_blocked_def outcome_dirty_def)
    next
      case 2
      then have "settle_outcome d reported result r st s = Inr ([], set_dirty (sdiscard r (ms_dirty ?m)) s)"
        unfolding settle_outcome_def Let_def skip using False by simp
      then show ?thesis using 2 False plain [of "sdiscard r (ms_dirty ?m)"] dd st(1)
        by (auto simp: outcome_blocked_def outcome_dirty_def same(2) fun_eq_iff)
    next
      case 3
      then have "settle_outcome d reported result r st s = Inr ([], set_dirty (sadd r (ms_dirty ?m)) s)"
        unfolding settle_outcome_def Let_def skip using False by simp
      then show ?thesis using 3 False plain [of "sadd r (ms_dirty ?m)"] dd st(1)
        by (auto simp: outcome_blocked_def outcome_dirty_def same(2) fun_eq_iff)
    qed
  qed
qed

lemma report_end_ok:
  assumes s: "sched_inv s"
  shows "\<exists>s'. report_end d report s = Inr s' \<and> sched_inv s' \<and> sc_state s' = sc_state s
    \<and> sc_deploying_latest s' = sc_deploying_latest s \<and> sc_deploying_unmanaged s' = sc_deploying_unmanaged s
    \<and> wsched (sc_work s') {} = wsched (sc_work s) {}"
proof -
  obtain w where w: "finished_deploy (provides_of (sc_state s)) (dr_resource_id report) (sc_work s) = Inr w" "sw_inv w"
    "wsched w {} = wsched (sc_work s) {}"
    using finished_deploy_weak s unfolding sched_inv_def by blast
  let ?s1 = "s\<lparr>sc_work := w\<rparr>"
  have s1: "sched_inv ?s1" using sched_inv_work [OF s w(2)] .
  then have "tm_inv (sc_timers ?s1)" by (simp add: sched_inv_def)
  note tm = sched_inv_timers [OF s1 update_timer_ok(1) [OF this]]
  show ?thesis using w(1,3) s1 tm by (auto simp: report_end_def Let_def split: option.split)
qed

lemma latest_state_ok:
  assumes s: "sched_inv s" and st: "state_of (sc_state s) r = Some st" and dl: "r \<in> set (sc_deploying_latest s)"
    and st2: "settled st2" "rs_blocked st2 = rs_blocked st"
  shows "sched_inv ((put_resource_state r st2 s)\<lparr>sc_deploying_latest := sdiscard r (sc_deploying_latest s)\<rparr>)"
proof -
  have m: "model_inv (sc_state s)" "known (sc_state s) r" "\<not> is_blocked_in (sc_state s) r"
    using s dl by (auto simp: sched_inv_def)
  have "distinct (ms_dirty (sc_state s))" using m(1) by (simp add: model_inv_defs)
  moreover have "rs_blocked st2 \<noteq> BLOCKED" using m(3) st st2(2) by (simp add: is_blocked_in_def)
  moreover have "set_dirty (ms_dirty (sc_state s)) (put_resource_state r st2 s) = put_resource_state r st2 s"
    by (simp add: set_dirty_def put_resource_state_def)
  ultimately have "sched_inv (put_resource_state r st2 s)"
    using sched_inv_put [OF s m(2) st2(1), of "ms_dirty (sc_state s)"] by auto
  then show ?thesis by (simp add: sched_inv_def)
qed

lemma targets_cong:
  assumes "ms_requires m' = ms_requires m" "ms_intent m' = ms_intent m"
    and "\<And>x. x \<in> set (provides_of m (ri_resource_id i)) \<Longrightarrow> state_of m' x = state_of m x"
  shows "event_targets i stale m' = event_targets i stale m" "recovery_targets i b m' = recovery_targets i b m"
  using same_requires [OF assms(1,2)] assms(3) by (auto simp: event_targets_def recovery_targets_def status_def)

lemma from_handler_not_new: "from_handler_resource_state h = Inr result \<Longrightarrow> result \<noteq> NEW"
  by (cases h) auto

lemma finish_latest_ok:
  fixes recovered :: bool and finished :: time
  assumes s: "sched_inv s" and i: "map_of (ms_intent (sc_state s)) r = Some i" and r: "dr_resource_id report = r"
    and st: "state_of (sc_state s) r = Some st" and dl: "r \<in> set (sc_deploying_latest s)"
    and prog: "has_key (aq_in_progress (sw_agent_queues (sc_work s))) (Deploy r)"
    and irr: "r \<notin> set (requires_of (sc_state s) r)" and res: "result \<noteq> NEW"
  defines "k \<equiv> outcome_skips (sc_state s) (dr_resource_state report) r"
  defines "good \<equiv> dr_resource_state report = h_deployed"
  defines "X \<equiv> recovery_targets i recovered (sc_state s)"
  defines "Y \<equiv> event_targets i False (sc_state s) \<union> X"
  defines "st' \<equiv> \<lparr>rs_compliance = (if good then COMPLIANT else NON_COMPLIANT), rs_last_handler_run = result,
     rs_blocked = outcome_blocked k result st, rs_last_deployed = Some finished,
     rs_last_handler_run_compliant = Some good\<rparr>"
  shows "\<exists>rep s'. finish_latest d report i result finished recovered st s = (Inr (st', rep), s') \<and> sched_inv s'
    \<and> dr_resource_id rep = r \<and> dr_resource_state rep = dr_resource_state report
    \<and> state_of (sc_state s') = unblocking X ((state_of (sc_state s))(r \<mapsto> st'))
    \<and> set (ms_dirty (sc_state s')) = outcome_dirty k result r (set (ms_dirty (sc_state s))) \<union> X
    \<and> ms_intent (sc_state s') = ms_intent (sc_state s) \<and> ms_requires (sc_state s') = ms_requires (sc_state s)
    \<and> sc_deploying_latest s' = sdiscard r (sc_deploying_latest s)
    \<and> sc_deploying_unmanaged s' = sc_deploying_unmanaged s \<and> r \<notin> X \<and> (\<forall>x \<in> Y. wsched (sc_work s') {} x)"
proof -
  let ?m = "sc_state s"
  have m: "model_inv ?m" using s by (simp add: sched_inv_def)
  have ir: "ri_resource_id i = r" using m i by (auto simp: model_inv_defs)
  have np: "r \<notin> set (provides_of ?m r)" using provides_iff [OF m] irr by simp
  define st1 where "st1 = st\<lparr>rs_compliance := (if good then COMPLIANT else NON_COMPLIANT)\<rparr>"
  define st2 where "st2 = st1\<lparr>rs_last_handler_run := result, rs_last_deployed := Some finished,
    rs_last_handler_run_compliant := Some (rs_compliance st1 = COMPLIANT)\<rparr>"
  define s2 where "s2 = (put_resource_state r st2 s)\<lparr>sc_deploying_latest := sdiscard r (sc_deploying_latest s)\<rparr>"
  have "rs_blocked st2 = rs_blocked st" "settled st2" using res by (simp_all add: st2_def st1_def settled_def)
  then have s2: "sched_inv s2" unfolding s2_def using latest_state_ok [OF s st dl] by simp
  have v2: "state_of (sc_state s2) = (state_of ?m)(r \<mapsto> st2)" "ms_dirty (sc_state s2) = ms_dirty ?m"
    "ms_intent (sc_state s2) = ms_intent ?m" "ms_requires (sc_state s2) = ms_requires ?m" "sc_work s2 = sc_work s"
    "sc_deploying_latest s2 = sdiscard r (sc_deploying_latest s)" "sc_deploying_unmanaged s2 = sc_deploying_unmanaged s"
    by (simp_all add: s2_def)
  have nb: "rs_blocked st2 \<noteq> BLOCKED"
    using s dl st by (auto simp: sched_inv_def is_blocked_in_def st2_def st1_def)
  have k: "outcome_skips (sc_state s2) (dr_resource_state report) r = k"
    using irr by (auto simp: k_def outcome_skips_def failed_dep_def v2(1) same_requires [OF v2(4,3)])
  obtain msgs s3 where s3: "settle_outcome d (dr_resource_state report) result r st2 s2 = Inr (msgs, s3)" "sched_inv s3"
    "state_of (sc_state s3) = (state_of (sc_state s2))(r \<mapsto> st2\<lparr>rs_blocked := outcome_blocked k result st2\<rparr>)"
    "set (ms_dirty (sc_state s3)) = outcome_dirty k result r (set (ms_dirty (sc_state s2)))"
    "ms_intent (sc_state s3) = ms_intent (sc_state s2)" "ms_requires (sc_state s3) = ms_requires (sc_state s2)"
    "sc_work s3 = sc_work s2" "sc_deploying_latest s3 = sc_deploying_latest s2"
    "sc_deploying_unmanaged s3 = sc_deploying_unmanaged s2"
    using settle_outcome_ok [OF s2, where r = r and st = st2 and reported = "dr_resource_state report" and d = d
        and result = result] nb \<open>settled st2\<close> v2(1) k by auto
  have st': "st2\<lparr>rs_blocked := outcome_blocked k result st2\<rparr> = st'"
    by (simp add: st'_def st2_def st1_def outcome_blocked_def)
  have v3: "state_of (sc_state s3) = (state_of ?m)(r \<mapsto> st')" "ms_intent (sc_state s3) = ms_intent ?m"
    "ms_requires (sc_state s3) = ms_requires ?m"
    using s3(3,5,6) v2 st' by simp_all
  have same: "state_of (sc_state s3) x = state_of ?m x" if "x \<in> set (provides_of ?m (ri_resource_id i))" for x
    using that np ir by (auto simp: v3(1))
  have tg: "event_targets i False (sc_state s3) = event_targets i False ?m"
    "recovery_targets i recovered (sc_state s3) = recovery_targets i recovered ?m"
    by (rule targets_cong [OF v3(3,2)], rule same, assumption)+
  have "has_key (aq_in_progress (sw_agent_queues (sc_work s3))) (Deploy (ri_resource_id i))"
    using prog ir s3(7) v2(5) by simp
  from send_events_ok [OF s3(2) this, of False recovered, unfolded tg, folded X_def, folded Y_def] obtain s4 where s4:
    "send_events i False recovered s3 = (Inr (), s4)" "sched_inv s4" "state_of (sc_state s4) = unblocking X (state_of (sc_state s3))"
    "set (ms_dirty (sc_state s4)) = set (ms_dirty (sc_state s3)) \<union> X" "ms_intent (sc_state s4) = ms_intent (sc_state s3)"
    "ms_requires (sc_state s4) = ms_requires (sc_state s3)" "sc_deploying_latest s4 = sc_deploying_latest s3"
    "sc_deploying_unmanaged s4 = sc_deploying_unmanaged s3"
    "\<forall>x. wsched (sc_work s4) (set (sc_deploying_latest s3) - Y) x \<longleftrightarrow> x \<in> Y \<or> wsched (sc_work s3) (set (sc_deploying_latest s3) - Y) x"
    by blast
  have rX: "r \<notin> X" using np ir by (auto simp: X_def recovery_targets_def)
  have "dlookup (ms_resource_state (sc_state s4)) r = Inr st'"
    using s4(3) v3(1) rX by (simp add: dlookup_eq_Inr) (simp add: fun_eq_iff unblocking_def state_of_def)
  moreover have "s2 = (put_resource_state r st2 (put_resource_state r st1 s))
      \<lparr>sc_deploying_latest := sdiscard r (sc_deploying_latest (put_resource_state r st1 s))\<rparr>"
    by (simp add: s2_def put_resource_state_def)
  ultimately have "finish_latest d report i result finished recovered st s
      = (Inr (st', report\<lparr>dr_messages := dr_messages report @ msgs\<rparr>), s4)"
    using s3(1) s4(1) dl r
    by (simp add: finish_latest_def Let_def good_def [symmetric] st1_def [symmetric] st2_def [symmetric])
  moreover have "\<forall>x \<in> Y. wsched (sc_work s4) {} x"
    using s4(9) by (auto simp: wsched_def)
  ultimately show ?thesis
    using s4(2-8) s3(4,8,9) v2(2,6,7) v3 rX r by auto
qed

section \<open>A scheduler for the witnesses\<close>

definition sample_scheduler :: "rid list \<Rightarrow> scheduler" where
  \<comment> \<open>nothing is blocked but the undefined \<open>A\<close>; the given resources are being deployed\<close>
  "sample_scheduler running = sc_init\<lparr>sc_state := sample_model (chain_rows NOT_BLOCKED NOT_BLOCKED NOT_BLOCKED),
     sc_work := sw_init\<lparr>sw_agent_queues := aq_init\<lparr>aq_in_progress := map (\<lambda>r. (Deploy r, USER_DEPLOY)) running\<rparr>\<rparr>,
     sc_running := True, sc_deploying_latest := running\<rparr>"

lemma sample_fields [simp]:
  "sc_state (sample_scheduler rs) = sample_model (chain_rows NOT_BLOCKED NOT_BLOCKED NOT_BLOCKED)"
  "sc_running (sample_scheduler rs)" "sc_deploying_latest (sample_scheduler rs) = rs"
  "sc_deploying_unmanaged (sample_scheduler rs) = []" "\<not> sc_compliance_reporting (sample_scheduler rs)"
  "has_key (aq_in_progress (sw_agent_queues (sc_work (sample_scheduler rs)))) (Deploy r) \<longleftrightarrow> r \<in> set rs"
  by (auto simp: sample_scheduler_def sc_init_def has_key_iff)

lemma sample_dirty [simp]: "ms_dirty (sample_model rows) = []"
  by (simp add: sample_model_def)

lemma sample_scheduler_ok:
  assumes "set rs \<subseteq> {rB, rC, rD}"
  shows "sched_inv (sample_scheduler rs)"
proof -
  let ?w = "sw_init\<lparr>sw_agent_queues := aq_init\<lparr>aq_in_progress := map (\<lambda>r. (Deploy r, USER_DEPLOY)) rs\<rparr>\<rparr>"
  have "aq_inv (aq_init\<lparr>aq_in_progress := x\<rparr>)" for x
    using sw_init_ok(1) by (simp add: aq_inv_def sw_inv_def sw_weak_def sw_init_def)
  then have "sw_inv ?w" by (simp add: sw_inv_def sw_weak_def sw_init_def)
  moreover have "tm_inv tm_init" by (simp add: tm_init_def tm_inv_def)
  ultimately show ?thesis
    using assms sample_dag_model(1,2) [OF chain_rows_dag]
    by (auto simp: sched_inv_def sample_scheduler_def sc_init_def chain_lookups is_blocked_in_def settled_def
        sample_state_def split: if_splits)
qed

section \<open>Properties of the end of a deploy\<close>

lemma enforce_fields [simp]: "dr_resource_id (enforce_compliance_reporting s report) = dr_resource_id report"
  by (simp add: enforce_compliance_reporting_def)

lemma deploy_done_ok:
  assumes "sched_inv s" and "dr_resource_id report = r" and "ri_resource_id (di_intent d) = r"
    and "map_of (ms_intent (sc_state s)) r = Some i" and "ri_attribute_hash i = ri_attribute_hash (di_intent d)"
    and "state_of (sc_state s) r = Some st" and "rs_compliance st \<noteq> UNDEFINED"
    and "r \<in> set (sc_deploying_latest s)" and "r \<notin> set (sc_deploying_unmanaged s)"
    and "has_key (aq_in_progress (sw_agent_queues (sc_work s))) (Deploy r)"
    and "r \<notin> set (requires_of (sc_state s) r)"
    and "reported = dr_resource_state (enforce_compliance_reporting s report)"
    and "from_handler_resource_state reported = Inr result"
    and "skips = outcome_skips (sc_state s) reported r"
    and "recovering = recovery_targets i (rs_last_handler_run_compliant st = Some False \<and> reported = h_deployed) (sc_state s)"
  shows "\<exists>rep s'. deploy_done d report finished db_ok s
      = (if db_ok then Inr (rep, state_of (sc_state s') r) else Inl GeneralException, s') \<and> sched_inv s'
    \<and> dr_resource_state rep = reported
    \<and> state_of (sc_state s') r = Some \<lparr>rs_compliance = (if reported = h_deployed then COMPLIANT else NON_COMPLIANT),
        rs_last_handler_run = result, rs_blocked = outcome_blocked skips result st, rs_last_deployed = Some finished,
        rs_last_handler_run_compliant = Some (reported = h_deployed)\<rparr>
    \<and> (\<forall>x. x \<noteq> r \<longrightarrow> state_of (sc_state s') x = unblocking recovering (state_of (sc_state s)) x)
    \<and> set (ms_dirty (sc_state s')) = outcome_dirty skips result r (set (ms_dirty (sc_state s))) \<union> recovering
    \<and> set (sc_deploying_latest s') = set (sc_deploying_latest s) - {r}
    \<and> (\<forall>x \<in> event_targets i False (sc_state s) \<union> recovering. wsched (sc_work s') {} x)"
proof -
  let ?rep = "enforce_compliance_reporting s report"
  let ?rec = "rs_last_handler_run_compliant st = Some False \<and> reported = h_deployed"
  have "result \<noteq> NEW" using assms(13) from_handler_not_new by blast
  from finish_latest_ok [OF assms(1,4) _ assms(6,8,10,11) this, where report = ?rep and recovered = ?rec and d = d
      and finished = finished] assms(2)
  obtain rep st' s1 where f: "finish_latest d ?rep i result finished ?rec st s = (Inr (st', rep), s1)" "sched_inv s1"
    "dr_resource_id rep = r" "dr_resource_state rep = reported"
    "state_of (sc_state s1) = unblocking recovering ((state_of (sc_state s))(r \<mapsto> st'))"
    "set (ms_dirty (sc_state s1)) = outcome_dirty skips result r (set (ms_dirty (sc_state s))) \<union> recovering"
    "sc_deploying_latest s1 = sdiscard r (sc_deploying_latest s)"
    "r \<notin> recovering" "\<forall>x \<in> event_targets i False (sc_state s) \<union> recovering. wsched (sc_work s1) {} x"
    "st' = \<lparr>rs_compliance = (if reported = h_deployed then COMPLIANT else NON_COMPLIANT),
        rs_last_handler_run = result, rs_blocked = outcome_blocked skips result st, rs_last_deployed = Some finished,
        rs_last_handler_run_compliant = Some (reported = h_deployed)\<rparr>"
    unfolding assms(14,15) using assms(12) by auto
  have "update_scheduler_state_for_finished_deploy d ?rep finished s = (Inr (st', rep), s1)"
    using assms(2,4-7,9,12,13) f(1)
    by (simp add: update_scheduler_state_for_finished_deploy_def Let_def state_of_def)
  moreover obtain s2 where e: "report_end d ?rep s1 = Inr s2" "sched_inv s2" "sc_state s2 = sc_state s1"
    "sc_deploying_latest s2 = sc_deploying_latest s1" "wsched (sc_work s2) {} = wsched (sc_work s1) {}"
    using report_end_ok [OF f(2)] by blast
  moreover have "state_of (sc_state s2) r = Some st'" using f(5,8) e(3) by (simp add: unblocking_def)
  ultimately show ?thesis using f(2-10)
    by (auto simp: deploy_done_def Let_def unblocking_def)
qed

text \<open>
  C13: the end of a deploy of the latest intent. When the report of a resource that the
  scheduler is deploying comes in, the call fails only if the write to the database does, and
  even then the scheduler is updated: the resource is compliant if and only if it was deployed,
  its last result and time are recorded, it is temporarily blocked if its handler skipped for a
  dependency that is indeed in a bad state, and it leaves the dirty set if it is blocked that
  way or was deployed successfully, and else enters it. A dependent that listens to its events,
  and on recovery from a failure each temporarily blocked one, which is then unblocked and
  dirty, is scheduled.
\<close>

theorem deploy_done_settles_outcome:
  assumes "sched_inv s" and "dr_resource_id report = r" and "ri_resource_id (di_intent d) = r"
    and "map_of (ms_intent (sc_state s)) r = Some i" and "ri_attribute_hash i = ri_attribute_hash (di_intent d)"
    and "state_of (sc_state s) r = Some st" and "rs_compliance st \<noteq> UNDEFINED"
    and "r \<in> set (sc_deploying_latest s)" and "r \<notin> set (sc_deploying_unmanaged s)"
    and "has_key (aq_in_progress (sw_agent_queues (sc_work s))) (Deploy r)"
    and "r \<notin> set (requires_of (sc_state s) r)"
    and "reported = dr_resource_state (enforce_compliance_reporting s report)"
    and "from_handler_resource_state reported = Inr result"
    and "skips = outcome_skips (sc_state s) reported r"
    and "recovering = recovery_targets i (rs_last_handler_run_compliant st = Some False \<and> reported = h_deployed) (sc_state s)"
  shows "\<exists>rep s'. deploy_done d report finished db_ok s
      = (if db_ok then Inr (rep, state_of (sc_state s') r) else Inl GeneralException, s') \<and> sched_inv s'
    \<and> dr_resource_state rep = reported
    \<and> state_of (sc_state s') r = Some \<lparr>rs_compliance = (if reported = h_deployed then COMPLIANT else NON_COMPLIANT),
        rs_last_handler_run = result, rs_blocked = outcome_blocked skips result st, rs_last_deployed = Some finished,
        rs_last_handler_run_compliant = Some (reported = h_deployed)\<rparr>
    \<and> (\<forall>x. x \<noteq> r \<longrightarrow> state_of (sc_state s') x = unblocking recovering (state_of (sc_state s)) x)
    \<and> set (ms_dirty (sc_state s')) = outcome_dirty skips result r (set (ms_dirty (sc_state s))) \<union> recovering
    \<and> set (sc_deploying_latest s') = set (sc_deploying_latest s) - {r}
    \<and> (\<forall>x \<in> event_targets i False (sc_state s) \<union> recovering. wsched (sc_work s') {} x)"
  using deploy_done_ok [OF assms] .

definition b_intent :: deploy_intent where
  "b_intent = \<lparr>di_model_version = 1, di_intent = sample_intent rB, di_dependencies = [(rA, undefined_state)],
     di_deploy_start = 5\<rparr>"

definition b_report :: "handler_resource_state \<Rightarrow> deploy_report" where
  "b_report st = \<lparr>dr_rvid = rB @ '',v=1'', dr_resource_id = rB, dr_resource_state = st, dr_messages = []\<rparr>"

lemma b_fields [simp]:
  "di_intent b_intent = sample_intent rB" "ri_resource_id (sample_intent r) = r" "dr_resource_id (b_report st) = rB"
  "dr_resource_state (enforce_compliance_reporting s (b_report h_deployed)) = h_deployed"
  by (simp_all add: b_intent_def sample_intent_def b_report_def enforce_compliance_reporting_def)

lemma chain_intent [simp]:
  "map_of (ms_intent (sample_model (chain_rows b c d))) x = (if known (sample_model (chain_rows b c d)) x then Some (sample_intent x) else None)"
proof -
  have ok: "sample_ok (chain_rows b c d)" using chain_rows_dag sample_dag_def by blast
  show ?thesis
    by (auto simp: sample_lookups(4) [OF ok] chain_lookups) (auto simp: chain_rows_def)
qed

lemma chain_events:
  "event_targets (sample_intent rB) False (sample_model (chain_rows NOT_BLOCKED NOT_BLOCKED NOT_BLOCKED)) = {rC}"
  using provides_iff [OF sample_dag_model(1) [OF chain_rows_dag]]
  by (auto simp: event_targets_def sends_def receives_def status_def chain_lookups sample_intent_def split: if_splits)

theorem deploy_done_settles_outcome_witness:
  "\<exists>rep s'. deploy_done b_intent (b_report h_deployed) 9 True (sample_scheduler [rB]) = (Inr (rep, state_of (sc_state s') rB), s')
     \<and> (\<exists>st. state_of (sc_state s') rB = Some st \<and> rs_compliance st = COMPLIANT \<and> rs_last_deployed st = Some 9)
     \<and> ms_dirty (sc_state s') = [] \<and> sc_deploying_latest s' = [] \<and> wsched (sc_work s') {} rC"
proof -
  have "\<exists>rep s'. deploy_done b_intent (b_report h_deployed) 9 True (sample_scheduler [rB])
      = (if True then Inr (rep, state_of (sc_state s') rB) else Inl GeneralException, s') \<and> sched_inv s'
    \<and> dr_resource_state rep = h_deployed
    \<and> state_of (sc_state s') rB = Some \<lparr>rs_compliance = (if h_deployed = h_deployed then COMPLIANT else NON_COMPLIANT),
        rs_last_handler_run = SUCCESSFUL, rs_blocked = outcome_blocked False SUCCESSFUL (sample_state HAS_UPDATE NOT_BLOCKED),
        rs_last_deployed = Some 9, rs_last_handler_run_compliant = Some (h_deployed = h_deployed)\<rparr>
    \<and> (\<forall>x. x \<noteq> rB \<longrightarrow> state_of (sc_state s') x = unblocking {} (state_of (sc_state (sample_scheduler [rB]))) x)
    \<and> set (ms_dirty (sc_state s')) = outcome_dirty False SUCCESSFUL rB (set (ms_dirty (sc_state (sample_scheduler [rB])))) \<union> {}
    \<and> set (sc_deploying_latest s') = set (sc_deploying_latest (sample_scheduler [rB])) - {rB}
    \<and> (\<forall>x \<in> event_targets (sample_intent rB) False (sc_state (sample_scheduler [rB])) \<union> {}. wsched (sc_work s') {} x)"
  proof (rule deploy_done_settles_outcome [where reported = h_deployed and st = "sample_state HAS_UPDATE NOT_BLOCKED"])
    show "sched_inv (sample_scheduler [rB])" by (rule sample_scheduler_ok) simp
    show "{} = recovery_targets (sample_intent rB)
        (rs_last_handler_run_compliant (sample_state HAS_UPDATE NOT_BLOCKED) = Some False \<and> h_deployed = h_deployed)
        (sc_state (sample_scheduler [rB]))"
      by (simp add: recovery_targets_def sample_state_def)
  qed (simp_all add: chain_lookups outcome_skips_def)
  then show ?thesis by (auto simp: chain_events outcome_dirty_def)
qed

theorem deploy_schedules_dirty_witness:
  "\<exists>s'. deploy ''r'' USER_DEPLOY (Some ''g'') None (sample_scheduler []) = Inr s' \<and> sched_inv s'"
  using deploy_schedules_dirty [OF sample_scheduler_ok sample_fields(2), of "[]" "''r''" USER_DEPLOY "Some ''g''" None] by auto

theorem repair_schedules_unblocked_witness:
  "\<exists>s'. repair ''r'' USER_REPAIR None (Some [rA, rB]) (sample_scheduler []) = Inr s'
     \<and> set (ms_dirty (sc_state s')) = {rB} \<and> wsched (sc_work s') {} rB \<and> \<not> wsched (sc_work s') {} rA"
proof -
  have w: "\<not> wsched (sc_work (sample_scheduler [])) {} x" for x
    by (simp add: sample_scheduler_def sc_init_def wsched_def sw_init_def aq_contains_def aq_init_def dget_def has_key_def)
  have b: "is_blocked_in (sample_model (chain_rows NOT_BLOCKED NOT_BLOCKED NOT_BLOCKED)) x \<longleftrightarrow> x = rA" for x
    by (auto simp: is_blocked_in_def chain_lookups)
  have eq: "(x = rA \<or> x = rB \<or> x = rC \<or> x = rD) \<and> x \<noteq> rA \<and> (x = rA \<or> x = rB) \<longleftrightarrow> x = rB" for x by auto
  from repair_schedules_unblocked [OF sample_scheduler_ok sample_fields(2), of "[]" "''r''" USER_REPAIR None "Some [rA, rB]"]
  obtain s' where "repair ''r'' USER_REPAIR None (Some [rA, rB]) (sample_scheduler []) = Inr s'"
    "\<forall>r. r \<in> set (ms_dirty (sc_state s')) \<longleftrightarrow> r = rB" "\<forall>r. wsched (sc_work s') {} r \<longleftrightarrow> r = rB"
    by (auto simp: chain_lookups in_scope_def b w eq)
  then show ?thesis by auto
qed

section \<open>Deploys that are no longer wanted\<close>

lemma sched_inv_same_blocked:
  assumes s: "sched_inv s" and st: "state_of (sc_state s) r = Some st" "rs_blocked st' = rs_blocked st" "settled st'"
  shows "sched_inv (put_resource_state r st' s)"
proof -
  let ?m = "sc_state s"
  have m: "model_inv ?m" using s by (simp add: sched_inv_def)
  have k: "known ?m r" using m st(1) by (auto simp: known_state)
  have b: "is_blocked_in (sc_state (put_resource_state r st' s)) x = is_blocked_in ?m x" for x
    using st(1,2) by (simp add: is_blocked_in_def)
  have "model_inv (?m\<lparr>ms_resource_state := dset (ms_resource_state ?m) r st', ms_dirty := ms_dirty ?m\<rparr>)"
  proof (rule model_inv_change [OF m])
    show "known ?m x \<and> \<not> (\<exists>st. map_of (dset (ms_resource_state ?m) r st') x = Some st \<and> rs_blocked st = BLOCKED)"
      if "x \<in> set (ms_dirty ?m)" for x
      using dirty_known [OF m that] st(1,2) by (auto simp: is_blocked_in_def state_of_def split: if_splits)
  qed (use m k in \<open>auto simp: model_inv_defs\<close>)
  then have m': "model_inv (?m\<lparr>ms_resource_state := dset (ms_resource_state ?m) r st'\<rparr>)" by simp
  have "settled st2" if "state_of (?m\<lparr>ms_resource_state := dset (ms_resource_state ?m) r st'\<rparr>) x = Some st2" for x st2
    using that s st(3) by (auto simp: sched_inv_def state_of_def split: if_splits)
  from sched_inv_state [OF s m' _ _ this] b show ?thesis by (simp add: put_resource_state_def)
qed

text \<open>
  a deploy that finishes after its resource was dropped from the model, or dropped and
  added again as a new resource, changes nothing of the model: no state is reported for it,
  and it is only removed from the set of unmanaged deploys.
\<close>

theorem stale_deploy_changes_no_state:
  assumes "sched_inv s" and "from_handler_resource_state (dr_resource_state (enforce_compliance_reporting s report)) = Inr result"
    and "\<not> known (sc_state s) (dr_resource_id report) \<or> dr_resource_id report \<in> set (sc_deploying_unmanaged s)"
  shows "\<exists>rep s'. deploy_done d report finished db_ok s = (if db_ok then Inr (rep, None) else Inl GeneralException, s')
    \<and> sched_inv s' \<and> sc_state s' = sc_state s \<and> sc_deploying_latest s' = sc_deploying_latest s
    \<and> sc_deploying_unmanaged s' = sdiscard (dr_resource_id report) (sc_deploying_unmanaged s)"
proof -
  let ?r = "dr_resource_id report"
  let ?s = "s\<lparr>sc_deploying_unmanaged := sdiscard ?r (sc_deploying_unmanaged s)\<rparr>"
  have "update_scheduler_state_for_finished_deploy d (enforce_compliance_reporting s report) finished s = (Inl StaleResource, ?s)"
    using assms(2,3)
    by (auto simp: update_scheduler_state_for_finished_deploy_def Let_def known_def has_key_def split: option.split)
  moreover obtain s2 where "report_end d (enforce_compliance_reporting s report) ?s = Inr s2" "sched_inv s2"
    "sc_state s2 = sc_state ?s" "sc_deploying_latest s2 = sc_deploying_latest ?s"
    "sc_deploying_unmanaged s2 = sc_deploying_unmanaged ?s"
    using report_end_ok [OF sched_inv_unmanaged [OF assms(1)]] by blast
  ultimately show ?thesis by (auto simp: deploy_done_def Let_def)
qed

theorem stale_deploy_changes_no_state_witness:
  "\<exists>rep s'. deploy_done b_intent (b_report h_failed) 9 True (sc_init\<lparr>sc_deploying_unmanaged := [rB]\<rparr>) = (Inr (rep, None), s')
     \<and> sc_deploying_unmanaged s' = []"
proof -
  let ?s = "sc_init\<lparr>sc_deploying_unmanaged := [rB]\<rparr>"
  have "sched_inv ?s" using sched_inv_unmanaged [OF sched_init] .
  moreover have "from_handler_resource_state (dr_resource_state (enforce_compliance_reporting ?s (b_report h_failed))) = Inr FAILED"
    by (simp add: enforce_compliance_reporting_def b_report_def)
  ultimately have "\<exists>rep s'. deploy_done b_intent (b_report h_failed) 9 True ?s
      = (if True then Inr (rep, None) else Inl GeneralException, s')
    \<and> sched_inv s' \<and> sc_state s' = sc_state ?s \<and> sc_deploying_latest s' = sc_deploying_latest ?s
    \<and> sc_deploying_unmanaged s' = sdiscard (dr_resource_id (b_report h_failed)) (sc_deploying_unmanaged ?s)"
    by (rule stale_deploy_changes_no_state) simp
  then show ?thesis by (auto simp: sdiscard_def)
qed

text \<open>
  the end of a deploy of an intent that changed in the meantime, or of a resource that became
  undefined. The result and the time of the last handler run are recorded, but the compliance,
  the blocked status and the dirty set are left to the next deploy. Only a recovery counts: the
  temporarily blocked dependents are unblocked, dirty and scheduled.
\<close>

theorem outdated_deploy_keeps_compliance:
  assumes "sched_inv s" and "dr_resource_id report = r" and "ri_resource_id (di_intent d) = r"
    and "map_of (ms_intent (sc_state s)) r = Some i" and "state_of (sc_state s) r = Some st"
    and "ri_attribute_hash i \<noteq> ri_attribute_hash (di_intent d) \<or> rs_compliance st = UNDEFINED"
    and "r \<notin> set (sc_deploying_unmanaged s)"
    and "has_key (aq_in_progress (sw_agent_queues (sc_work s))) (Deploy r)"
    and "r \<notin> set (requires_of (sc_state s) r)"
    and "reported = dr_resource_state (enforce_compliance_reporting s report)"
    and "from_handler_resource_state reported = Inr result"
    and "recovering = recovery_targets i (rs_last_handler_run_compliant st = Some False \<and> reported = h_deployed) (sc_state s)"
  shows "\<exists>rep s'. deploy_done d report finished db_ok s
      = (if db_ok then Inr (rep, state_of (sc_state s') r) else Inl GeneralException, s') \<and> sched_inv s'
    \<and> state_of (sc_state s') r = Some (st\<lparr>rs_last_handler_run := result, rs_last_deployed := Some finished\<rparr>)
    \<and> (\<forall>x. x \<noteq> r \<longrightarrow> state_of (sc_state s') x = unblocking recovering (state_of (sc_state s)) x)
    \<and> set (ms_dirty (sc_state s')) = set (ms_dirty (sc_state s)) \<union> recovering
    \<and> sc_deploying_latest s' = sc_deploying_latest s \<and> (\<forall>x \<in> recovering. wsched (sc_work s') {} x)"
proof -
  let ?m = "sc_state s"
  let ?rep = "enforce_compliance_reporting s report"
  let ?rec = "rs_last_handler_run_compliant st = Some False \<and> reported = h_deployed"
  define st' where "st' = st\<lparr>rs_last_handler_run := result, rs_last_deployed := Some finished\<rparr>"
  define s1 where "s1 = put_resource_state r st' s"
  have m: "model_inv ?m" using assms(1) by (simp add: sched_inv_def)
  have ir: "ri_resource_id i = r" using m assms(4) by (auto simp: model_inv_defs)
  have np: "r \<notin> set (provides_of ?m r)" using provides_iff [OF m] assms(9) by simp
  have res: "result \<noteq> NEW" using assms(11) from_handler_not_new by blast
  then have s1: "sched_inv s1"
    unfolding s1_def by (intro sched_inv_same_blocked [OF assms(1,5)]) (simp_all add: st'_def settled_def)
  have v1: "state_of (sc_state s1) = (state_of ?m)(r \<mapsto> st')" "ms_dirty (sc_state s1) = ms_dirty ?m" "sc_work s1 = sc_work s"
    "sc_deploying_latest s1 = sc_deploying_latest s" "ms_intent (sc_state s1) = ms_intent ?m"
    "ms_requires (sc_state s1) = ms_requires ?m" by (simp_all add: s1_def)
  have same: "state_of (sc_state s1) x = state_of ?m x" if "x \<in> set (provides_of ?m (ri_resource_id i))" for x
    using that np ir by (auto simp: v1(1))
  have ev: "event_targets i True m' = {}" for m' by (simp add: event_targets_def)
  have tg: "recovery_targets i ?rec (sc_state s1) = recovering"
    unfolding assms(12) by (rule targets_cong [OF v1(6,5)], rule same, assumption)
  have rX: "r \<notin> recovering" using np ir by (auto simp: assms(12) recovery_targets_def)
  have lookup: "dlookup (ms_resource_state m') r = Inr y" if "state_of m' r = Some y" for m' y
    using that by (simp add: dlookup_eq_Inr state_of_def)
  obtain s2 where s2: "finish_stale i r result finished ?rec st s = (Inr st', s2)" "sched_inv s2"
    "state_of (sc_state s2) = unblocking recovering (state_of (sc_state s1))"
    "set (ms_dirty (sc_state s2)) = set (ms_dirty ?m) \<union> recovering"
    "sc_deploying_latest s2 = sc_deploying_latest s" "\<forall>x \<in> recovering. wsched (sc_work s2) {} x"
  proof (cases ?rec)
    case True
    have "has_key (aq_in_progress (sw_agent_queues (sc_work s1))) (Deploy (ri_resource_id i))" using assms(8) ir v1(3) by simp
    from send_events_ok [OF s1 this, of True ?rec, unfolded ev tg] obtain s2 where s2:
      "send_events i True ?rec s1 = (Inr (), s2)" "sched_inv s2"
      "state_of (sc_state s2) = unblocking recovering (state_of (sc_state s1))"
      "set (ms_dirty (sc_state s2)) = set (ms_dirty (sc_state s1)) \<union> recovering"
      "sc_deploying_latest s2 = sc_deploying_latest s1" "\<forall>x \<in> recovering. wsched (sc_work s2) {} x"
      by (auto simp: wsched_def)
    have "state_of (sc_state s2) r = Some st'" using s2(3) rX by (simp add: v1(1) unblocking_def)
    then have "finish_stale i r result finished ?rec st s = (Inr st', s2)"
      using True s2(1) lookup by (simp add: finish_stale_def Let_def s1_def [symmetric] st'_def [symmetric])
    then show ?thesis using that s2 v1 by auto
  next
    case False
    then have "recovering = {}" by (auto simp: assms(12) recovery_targets_def)
    moreover have "finish_stale i r result finished ?rec st s = (Inr st', s1)"
      using False lookup v1(1) by (auto simp: finish_stale_def Let_def s1_def [symmetric] st'_def [symmetric])
    ultimately show ?thesis using that s1 v1 by (auto simp: unblocking_def)
  qed
  have "update_scheduler_state_for_finished_deploy d ?rep finished s = (Inr (st', ?rep), s2)"
    using assms(2,4-7,10,11) s2(1)
    by (auto simp: update_scheduler_state_for_finished_deploy_def Let_def state_of_def)
  moreover obtain s3 where e: "report_end d ?rep s2 = Inr s3" "sched_inv s3" "sc_state s3 = sc_state s2"
    "sc_deploying_latest s3 = sc_deploying_latest s2" "wsched (sc_work s3) {} = wsched (sc_work s2) {}"
    using report_end_ok [OF s2(2)] by blast
  moreover have "state_of (sc_state s3) r = Some st'" using s2(3) e(3) rX by (simp add: v1(1) unblocking_def)
  ultimately show ?thesis using s2(2-6) v1(1)
    by (auto simp: deploy_done_def Let_def unblocking_def st'_def [symmetric])
qed

theorem outdated_deploy_keeps_compliance_witness:
  "\<exists>rep s'. deploy_done (b_intent\<lparr>di_intent := (sample_intent rB)\<lparr>ri_attribute_hash := ''old''\<rparr>\<rparr>) (b_report h_deployed) 9 True
      (sample_scheduler [rB]) = (Inr (rep, state_of (sc_state s') rB), s')
    \<and> (\<exists>st. state_of (sc_state s') rB = Some st \<and> rs_compliance st = HAS_UPDATE \<and> rs_last_handler_run st = SUCCESSFUL)"
proof -
  let ?d = "b_intent\<lparr>di_intent := (sample_intent rB)\<lparr>ri_attribute_hash := ''old''\<rparr>\<rparr>"
  let ?st = "sample_state HAS_UPDATE NOT_BLOCKED"
  have "\<exists>rep s'. deploy_done ?d (b_report h_deployed) 9 True (sample_scheduler [rB])
      = (if True then Inr (rep, state_of (sc_state s') rB) else Inl GeneralException, s') \<and> sched_inv s'
    \<and> state_of (sc_state s') rB = Some (?st\<lparr>rs_last_handler_run := SUCCESSFUL, rs_last_deployed := Some 9\<rparr>)
    \<and> (\<forall>x. x \<noteq> rB \<longrightarrow> state_of (sc_state s') x = unblocking {} (state_of (sc_state (sample_scheduler [rB]))) x)
    \<and> set (ms_dirty (sc_state s')) = set (ms_dirty (sc_state (sample_scheduler [rB]))) \<union> {}
    \<and> sc_deploying_latest s' = sc_deploying_latest (sample_scheduler [rB]) \<and> (\<forall>x \<in> {}. wsched (sc_work s') {} x)"
  proof (rule outdated_deploy_keeps_compliance [where reported = h_deployed and i = "sample_intent rB"])
    show "sched_inv (sample_scheduler [rB])" by (rule sample_scheduler_ok) simp
    show "{} = recovery_targets (sample_intent rB) (rs_last_handler_run_compliant ?st = Some False \<and> h_deployed = h_deployed)
        (sc_state (sample_scheduler [rB]))"
      by (simp add: recovery_targets_def sample_state_def)
    show "ri_attribute_hash (sample_intent rB) \<noteq> ri_attribute_hash (di_intent ?d) \<or> rs_compliance ?st = UNDEFINED"
      by (simp add: sample_intent_def)
  qed (simp_all add: chain_lookups)
  then show ?thesis by auto
qed

section \<open>The start of a deploy\<close>

lemma handler_state_settled: "settled st \<Longrightarrow> \<exists>c. to_handler_state st = Inr c"
  using to_handler_state_raises_iff [of st]
  by (cases "to_handler_state st") (auto simp: settled_def deducible_def)

lemma dependency_states_ok:
  assumes s: "sched_inv s"
  shows "\<exists>deps. dependency_states r s = Inr deps
    \<and> (\<forall>x c. map_of deps x = Some c \<longleftrightarrow> x \<in> set (requires_of (sc_state s) r)
          \<and> (\<exists>st. state_of (sc_state s) x = Some st \<and> to_handler_state st = Inr c))"
proof -
  let ?f = "\<lambda>d acc. rbind (dlookup (ms_resource_state (sc_state s)) d) (\<lambda>st.
         case to_handler_state st of Inl _ \<Rightarrow> Inl GeneralException | Inr c \<Rightarrow> Inr (dset acc d c))"
  let ?g = "\<lambda>x. case state_of (sc_state s) x of None \<Rightarrow> None
    | Some st \<Rightarrow> (case to_handler_state st of Inl _ \<Rightarrow> None | Inr c \<Rightarrow> Some c)"
  have "\<exists>deps. rfold ?f ds acc = Inr deps \<and> (\<forall>x. map_of deps x = (if x \<in> set ds then ?g x else map_of acc x))"
    if "\<And>d. d \<in> set ds \<Longrightarrow> known (sc_state s) d" for ds acc
    using that
  proof (induction ds arbitrary: acc)
    case (Cons d ds)
    have "model_inv (sc_state s)" "known (sc_state s) d" using s Cons.prems by (simp_all add: sched_inv_def)
    then obtain st where st: "map_of (ms_resource_state (sc_state s)) d = Some st" "state_of (sc_state s) d = Some st"
      by (rule known_stateE)
    then have "settled st" using s by (auto simp: sched_inv_def)
    then obtain c where c: "to_handler_state st = Inr c" using handler_state_settled by blast
    obtain deps where "rfold ?f ds (dset acc d c) = Inr deps"
      "\<forall>x. map_of deps x = (if x \<in> set ds then ?g x else map_of (dset acc d c) x)"
      using Cons.IH [of "dset acc d c"] Cons.prems by auto
    then show ?case using st c by (intro exI [of _ deps]) auto
  qed simp
  moreover have "known (sc_state s) d" if "d \<in> set (requires_of (sc_state s) r)" for d
    using s that by (auto simp: sched_inv_def requires_closed_def)
  ultimately obtain deps where "dependency_states r s = Inr deps"
    "\<forall>x. map_of deps x = (if x \<in> set (requires_of (sc_state s) r) then ?g x else None)"
    unfolding dependency_states_def by (metis (no_types, lifting) map_of.simps(1))
  then show ?thesis by (intro exI [of _ deps]) (auto split: option.splits sum.splits if_splits)
qed

text \<open>
  C16: the start of a deploy. For a resource that is unknown or blocked nothing is started and
  the scheduler is unchanged. Otherwise the scheduler commits to the current version, the
  current intent and the current status of every requirement, which always has one, and
  remembers that the latest intent of the resource is being deployed.
\<close>

theorem deploy_start_commits:
  assumes "sched_inv s"
    and "\<exists>i. parse_id (r @ '',v='' @ show_int (ms_version (sc_state s))) None = Inr i"
  shows "if known (sc_state s) r \<and> \<not> is_blocked_in (sc_state s) r
    then \<exists>d s'. deploy_start now True r s = (Inr (Some d), s') \<and> sched_inv s'
      \<and> s' = s\<lparr>sc_deploying_latest := sadd r (sc_deploying_latest s)\<rparr>
      \<and> di_model_version d = ms_version (sc_state s) \<and> map_of (ms_intent (sc_state s)) r = Some (di_intent d)
      \<and> (\<forall>x c. map_of (di_dependencies d) x = Some c \<longleftrightarrow> x \<in> set (requires_of (sc_state s) r)
          \<and> (\<exists>st. state_of (sc_state s) x = Some st \<and> to_handler_state st = Inr c))
    else deploy_start now True r s = (Inr None, s)"
proof -
  have m: "model_inv (sc_state s)" using assms(1) by (simp add: sched_inv_def)
  show ?thesis
  proof (cases "known (sc_state s) r \<and> \<not> is_blocked_in (sc_state s) r")
    case True
    then obtain st where st: "map_of (ms_resource_state (sc_state s)) r = Some st" "state_of (sc_state s) r = Some st"
      using known_stateE [OF m] by blast
    obtain i where i: "map_of (ms_intent (sc_state s)) r = Some i" using True by (auto simp: known_def elim: has_keyE)
    have "rs_blocked st \<noteq> BLOCKED" using True st(2) by (simp add: is_blocked_in_def)
    then have g: "get_resource_intent r s = Some i" using st(1) i by (simp add: get_resource_intent_def)
    obtain deps where deps: "dependency_states r s = Inr deps"
      "\<forall>x c. map_of deps x = Some c \<longleftrightarrow> x \<in> set (requires_of (sc_state s) r)
          \<and> (\<exists>st. state_of (sc_state s) x = Some st \<and> to_handler_state st = Inr c)"
      using dependency_states_ok [OF assms(1)] by blast
    have "sched_inv (s\<lparr>sc_deploying_latest := sadd r (sc_deploying_latest s)\<rparr>)"
      using assms(1) True by (auto simp: sched_inv_def)
    then show ?thesis using True assms(2) g deps i by (auto simp: deploy_start_def)
  next
    case False
    then have "get_resource_intent r s = None"
      using m by (auto simp: get_resource_intent_def known_def is_blocked_in_def state_of_def model_inv_defs has_key_def
          split: option.split)
    then show ?thesis using False by (auto simp: deploy_start_def)
  qed
qed

theorem deploy_start_commits_witness:
  "\<exists>d s'. deploy_start 3 True rC (sample_scheduler []) = (Inr (Some d), s') \<and> sc_deploying_latest s' = [rC]
     \<and> map_of (di_dependencies d) rB = Some available"
proof -
  have p: "case parse_id (rC @ '',v='' @ show_int 1) None of Inr i \<Rightarrow> True | Inl _ \<Rightarrow> False" by code_simp
  have v: "ms_version (sc_state (sample_scheduler [])) = 1" by (simp add: sample_model_def)
  have "\<exists>i. parse_id (rC @ '',v='' @ show_int (ms_version (sc_state (sample_scheduler [])))) None = Inr i"
    unfolding v using p by (auto split: sum.splits)
  from deploy_start_commits [OF sample_scheduler_ok this, of 3]
  show ?thesis
    by (auto simp: chain_lookups is_blocked_in_def to_handler_state_def sadd_def)
qed

text \<open>
  a resource that became transitively blocked while the latest version of its intent was being
  deployed is no longer among the deploys of the latest intent, but its intent is unchanged:
  then the end of its deploy raises, after the compliance has been overwritten, and no result
  is written to the database.
\<close>

theorem deploy_done_of_blocked_raises:
  assumes "sched_inv s" and "r = dr_resource_id report" and "map_of (ms_intent (sc_state s)) r = Some i"
    and "ri_attribute_hash i = ri_attribute_hash (di_intent d)"
    and "state_of (sc_state s) r = Some st" and "rs_compliance st = HAS_UPDATE" and "rs_blocked st = BLOCKED"
    and "r \<notin> set (sc_deploying_unmanaged s)" and "dr_resource_state report = h_deployed"
  shows "\<exists>s'. deploy_done d report finished db_ok s = (Inl KeyError, s')
    \<and> state_of (sc_state s') r = Some (st\<lparr>rs_compliance := COMPLIANT\<rparr>)"
proof -
  let ?s = "put_resource_state r (st\<lparr>rs_compliance := COMPLIANT\<rparr>) s"
  have rep: "enforce_compliance_reporting s report = report" using assms(9) by (simp add: enforce_compliance_reporting_def)
  have "r \<notin> set (sc_deploying_latest s)"
    using assms(1,5,7) by (auto simp: sched_inv_def is_blocked_in_def)
  then have "finish_latest d report i SUCCESSFUL finished b st s = (Inl KeyError, ?s)" for b
    using assms(2,9) by (simp add: finish_latest_def Let_def)
  then have "update_scheduler_state_for_finished_deploy d report finished s = (Inl KeyError, ?s)"
    using assms(2-6,8,9) by (simp add: update_scheduler_state_for_finished_deploy_def Let_def state_of_def)
  moreover obtain w where "finished_deploy (provides_of (sc_state ?s)) (dr_resource_id report) (sc_work ?s) = Inr w"
    using finished_deploy_weak assms(1) unfolding sched_inv_def put_fields by blast
  then obtain s' where "report_end d report ?s = Inr s'" "sc_state s' = sc_state ?s"
    by (auto simp: report_end_def Let_def split: option.split)
  ultimately show ?thesis using rep by (auto simp: deploy_done_def Let_def)
qed

theorem deploy_done_of_blocked_raises_witness:
  "\<exists>s'. deploy_done b_intent (b_report h_deployed) 9 True
     (sc_init\<lparr>sc_state := sample_model (chain_rows BLOCKED BLOCKED NOT_BLOCKED)\<rparr>) = (Inl KeyError, s')"
proof -
  let ?s = "sc_init\<lparr>sc_state := sample_model (chain_rows BLOCKED BLOCKED NOT_BLOCKED)\<rparr>"
  have "sched_inv ?s"
    using sched_init sample_dag_model(1,2) [OF chain_rows_dag]
    by (auto simp: sched_inv_def chain_lookups settled_def sample_state_def split: if_splits) (simp_all add: sc_init_def)
  then have "\<exists>s'. deploy_done b_intent (b_report h_deployed) 9 True ?s = (Inl KeyError, s')
    \<and> state_of (sc_state s') rB = Some ((sample_state HAS_UPDATE BLOCKED)\<lparr>rs_compliance := COMPLIANT\<rparr>)"
    by (rule deploy_done_of_blocked_raises [where i = "sample_intent rB"])
      (simp_all add: chain_lookups b_report_def sc_init_def)
  then show ?thesis by blast
qed

end
