(* ===== verification/Transitive_State.thy ===== *)
theory Transitive_State
  imports Sample_Model "HOL-Library.Multiset"
begin

text \<open>
  \<open>ModelState.update_transitive_state\<close> of \<open>src/src/inmanta/deploy/state.py\<close>: the four stages
  that move the blocked status over the requires relation. A work list is a stack whose head
  is the element that \<open>pop()\<close> returns. Stages 2 and 4 terminate on every model; the loop of
  stage 3 does not remember what it visited, so it is a partial function, and it is shown
  to return where the provides relation is acyclic.
\<close>

section \<open>The algorithm\<close>

record transitive =
  ts_state :: model_state
  ts_is_blocked :: "rid pyset"
  ts_out_blocked :: "rid pyset"
  ts_out_unblocked :: "rid pyset"
  ts_cache :: "(rid, rid) dict"

definition ts_provides :: "transitive \<Rightarrow> rid \<Rightarrow> rid pyset" where
  "ts_provides t r = provides_of (ts_state t) r"

definition ts_blocked :: "rid \<Rightarrow> transitive \<Rightarrow> bool result" where
  \<comment> \<open>\<open>self.resource_state[r].blocked is Blocked.BLOCKED\<close>\<close>
  "ts_blocked r t = rbind (dlookup (ms_resource_state (ts_state t)) r) (\<lambda>st. Inr (rs_blocked st = BLOCKED))"

definition ts_block :: "rid \<Rightarrow> transitive \<Rightarrow> transitive result" where
  \<comment> \<open>\<open>_block_resource_transitive\<close>, recorded in \<open>out_blocked\<close>\<close>
  "ts_block r t = rbind (block_resource_transitive r (ts_state t))
     (\<lambda>s. Inr (t\<lparr>ts_state := s, ts_out_blocked := sadd r (ts_out_blocked t)\<rparr>))"

lemma block_keys:
  assumes "block_resource_transitive r s = Inr s'"
  shows "set (dkeys (ms_resource_state s')) = set (dkeys (ms_resource_state s)) \<and> has_key (ms_resource_state s) r"
proof -
  from assms obtain st where "map_of (ms_resource_state s) r = Some st"
    "ms_resource_state s' = dset (ms_resource_state s) r (st\<lparr>rs_blocked := BLOCKED\<rparr>)"
    by (auto simp: block_resource_transitive_def upd_state_def rbind_eq_Inr dlookup_eq_Inr)
  then show ?thesis by (auto simp: set_dkeys simp del: set_map)
qed

definition ts_pending :: "transitive \<Rightarrow> nat" where
  "ts_pending t = card (set (dkeys (ms_resource_state (ts_state t))) - set (ts_is_blocked t))"

lemma ts_pending_add:
  assumes "r \<notin> set (ts_is_blocked t)" "has_key (ms_resource_state (ts_state t)) r"
  shows "ts_pending (t\<lparr>ts_is_blocked := sadd r (ts_is_blocked t)\<rparr>) < ts_pending t"
  unfolding ts_pending_def
proof (rule psubset_card_mono)
  show "finite (set (dkeys (ms_resource_state (ts_state t))) - set (ts_is_blocked t))" by simp
  show "set (dkeys (ms_resource_state (ts_state (t\<lparr>ts_is_blocked := sadd r (ts_is_blocked t)\<rparr>)))) -
      set (ts_is_blocked (t\<lparr>ts_is_blocked := sadd r (ts_is_blocked t)\<rparr>))
    \<subset> set (dkeys (ms_resource_state (ts_state t))) - set (ts_is_blocked t)"
    using assms by (auto simp: has_key_iff)
qed

text \<open>Stage 2: everything that provides follow from an undefined resource is blocked.\<close>

function propagate_undefined :: "rid list \<Rightarrow> transitive \<Rightarrow> transitive result" where
  "propagate_undefined [] t = Inr t"
| "propagate_undefined (r # work) t =
     (if r \<in> set (ts_is_blocked t) then propagate_undefined work t
      else
        let t1 = t\<lparr>ts_is_blocked := sadd r (ts_is_blocked t)\<rparr>
        in case ts_blocked r t1 of
             Inl e \<Rightarrow> Inl e
           | Inr True \<Rightarrow> propagate_undefined work t1
           | Inr False \<Rightarrow>
               (case ts_block r t1 of
                  Inl e \<Rightarrow> Inl e
                | Inr t2 \<Rightarrow> propagate_undefined (rev (ts_provides t2 r) @ work) t2))"
  by pat_completeness auto
termination
proof (relation "measures [\<lambda>(w, t). ts_pending t, \<lambda>(w, t). length w]", goal_cases)
  case (3 r work t x xa)
  then have "has_key (ms_resource_state (ts_state t)) r"
    by (auto simp: ts_blocked_def dlookup_def split: option.splits)
  with 3 show ?case using ts_pending_add [of r t] by simp
next
  case (4 r work t x xa t2)
  then have "ts_pending t2 = ts_pending x" "has_key (ms_resource_state (ts_state t)) r"
    by (auto simp: ts_block_def rbind_eq_Inr ts_pending_def dest!: block_keys)
  with 4 show ?case using ts_pending_add [of r t] by simp
qed auto

text \<open>Stage 3: a resource with new requirements is blocked by a blocked requirement.\<close>

fun first_blocked :: "rid list \<Rightarrow> transitive \<Rightarrow> rid option result" where
  \<comment> \<open>\<open>next((r for r in \<dots> if \<dots>.blocked is BLOCKED), None)\<close>\<close>
  "first_blocked [] t = Inr None"
| "first_blocked (r # rs) t = rbind (ts_blocked r t) (\<lambda>b. if b then Inr (Some r) else first_blocked rs t)"

definition cached_blocker :: "rid \<Rightarrow> transitive \<Rightarrow> (rid option \<times> transitive) result" where
  \<comment> \<open>the cached blocker if it still blocks; a stale entry is removed\<close>
  "cached_blocker r t =
     (case map_of (ts_cache t) r of
        None \<Rightarrow> Inr (None, t)
      | Some k \<Rightarrow> rbind (ts_blocked k t) (\<lambda>b.
          if b then Inr (Some k, t) else Inr (None, t\<lparr>ts_cache := ddel (ts_cache t) r\<rparr>)))"

definition update_blocked_status_to_blocked :: "rid \<Rightarrow> transitive \<Rightarrow> (bool \<times> transitive) result" where
  "update_blocked_status_to_blocked r t =
     (if r \<in> set (ts_is_blocked t) then Inr (False, t)
      else rbind (ts_blocked r t) (\<lambda>b.
        if b then Inr (False, t)
        else rbind (cached_blocker r t) (\<lambda>(dep0, t1).
          rbind (case dep0 of
                   Some d \<Rightarrow> Inr (Some d, t1)
                 | None \<Rightarrow> rbind (first_blocked (requires_of (ts_state t1) r) t1) (\<lambda>dep.
                     Inr (dep, (case dep of None \<Rightarrow> t1 | Some d \<Rightarrow> t1\<lparr>ts_cache := dset (ts_cache t1) r d\<rparr>))))
            (\<lambda>(dep, t2).
              case dep of
                None \<Rightarrow> Inr (False, t2)
              | Some d \<Rightarrow>
                  let t3 = (if d \<in> set (ts_is_blocked t2) then t2\<lparr>ts_is_blocked := sadd r (ts_is_blocked t2)\<rparr> else t2)
                  in rbind (ts_block r t3) (\<lambda>t4. Inr (True, t4))))))"

definition verify_step :: "rid \<Rightarrow> rid list \<times> transitive \<Rightarrow> (rid list \<times> transitive) result" where
  "verify_step r = (\<lambda>(work, t). rbind (update_blocked_status_to_blocked r t)
     (\<lambda>(b, t1). Inr (if b then r # work else work, t1)))"

definition propagate_step :: "bool \<Rightarrow> rid \<Rightarrow> rid list \<times> transitive \<Rightarrow> (rid list \<times> transitive) result" where
  \<comment> \<open>the body of the inner loop of the second propagation\<close>
  "propagate_step is_hard_block to_be_blocked = (\<lambda>(work, t).
     let t1 = (if is_hard_block then t\<lparr>ts_is_blocked := sadd to_be_blocked (ts_is_blocked t)\<rparr> else t)
     in rbind (ts_blocked to_be_blocked t1) (\<lambda>b.
          if \<not> b then Inr (work, t1)
          else rbind (ts_block to_be_blocked t1) (\<lambda>t2. Inr (to_be_blocked # work, t2))))"

partial_function (option) propagate_blocked :: "rid list \<Rightarrow> transitive \<Rightarrow> transitive result option" where
  "propagate_blocked work t =
     (case work of
        [] \<Rightarrow> Some (Inr t)
      | already_blocked # rest \<Rightarrow>
          (case rfold (propagate_step (already_blocked \<in> set (ts_is_blocked t)))
                  (ts_provides t already_blocked) (rest, t) of
             Inl e \<Rightarrow> Some (Inl e)
           | Inr st \<Rightarrow> propagate_blocked (fst st) (snd st)))"

declare propagate_blocked.simps [code]

text \<open>Stage 4: resources that no longer have a blocked requirement are unblocked.\<close>

definition ts_unblock :: "rid \<Rightarrow> transitive \<Rightarrow> (bool \<times> transitive) result" where
  \<comment> \<open>\<open>_unblock_resource\<close>, recorded in \<open>out_unblocked\<close>\<close>
  "ts_unblock r t = rbind (unblock_resource r (ts_state t))
     (\<lambda>s. Inr (True, t\<lparr>ts_state := s, ts_out_unblocked := sadd r (ts_out_unblocked t)\<rparr>))"

definition update_blocked_status :: "rid \<Rightarrow> transitive \<Rightarrow> (bool \<times> transitive) result" where
  "update_blocked_status r t =
     (if r \<in> set (ts_is_blocked t) then Inr (False, t)
      else rbind (dlookup (ms_resource_state (ts_state t)) r) (\<lambda>st.
        if rs_blocked st \<noteq> BLOCKED then Inr (False, t)
        else if rs_compliance st = UNDEFINED
          then Inr (False, t\<lparr>ts_is_blocked := sadd r (ts_is_blocked t)\<rparr>)
        else rbind (cached_blocker r t) (\<lambda>(dep0, t1).
          case dep0 of
            Some _ \<Rightarrow> Inr (False, t1)
          | None \<Rightarrow> rbind (first_blocked (requires_of (ts_state t1) r) t1) (\<lambda>dep.
              case dep of
                Some d \<Rightarrow> if d \<noteq> [] then Inr (False, t1\<lparr>ts_cache := dset (ts_cache t1) r d\<rparr>) else ts_unblock r t1
              | None \<Rightarrow> ts_unblock r t1))))"

definition num_blocked :: "transitive \<Rightarrow> nat" where
  "num_blocked t = card {r. is_blocked_in (ts_state t) r}"

lemma finite_blocked: "finite {r. is_blocked_in s r}"
  by (rule finite_subset [of _ "dom (map_of (ms_resource_state s))"])
    (auto simp: is_blocked_in_def state_of_def finite_dom_map_of)

lemma cached_blocker_state: "cached_blocker r t = Inr (d, t1) \<Longrightarrow> ts_state t1 = ts_state t"
  by (auto simp: cached_blocker_def rbind_eq_Inr split: option.splits if_splits)

lemma unblock_blocked_set:
  assumes "unblock_resource r s = Inr s'"
  shows "{x. is_blocked_in s' x} = {x. is_blocked_in s x} - {r}"
proof -
  from assms obtain st where "map_of (ms_resource_state s) r = Some st"
    "ms_resource_state s' = dset (ms_resource_state s) r (st\<lparr>rs_blocked := NOT_BLOCKED\<rparr>)"
    by (auto simp: unblock_resource_def upd_state_def rbind_eq_Inr dlookup_eq_Inr split: if_splits)
  then show ?thesis by (auto simp: is_blocked_in_def state_of_def)
qed

lemma update_blocked_status_cases:
  assumes "update_blocked_status r t = Inr (b, t')"
  shows "\<not> b \<and> ts_state t' = ts_state t
    \<or> b \<and> is_blocked_in (ts_state t) r \<and> unblock_resource r (ts_state t) = Inr (ts_state t')"
proof (cases "r \<in> set (ts_is_blocked t)")
  case True
  with assms show ?thesis by (simp add: update_blocked_status_def)
next
  case False
  with assms obtain st where st: "map_of (ms_resource_state (ts_state t)) r = Some st"
    by (auto simp: update_blocked_status_def rbind_eq_Inr dlookup_eq_Inr)
  show ?thesis
  proof (cases "rs_blocked st = BLOCKED \<and> rs_compliance st \<noteq> UNDEFINED")
    case no: False
    with assms False st show ?thesis by (auto simp: update_blocked_status_def split: if_split_asm)
  next
    case yes: True
    with assms False st obtain d0 t1 where c: "cached_blocker r t = Inr (d0, t1)"
      by (auto simp: update_blocked_status_def rbind_eq_Inr)
    have t1: "ts_state t1 = ts_state t" using c by (rule cached_blocker_state)
    have bl: "is_blocked_in (ts_state t) r" using st yes by (simp add: is_blocked_in_def state_of_def)
    show ?thesis
    proof (cases d0)
      case (Some d)
      with assms False st yes c t1 show ?thesis by (simp add: update_blocked_status_def)
    next
      case None
      with assms False st yes c obtain dep where
        "first_blocked (requires_of (ts_state t1) r) t1 = Inr dep"
        by (auto simp: update_blocked_status_def rbind_eq_Inr)
      with assms False st yes c None t1 bl show ?thesis
        by (auto simp: update_blocked_status_def ts_unblock_def rbind_eq_Inr
            split: option.split_asm if_split_asm)
    qed
  qed
qed

lemma update_blocked_status_decreases:
  assumes "update_blocked_status r t = Inr (b, t')"
  shows "if b then num_blocked t' < num_blocked t else num_blocked t' = num_blocked t"
proof -
  have "num_blocked t' < num_blocked t"
    if "is_blocked_in (ts_state t) r" "unblock_resource r (ts_state t) = Inr (ts_state t')"
    unfolding num_blocked_def using unblock_blocked_set [OF that(2)] that(1) finite_blocked
    by (intro psubset_card_mono) auto
  then show ?thesis
    using update_blocked_status_cases [OF assms] by (auto simp: num_blocked_def)
qed

function verify_unblocked_loop :: "rid list \<Rightarrow> transitive \<Rightarrow> transitive result" where
  "verify_unblocked_loop [] t = Inr t"
| "verify_unblocked_loop (r # work) t =
     (case update_blocked_status r t of
        Inl e \<Rightarrow> Inl e
      | Inr (b, t1) \<Rightarrow>
          if b then verify_unblocked_loop (rev (ts_provides t1 r) @ work) t1
          else verify_unblocked_loop work t1)"
  by pat_completeness auto
termination
  by (relation "measures [\<lambda>(w, t). num_blocked t, \<lambda>(w, t). length w]")
    (auto dest!: update_blocked_status_decreases)

text \<open>The four stages. \<open>None\<close>: the loop of stage 3 does not return.\<close>

definition update_transitive_state ::
  "rid pyset \<Rightarrow> rid pyset \<Rightarrow> rid pyset \<Rightarrow> model_state \<Rightarrow> (model_state \<times> rid pyset \<times> rid pyset) result option" where
  "update_transitive_state new_undefined verify_blocked verify_unblocked s =
     (let t0 = \<lparr>ts_state = s, ts_is_blocked = new_undefined, ts_out_blocked = [], ts_out_unblocked = [],
               ts_cache = []\<rparr>
      in case propagate_undefined (rev (concat (map (provides_of s) new_undefined))) t0 of
           Inl e \<Rightarrow> Some (Inl e)
         | Inr t1 \<Rightarrow>
             (case rfold verify_step verify_blocked ([], t1) of
                Inl e \<Rightarrow> Some (Inl e)
              | Inr (work, t2) \<Rightarrow>
                  (case propagate_blocked work t2 of
                     None \<Rightarrow> None
                   | Some (Inl e) \<Rightarrow> Some (Inl e)
                   | Some (Inr t3) \<Rightarrow>
                       Some (rbind (verify_unblocked_loop (rev verify_unblocked) t3)
                         (\<lambda>t4. Inr (ts_state t4, ts_out_unblocked t4, ts_out_blocked t4))))))"

section \<open>Effect of one step\<close>

definition undef_in :: "model_state \<Rightarrow> rid \<Rightarrow> bool" where
  "undef_in s r \<longleftrightarrow> (\<exists>st. state_of s r = Some st \<and> rs_compliance st = UNDEFINED)"

definition no_block :: "resource_state \<Rightarrow> resource_state" where
  \<comment> \<open>all fields but the blocked status\<close>
  "no_block st = st\<lparr>rs_blocked := NOT_BLOCKED\<rparr>"

lemma no_block_simps [simp]:
  "no_block (st\<lparr>rs_blocked := b\<rparr>) = no_block st" "rs_compliance (no_block st) = rs_compliance st"
  "rs_last_handler_run (no_block st) = rs_last_handler_run st"
  by (simp_all add: no_block_def)

definition same_model :: "model_state \<Rightarrow> model_state \<Rightarrow> bool" where
  \<comment> \<open>only blocked statuses and the dirty set may differ\<close>
  "same_model s s' \<longleftrightarrow> ms_version s' = ms_version s \<and> ms_intent s' = ms_intent s \<and> ms_resource_sets s' = ms_resource_sets s
     \<and> ms_requires s' = ms_requires s \<and> ms_resources_by_agent s' = ms_resources_by_agent s
     \<and> (\<forall>r. map_option no_block (state_of s' r) = map_option no_block (state_of s r))"

lemma same_model_refl [simp]: "same_model s s"
  by (simp add: same_model_def)

lemma same_model_trans: "same_model s s' \<Longrightarrow> same_model s' s'' \<Longrightarrow> same_model s s''"
  by (simp add: same_model_def)

lemma same_modelD:
  assumes "same_model s s'"
  shows "requires_of s' r = requires_of s r" "provides_of s' r = provides_of s r"
    "known s' r = known s r" "undef_in s' r = undef_in s r"
proof -
  have e: "map_option no_block (state_of s' r) = map_option no_block (state_of s r)" using assms by (simp add: same_model_def)
  show "undef_in s' r = undef_in s r"
    using e no_block_simps(2) unfolding undef_in_def by (cases "state_of s' r"; cases "state_of s r"; simp) (metis no_block_simps(2))
qed (use assms in \<open>simp_all add: same_model_def requires_of_def provides_of_def known_def\<close>)

lemma block_fields:
  "block_resource_transitive r s = Inr s' \<Longrightarrow> ms_version s' = ms_version s \<and> ms_resource_sets s' = ms_resource_sets s"
  "unblock_resource r s = Inr s' \<Longrightarrow> ms_version s' = ms_version s \<and> ms_resource_sets s' = ms_resource_sets s"
  by (auto simp: block_resource_transitive_def unblock_resource_def upd_state_def rbind_eq_Inr split: if_splits)

lemma block_effect:
  assumes "model_inv s" "known s r"
  shows "\<exists>s'. block_resource_transitive r s = Inr s' \<and> model_inv s' \<and> same_model s s'
    \<and> (\<forall>x. is_blocked_in s' x \<longleftrightarrow> x = r \<or> is_blocked_in s x)"
  using block_ok [OF assms] block_fields(1) [of r s] by (fastforce simp: same_model_def is_blocked_in_def)

lemma unblock_effect:
  assumes "model_inv s" "known s r"
  shows "\<exists>s'. unblock_resource r s = Inr s' \<and> model_inv s' \<and> same_model s s'
    \<and> (\<forall>x. is_blocked_in s' x \<longleftrightarrow> x \<noteq> r \<and> is_blocked_in s x)"
  using unblock_ok [OF assms] block_fields(2) [of r s] by (fastforce simp: same_model_def is_blocked_in_def)

lemma ts_blocked_known:
  "model_inv (ts_state t) \<Longrightarrow> known (ts_state t) r \<Longrightarrow> ts_blocked r t = Inr (is_blocked_in (ts_state t) r)"
  by (auto simp: ts_blocked_def is_blocked_in_def elim!: known_stateE)

lemma first_blocked_known:
  assumes "model_inv (ts_state t)" "\<forall>d \<in> set ds. known (ts_state t) d"
  shows "\<exists>dep. first_blocked ds t = Inr dep
    \<and> (case dep of None \<Rightarrow> \<forall>d \<in> set ds. \<not> is_blocked_in (ts_state t) d
                 | Some d \<Rightarrow> d \<in> set ds \<and> is_blocked_in (ts_state t) d)"
  using assms(2)
proof (induction ds)
  case (Cons d ds)
  then show ?case using ts_blocked_known [OF assms(1), of d] by (auto split: option.splits)
qed simp

section \<open>Stage 2\<close>

text \<open>
  \<open>hard\<close>: a member of \<open>is_blocked\<close> is blocked by a known root. \<open>reasoned\<close>: a blocked
  resource is undefined, has a blocked requirement, or is among the resources to verify.
\<close>

definition ts_ok :: "model_state \<Rightarrow> transitive \<Rightarrow> bool" where
  "ts_ok s0 t \<longleftrightarrow> model_inv (ts_state t) \<and> same_model s0 (ts_state t) \<and> requires_closed (ts_state t)"

definition hard_ok :: "transitive \<Rightarrow> bool" where
  "hard_ok t \<longleftrightarrow> (\<forall>r \<in> set (ts_is_blocked t). is_blocked_in (ts_state t) r \<and>
     (undef_in (ts_state t) r \<or> (\<exists>d \<in> set (requires_of (ts_state t) r). d \<in> set (ts_is_blocked t))))"

definition closed_upto :: "rid set \<Rightarrow> model_state \<Rightarrow> bool" where
  \<comment> \<open>what a blocked resource provides is blocked, or still to be handled\<close>
  "closed_upto W s \<longleftrightarrow> (\<forall>d x. is_blocked_in s d \<longrightarrow> x \<in> set (provides_of s d) \<longrightarrow> is_blocked_in s x \<or> x \<in> W)"

definition reasoned_upto :: "rid set \<Rightarrow> model_state \<Rightarrow> bool" where
  "reasoned_upto V s \<longleftrightarrow> (\<forall>x. is_blocked_in s x \<longrightarrow>
     x \<in> V \<or> undef_in s x \<or> (\<exists>d \<in> set (requires_of s x). is_blocked_in s d))"

definition undef_blocked :: "model_state \<Rightarrow> bool" where
  "undef_blocked s \<longleftrightarrow> (\<forall>r. undef_in s r \<longrightarrow> is_blocked_in s r)"

definition stage2_inv :: "model_state \<Rightarrow> rid set \<Rightarrow> rid list \<Rightarrow> transitive \<Rightarrow> bool" where
  "stage2_inv s0 V work t \<longleftrightarrow> ts_ok s0 t \<and> hard_ok t \<and> closed_upto (set work) (ts_state t)
     \<and> reasoned_upto V (ts_state t) \<and> undef_blocked (ts_state t)
     \<and> (\<forall>r \<in> set work. known (ts_state t) r \<and> (\<exists>d \<in> set (requires_of (ts_state t) r). d \<in> set (ts_is_blocked t)))
     \<and> ts_cache t = [] \<and> ts_out_unblocked t = []"

lemma ts_okD:
  assumes "ts_ok s0 t"
  shows "model_inv (ts_state t)" "same_model s0 (ts_state t)" "requires_closed (ts_state t)"
  using assms by (simp_all add: ts_ok_def)

lemma requires_closed_same: "same_model s s' \<Longrightarrow> requires_closed s \<Longrightarrow> requires_closed s'"
  by (simp add: requires_closed_def same_modelD)

lemma ts_block_effect:
  assumes "ts_ok s0 t" "known (ts_state t) r"
  shows "\<exists>t'. ts_block r t = Inr t' \<and> ts_ok s0 t' \<and> same_model (ts_state t) (ts_state t')
    \<and> (\<forall>x. is_blocked_in (ts_state t') x \<longleftrightarrow> x = r \<or> is_blocked_in (ts_state t) x)
    \<and> ts_is_blocked t' = ts_is_blocked t \<and> ts_cache t' = ts_cache t \<and> ts_out_unblocked t' = ts_out_unblocked t
    \<and> ts_out_blocked t' = sadd r (ts_out_blocked t)"
proof -
  obtain s' where s': "block_resource_transitive r (ts_state t) = Inr s'" "model_inv s'" "same_model (ts_state t) s'"
    "\<forall>x. is_blocked_in s' x \<longleftrightarrow> x = r \<or> is_blocked_in (ts_state t) x"
    using block_effect [OF ts_okD(1) [OF assms(1)] assms(2)] by blast
  then show ?thesis
    using assms(1) by (auto simp: ts_block_def ts_ok_def intro: same_model_trans requires_closed_same)
qed

lemma stage2_step:
  assumes inv: "stage2_inv s0 V (r # work) t" and new: "r \<notin> set (ts_is_blocked t)"
    and nb: "\<not> is_blocked_in (ts_state t) r"
  shows "\<exists>t2. ts_block r (t\<lparr>ts_is_blocked := sadd r (ts_is_blocked t)\<rparr>) = Inr t2
    \<and> stage2_inv s0 V (rev (ts_provides t2 r) @ work) t2"
proof -
  let ?t1 = "t\<lparr>ts_is_blocked := sadd r (ts_is_blocked t)\<rparr>"
  have ok: "ts_ok s0 ?t1" and k: "known (ts_state ?t1) r" using inv by (simp_all add: stage2_inv_def ts_ok_def)
  obtain t2 where t2: "ts_block r ?t1 = Inr t2" "ts_ok s0 t2" "same_model (ts_state t) (ts_state t2)"
    "\<forall>x. is_blocked_in (ts_state t2) x \<longleftrightarrow> x = r \<or> is_blocked_in (ts_state t) x"
    "ts_is_blocked t2 = sadd r (ts_is_blocked t)" "ts_cache t2 = []" "ts_out_unblocked t2 = []"
    using ts_block_effect [OF ok k] inv by (auto simp: stage2_inv_def)
  note same = same_modelD [OF t2(3)]
  obtain d where d: "d \<in> set (requires_of (ts_state t) r)" "d \<in> set (ts_is_blocked t)"
    using inv by (auto simp: stage2_inv_def)
  have "is_blocked_in (ts_state t) d" using d inv by (auto simp: stage2_inv_def hard_ok_def)
  then have reason: "reasoned_upto V (ts_state t2)"
    using inv d by (auto simp: stage2_inv_def reasoned_upto_def same t2(4))
  have hard: "hard_ok t2" using inv d by (auto simp: stage2_inv_def hard_ok_def same t2(4,5))
  have closed: "closed_upto (set (rev (ts_provides t2 r) @ work)) (ts_state t2)"
    using inv by (auto simp: stage2_inv_def closed_upto_def same t2(4) ts_provides_def)
  have work: "known (ts_state t2) x \<and> (\<exists>d \<in> set (requires_of (ts_state t2) x). d \<in> set (ts_is_blocked t2))"
    if "x \<in> set (rev (ts_provides t2 r) @ work)" for x
  proof (cases "x \<in> set work")
    case True
    then show ?thesis using inv by (auto simp: stage2_inv_def same t2(5))
  next
    case False
    then have "x \<in> set (provides_of (ts_state t2) r)" using that by (simp add: ts_provides_def)
    then show ?thesis
      using provides_iff [OF ts_okD(1) [OF t2(2)]] provides_known [OF ts_okD(1) [OF t2(2)]] by (auto simp: t2(5))
  qed
  have "undef_blocked (ts_state t2)" using inv by (auto simp: stage2_inv_def undef_blocked_def same t2(4))
  then show ?thesis using t2(1,2,6,7) reason hard closed work by (auto simp: stage2_inv_def)
qed

lemma stage2:
  assumes "stage2_inv s0 V work t"
  shows "\<exists>t'. propagate_undefined work t = Inr t' \<and> stage2_inv s0 V [] t'"
  using assms
proof (induction work t rule: propagate_undefined.induct)
  case (1 t)
  then show ?case by simp
next
  case (2 r work t)
  have k: "known (ts_state t) r" and inv: "model_inv (ts_state t)"
    using "2.prems" by (simp_all add: stage2_inv_def ts_ok_def)
  let ?t1 = "t\<lparr>ts_is_blocked := sadd r (ts_is_blocked t)\<rparr>"
  have tb: "ts_blocked r ?t1 = Inr (is_blocked_in (ts_state t) r)"
    using ts_blocked_known [of ?t1 r] k inv by simp
  show ?case
  proof (cases "r \<in> set (ts_is_blocked t)")
    case True
    then have "stage2_inv s0 V work t"
      using "2.prems" by (auto simp: stage2_inv_def closed_upto_def hard_ok_def)
    with "2.IH"(1) True show ?thesis by simp
  next
    case new: False
    show ?thesis
    proof (cases "is_blocked_in (ts_state t) r")
      case True
      then have "stage2_inv s0 V work ?t1"
        using "2.prems" by (auto simp: stage2_inv_def closed_upto_def hard_ok_def ts_ok_def)
      with "2.IH"(2) new True tb show ?thesis by simp
    next
      case False
      obtain t2 where t2: "ts_block r ?t1 = Inr t2" "stage2_inv s0 V (rev (ts_provides t2 r) @ work) t2"
        using stage2_step [OF "2.prems" new False] by blast
      with "2.IH"(3) [OF new refl _ _ t2(1)] new False tb show ?thesis by simp
    qed
  qed
qed

section \<open>Stage 4\<close>

definition cache_ok :: "transitive \<Rightarrow> bool" where
  "cache_ok t \<longleftrightarrow> (\<forall>r d. map_of (ts_cache t) r = Some d \<longrightarrow> d \<in> set (requires_of (ts_state t) r))"

definition stage4_inv :: "model_state \<Rightarrow> rid list \<Rightarrow> transitive \<Rightarrow> bool" where
  "stage4_inv s0 work t \<longleftrightarrow> ts_ok s0 t \<and> hard_ok t \<and> closed_upto {} (ts_state t)
     \<and> reasoned_upto (set work) (ts_state t) \<and> cache_ok t \<and> undef_blocked (ts_state t)
     \<and> (\<forall>r \<in> set work. known (ts_state t) r)"

lemma stage4_keep:
  assumes inv: "stage4_inv s0 (r # work) t"
    and st: "ts_state t' = ts_state t" and ib: "hard_ok t'" and c: "cache_ok t'"
    and reason: "is_blocked_in (ts_state t) r \<Longrightarrow>
      undef_in (ts_state t) r \<or> (\<exists>d \<in> set (requires_of (ts_state t) r). is_blocked_in (ts_state t) d)"
  shows "stage4_inv s0 work t'"
  using inv reason ib c by (auto simp: stage4_inv_def st ts_ok_def reasoned_upto_def)

lemma stage4_unblock:
  assumes inv: "stage4_inv s0 (r # work) t" and new: "r \<notin> set (ts_is_blocked t)"
    and nu: "\<not> undef_in (ts_state t) r"
    and nodep: "\<forall>d \<in> set (requires_of (ts_state t) r). \<not> is_blocked_in (ts_state t) d"
    and t1: "ts_state t1 = ts_state t" "ts_is_blocked t1 = ts_is_blocked t" "cache_ok t1"
  shows "\<exists>t'. ts_unblock r t1 = Inr (True, t') \<and> stage4_inv s0 (rev (ts_provides t' r) @ work) t'"
proof -
  have m: "model_inv (ts_state t)" and k: "known (ts_state t) r" using inv by (simp_all add: stage4_inv_def ts_ok_def)
  obtain s' where s': "unblock_resource r (ts_state t) = Inr s'" "model_inv s'" "same_model (ts_state t) s'"
    "\<forall>x. is_blocked_in s' x \<longleftrightarrow> x \<noteq> r \<and> is_blocked_in (ts_state t) x"
    using unblock_effect [OF m k] by blast
  note same = same_modelD [OF s'(3)]
  let ?t' = "t1\<lparr>ts_state := s', ts_out_unblocked := sadd r (ts_out_unblocked t1)\<rparr>"
  have "ts_ok s0 ?t'" using inv s'(2,3)
    by (auto simp: stage4_inv_def ts_ok_def intro: same_model_trans requires_closed_same)
  moreover have "hard_ok ?t'" using inv new by (auto simp: stage4_inv_def hard_ok_def same s'(4) t1)
  moreover have "closed_upto {} s'"
    unfolding closed_upto_def
  proof (intro allI impI)
    fix d x assume d: "is_blocked_in s' d" and x: "x \<in> set (provides_of s' d)"
    have "is_blocked_in (ts_state t) x" using inv d x by (auto simp: stage4_inv_def closed_upto_def same s'(4))
    moreover have "x \<noteq> r" using nodep d x provides_iff [OF m] by (auto simp: same s'(4))
    ultimately show "is_blocked_in s' x \<or> x \<in> {}" using s'(4) by simp
  qed
  moreover have "reasoned_upto (set (rev (ts_provides ?t' r) @ work)) s'"
    unfolding reasoned_upto_def
  proof (intro allI impI)
    fix x assume "is_blocked_in s' x"
    then have x: "x \<noteq> r" "is_blocked_in (ts_state t) x" using s'(4) by auto
    then consider "x \<in> set work" | "undef_in (ts_state t) x"
      | d where "d \<in> set (requires_of (ts_state t) x)" "is_blocked_in (ts_state t) d"
      using inv by (auto simp: stage4_inv_def reasoned_upto_def)
    then show "x \<in> set (rev (ts_provides ?t' r) @ work) \<or> undef_in s' x
        \<or> (\<exists>d \<in> set (requires_of s' x). is_blocked_in s' d)"
    proof cases
      case 3
      show ?thesis
      proof (cases "d = r")
        case True
        then have "x \<in> set (provides_of (ts_state t) r)" using 3(1) provides_iff [OF m] by simp
        then show ?thesis by (simp add: ts_provides_def same)
      next
        case False
        then show ?thesis using 3 by (auto simp: same s'(4))
      qed
    qed (auto simp: same)
  qed
  moreover have "cache_ok ?t'" using t1(3) by (simp add: cache_ok_def t1(1) same)
  moreover have "undef_blocked s'" using inv nu by (auto simp: stage4_inv_def undef_blocked_def same s'(4))
  moreover have "\<forall>x \<in> set (rev (ts_provides ?t' r) @ work). known s' x"
    using inv provides_known [OF s'(2)] by (auto simp: ts_provides_def stage4_inv_def same)
  moreover have "ts_unblock r t1 = Inr (True, ?t')" using s'(1) by (simp add: ts_unblock_def t1(1))
  ultimately show ?thesis by (simp add: stage4_inv_def)
qed

lemma cached_blocker_known:
  assumes m: "model_inv (ts_state t)" and c: "cache_ok t" and cl: "requires_closed (ts_state t)"
  shows "\<exists>d0 t1. cached_blocker r t = Inr (d0, t1) \<and> ts_state t1 = ts_state t \<and> ts_is_blocked t1 = ts_is_blocked t
    \<and> cache_ok t1 \<and> ts_out_blocked t1 = ts_out_blocked t
    \<and> (\<forall>d. d0 = Some d \<longrightarrow> d \<in> set (requires_of (ts_state t) r) \<and> is_blocked_in (ts_state t) d)"
proof (cases "map_of (ts_cache t) r")
  case None
  then show ?thesis using c by (simp add: cached_blocker_def)
next
  case (Some k)
  then have k: "k \<in> set (requires_of (ts_state t) r)" using c by (simp add: cache_ok_def)
  then have "known (ts_state t) k" using cl by (auto simp: requires_closed_def)
  then have "ts_blocked k t = Inr (is_blocked_in (ts_state t) k)" by (rule ts_blocked_known [OF m])
  with Some k c show ?thesis by (auto simp: cached_blocker_def cache_ok_def)
qed

lemma stage4_step:
  assumes inv: "stage4_inv s0 (r # work) t"
  shows "\<exists>b t'. update_blocked_status r t = Inr (b, t')
    \<and> (if b then stage4_inv s0 (rev (ts_provides t' r) @ work) t' else stage4_inv s0 work t')"
proof (cases "r \<in> set (ts_is_blocked t)")
  case True
  have "stage4_inv s0 work t"
    by (rule stage4_keep [OF inv]) (use inv True in \<open>auto simp: stage4_inv_def hard_ok_def\<close>)
  then show ?thesis using True by (auto simp: update_blocked_status_def)
next
  case new: False
  have m: "model_inv (ts_state t)" and k: "known (ts_state t) r" and c: "cache_ok t" and h: "hard_ok t"
    and cl: "requires_closed (ts_state t)"
    using inv by (simp_all add: stage4_inv_def ts_ok_def)
  obtain st where st: "map_of (ms_resource_state (ts_state t)) r = Some st" "state_of (ts_state t) r = Some st"
    using known_stateE [OF m k] by blast
  have bl: "is_blocked_in (ts_state t) r \<longleftrightarrow> rs_blocked st = BLOCKED"
    and un: "undef_in (ts_state t) r \<longleftrightarrow> rs_compliance st = UNDEFINED"
    using st(2) by (simp_all add: is_blocked_in_def undef_in_def)
  consider "rs_blocked st \<noteq> BLOCKED" | "rs_blocked st = BLOCKED" "rs_compliance st = UNDEFINED"
    | "rs_blocked st = BLOCKED" "rs_compliance st \<noteq> UNDEFINED" by blast
  then show ?thesis
  proof cases
    case 1
    have "stage4_inv s0 work t" by (rule stage4_keep [OF inv refl h c]) (simp add: bl 1)
    then show ?thesis using new st 1 by (auto simp: update_blocked_status_def)
  next
    case 2
    have "stage4_inv s0 work (t\<lparr>ts_is_blocked := sadd r (ts_is_blocked t)\<rparr>)"
      by (rule stage4_keep [OF inv]) (use h c 2 bl un in \<open>auto simp: hard_ok_def cache_ok_def\<close>)
    then show ?thesis using new st 2 by (auto simp: update_blocked_status_def)
  next
    case 3
    obtain d0 t1 where t1: "cached_blocker r t = Inr (d0, t1)" "ts_state t1 = ts_state t"
      "ts_is_blocked t1 = ts_is_blocked t" "cache_ok t1"
      "\<forall>d. d0 = Some d \<longrightarrow> d \<in> set (requires_of (ts_state t) r) \<and> is_blocked_in (ts_state t) d"
      using cached_blocker_known [OF m c cl] by blast
    have h1: "hard_ok t1" using h by (simp add: hard_ok_def t1(2,3))
    show ?thesis
    proof (cases d0)
      case (Some d)
      have "stage4_inv s0 work t1" by (rule stage4_keep [OF inv t1(2) h1 t1(4)]) (use t1(5) Some in auto)
      then show ?thesis using new st 3 t1(1) Some by (auto simp: update_blocked_status_def)
    next
      case None
      have kd: "\<forall>d \<in> set (requires_of (ts_state t1) r). known (ts_state t1) d"
        using cl by (auto simp: requires_closed_def t1(2))
      obtain dep where dep: "first_blocked (requires_of (ts_state t1) r) t1 = Inr dep"
        "case dep of None \<Rightarrow> \<forall>d \<in> set (requires_of (ts_state t1) r). \<not> is_blocked_in (ts_state t1) d
          | Some d \<Rightarrow> d \<in> set (requires_of (ts_state t1) r) \<and> is_blocked_in (ts_state t1) d"
        using first_blocked_known [of t1 "requires_of (ts_state t1) r"] m kd t1(2) by auto
      show ?thesis
      proof (cases dep)
        case Some': (Some d)
        then have d: "d \<in> set (requires_of (ts_state t) r)" "is_blocked_in (ts_state t) d"
          using dep(2) by (simp_all add: t1(2))
        have "d \<noteq> []" using known_nonempty [OF m] cl d(1) by (auto simp: requires_closed_def)
        moreover have "stage4_inv s0 work (t1\<lparr>ts_cache := dset (ts_cache t1) r d\<rparr>)"
          by (rule stage4_keep [OF inv]) (use h1 t1 d in \<open>auto simp: hard_ok_def cache_ok_def\<close>)
        ultimately show ?thesis
          using new st 3 t1(1) None dep(1) Some' by (auto simp: update_blocked_status_def)
      next
        case None': None
        then have "\<forall>d \<in> set (requires_of (ts_state t) r). \<not> is_blocked_in (ts_state t) d"
          using dep(2) by (simp add: t1(2))
        from stage4_unblock [OF inv new _ this t1(2,3,4)] 3 un obtain t' where
          "ts_unblock r t1 = Inr (True, t')" "stage4_inv s0 (rev (ts_provides t' r) @ work) t'" by blast
        then show ?thesis
          using new st 3 t1(1) None dep(1) None' by (auto simp: update_blocked_status_def)
      qed
    qed
  qed
qed

lemma stage4:
  assumes "stage4_inv s0 work t"
  shows "\<exists>t'. verify_unblocked_loop work t = Inr t' \<and> stage4_inv s0 [] t'"
  using assms
proof (induction work t rule: verify_unblocked_loop.induct)
  case (2 r work t)
  obtain b t1 where s: "update_blocked_status r t = Inr (b, t1)"
    "if b then stage4_inv s0 (rev (ts_provides t1 r) @ work) t1 else stage4_inv s0 work t1"
    using stage4_step [OF "2.prems"] by blast
  with "2.IH" [OF s(1) refl] show ?case by (cases b) auto
qed simp

section \<open>No stage raises\<close>

text \<open>\<open>calm\<close>: what every stage needs and keeps, whatever the resources passed in.\<close>

definition calm :: "model_state \<Rightarrow> transitive \<Rightarrow> bool" where
  "calm s0 t \<longleftrightarrow> ts_ok s0 t \<and> cache_ok t"

lemma calmD:
  assumes "calm s0 t"
  shows "model_inv (ts_state t)" "cache_ok t" "requires_closed (ts_state t)" "ts_ok s0 t"
    "known (ts_state t) r = known s0 r" "provides_of (ts_state t) r = provides_of s0 r"
    "requires_of (ts_state t) r = requires_of s0 r"
  using assms by (auto simp: calm_def ts_ok_def same_modelD)

lemma calm_block:
  assumes "calm s0 t" "known s0 r"
  shows "\<exists>t'. ts_block r t = Inr t' \<and> calm s0 t'"
proof -
  obtain t' where "ts_block r t = Inr t'" "ts_ok s0 t'" "same_model (ts_state t) (ts_state t')" "ts_cache t' = ts_cache t"
    using ts_block_effect [OF calmD(4) [OF assms(1)]] assms(2) calmD(5) [OF assms(1)] by blast
  then show ?thesis using calmD(2) [OF assms(1)] by (auto simp: calm_def cache_ok_def same_modelD)
qed

lemma calm_mark [simp]: "calm s0 (t\<lparr>ts_is_blocked := b\<rparr>) = calm s0 t"
  by (simp add: calm_def ts_ok_def cache_ok_def)

lemma calm_ts_blocked: "calm s0 t \<Longrightarrow> known s0 r \<Longrightarrow> ts_blocked r t = Inr (is_blocked_in (ts_state t) r)"
  using ts_blocked_known calmD by blast

lemma calm_provides:
  assumes "calm s0 t" "x \<in> set (provides_of s0 r)"
  shows "known s0 x"
proof -
  have "x \<in> set (provides_of (ts_state t) r)" using assms calmD(6) by simp
  then have "known (ts_state t) x" using provides_known calmD(1) [OF assms(1)] by blast
  then show ?thesis using calmD(5) [OF assms(1)] by simp
qed

lemma calm_stage2:
  assumes "calm s0 t" "\<forall>r \<in> set work. known s0 r"
  shows "\<exists>t'. propagate_undefined work t = Inr t' \<and> calm s0 t'"
  using assms
proof (induction work t rule: propagate_undefined.induct)
  case (2 r work t)
  let ?t1 = "t\<lparr>ts_is_blocked := sadd r (ts_is_blocked t)\<rparr>"
  have tb: "ts_blocked r ?t1 = Inr (is_blocked_in (ts_state t) r)"
    using calm_ts_blocked [of s0 ?t1 r] "2.prems" by simp
  obtain t2 where t2: "ts_block r ?t1 = Inr t2" "calm s0 t2"
    using calm_block [of s0 ?t1 r] "2.prems" by auto
  have w: "\<forall>x \<in> set (rev (ts_provides t2 r) @ work). known s0 x"
    using "2.prems"(2) calm_provides [OF t2(2)] calmD(6) [OF t2(2)] by (auto simp: ts_provides_def)
  show ?case
  proof (cases "r \<in> set (ts_is_blocked t)")
    case True
    then show ?thesis using "2.IH"(1) "2.prems" by simp
  next
    case new: False
    show ?thesis
      using "2.IH"(2) [OF new refl _ refl] "2.IH"(3) [OF new refl _ refl t2(1)] "2.prems" new tb t2 w
      by (cases "is_blocked_in (ts_state t) r") auto
  qed
qed simp

lemma calm_cached:
  assumes "calm s0 t"
  shows "\<exists>d0 t1. cached_blocker r t = Inr (d0, t1) \<and> calm s0 t1
    \<and> (\<forall>d. d0 = Some d \<longrightarrow> d \<in> set (requires_of s0 r))"
  using cached_blocker_known [OF calmD(1,2,3) [OF assms]] assms calmD(7) [OF assms]
  by (fastforce simp: calm_def ts_ok_def)

lemma calm_first_blocked:
  assumes "calm s0 t"
  shows "\<exists>dep. first_blocked (requires_of (ts_state t) r) t = Inr dep
    \<and> (\<forall>d. dep = Some d \<longrightarrow> d \<in> set (requires_of s0 r))"
proof -
  have "\<forall>d \<in> set (requires_of (ts_state t) r). known (ts_state t) d"
    using calmD(3) [OF assms] by (auto simp: requires_closed_def)
  from first_blocked_known [OF calmD(1) [OF assms] this] show ?thesis
    using calmD(7) [OF assms] by (auto split: option.splits)
qed

lemma calm_cache_set:
  "calm s0 t \<Longrightarrow> d \<in> set (requires_of s0 r) \<Longrightarrow> calm s0 (t\<lparr>ts_cache := dset (ts_cache t) r d\<rparr>)"
  by (auto simp: calm_def ts_ok_def cache_ok_def same_modelD)

lemma calm_to_blocked:
  assumes "calm s0 t" "known s0 r"
  shows "\<exists>b t'. update_blocked_status_to_blocked r t = Inr (b, t') \<and> calm s0 t'"
proof (cases "r \<in> set (ts_is_blocked t) \<or> is_blocked_in (ts_state t) r")
  case True
  then show ?thesis using assms calm_ts_blocked [OF assms] by (auto simp: update_blocked_status_to_blocked_def)
next
  case False
  obtain d0 t1 where t1: "cached_blocker r t = Inr (d0, t1)" "calm s0 t1"
    "\<forall>d. d0 = Some d \<longrightarrow> d \<in> set (requires_of s0 r)" using calm_cached [OF assms(1)] by blast
  obtain dep where dep: "first_blocked (requires_of (ts_state t1) r) t1 = Inr dep"
    "\<forall>d. dep = Some d \<longrightarrow> d \<in> set (requires_of s0 r)" using calm_first_blocked [OF t1(2)] by blast
  have blk: "\<exists>t'. ts_block r (if c then t2\<lparr>ts_is_blocked := b\<rparr> else t2) = Inr t' \<and> calm s0 t'"
    if "calm s0 t2" for t2 b c
    using calm_block [of s0 "if c then t2\<lparr>ts_is_blocked := b\<rparr> else t2" r] that assms(2) by auto
  have start: "update_blocked_status_to_blocked r t =
      rbind (case d0 of Some d \<Rightarrow> Inr (Some d, t1)
        | None \<Rightarrow> Inr (dep, (case dep of None \<Rightarrow> t1 | Some d \<Rightarrow> t1\<lparr>ts_cache := dset (ts_cache t1) r d\<rparr>)))
      (\<lambda>(dep, t2). case dep of None \<Rightarrow> Inr (False, t2) | Some d \<Rightarrow>
         rbind (ts_block r (if d \<in> set (ts_is_blocked t2) then t2\<lparr>ts_is_blocked := sadd r (ts_is_blocked t2)\<rparr> else t2))
           (\<lambda>t4. Inr (True, t4)))"
    using False assms calm_ts_blocked [OF assms] t1(1) dep(1)
    by (simp add: update_blocked_status_to_blocked_def Let_def cong: option.case_cong)
  show ?thesis
  proof (cases d0)
    case (Some d)
    from blk [OF t1(2), of "d \<in> set (ts_is_blocked t1)" "sadd r (ts_is_blocked t1)"] Some
    show ?thesis by (auto simp: start)
  next
    case None
    show ?thesis
    proof (cases dep)
      case None': None
      then show ?thesis using None t1(2) by (auto simp: start)
    next
      case (Some d)
      let ?t2 = "t1\<lparr>ts_cache := dset (ts_cache t1) r d\<rparr>"
      have "calm s0 ?t2" using calm_cache_set t1(2) dep(2) Some by blast
      from blk [OF this, of "d \<in> set (ts_is_blocked ?t2)" "sadd r (ts_is_blocked ?t2)"] None Some
      show ?thesis by (auto simp: start)
    qed
  qed
qed

lemma calm_unblock:
  assumes "calm s0 t" "known s0 r"
  shows "\<exists>t'. ts_unblock r t = Inr (True, t') \<and> calm s0 t'"
proof -
  obtain s' where s': "unblock_resource r (ts_state t) = Inr s'" "model_inv s'" "same_model (ts_state t) s'"
    using unblock_effect [OF calmD(1) [OF assms(1)]] assms(2) calmD(5) [OF assms(1)] by blast
  then have "calm s0 (t\<lparr>ts_state := s', ts_out_unblocked := u\<rparr>)" for u
    using calmD(2,4) [OF assms(1)]
    by (auto simp: calm_def ts_ok_def cache_ok_def same_modelD intro: same_model_trans requires_closed_same)
  with s'(1) show ?thesis by (simp add: ts_unblock_def)
qed

lemma calm_status:
  assumes "calm s0 t" "known s0 r"
  shows "\<exists>b t'. update_blocked_status r t = Inr (b, t') \<and> calm s0 t'"
proof (cases "r \<in> set (ts_is_blocked t)")
  case True
  then show ?thesis using assms by (auto simp: update_blocked_status_def)
next
  case new: False
  obtain st where st: "map_of (ms_resource_state (ts_state t)) r = Some st"
    using known_stateE [OF calmD(1) [OF assms(1)]] assms(2) calmD(5) [OF assms(1)] by blast
  obtain d0 t1 where t1: "cached_blocker r t = Inr (d0, t1)" "calm s0 t1" using calm_cached [OF assms(1)] by blast
  obtain dep where dep: "first_blocked (requires_of (ts_state t1) r) t1 = Inr dep"
    "\<forall>d. dep = Some d \<longrightarrow> d \<in> set (requires_of s0 r)" using calm_first_blocked [OF t1(2)] by blast
  obtain t' where t': "ts_unblock r t1 = Inr (True, t')" "calm s0 t'" using calm_unblock [OF t1(2) assms(2)] by blast
  show ?thesis
    using new st t1 dep t' assms(1) calm_cache_set [OF t1(2)]
    by (cases d0; cases dep) (auto simp: update_blocked_status_def)
qed

lemma calm_stage4:
  assumes "calm s0 t" "\<forall>r \<in> set work. known s0 r"
  shows "\<exists>t'. verify_unblocked_loop work t = Inr t' \<and> calm s0 t'"
  using assms
proof (induction work t rule: verify_unblocked_loop.induct)
  case (2 r work t)
  obtain b t1 where t1: "update_blocked_status r t = Inr (b, t1)" "calm s0 t1"
    using calm_status [of s0 t r] "2.prems" by auto
  have "\<forall>x \<in> set (rev (ts_provides t1 r) @ work). known s0 x"
    using "2.prems"(2) calm_provides [OF t1(2)] calmD(6) [OF t1(2)] by (auto simp: ts_provides_def)
  with "2.IH" [OF t1(1) refl] t1 "2.prems"(2) show ?case by (cases b) auto
qed simp

section \<open>Stage 3 returns on an acyclic relation, and blocks nothing\<close>

lemma calm_verify_steps:
  assumes "calm s0 t" "\<forall>r \<in> set work. known s0 r" "\<forall>r \<in> set rs. known s0 r"
  shows "\<exists>w t'. rfold verify_step rs (work, t) = Inr (w, t') \<and> calm s0 t' \<and> (\<forall>r \<in> set w. known s0 r)"
proof -
  have "\<exists>p. rfold verify_step rs (work, t) = Inr p \<and> (calm s0 (snd p) \<and> (\<forall>r \<in> set (fst p). known s0 r))"
  proof (rule rfold_total)
    fix r and p :: "rid list \<times> transitive"
    assume r: "r \<in> set rs" and p: "calm s0 (snd p) \<and> (\<forall>r \<in> set (fst p). known s0 r)"
    obtain b t' where "update_blocked_status_to_blocked r (snd p) = Inr (b, t')" "calm s0 t'"
      using calm_to_blocked [of s0 "snd p" r] assms(3) r p by blast
    then show "\<exists>p'. verify_step r p = Inr p' \<and> (calm s0 (snd p') \<and> (\<forall>r \<in> set (fst p'). known s0 r))"
      using p r assms(3) by (cases p) (auto simp: verify_step_def)
  qed (use assms in auto)
  then show ?thesis by auto
qed

lemma calm_propagate_steps:
  assumes "calm s0 t" "\<forall>r \<in> set rs. known s0 r"
  shows "\<exists>K t'. rfold (propagate_step h) rs (work, t) = Inr (K @ work, t') \<and> calm s0 t' \<and> set K \<subseteq> set rs"
proof -
  have "\<exists>p. rfold (propagate_step h) rs (work, t) = Inr p
      \<and> (calm s0 (snd p) \<and> (\<exists>K. fst p = K @ work \<and> set K \<subseteq> set rs))"
  proof (rule rfold_total)
    fix r and p :: "rid list \<times> transitive"
    assume r: "r \<in> set rs" and p: "calm s0 (snd p) \<and> (\<exists>K. fst p = K @ work \<and> set K \<subseteq> set rs)"
    then obtain K t1 where pK: "p = (K @ work, t1)" "set K \<subseteq> set rs" "calm s0 t1" by (cases p) auto
    let ?t = "if h then t1\<lparr>ts_is_blocked := sadd r (ts_is_blocked t1)\<rparr> else t1"
    have c: "calm s0 ?t" using pK(3) by simp
    obtain t' where t': "ts_block r ?t = Inr t'" "calm s0 t'" using calm_block [OF c] assms(2) r by blast
    have "ts_blocked r ?t = Inr (is_blocked_in (ts_state ?t) r)" using calm_ts_blocked [OF c] assms(2) r by blast
    then show "\<exists>p'. propagate_step h r p = Inr p'
        \<and> (calm s0 (snd p') \<and> (\<exists>K. fst p' = K @ work \<and> set K \<subseteq> set rs))"
      using pK t' r c
      by (cases "is_blocked_in (ts_state ?t) r") (fastforce simp: propagate_step_def Let_def intro!: exI [of _ "r # K"])+
  qed (use assms in auto)
  then show ?thesis by force
qed

lemma calm_stage3:
  assumes "acyclic (requires_rel s0)" "calm s0 t" "\<forall>r \<in> set work. known s0 r"
  shows "\<exists>t'. propagate_blocked work t = Some (Inr t') \<and> calm s0 t'"
proof -
  have "wf (mult ((requires_rel s0)\<inverse>))" using wf_provides [OF assms(1)] by (rule wf_mult)
  then show ?thesis using assms(2,3)
  proof (induction "mset work" arbitrary: work t rule: wf_induct_rule)
    case less
    show ?case
    proof (cases work)
      case Nil
      then show ?thesis using less.prems by (simp add: propagate_blocked.simps)
    next
      case (Cons a rest)
      have prov: "ts_provides t a = provides_of s0 a" using less.prems(1) calmD(6) by (simp add: ts_provides_def)
      have kp: "\<forall>r \<in> set (ts_provides t a). known s0 r" using calm_provides less.prems(1) prov by auto
      from calm_propagate_steps [OF less.prems(1) kp]
      obtain K t' where K: "rfold (propagate_step (a \<in> set (ts_is_blocked t))) (ts_provides t a) (rest, t)
          = Inr (K @ rest, t')" "calm s0 t'" "set K \<subseteq> set (ts_provides t a)" by blast
      have rel: "(k, a) \<in> (requires_rel s0)\<inverse>" if "k \<in> set K" for k
      proof -
        have "k \<in> set (provides_of (ts_state t) a)" using that K(3) by (auto simp: ts_provides_def)
        then have "a \<in> set (requires_of s0 k)"
          using provides_iff calmD(1,7) less.prems(1) by metis
        then show ?thesis by (simp add: requires_rel_def)
      qed
      have "(mset (K @ rest), mset work) \<in> mult ((requires_rel s0)\<inverse>)"
        using one_step_implies_mult [of "{#a#}" "mset K" "(requires_rel s0)\<inverse>" "mset rest"] rel Cons
        by (simp add: union_commute)
      moreover have "\<forall>r \<in> set (K @ rest). known s0 r" using K(3) kp less.prems(2) Cons by auto
      ultimately have "\<exists>t''. propagate_blocked (K @ rest) t' = Some (Inr t'') \<and> calm s0 t''"
        using less.hyps K(2) by blast
      then show ?thesis using K(1) Cons by (subst propagate_blocked.simps) simp
    qed
  qed
qed

text \<open>A propagation step only ever blocks what is already blocked.\<close>

lemma block_blocked:
  assumes "block_resource_transitive r s = Inr s'" "is_blocked_in s r"
  shows "is_blocked_in s' x \<longleftrightarrow> is_blocked_in s x"
proof -
  from assms obtain st where "map_of (ms_resource_state s) r = Some st" "rs_blocked st = BLOCKED"
    "ms_resource_state s' = dset (ms_resource_state s) r (st\<lparr>rs_blocked := BLOCKED\<rparr>)"
    by (auto simp: block_resource_transitive_def upd_state_def rbind_eq_Inr dlookup_eq_Inr is_blocked_in_def state_of_def)
  then show ?thesis by (auto simp: is_blocked_in_def state_of_def)
qed

lemma ts_block_blocked:
  assumes "ts_block r t = Inr t'" "is_blocked_in (ts_state t) r"
  shows "is_blocked_in (ts_state t') x \<longleftrightarrow> is_blocked_in (ts_state t) x"
  using assms block_blocked by (auto simp: ts_block_def rbind_eq_Inr)

lemma ts_blocked_Inr: "ts_blocked r t = Inr b \<Longrightarrow> b \<longleftrightarrow> is_blocked_in (ts_state t) r"
  by (auto simp: ts_blocked_def rbind_eq_Inr dlookup_eq_Inr is_blocked_in_def state_of_def)

lemma propagate_step_blocked:
  assumes "propagate_step h r p = Inr p'"
  shows "is_blocked_in (ts_state (snd p')) x \<longleftrightarrow> is_blocked_in (ts_state (snd p)) x"
proof -
  obtain work t where p: "p = (work, t)" by (cases p)
  let ?t = "if h then t\<lparr>ts_is_blocked := sadd r (ts_is_blocked t)\<rparr> else t"
  have same: "ts_state ?t = ts_state t" by simp
  obtain b where b: "ts_blocked r ?t = Inr b" using assms p by (auto simp: propagate_step_def Let_def rbind_eq_Inr)
  show ?thesis
  proof (cases b)
    case False
    then show ?thesis using assms p b by (auto simp: propagate_step_def Let_def split: if_splits)
  next
    case True
    then obtain t2 where "ts_block r ?t = Inr t2" "p' = (r # work, t2)"
      using assms p b by (auto simp: propagate_step_def Let_def rbind_eq_Inr)
    moreover have "is_blocked_in (ts_state ?t) r" using ts_blocked_Inr [OF b] True by simp
    ultimately show ?thesis using ts_block_blocked p same by (metis snd_conv)
  qed
qed

lemma propagate_blocked_unchanged:
  assumes ret: "propagate_blocked work t = Some (Inr t')"
  shows "is_blocked_in (ts_state t') x \<longleftrightarrow> is_blocked_in (ts_state t) x"
proof -
  have "\<forall>t'. res = Inr t' \<longrightarrow> is_blocked_in (ts_state t') x = is_blocked_in (ts_state t) x"
    if "propagate_blocked work t = Some res" for res
  proof (rule propagate_blocked.raw_induct [where P = "\<lambda>w t res. \<forall>t'. res = Inr t' \<longrightarrow>
      is_blocked_in (ts_state t') x = is_blocked_in (ts_state t) x", OF _ that])
    fix f work t res
    assume IH: "\<And>w t res. f w t = Some res \<Longrightarrow> \<forall>t'. res = Inr t' \<longrightarrow>
        is_blocked_in (ts_state t') x = is_blocked_in (ts_state t) x"
      and eq: "(case work of [] \<Rightarrow> Some (Inr t)
        | a # rest \<Rightarrow> (case rfold (propagate_step (a \<in> set (ts_is_blocked t))) (ts_provides t a) (rest, t) of
             Inl e \<Rightarrow> Some (Inl e) | Inr st \<Rightarrow> f (fst st) (snd st))) = Some res"
    show "\<forall>t'. res = Inr t' \<longrightarrow> is_blocked_in (ts_state t') x = is_blocked_in (ts_state t) x"
    proof (cases work)
      case Nil
      then show ?thesis using eq by auto
    next
      case (Cons a rest)
      show ?thesis
      proof (cases "rfold (propagate_step (a \<in> set (ts_is_blocked t))) (ts_provides t a) (rest, t)")
        case (Inl e)
        then show ?thesis using eq Cons by auto
      next
        case (Inr st)
        have "is_blocked_in (ts_state (snd st)) x = is_blocked_in (ts_state t) x"
          by (rule rfold_inv [OF Inr]) (auto simp: propagate_step_blocked)
        moreover have "f (fst st) (snd st) = Some res" using eq Cons Inr by simp
        ultimately show ?thesis using IH by blast
      qed
    qed
  qed
  then show ?thesis using ret by blast
qed

section \<open>What blocked means\<close>

text \<open>
  The specification of the transitive state: a resource is blocked if and only if it is
  undefined or requires, directly or not, a resource that is.
\<close>

definition consistent :: "model_state \<Rightarrow> bool" where
  "consistent s \<longleftrightarrow> (\<forall>r. is_blocked_in s r \<longleftrightarrow> (\<exists>u. undef_in s u \<and> (u, r) \<in> (requires_rel s)\<^sup>*))"

lemma consistent_local:
  assumes ac: "acyclic (requires_rel s)" and m: "model_inv s"
    and cl: "closed_upto {} s" and re: "reasoned_upto {} s" and ub: "undef_blocked s"
  shows "consistent s"
  unfolding consistent_def
proof (intro allI iffI)
  fix r assume "is_blocked_in s r"
  then show "\<exists>u. undef_in s u \<and> (u, r) \<in> (requires_rel s)\<^sup>*"
  proof (induction r rule: wf_induct_rule [OF wf_requires_rel [OF ac]])
    case (1 r)
    show ?case
    proof (cases "undef_in s r")
      case True
      then show ?thesis by blast
    next
      case False
      then obtain d where d: "d \<in> set (requires_of s r)" "is_blocked_in s d"
        using re "1.prems" by (auto simp: reasoned_upto_def)
      then have e: "(d, r) \<in> requires_rel s" by (simp add: requires_rel_def)
      with "1.IH" d(2) obtain u where "undef_in s u" "(u, d) \<in> (requires_rel s)\<^sup>*" by blast
      with e show ?thesis by (meson rtrancl.rtrancl_into_rtrancl)
    qed
  qed
next
  fix r assume "\<exists>u. undef_in s u \<and> (u, r) \<in> (requires_rel s)\<^sup>*"
  then obtain u where u: "undef_in s u" "(u, r) \<in> (requires_rel s)\<^sup>*" by blast
  from u(2) show "is_blocked_in s r"
  proof (induction rule: rtrancl_induct)
    case base
    then show ?case using ub u(1) by (simp add: undef_blocked_def)
  next
    case (step d x)
    then have "x \<in> set (provides_of s d)" using provides_iff [OF m] by (simp add: requires_rel_def)
    then show ?case using cl step.IH by (auto simp: closed_upto_def)
  qed
qed


section \<open>Properties\<close>

text \<open>
  C5: adding undefined resources and dropping requirements. From a state in which every blocked
  status is explained up to the resources to verify, and every dependent of a blocked resource
  is blocked up to the new undefined ones, \<open>update_transitive_state\<close> returns, raises nothing,
  changes nothing but blocked statuses and the dirty set, and afterwards a resource is blocked
  if and only if it is undefined or requires, directly or not, an undefined resource.
\<close>

theorem update_transitive_state_exact:
  assumes "model_inv s" and "requires_closed s" and "acyclic (requires_rel s)" and "undef_blocked s"
    and "\<forall>u \<in> set new_undefined. undef_in s u"
    and "\<forall>d x. is_blocked_in s d \<longrightarrow> x \<in> set (provides_of s d) \<longrightarrow> is_blocked_in s x \<or> d \<in> set new_undefined"
    and "reasoned_upto (set verify_unblocked) s" and "\<forall>r \<in> set verify_unblocked. known s r"
  shows "\<exists>s' unblocked newly_blocked. update_transitive_state new_undefined [] verify_unblocked s
      = Some (Inr (s', unblocked, newly_blocked))
    \<and> model_inv s' \<and> same_model s s' \<and> consistent s'"
proof -
  let ?t0 = "\<lparr>ts_state = s, ts_is_blocked = new_undefined, ts_out_blocked = [], ts_out_unblocked = [], ts_cache = []\<rparr>"
  let ?w = "rev (concat (map (provides_of s) new_undefined))"
  have "stage2_inv s (set verify_unblocked) ?w ?t0"
    using assms provides_iff [OF assms(1)] provides_known [OF assms(1)]
    by (auto simp: stage2_inv_def ts_ok_def hard_ok_def closed_upto_def undef_blocked_def) blast
  then obtain t1 where t1: "propagate_undefined ?w ?t0 = Inr t1" "stage2_inv s (set verify_unblocked) [] t1"
    using stage2 by blast
  have "stage4_inv s (rev verify_unblocked) t1"
    using t1(2) assms(8) same_modelD(3) [of s "ts_state t1"]
    by (auto simp: stage2_inv_def stage4_inv_def cache_ok_def ts_ok_def)
  then obtain t4 where t4: "verify_unblocked_loop (rev verify_unblocked) t1 = Inr t4" "stage4_inv s [] t4"
    using stage4 by blast
  let ?s' = "ts_state t4"
  have s': "model_inv ?s'" "same_model s ?s'" "closed_upto {} ?s'" "reasoned_upto {} ?s'" "undef_blocked ?s'"
    using t4(2) by (auto simp: stage4_inv_def ts_ok_def)
  have "requires_rel ?s' = requires_rel s" using s'(2) by (simp add: requires_rel_def same_modelD)
  then have "consistent ?s'" using consistent_local s' assms(3) by metis
  then show ?thesis
    using t1(1) t4(1) s'(1,2) by (simp add: update_transitive_state_def Let_def propagate_blocked.simps)
qed

theorem update_transitive_state_exact_witness:
  "\<exists>s' u b. update_transitive_state [rA] [] [rD] (sample_model (chain_rows NOT_BLOCKED NOT_BLOCKED BLOCKED))
      = Some (Inr (s', u, b)) \<and> is_blocked_in s' rC \<and> \<not> is_blocked_in s' rD"
proof -
  let ?s = "sample_model (chain_rows NOT_BLOCKED NOT_BLOCKED BLOCKED)"
  note dag = sample_dag_model [OF chain_rows_dag]
  have st: "is_blocked_in ?s x \<longleftrightarrow> x = rA \<or> x = rD" "undef_in ?s x \<longleftrightarrow> x = rA" for x
    by (auto simp: is_blocked_in_def undef_in_def chain_lookups)
  have pd: "provides_of ?s rD = []"
    using provides_iff [OF dag(1)] by (intro equals0I set_empty [THEN iffD1]) (simp add: chain_lookups split: if_splits)
  obtain s' u b where s': "update_transitive_state [rA] [] [rD] ?s = Some (Inr (s', u, b))"
    "same_model ?s s'" "consistent s'"
    using update_transitive_state_exact [OF dag, of NOT_BLOCKED NOT_BLOCKED BLOCKED "[rA]" "[rD]"]
    by (auto simp: undef_blocked_def reasoned_upto_def st pd chain_lookups(3))
  have r: "(x, y) \<in> requires_rel s' \<longleftrightarrow> x \<in> set (requires_of ?s y)" for x y
    using s'(2) by (simp add: requires_rel_def same_modelD)
  have "(rA, rB) \<in> requires_rel s'" "(rB, rC) \<in> requires_rel s'" by (simp_all add: r chain_lookups)
  then have "(rA, rC) \<in> (requires_rel s')\<^sup>*" by auto
  moreover have "x \<noteq> rD \<Longrightarrow> (x, rD) \<notin> (requires_rel s')\<^sup>*" for x
    by (auto elim: rtranclE simp: r chain_lookups)
  ultimately show ?thesis using s' by (auto simp: consistent_def same_modelD st)
qed

text \<open>
  C6: whatever known resources are passed in, on an acyclic requires relation
  \<open>update_transitive_state\<close> terminates, raises nothing, keeps the invariant, and changes nothing but blocked
  statuses and the dirty set: the version, the intents, the resource sets, the requires, the
  resources by agent and every other field of the state of every resource are the same.
\<close>

theorem update_transitive_state_total:
  assumes "model_inv s" and "requires_closed s" and "acyclic (requires_rel s)"
    and "\<forall>r \<in> set verify_blocked \<union> set verify_unblocked. known s r"
  shows "\<exists>s' unblocked newly_blocked. update_transitive_state new_undefined verify_blocked verify_unblocked s
      = Some (Inr (s', unblocked, newly_blocked)) \<and> model_inv s' \<and> same_model s s'"
proof -
  let ?t0 = "\<lparr>ts_state = s, ts_is_blocked = new_undefined, ts_out_blocked = [], ts_out_unblocked = [], ts_cache = []\<rparr>"
  have c0: "calm s ?t0" using assms by (simp add: calm_def ts_ok_def cache_ok_def)
  have "\<forall>r \<in> set (rev (concat (map (provides_of s) new_undefined))). known s r"
    using provides_known [OF assms(1)] by auto
  from calm_stage2 [OF c0 this] obtain t1 where
    t1: "propagate_undefined (rev (concat (map (provides_of s) new_undefined))) ?t0 = Inr t1" "calm s t1" by blast
  from calm_verify_steps [OF t1(2), of "[]" verify_blocked] assms(4) obtain w t2 where
    t2: "rfold verify_step verify_blocked ([], t1) = Inr (w, t2)" "calm s t2" "\<forall>r \<in> set w. known s r" by auto
  from calm_stage3 [OF assms(3) t2(2,3)] obtain t3 where t3: "propagate_blocked w t2 = Some (Inr t3)" "calm s t3" by blast
  from calm_stage4 [OF t3(2), of "rev verify_unblocked"] assms(4) obtain t4 where
    t4: "verify_unblocked_loop (rev verify_unblocked) t3 = Inr t4" "calm s t4" by auto
  have "model_inv (ts_state t4)" "same_model s (ts_state t4)"
    using calmD(1,4) [OF t4(2)] by (auto simp: ts_ok_def)
  then show ?thesis using t1(1) t2(1) t3(1) t4(1) by (simp add: update_transitive_state_def Let_def)
qed

theorem update_transitive_state_total_witness:
  "\<exists>s' u b. update_transitive_state [rA] [rB] [rC] (sample_model (chain_rows BLOCKED BLOCKED NOT_BLOCKED))
      = Some (Inr (s', u, b)) \<and> requires_of s' rC = [rB]"
proof -
  have "\<forall>r \<in> set [rB] \<union> set [rC]. known (sample_model (chain_rows BLOCKED BLOCKED NOT_BLOCKED)) r"
    by (simp add: chain_lookups)
  from update_transitive_state_total [OF sample_dag_model [OF chain_rows_dag] this, of "[rA]"]
  show ?thesis by (fastforce simp: same_modelD chain_lookups)
qed

text \<open>
  C12: the second propagation, that is meant to block what provides follow from the resources
  that a new requirement blocked, blocks nothing: whenever it returns, exactly the resources
  that were blocked before are blocked.
\<close>

theorem second_propagation_blocks_nothing:
  assumes "propagate_blocked work t = Some (Inr t')"
  shows "is_blocked_in (ts_state t') x \<longleftrightarrow> is_blocked_in (ts_state t) x"
  using assms by (rule propagate_blocked_unchanged)

definition late_requirement :: transitive where
  \<comment> \<open>\<open>B\<close> was just blocked by its new requirement \<open>A\<close>; \<open>C\<close> requires \<open>B\<close>\<close>
  "late_requirement = \<lparr>ts_state = sample_model (chain_rows BLOCKED NOT_BLOCKED NOT_BLOCKED), ts_is_blocked = [],
     ts_out_blocked = [rB], ts_out_unblocked = [], ts_cache = [(rB, rA)]\<rparr>"

theorem second_propagation_blocks_nothing_witness:
  "propagate_blocked [rB] late_requirement = Some (Inr late_requirement)
    \<and> (is_blocked_in (ts_state late_requirement) rC \<longleftrightarrow> is_blocked_in (ts_state late_requirement) rC)"
proof -
  have "propagate_blocked [rB] late_requirement = Some (Inr late_requirement)" by code_simp
  from this second_propagation_blocks_nothing [OF this] show ?thesis by blast
qed

text \<open>
  Consequently a resource that requires, through another one, a resource that was already
  blocked is left unblocked when the requirement in between is new: in the model where \<open>B\<close>
  gained the requirement \<open>A\<close> and \<open>C\<close> requires \<open>B\<close>, only \<open>B\<close> is blocked.
\<close>

theorem late_requirement_missed:
  "\<exists>s'. update_transitive_state [] [rB] [] (sample_model (chain_rows NOT_BLOCKED NOT_BLOCKED NOT_BLOCKED))
      = Some (Inr (s', [], [rB]))
    \<and> is_blocked_in s' rA \<and> is_blocked_in s' rB \<and> \<not> is_blocked_in s' rC \<and> requires_of s' rC = [rB]"
proof -
  let ?s = "sample_model (chain_rows NOT_BLOCKED NOT_BLOCKED NOT_BLOCKED)"
  have "(case update_transitive_state [] [rB] [] ?s of
      Some (Inr (s', u, b)) \<Rightarrow> u = [] \<and> b = [rB] \<and> map_option rs_blocked (state_of s' rA) = Some BLOCKED
        \<and> map_option rs_blocked (state_of s' rB) = Some BLOCKED
        \<and> map_option rs_blocked (state_of s' rC) = Some NOT_BLOCKED \<and> requires_of s' rC = [rB]
    | _ \<Rightarrow> False)" by code_simp
  then show ?thesis by (auto simp: is_blocked_in_def split: option.splits sum.splits)
qed

end
