(* ===== verification/Transitive_Frame.thy ===== *)
theory Transitive_Frame
  imports Transitive_State
begin

text \<open>
  What \<open>update_transitive_state\<close> leaves alone, whatever it is called with. The four stages
  change their state only by blocking a resource, unblocking a resource that is neither undefined
  nor known to be blocked for good, and updating their caches; so every property that these
  steps keep, the method keeps. A resource is blocked only if it is known to be blocked for
  good, or is in \<open>may\<close>, a set that is closed under the provides relation and has the
  resources that are verified for new requirements.
\<close>

section \<open>Properties kept by the steps\<close>

locale marking_frame =
  fixes P :: "transitive \<Rightarrow> bool"
  assumes cached: "P t \<Longrightarrow> P (t\<lparr>ts_cache := c\<rparr>)"
    and marked: "P t \<Longrightarrow> P (t\<lparr>ts_is_blocked := sadd r (ts_is_blocked t)\<rparr>)"
begin

lemma cached_blocker_keeps: "cached_blocker r t = Inr (d, t') \<Longrightarrow> P t \<Longrightarrow> P t' \<and> ts_state t' = ts_state t \<and> ts_is_blocked t' = ts_is_blocked t"
  by (auto simp: cached_blocker_def rbind_eq_Inr split: option.splits if_splits intro: cached)

end

locale blocking_frame = marking_frame +
  fixes may :: "rid set"
  assumes blocks: "P t \<Longrightarrow> r \<in> may \<or> r \<in> set (ts_is_blocked t) \<Longrightarrow> ts_block r t = Inr t' \<Longrightarrow> P t'"
    and spreads: "P t \<Longrightarrow> r \<in> may \<Longrightarrow> set (ts_provides t r) \<subseteq> may"
begin

lemma stage2_keeps: "propagate_undefined work t = Inr t' \<Longrightarrow> P t \<Longrightarrow> P t'"
proof (induction work t rule: propagate_undefined.induct)
  case (2 r work t)
  let ?t1 = "t\<lparr>ts_is_blocked := sadd r (ts_is_blocked t)\<rparr>"
  have p1: "P ?t1" using "2.prems"(2) by (rule marked)
  show ?case
  proof (cases "r \<in> set (ts_is_blocked t)")
    case True
    then show ?thesis using 2 by simp
  next
    case new: False
    then obtain b where b: "ts_blocked r ?t1 = Inr b" using "2.prems"(1) by (auto simp: Let_def split: sum.splits)
    show ?thesis
    proof (cases b)
      case True
      then show ?thesis using new b "2.IH"(2) [OF new refl b] "2.prems"(1) p1 by simp
    next
      case False
      then obtain t2 where t2: "ts_block r ?t1 = Inr t2" using new b "2.prems"(1) by (auto simp: Let_def split: sum.splits)
      then show ?thesis using new b False "2.IH"(3) [OF new refl b _ t2] "2.prems"(1) blocks [OF p1 _ t2] by simp
    qed
  qed
qed simp

lemma verify_keeps:
  assumes "update_blocked_status_to_blocked r t = Inr (b, t')" "P t" "r \<in> may"
  shows "P t'"
proof (cases "t' = t")
  case False
  with assms(1) obtain dep0 t1 where c: "cached_blocker r t = Inr (dep0, t1)"
    by (auto simp: update_blocked_status_to_blocked_def rbind_eq_Inr split: if_splits)
  have p1: "P t1" using cached_blocker_keeps [OF c assms(2)] by simp
  have p3: "P (if d \<in> set (ts_is_blocked t2) then t2\<lparr>ts_is_blocked := sadd r (ts_is_blocked t2)\<rparr> else t2)"
    if "P t2" for d t2 using that marked by simp
  have fin: "P t'" if "(case dep of None \<Rightarrow> Inr (False, t2)
      | Some d \<Rightarrow> let t3 = (if d \<in> set (ts_is_blocked t2) then t2\<lparr>ts_is_blocked := sadd r (ts_is_blocked t2)\<rparr> else t2)
                  in rbind (ts_block r t3) (\<lambda>t4. Inr (True, t4))) = Inr (b, t')" "P t2" for dep t2
  proof (cases dep)
    case None
    then show ?thesis using that by simp
  next
    case (Some d)
    then show ?thesis using that(1) blocks [OF p3 [OF that(2)]] assms(3) by (auto simp: Let_def rbind_eq_Inr)
  qed
  show ?thesis
  proof (cases dep0)
    case (Some d)
    then show ?thesis using assms(1) c False fin [of t1 "Some d"] p1
      by (auto simp: update_blocked_status_to_blocked_def rbind_eq_Inr split: if_splits)
  next
    case None
    then obtain dep where "first_blocked (requires_of (ts_state t1) r) t1 = Inr dep"
      using assms(1) c False by (auto simp: update_blocked_status_to_blocked_def rbind_eq_Inr split: if_splits)
    then show ?thesis
      using assms(1) c False None fin [of "case dep of None \<Rightarrow> t1 | Some d \<Rightarrow> t1\<lparr>ts_cache := dset (ts_cache t1) r d\<rparr>" dep]
        p1 cached [OF p1]
      by (auto simp: update_blocked_status_to_blocked_def rbind_eq_Inr split: if_splits option.split_asm)
  qed
qed (use assms(2) in simp)

definition soft :: "rid list \<times> transitive \<Rightarrow> bool" where
  \<comment> \<open>the state of stage 3: the work list holds resources that may be blocked\<close>
  "soft p \<longleftrightarrow> P (snd p) \<and> set (fst p) \<subseteq> may"

lemma verify_step_keeps: "verify_step r p = Inr p' \<Longrightarrow> r \<in> may \<Longrightarrow> soft p \<Longrightarrow> soft p'"
  by (cases p) (auto simp: verify_step_def soft_def rbind_eq_Inr split: if_splits dest: verify_keeps)

lemma propagate_step_keeps: "propagate_step h r p = Inr p' \<Longrightarrow> r \<in> may \<Longrightarrow> soft p \<Longrightarrow> soft p'"
  by (cases p) (auto simp: propagate_step_def soft_def rbind_eq_Inr Let_def split: if_splits intro: marked blocks)

lemma stage3_keeps:
  assumes ret: "propagate_blocked work t = Some (Inr t')" and t: "soft (work, t)"
  shows "P t'"
proof -
  have "\<forall>t'. res = Inr t' \<longrightarrow> soft (work, t) \<longrightarrow> P t'" if "propagate_blocked work t = Some res" for res
  proof (rule propagate_blocked.raw_induct [where P = "\<lambda>w t res. \<forall>t'. res = Inr t' \<longrightarrow> soft (w, t) \<longrightarrow> P t'", OF _ that])
    fix f work t res
    assume IH: "\<And>w t res. f w t = Some res \<Longrightarrow> \<forall>t'. res = Inr t' \<longrightarrow> soft (w, t) \<longrightarrow> P t'"
      and eq: "(case work of [] \<Rightarrow> Some (Inr t)
        | a # rest \<Rightarrow> (case rfold (propagate_step (a \<in> set (ts_is_blocked t))) (ts_provides t a) (rest, t) of
             Inl e \<Rightarrow> Some (Inl e) | Inr st \<Rightarrow> f (fst st) (snd st))) = Some res"
    show "\<forall>t'. res = Inr t' \<longrightarrow> soft (work, t) \<longrightarrow> P t'"
    proof (cases work)
      case Nil
      then show ?thesis using eq by (auto simp: soft_def)
    next
      case (Cons a rest)
      show ?thesis
      proof (cases "rfold (propagate_step (a \<in> set (ts_is_blocked t))) (ts_provides t a) (rest, t)")
        case (Inl e)
        then show ?thesis using eq Cons by auto
      next
        case (Inr st)
        have "soft st" if "soft (work, t)"
        proof (rule rfold_inv [OF Inr])
          show "soft (rest, t)" using that Cons by (simp add: soft_def)
          have "set (ts_provides t a) \<subseteq> may" using that Cons spreads [of t a] by (simp add: soft_def)
          then show "soft q" if "x \<in> set (ts_provides t a)" "soft p" "propagate_step (a \<in> set (ts_is_blocked t)) x p = Inr q" for x p q
            using that propagate_step_keeps by blast
        qed
        moreover have "f (fst st) (snd st) = Some res" using eq Cons Inr by simp
        ultimately show ?thesis using IH by (metis prod.collapse)
      qed
    qed
  qed
  then show ?thesis using ret t(1) by blast
qed

lemma verify_steps_keep:
  assumes "rfold verify_step vb ([], t) = Inr p" "set vb \<subseteq> may" "P t"
  shows "soft p"
proof (rule rfold_inv [OF assms(1)])
  show "soft ([], t)" using assms(3) by (simp add: soft_def)
  show "soft q" if "x \<in> set vb" "soft p" "verify_step x p = Inr q" for x p q
    using that verify_step_keeps assms(2) by blast
qed

end

locale unblocking_frame = marking_frame +
  assumes unblocks: "P t \<Longrightarrow> r \<notin> set (ts_is_blocked t) \<Longrightarrow> map_of (ms_resource_state (ts_state t)) r = Some st
    \<Longrightarrow> rs_compliance st \<noteq> UNDEFINED \<Longrightarrow> ts_unblock r t = Inr (b', t') \<Longrightarrow> P t'"
begin

lemma status_keeps:
  assumes "update_blocked_status r t = Inr (b, t')" "P t"
  shows "P t'"
proof (cases "t' = t \<or> t' = t\<lparr>ts_is_blocked := sadd r (ts_is_blocked t)\<rparr>")
  case False
  with assms(1) obtain st dep0 t1 where st: "map_of (ms_resource_state (ts_state t)) r = Some st" "rs_compliance st \<noteq> UNDEFINED"
    "cached_blocker r t = Inr (dep0, t1)"
    by (auto simp: update_blocked_status_def rbind_eq_Inr dlookup_eq_Inr split: if_splits)
  have "r \<notin> set (ts_is_blocked t)" using assms(1) False by (auto simp: update_blocked_status_def)
  then have t1: "P t1" "r \<notin> set (ts_is_blocked t1)" "map_of (ms_resource_state (ts_state t1)) r = Some st"
    using cached_blocker_keeps [OF st(3) assms(2)] st(1) by auto
  show ?thesis
  proof (cases dep0)
    case (Some d)
    then show ?thesis using assms(1) st False t1 by (auto simp: update_blocked_status_def split: if_splits)
  next
    case None
    then obtain dep where "first_blocked (requires_of (ts_state t1) r) t1 = Inr dep"
      using assms(1) st False by (auto simp: update_blocked_status_def rbind_eq_Inr split: if_splits)
    then show ?thesis using assms(1) st False None cached [OF t1(1)] unblocks [OF t1 st(2)]
      by (auto simp: update_blocked_status_def split: if_splits option.split_asm)
  qed
qed (use assms(2) marked in auto)

lemma stage4_keeps: "verify_unblocked_loop work t = Inr t' \<Longrightarrow> P t \<Longrightarrow> P t'"
proof (induction work t rule: verify_unblocked_loop.induct)
  case (2 r work t)
  then show ?case by (auto split: sum.splits if_splits dest: status_keeps)
qed simp

end

lemma update_stages:
  assumes "update_transitive_state u vb vu s = Some (Inr (s', unblocked, blocked))"
  obtains t1 w t2 t3 t4 where "propagate_undefined (rev (concat (map (provides_of s) u)))
      \<lparr>ts_state = s, ts_is_blocked = u, ts_out_blocked = [], ts_out_unblocked = [], ts_cache = []\<rparr> = Inr t1"
    "rfold verify_step vb ([], t1) = Inr (w, t2)" "propagate_blocked w t2 = Some (Inr t3)"
    "verify_unblocked_loop (rev vu) t3 = Inr t4" "s' = ts_state t4" "unblocked = ts_out_unblocked t4" "blocked = ts_out_blocked t4"
  using assms by (auto simp: update_transitive_state_def Let_def rbind_eq_Inr split: sum.splits option.splits)

locale transitive_frame = blocking_frame P UNIV + unblocking_frame P for P
begin

lemma update_keeps:
  assumes up: "update_transitive_state u vb vu s = Some (Inr (s', unblocked, blocked))"
    and t0: "P \<lparr>ts_state = s, ts_is_blocked = u, ts_out_blocked = [], ts_out_unblocked = [], ts_cache = []\<rparr>"
  shows "\<exists>t. P t \<and> s' = ts_state t \<and> unblocked = ts_out_unblocked t \<and> blocked = ts_out_blocked t"
proof -
  obtain t1 w t2 t3 t4 where st: "propagate_undefined (rev (concat (map (provides_of s) u)))
      \<lparr>ts_state = s, ts_is_blocked = u, ts_out_blocked = [], ts_out_unblocked = [], ts_cache = []\<rparr> = Inr t1"
    "rfold verify_step vb ([], t1) = Inr (w, t2)" "propagate_blocked w t2 = Some (Inr t3)"
    "verify_unblocked_loop (rev vu) t3 = Inr t4" "s' = ts_state t4" "unblocked = ts_out_unblocked t4" "blocked = ts_out_blocked t4"
    using update_stages [OF up] .
  have "soft (w, t2)" by (rule verify_steps_keep [OF st(2) _ stage2_keeps [OF st(1) t0]]) simp
  then have "P t4" using stage4_keeps [OF st(4) stage3_keeps [OF st(3)]] by simp
  with st(5-7) show ?thesis by blast
qed

end

section \<open>What stays the same\<close>

definition same_but_blocked :: "model_state \<Rightarrow> model_state \<Rightarrow> bool" where
  \<comment> \<open>only blocked statuses and the dirty set may differ\<close>
  "same_but_blocked s s' \<longleftrightarrow> ms_version s' = ms_version s \<and> ms_intent s' = ms_intent s
     \<and> ms_resource_sets s' = ms_resource_sets s \<and> ms_requires s' = ms_requires s
     \<and> (\<forall>r. map_option no_block (state_of s' r) = map_option no_block (state_of s r))"

definition blocked_frame :: "model_state \<Rightarrow> transitive \<Rightarrow> bool" where
  \<comment> \<open>the model, and what the two results say about the blocked statuses\<close>
  "blocked_frame s t \<longleftrightarrow> same_but_blocked s (ts_state t)
     \<and> (\<forall>x \<in> set (ts_out_blocked t) \<union> set (ts_out_unblocked t). state_of s x \<noteq> None)
     \<and> (\<forall>x. is_blocked_in (ts_state t) x \<longrightarrow> is_blocked_in s x \<or> x \<in> set (ts_out_blocked t))
     \<and> (\<forall>x. undef_in s x \<longrightarrow> is_blocked_in s x \<longrightarrow> is_blocked_in (ts_state t) x)
     \<and> (\<forall>x \<in> set (ts_out_blocked t). is_blocked_in (ts_state t) x \<or> x \<in> set (ts_out_unblocked t))"

definition blocked_within :: "rid set \<Rightarrow> transitive \<Rightarrow> bool" where
  \<comment> \<open>every resource that was blocked is known to be blocked for good, or a member of the set\<close>
  "blocked_within R t \<longleftrightarrow> set (ts_out_blocked t) \<subseteq> set (ts_is_blocked t) \<union> R"

definition gained :: "model_state \<Rightarrow> rid set \<Rightarrow> rid set" where
  \<comment> \<open>what requires, directly or not, one of the resources\<close>
  "gained s V = (requires_rel s)\<^sup>* `` V"

lemma block_steps:
  assumes "ts_block r t = Inr t'"
  obtains st where "state_of (ts_state t) r = Some st"
    "state_of (ts_state t') = (state_of (ts_state t))(r \<mapsto> st\<lparr>rs_blocked := BLOCKED\<rparr>)"
    "ts_out_blocked t' = sadd r (ts_out_blocked t)" "ts_out_unblocked t' = ts_out_unblocked t"
    "ts_is_blocked t' = ts_is_blocked t" "ms_version (ts_state t') = ms_version (ts_state t)"
    "ms_intent (ts_state t') = ms_intent (ts_state t)" "ms_resource_sets (ts_state t') = ms_resource_sets (ts_state t)"
    "ms_requires (ts_state t') = ms_requires (ts_state t)"
  using assms
  by (auto simp: ts_block_def block_resource_transitive_def upd_state_def rbind_eq_Inr dlookup_eq_Inr fun_eq_iff state_of_def)

lemma unblock_steps:
  assumes "ts_unblock r t = Inr (b, t')"
  obtains st where "state_of (ts_state t) r = Some st"
    "state_of (ts_state t') = (state_of (ts_state t))(r \<mapsto> st\<lparr>rs_blocked := NOT_BLOCKED\<rparr>)"
    "ts_out_blocked t' = ts_out_blocked t" "ts_out_unblocked t' = sadd r (ts_out_unblocked t)"
    "ts_is_blocked t' = ts_is_blocked t" "ms_version (ts_state t') = ms_version (ts_state t)"
    "ms_intent (ts_state t') = ms_intent (ts_state t)" "ms_resource_sets (ts_state t') = ms_resource_sets (ts_state t)"
    "ms_requires (ts_state t') = ms_requires (ts_state t)"
  using assms
  by (auto simp: ts_unblock_def unblock_resource_def upd_state_def rbind_eq_Inr dlookup_eq_Inr fun_eq_iff state_of_def
      split: if_splits)

lemma same_but_blockedD:
  assumes "same_but_blocked s s'"
  shows "undef_in s' x = undef_in s x" "state_of s' x = None \<longleftrightarrow> state_of s x = None"
    "state_of s x = Some st \<Longrightarrow> \<exists>st'. state_of s' x = Some st' \<and> no_block st' = no_block st"
proof -
  have e: "map_option no_block (state_of s' x) = map_option no_block (state_of s x)" using assms by (simp add: same_but_blocked_def)
  show n: "state_of s' x = None \<longleftrightarrow> state_of s x = None" using e by (cases "state_of s' x"; cases "state_of s x") auto
  show "state_of s x = Some st \<Longrightarrow> \<exists>st'. state_of s' x = Some st' \<and> no_block st' = no_block st"
    using e by (cases "state_of s' x") auto
  show "undef_in s' x = undef_in s x"
  proof (cases "state_of s x")
    case None
    then show ?thesis using n by (simp add: undef_in_def)
  next
    case (Some st)
    then obtain st' where "state_of s' x = Some st'" "no_block st' = no_block st" using e by (cases "state_of s' x") auto
    then show ?thesis using Some no_block_simps(2) by (metis undef_in_def option.inject)
  qed
qed

lemma same_but_blocked_update:
  assumes "same_but_blocked s s1" "state_of s1 r = Some st" "state_of s2 = (state_of s1)(r \<mapsto> st\<lparr>rs_blocked := b\<rparr>)"
    "ms_version s2 = ms_version s1" "ms_intent s2 = ms_intent s1" "ms_resource_sets s2 = ms_resource_sets s1"
    "ms_requires s2 = ms_requires s1"
  shows "same_but_blocked s s2"
proof -
  have "map_option no_block (state_of s1 r) = map_option no_block (state_of s r)" using assms(1) by (simp add: same_but_blocked_def)
  then have "map_option no_block (state_of s r) = Some (no_block st)" using assms(2) by simp
  then show ?thesis using assms by (auto simp: same_but_blocked_def)
qed

interpretation blocked_frame: transitive_frame "blocked_frame s" for s
proof
  fix t r t'
  assume f: "blocked_frame s t" and b: "ts_block r t = Inr t'"
  obtain st where st: "state_of (ts_state t) r = Some st"
    "state_of (ts_state t') = (state_of (ts_state t))(r \<mapsto> st\<lparr>rs_blocked := BLOCKED\<rparr>)"
    "ts_out_blocked t' = sadd r (ts_out_blocked t)" "ts_out_unblocked t' = ts_out_unblocked t"
    "ms_version (ts_state t') = ms_version (ts_state t)" "ms_intent (ts_state t') = ms_intent (ts_state t)"
    "ms_resource_sets (ts_state t') = ms_resource_sets (ts_state t)" "ms_requires (ts_state t') = ms_requires (ts_state t)"
    using block_steps [OF b] by metis
  have "same_but_blocked s (ts_state t)" using f by (simp add: blocked_frame_def)
  then have "same_but_blocked s (ts_state t')" by (rule same_but_blocked_update [OF _ st(1,2,5-8)])
  moreover have "is_blocked_in (ts_state t') x \<longleftrightarrow> x = r \<or> is_blocked_in (ts_state t) x" for x
    using st by (simp add: is_blocked_in_def)
  moreover have "state_of s r \<noteq> None"
    using st f same_but_blockedD(2) [of s "ts_state t" r] by (simp add: blocked_frame_def)
  ultimately show "blocked_frame s t'" using f st(3,4) unfolding blocked_frame_def by simp blast
next
  fix t r st b' t'
  assume f: "blocked_frame s t" and st0: "map_of (ms_resource_state (ts_state t)) r = Some st" "rs_compliance st \<noteq> UNDEFINED"
    and b: "ts_unblock r t = Inr (b', t')"
  obtain st1 where st: "state_of (ts_state t) r = Some st1"
    "state_of (ts_state t') = (state_of (ts_state t))(r \<mapsto> st1\<lparr>rs_blocked := NOT_BLOCKED\<rparr>)"
    "ts_out_blocked t' = ts_out_blocked t" "ts_out_unblocked t' = sadd r (ts_out_unblocked t)"
    "ms_version (ts_state t') = ms_version (ts_state t)" "ms_intent (ts_state t') = ms_intent (ts_state t)"
    "ms_resource_sets (ts_state t') = ms_resource_sets (ts_state t)" "ms_requires (ts_state t') = ms_requires (ts_state t)"
    using unblock_steps [OF b] by metis
  have "\<not> undef_in s r"
    using st0 f same_but_blockedD(1) [of s "ts_state t" r] by (auto simp: blocked_frame_def undef_in_def state_of_def)
  moreover have "same_but_blocked s (ts_state t')"
    by (rule same_but_blocked_update [OF _ st(1,2,5-8)]) (use f in \<open>simp add: blocked_frame_def\<close>)
  moreover have "is_blocked_in (ts_state t') x \<longleftrightarrow> x \<noteq> r \<and> is_blocked_in (ts_state t) x" for x
    using st by (simp add: is_blocked_in_def)
  moreover have "state_of s r \<noteq> None"
    using st f same_but_blockedD(2) [of s "ts_state t" r] by (simp add: blocked_frame_def)
  ultimately show "blocked_frame s t'" using f st(3,4) unfolding blocked_frame_def by simp blast
qed (auto simp: blocked_frame_def)

interpretation within_blocking: blocking_frame
  "\<lambda>t. blocked_within (gained s V) t \<and> ts_out_unblocked t = [] \<and> model_inv s \<and> ms_requires (ts_state t) = ms_requires s"
  "gained s V" for s V
proof (unfold_locales, goal_cases)
  case (3 t r t')
  then show ?case by (auto simp: blocked_within_def elim!: block_steps)
next
  case (4 t r)
  then have "x \<in> set (ts_provides t r) \<longleftrightarrow> (r, x) \<in> requires_rel s" for x
    using provides_iff [of s x r] by (simp add: ts_provides_def provides_of_def requires_rel_def)
  then show ?case using 4 unfolding gained_def by (blast intro: rtrancl.rtrancl_into_rtrancl)
qed (auto simp: blocked_within_def)

interpretation within_unblocking: unblocking_frame
  "\<lambda>t. blocked_within R t \<and> set (ts_out_blocked t) \<inter> set (ts_out_unblocked t) \<subseteq> R" for R
  by unfold_locales (auto simp: blocked_within_def elim!: unblock_steps)

text \<open>
  Only a resource that requires, directly or not, a resource that was verified for new
  requirements is ever both blocked and unblocked.
\<close>

lemma blocked_and_unblocked:
  assumes "update_transitive_state u vb vu s = Some (Inr (s', unblocked, blocked))" "model_inv s"
  shows "set blocked \<inter> set unblocked \<subseteq> gained s (set vb)"
proof -
  obtain t1 w t2 t3 t4 where st: "propagate_undefined (rev (concat (map (provides_of s) u)))
      \<lparr>ts_state = s, ts_is_blocked = u, ts_out_blocked = [], ts_out_unblocked = [], ts_cache = []\<rparr> = Inr t1"
    "rfold verify_step vb ([], t1) = Inr (w, t2)" "propagate_blocked w t2 = Some (Inr t3)"
    "verify_unblocked_loop (rev vu) t3 = Inr t4" "unblocked = ts_out_unblocked t4" "blocked = ts_out_blocked t4"
    using update_stages [OF assms(1)] by metis
  have t1: "blocked_within (gained s (set vb)) t1 \<and> ts_out_unblocked t1 = [] \<and> model_inv s
      \<and> ms_requires (ts_state t1) = ms_requires s"
    using within_blocking.stage2_keeps [OF st(1)] assms(2) by (simp add: blocked_within_def)
  have "set vb \<subseteq> gained s (set vb)" by (auto simp: gained_def)
  from within_blocking.stage3_keeps [OF st(3) within_blocking.verify_steps_keep [OF st(2) this t1]]
  have "blocked_within (gained s (set vb)) t3 \<and> set (ts_out_blocked t3) \<inter> set (ts_out_unblocked t3) \<subseteq> gained s (set vb)"
    by simp
  from within_unblocking.stage4_keeps [OF st(4) this] st(5,6) show ?thesis by simp
qed

end
