(* ===== verification/Version_Update.thy ===== *)
theory Version_Update
  imports Resource_Scheduler Transitive_Frame
begin

text \<open>
  \<open>_new_version\<close> of \<open>src/src/inmanta/deploy/scheduler.py\<close>: how the scheduler takes over one or
  more released versions. The method runs in phases: consolidate the versions, compare them
  with the managed model, update the model, propagate blocked statuses, adapt the deploys in
  progress, the timers and the scheduled work, drop what was deleted, and write to the
  database. The writes are returned as values. \<open>None\<close>: the propagation does not return.
  The first two phases run before the scheduler lock is acquired, on the model of that moment: what others do until then
  is an argument. Of the connection only matters whether it is in a transaction. The state that an exception would leave behind is not modelled.
\<close>

section \<open>Comparing the new version with the managed model\<close>

record version_plan =
  vp_model :: model_version
  vp_changes :: "(rid, intent_change) dict"
  vp_added :: "(rid, rid pyset) dict"
  vp_dropped :: "(rid, rid pyset) dict"
  vp_deleted :: "(rid, int) dict"
  vp_new :: "rid pyset"
  vp_updated :: "rid pyset"
  vp_became_defined :: "rid pyset"
  vp_became_undefined :: "rid pyset"

definition requires_change :: "model_state \<Rightarrow> rid \<times> rid pyset \<Rightarrow> version_plan \<Rightarrow> version_plan" where
  \<comment> \<open>the body of the loop over \<open>model.requires\<close>\<close>
  "requires_change m = (\<lambda>(r, requires) p.
     let old_requires = requires_of m r;
         added = sdiff requires old_requires;
         removed = sdiff old_requires requires;
         p1 = (if added \<noteq> [] then p\<lparr>vp_added := dset (vp_added p) r added\<rparr> else p)
     in if removed \<noteq> [] then p1\<lparr>vp_dropped := dset (vp_dropped p1) r removed\<rparr> else p1)"

definition sort_change :: "model_state \<Rightarrow> rid \<times> intent_change \<Rightarrow> version_plan \<Rightarrow> version_plan result" where
  \<comment> \<open>the body of the loop over \<open>intent_changes\<close>\<close>
  "sort_change m = (\<lambda>(r, change) p.
     case change of
       Deleted v \<Rightarrow> Inr (p\<lparr>vp_deleted := dset (vp_deleted p) r v\<rparr>)
     | _ \<Rightarrow>
         let p1 = (if change = New then p\<lparr>vp_new := sadd r (vp_new p)\<rparr> else p\<lparr>vp_updated := sadd r (vp_updated p)\<rparr>);
             undef = (r \<in> set (mv_undefined (vp_model p1)))
         in case map_of (ms_resource_state m) r of
              None \<Rightarrow> Inr (if undef then p1\<lparr>vp_became_undefined := sadd r (vp_became_undefined p1)\<rparr> else p1)
            | Some st \<Rightarrow>
                rbind (dlookup (mv_resources (vp_model p1)) r) (\<lambda>_. rbind (dlookup (ms_intent m) r) (\<lambda>_.
                  Inr (if undef \<and> rs_compliance st \<noteq> UNDEFINED
                       then p1\<lparr>vp_became_undefined := sadd r (vp_became_undefined p1)\<rparr>
                       else if \<not> undef \<and> rs_compliance st = UNDEFINED
                       then p1\<lparr>vp_became_defined := sadd r (vp_became_defined p1)\<rparr>
                       else p1))))"

definition plan_asserts :: "version_plan \<Rightarrow> bool" where
  \<comment> \<open>the two assertions about the sets\<close>
  "plan_asserts p \<longleftrightarrow>
     length (vp_changes p) = length (sunion (sunion (dkeys (vp_deleted p)) (vp_new p)) (vp_updated p))
     \<and> length (vp_changes p) = length (vp_deleted p) + length (vp_new p) + length (vp_updated p)
     \<and> length (sunion (vp_became_defined p) (vp_became_undefined p))
         = length (vp_became_defined p) + length (vp_became_undefined p)"

definition plan_version :: "model_state \<Rightarrow> model_version list \<Rightarrow> rid pyset \<Rightarrow> version_plan result" where
  \<comment> \<open>everything before the scheduler lock is acquired\<close>
  "plan_version m new_versions up_to_date_resources =
     rbind (get_intent_changes m new_versions up_to_date_resources) (\<lambda>(model, intent_changes).
     let p0 = fold (requires_change m) (mv_requires model)
           \<lparr>vp_model = model, vp_changes = intent_changes, vp_added = [], vp_dropped = [], vp_deleted = [],
            vp_new = [], vp_updated = [], vp_became_defined = [], vp_became_undefined = []\<rparr>
     in rbind (rfold (sort_change m) intent_changes p0) (\<lambda>p.
          if plan_asserts p then Inr p else Inl AssertionError))"

definition force_new :: "model_state \<Rightarrow> version_plan \<Rightarrow> rid pyset" where
  "force_new m p = sinter (dkeys (ms_intent m)) (vp_new p)"

section \<open>Updating the model\<close>

definition update_resource_sets :: "model_version \<Rightarrow> model_state \<Rightarrow> model_state" where
  "update_resource_sets v m =
     (if mv_partial v
      then fold (\<lambda>(name, resources) m. m\<lparr>ms_resource_sets :=
             (if resources \<noteq> [] then dset (ms_resource_sets m) name resources else ddel (ms_resource_sets m) name)\<rparr>)
           (mv_resource_sets v) (m\<lparr>ms_version := mv_version v\<rparr>)
      else m\<lparr>ms_version := mv_version v, ms_resource_sets := mv_resource_sets v\<rparr>)"

definition restore_up_to_date :: "version_plan \<Rightarrow> (rid, time) dict \<Rightarrow> rid \<Rightarrow> model_state \<Rightarrow> model_state result" where
  "restore_up_to_date p last_deploy_time r m =
     rbind (dlookup (mv_resources (vp_model p)) r)
       (\<lambda>i. update_resource i False False True (map_of last_deploy_time r) m)"

definition take_intent :: "version_plan \<Rightarrow> (rid, time) dict \<Rightarrow> rid \<Rightarrow> model_state \<Rightarrow> model_state result" where
  "take_intent p last_deploy_time r m =
     rbind (dlookup (mv_resources (vp_model p)) r) (\<lambda>i.
     rbind (dlookup (vp_changes p) r) (\<lambda>change.
       update_resource i (change = New) (r \<in> set (mv_undefined (vp_model p))) False (map_of last_deploy_time r) m))"

definition take_requires :: "version_plan \<Rightarrow> rid \<Rightarrow> model_state \<Rightarrow> model_state result" where
  "take_requires p r m = rbind (dlookup (mv_requires (vp_model p)) r) (\<lambda>requires. update_requires r requires m)"

definition update_model ::
  "version_plan \<Rightarrow> rid pyset \<Rightarrow> (rid, time) dict \<Rightarrow> model_state \<Rightarrow> model_state result" where
  \<comment> \<open>the version, the resource sets, the intents and the requires\<close>
  "update_model p up_to_date_resources last_deploy_time m =
     rbind (rfold (restore_up_to_date p last_deploy_time) up_to_date_resources
              (update_resource_sets (vp_model p) m)) (\<lambda>m1.
     rbind (rfold (take_intent p last_deploy_time) (sunion (vp_new p) (vp_updated p)) m1) (\<lambda>m2.
       rfold (take_requires p) (sunion (dkeys (vp_added p)) (dkeys (vp_dropped p))) m2))"

definition reset_requirement :: "rid \<Rightarrow> model_state \<Rightarrow> model_state result" where
  \<comment> \<open>a temporarily blocked resource one of whose requirements was reset\<close>
  "reset_requirement r m =
     rbind (dlookup (ms_resource_state m) r) (\<lambda>st.
       if rs_blocked st = TEMPORARILY_BLOCKED
       then rbind (should_skip_for_dependencies r m) (\<lambda>skip.
              if skip then Inr m else upd_state r (\<lambda>st. st\<lparr>rs_blocked := NOT_BLOCKED\<rparr>) m)
       else Inr m)"

section \<open>The whole method\<close>

datatype db_write =
    UpdateIntent "(rid \<times> resource_state \<times> resource_intent) list"
  | MarkAllOrphans int
  | MarkOrphans "(rid, int) dict"
  | SetLastProcessed int

definition adapt_deploying :: "version_plan \<Rightarrow> rid pyset \<Rightarrow> scheduler \<Rightarrow> scheduler" where
  \<comment> \<open>the sets of deploys in progress\<close>
  "adapt_deploying p transitive_blocked s =
     s\<lparr>sc_deploying_unmanaged := sunion (sc_deploying_unmanaged s)
         (sinter (sc_deploying_latest s) (sunion (vp_new p) (dkeys (vp_deleted p)))),
       sc_deploying_latest := sdiff (sdiff (sc_deploying_latest s) (dkeys (vp_changes p))) transitive_blocked\<rparr>"

definition adapt_timers ::
  "version_plan \<Rightarrow> rid pyset \<Rightarrow> rid pyset \<Rightarrow> rid pyset \<Rightarrow> rid pyset \<Rightarrow> scheduler \<Rightarrow> scheduler result" where
  "adapt_timers p up_to_date_resources unblocked blocked reset_requires s =
     (let dirty = ms_dirty (sc_state s);
          t1 = stop_timers (sunion (sunion dirty (vp_became_undefined p)) blocked) (sc_timers s);
          t2 = remove_timers (dkeys (vp_deleted p)) t1
      in rbind (update_timers (sunion up_to_date_resources (sdiff (sunion unblocked reset_requires) dirty))
                 (ms_resource_state (sc_state s)) t2)
           (\<lambda>t3. Inr (s\<lparr>sc_timers := t3\<rparr>)))"

definition drop_deleted :: "version_plan \<Rightarrow> rid pyset \<Rightarrow> scheduler \<Rightarrow> scheduler result" where
  "drop_deleted p blocked s =
     rbind (rfold (\<lambda>r m. if has_key (ms_resource_state m) r then drop_resource r m else Inr m)
              (dkeys (vp_deleted p)) (sc_state s)) (\<lambda>m.
       Inr (s\<lparr>sc_state := m,
              sc_work := fold sw_delete_resource
                (sunion (sunion (dkeys (vp_deleted p)) (vp_became_undefined p)) blocked) (sc_work s)\<rparr>))"

definition version_writes :: "bool \<Rightarrow> version_plan \<Rightarrow> rid pyset \<Rightarrow> rid pyset \<Rightarrow> model_state \<Rightarrow> db_write list result" where
  "version_writes first_version p unblocked blocked m =
     (let rids = sdiff (sunion (sunion (vp_new p) (vp_updated p))
                    (sunion (sunion (vp_became_undefined p) blocked) unblocked)) (dkeys (vp_deleted p))
      in rbind (rmap (\<lambda>r. rbind (dlookup (ms_resource_state m) r) (\<lambda>st.
                  rbind (dlookup (ms_intent m) r) (\<lambda>i. Inr (r, st, i)))) rids) (\<lambda>intents.
           Inr [UpdateIntent intents,
                if first_version then MarkAllOrphans (mv_version (vp_model p)) else MarkOrphans (vp_deleted p),
                SetLastProcessed (ms_version m)]))"

definition apply_plan ::
  "version_plan \<Rightarrow> rid pyset \<Rightarrow> rid pyset \<Rightarrow> string \<Rightarrow> rid pyset \<Rightarrow> rid pyset \<Rightarrow> scheduler \<Rightarrow> scheduler result" where
  \<comment> \<open>what follows \<open>update_transitive_state\<close> under the lock\<close>
  "apply_plan p up_to_date_resources forced reason unblocked blocked s =
     (let reset_requires = mk_set (concat (map (provides_of (sc_state s)) forced))
      in rbind (rfold reset_requirement reset_requires (sc_state s)) (\<lambda>m.
         rbind (adapt_timers p up_to_date_resources unblocked blocked reset_requires
                  (adapt_deploying p blocked (s\<lparr>sc_state := m\<rparr>))) (\<lambda>s1.
         rbind (schedule_deploys (ms_dirty (sc_state s1)) reason NEW_VERSION_DEPLOY (vp_added p) (vp_dropped p) False s1)
           (drop_deleted p blocked))))"

definition new_version ::
  "bool option \<Rightarrow> model_state \<Rightarrow> model_version list \<Rightarrow> rid pyset \<Rightarrow> (rid, time) dict \<Rightarrow> string \<Rightarrow> scheduler \<Rightarrow> (scheduler \<times> db_write list) result option" where
  \<comment> \<open>\<open>connection\<close>: whether it is in a transaction; \<open>m0\<close>: the model before the lock; \<open>s\<close>: the scheduler once it has the lock\<close>
  "new_version connection m0 new_versions up_to_date_resources last_deploy_time reason s =
     (if new_versions = [] then Some (Inr (s, []))
      else if connection = Some True then Some (Inl ValueError)
      else
        case plan_version m0 new_versions up_to_date_resources of
          Inl e \<Rightarrow> Some (Inl e)
        | Inr p \<Rightarrow>
            (case update_model p up_to_date_resources last_deploy_time (sc_state s) of
               Inl e \<Rightarrow> Some (Inl e)
             | Inr m \<Rightarrow>
                 (case update_transitive_state (vp_became_undefined p) (dkeys (vp_added p))
                         (sunion (vp_became_defined p) (dkeys (vp_dropped p))) m of
                    None \<Rightarrow> None
                  | Some (Inl e) \<Rightarrow> Some (Inl e)
                  | Some (Inr (m1, unblocked, blocked)) \<Rightarrow>
                      Some (rbind (apply_plan p up_to_date_resources (force_new m0 p) reason unblocked blocked
                                     (s\<lparr>sc_state := m1\<rparr>)) (\<lambda>s1.
                            rbind (version_writes (ms_version m0 = 0) p unblocked blocked (sc_state s1)) (\<lambda>ws.
                              Inr (s1, ws)))))))"

end
