(* ===== verification/Version_Plan.thy ===== *)
theory Version_Plan
  imports Version_Update
begin

text \<open>
  What the first phase of \<open>_new_version\<close> computes: the consolidated version, with every
  resource as the latest version that has it gives it, and the sets into which its changes are
  sorted. The consolidation is compared with applying the versions one after the other in
  \<open>Model_Versions\<close>; here the requires are added, and the plan is described by sets.
\<close>

section \<open>Well-formed versions\<close>

definition version_ok :: "model_version \<Rightarrow> bool" where
  \<comment> \<open>built by \<open>from_db_records\<close>\<close>
  "version_ok m \<longleftrightarrow> wf_version m
     \<and> (\<forall>r i. map_of (mv_resources m) r = Some i \<longrightarrow> ri_resource_id i = r \<and> wf_intent i)
     \<and> (\<forall>r. distinct (dget (mv_requires m) r []))"

lemma add_record_ok: "add_record s res m = Inr m' \<Longrightarrow> version_ok m \<Longrightarrow> version_ok m'"
  using wf_intent_mk
  by (auto simp: add_record_def Let_def rbind_eq_Inr version_ok_def wf_version_def record_requires_def dget_dset
      mk_resource_intent_def split: if_splits)

lemma from_db_records_ok:
  assumes "from_db_records v sets p = Inr m"
  shows "version_ok m"
proof (rule rfold_inv [OF assms [unfolded from_db_records_def]])
  fix x m m'
  assume m: "version_ok m" and step: "(case x of (s, rs) \<Rightarrow> \<lambda>m. rfold (add_record s) rs
      (m\<lparr>mv_resource_sets := dset (mv_resource_sets m) s []\<rparr>)) m = Inr m'"
  obtain s rs where x: "x = (s, rs)" by (cases x)
  have "version_ok (m\<lparr>mv_resource_sets := dset (mv_resource_sets m) s []\<rparr>)"
    using m by (simp add: version_ok_def wf_version_def)
  then show "version_ok m'" using step add_record_ok unfolding x by (auto elim: rfold_inv)
qed (simp add: version_ok_def wf_version_def)

section \<open>The consolidated version\<close>

definition latest :: "rid \<Rightarrow> model_version list \<Rightarrow> model_version option" where
  \<comment> \<open>the last version that has the resource\<close>
  "latest r vs = fold (\<lambda>v acc. if has_key (mv_resources v) r then Some v else acc) vs None"

definition follows_at :: "rid \<Rightarrow> model_version option \<Rightarrow> resource_intent option \<Rightarrow> rid pyset option \<Rightarrow> bool \<Rightarrow> bool" where
  "follows_at r lv intent requires deleted \<longleftrightarrow> (case intent of
     None \<Rightarrow> requires = None \<and> (lv = None \<or> deleted)
   | Some i \<Rightarrow> (\<exists>v. lv = Some v \<and> map_of (mv_resources v) r = Some i \<and> requires = Some (dget (mv_requires v) r [])))"

definition follows :: "(rid \<Rightarrow> model_version option) \<Rightarrow> changes \<Rightarrow> bool" where
  \<comment> \<open>the consolidated resources are those of their latest version\<close>
  "follows lv c \<longleftrightarrow> wf_dict (ic_intent c) \<and> wf_dict (ic_requires c) \<and> wf_dict (ic_changes c)
     \<and> wf_dict (ic_resource_sets c)
     \<and> (\<forall>r. follows_at r (lv r) (map_of (ic_intent c) r) (map_of (ic_requires c) r) (is_deleted (ic_changes c) r))"

lemma delete_change_requires:
  "map_of (ic_requires (delete_change r c)) x
    = (if x = r \<and> has_key (ic_intent c) r then None else map_of (ic_requires c) x)"
  by (simp add: delete_change_def Let_def split: option.split intent_change.split)

lemma delete_change_wf:
  "wf_dict (ic_intent c) \<Longrightarrow> wf_dict (ic_intent (delete_change r c))"
  "wf_dict (ic_requires c) \<Longrightarrow> wf_dict (ic_requires (delete_change r c))"
  "wf_dict (ic_changes c) \<Longrightarrow> wf_dict (ic_changes (delete_change r c))"
  by (simp_all add: delete_change_def Let_def split: option.split intent_change.split)

lemma delete_change_follows:
  assumes "follows lv c"
  shows "follows lv (delete_change r c)"
proof -
  have "follows_at x (lv x) (map_of (ic_intent (delete_change r c)) x) (map_of (ic_requires (delete_change r c)) x)
      (is_deleted (ic_changes (delete_change r c)) x)" for x
  proof (cases "x = r")
    case True
    moreover have "has_key (ic_intent c) r \<or> map_of (ic_requires c) r = None"
      using assms by (cases "map_of (ic_intent c) r") (auto simp: follows_def follows_at_def dest: spec [of _ r])
    ultimately show ?thesis by (auto simp: delete_change_ok delete_change_requires follows_at_def)
  next
    case False
    then show ?thesis using assms by (simp add: delete_change_ok(1,2) delete_change_requires follows_def)
  qed
  then show ?thesis using assms delete_change_wf by (simp add: follows_def delete_change_ok(4))
qed

lemma rbind_dest: "rbind m f = Inr y \<Longrightarrow> (\<And>x. f x = Inr y \<Longrightarrow> P) \<Longrightarrow> P"
  by (cases m) auto

lemma resource_change_fields:
  assumes "resource_change s u m (r, i) c = Inr c'"
  shows "ic_intent c' = dset (ic_intent c) r i" "ic_requires c' = dset (ic_requires c) r (dget (mv_requires m) r [])"
    "ic_changes c' = ic_changes c \<or> (\<exists>ch. ic_changes c' = dset (ic_changes c) r ch)"
    "ic_resource_sets c' = ic_resource_sets c"
proof -
  define c1 where "c1 = c\<lparr>ic_intent := dset (ic_intent c) r i, ic_requires := dset (ic_requires c) r (dget (mv_requires m) r [])\<rparr>"
  let ?P = "\<lambda>c'. ic_intent c' = ic_intent c1 \<and> ic_requires c' = ic_requires c1
     \<and> ic_resource_sets c' = ic_resource_sets c1
     \<and> (ic_changes c' = ic_changes c1 \<or> (\<exists>ch. ic_changes c' = dset (ic_changes c1) r ch))"
  have marked: "?P c2" if "(if b then Inr (c1\<lparr>ic_changes := dset (ic_changes c1) r New\<rparr>)
      else rbind (dlookup (ms_intent s) r) (\<lambda>old. if h old then Inr (c1\<lparr>ic_changes := dset (ic_changes c1) r Updated\<rparr>) else Inr c1))
     = Inr c2" for b h c2
    using that by (cases b) (auto elim!: rbind_dest split: if_split_asm, blast)
  let ?last = "\<lambda>c2. (let is_undefined = (r \<in> set (mv_undefined m));
          c3 = c2\<lparr>ic_undefined := (if is_undefined then sadd r (ic_undefined c2) else sdiscard r (ic_undefined c2))\<rparr>
      in if \<not> has_key (ic_changes c3) r
         then rbind (dlookup (ms_resource_state s) r) (\<lambda>st.
           if is_undefined \<noteq> (rs_compliance st = UNDEFINED)
           then Inr (c3\<lparr>ic_changes := dset (ic_changes c3) r Updated\<rparr>) else Inr c3)
         else Inr c3)"
  have last: "?P c'" if c2: "?P c2" and "?last c2 = Inr c'" for c2
  proof (cases "has_key (ic_changes c2) r")
    case True
    then have "c' = c2\<lparr>ic_undefined := ic_undefined c'\<rparr>" using that(2) by (auto simp: Let_def)
    then show ?thesis using c2 by (metis changes.select_convs(3-6) changes.surjective changes.update_convs(7))
  next
    case False
    then have "c' = c2\<lparr>ic_undefined := ic_undefined c'\<rparr>
        \<or> c' = c2\<lparr>ic_undefined := ic_undefined c', ic_changes := dset (ic_changes c2) r Updated\<rparr>"
      using that(2) unfolding Let_def by (auto elim!: rbind_dest split: if_split_asm)
    then show ?thesis
    proof
      assume "c' = c2\<lparr>ic_undefined := ic_undefined c'\<rparr>"
      then show ?thesis using c2 by (metis changes.select_convs(3-6) changes.surjective changes.update_convs(7))
    next
      assume e: "c' = c2\<lparr>ic_undefined := ic_undefined c', ic_changes := dset (ic_changes c2) r Updated\<rparr>"
      have "ic_intent c' = ic_intent c2" "ic_requires c' = ic_requires c2" "ic_changes c' = dset (ic_changes c2) r Updated"
        "ic_resource_sets c' = ic_resource_sets c2"
        by (subst e; simp)+
      then show ?thesis using c2 by (metis dset_dset)
    qed
  qed
  have "?P c'"
  proof (cases "r \<in> set u")
    case True
    then have "c' = c1" using assms by (simp add: resource_change_def c1_def)
    then show ?thesis by simp
  next
    case False
    obtain c2 where c2: "(if \<not> has_key (ms_intent s) r
                \<or> (case map_of (ic_changes c1) r of Some (Deleted _) \<Rightarrow> True | Some New \<Rightarrow> True | _ \<Rightarrow> False)
             then Inr (c1\<lparr>ic_changes := dset (ic_changes c1) r New\<rparr>)
             else rbind (dlookup (ms_intent s) r) (\<lambda>old.
               if ri_attribute_hash i \<noteq> ri_attribute_hash old
               then Inr (c1\<lparr>ic_changes := dset (ic_changes c1) r Updated\<rparr>) else Inr c1)) = Inr c2"
        "?last c2 = Inr c'"
      using assms False unfolding resource_change_def split_conv c1_def
      by (simp only: Let_def if_False rbind_eq_Inr) blast
    show ?thesis by (rule last [OF marked [OF c2(1)] c2(2)])
  qed
  then show "ic_intent c' = dset (ic_intent c) r i" "ic_requires c' = dset (ic_requires c) r (dget (mv_requires m) r [])"
    "ic_changes c' = ic_changes c \<or> (\<exists>ch. ic_changes c' = dset (ic_changes c) r ch)"
    "ic_resource_sets c' = ic_resource_sets c" by (simp_all add: c1_def)
qed

lemma resource_change_follows:
  assumes step: "resource_change s u m (r, i) c = Inr c'" and fo: "follows lv c" and i: "map_of (mv_resources m) r = Some i"
  shows "follows (lv(r \<mapsto> m)) c'"
proof -
  note e = resource_change_fields [OF step]
  have "is_deleted (ic_changes c') x = is_deleted (ic_changes c) x" if "x \<noteq> r" for x
    using e(3) that by (auto simp: is_deleted_def)
  moreover have "wf_dict (ic_changes c')" using e(3) fo by (auto simp: follows_def)
  ultimately have "follows_at x ((lv(r \<mapsto> m)) x) (map_of (ic_intent c') x) (map_of (ic_requires c') x) (is_deleted (ic_changes c') x)" for x
    using fo i unfolding e(1,2) by (cases "x = r") (simp_all add: follows_def follows_at_def)
  then show ?thesis using fo \<open>wf_dict (ic_changes c')\<close> by (simp add: follows_def e(1,2,4))
qed

lemma version_changes_follows:
  assumes step: "version_changes s u m c = Inr c'" and wfv: "wf_version m" and fo: "follows lv c"
  shows "follows (\<lambda>r. if has_key (mv_resources m) r then Some m else lv r) c' \<and> ic_version c' = mv_version m"
proof -
  define c1 where "c1 = (if mv_partial m then c\<lparr>ic_resource_sets := dunion (ic_resource_sets c) (mv_resource_sets m)\<rparr>
                else c\<lparr>ic_partial := False, ic_resource_sets := mv_resource_sets m\<rparr>)"
  have wf: "wf_dict (mv_resources m)" "wf_dict (mv_resource_sets m)" using wfv by (simp_all add: wf_version_def)
  have "wf_dict d \<Longrightarrow> wf_dict (dunion d e)" for d and e :: "(string option, rid pyset) dict"
    unfolding dunion_def by (induction e arbitrary: d) auto
  then have "follows lv c1" using fo wf by (simp add: c1_def follows_def)
  then have del: "follows lv (fold delete_change rs c1)" for rs
    by (induction rs rule: rev_induct) (auto intro: delete_change_follows)
  have res: "follows (\<lambda>r. if r \<in> set (dkeys xs) then Some m else lv r) c3"
    if "rfold (resource_change s u m) xs c2 = Inr c3" "follows lv c2" "set xs \<subseteq> set (mv_resources m)" for xs c2 c3 lv
    using that
  proof (induction xs arbitrary: c2 lv)
    case (Cons ri xs)
    obtain r i where ri: "ri = (r, i)" by (cases ri)
    obtain c4 where c4: "resource_change s u m (r, i) c2 = Inr c4" "rfold (resource_change s u m) xs c4 = Inr c3"
      using Cons.prems(1) by (auto simp: ri rbind_eq_Inr)
    have "map_of (mv_resources m) r = Some i" using Cons.prems(3) wf(1) by (auto simp: ri wf_dict_def)
    from resource_change_follows [OF c4(1) Cons.prems(2) this]
    have "follows (\<lambda>x. if x \<in> set (dkeys xs) then Some m else (lv(r \<mapsto> m)) x) c3"
      using Cons.IH [OF c4(2)] Cons.prems(3) by simp
    moreover have "(\<lambda>x. if x \<in> set (dkeys xs) then Some m else (lv(r \<mapsto> m)) x)
        = (\<lambda>x. if x \<in> set (dkeys (ri # xs)) then Some m else lv x)" by (auto simp: ri)
    ultimately show ?case by simp
  qed simp
  obtain c3 where c3: "rfold (resource_change s u m) (mv_resources m)
      (fold delete_change (sdiff (known_resources s m c) (dkeys (mv_resources m))) c1) = Inr c3"
    "c' = c3\<lparr>ic_version := mv_version m\<rparr>"
    using step by (auto simp: version_changes_def Let_def rbind_eq_Inr c1_def)
  have "follows (\<lambda>r. if has_key (mv_resources m) r then Some m else lv r) c3"
    using res [OF c3(1) del subset_refl] unfolding has_key_iff .
  then show ?thesis by (simp add: c3(2) follows_def)
qed

lemma get_intent_changes_follows:
  assumes "get_intent_changes s vs u = Inr (as_version c)" "\<forall>v \<in> set vs. wf_version v"
  shows "follows (\<lambda>r. latest r vs) c \<and> ic_version c = mv_version (last vs)"
proof -
  have loop: "follows (\<lambda>r. fold (\<lambda>v acc. if has_key (mv_resources v) r then Some v else acc) vs (lv r)) c'
      \<and> (vs \<noteq> [] \<longrightarrow> ic_version c' = mv_version (last vs))"
    if "rfold (version_changes s u) vs c0 = Inr c'" "follows lv c0" "\<forall>v \<in> set vs. wf_version v" for vs c0 c' lv
    using that
  proof (induction vs arbitrary: c0 lv)
    case (Cons v vs)
    obtain c1 where c1: "version_changes s u v c0 = Inr c1" "rfold (version_changes s u) vs c1 = Inr c'"
      using Cons.prems(1) by (auto simp: rbind_eq_Inr)
    have v: "wf_version v" using Cons.prems(3) by simp
    show ?case
      using Cons.IH [OF c1(2) conjunct1 [OF version_changes_follows [OF c1(1) v Cons.prems(2)]]] Cons.prems(3)
        version_changes_follows [OF c1(1) v Cons.prems(2)] c1(2) by (cases vs) auto
  qed simp
  let ?c0 = "\<lparr>ic_partial = True, ic_version = ms_version s, ic_intent = [], ic_resource_sets = [], ic_requires = [],
                 ic_changes = [], ic_undefined = []\<rparr>"
  have "vs \<noteq> []" using assms(1) by (auto simp: get_intent_changes_def)
  moreover obtain c' where c': "rfold (version_changes s u) vs ?c0 = Inr c'" "as_version c' = as_version c"
    using assms(1) by (auto simp: get_intent_changes_def as_version_def rbind_eq_Inr split: if_splits)
  moreover have "follows (\<lambda>r. None) ?c0" by (simp add: follows_def follows_at_def)
  ultimately have "follows (\<lambda>r. latest r vs) c' \<and> ic_version c' = mv_version (last vs)"
    using loop [OF c'(1) _ assms(2)] by (simp add: latest_def)
  then show ?thesis using c'(2) by (simp add: follows_def as_version_def)
qed

section \<open>The requires\<close>

definition only_if :: "'a list \<Rightarrow> 'a list option" where
  \<comment> \<open>empty sets are not recorded\<close>
  "only_if xs = (if xs = [] then None else Some xs)"

lemma requires_changes:
  assumes "wf_dict d"
  shows "vp_model (fold (requires_change m) d p) = vp_model p \<and> vp_changes (fold (requires_change m) d p) = vp_changes p
    \<and> vp_deleted (fold (requires_change m) d p) = vp_deleted p \<and> vp_new (fold (requires_change m) d p) = vp_new p
    \<and> vp_updated (fold (requires_change m) d p) = vp_updated p
    \<and> vp_became_defined (fold (requires_change m) d p) = vp_became_defined p
    \<and> vp_became_undefined (fold (requires_change m) d p) = vp_became_undefined p
    \<and> map_of (vp_added (fold (requires_change m) d p))
        = map_of (vp_added p) ++ (\<lambda>r. case map_of d r of None \<Rightarrow> None | Some rs \<Rightarrow> only_if (sdiff rs (requires_of m r)))
    \<and> map_of (vp_dropped (fold (requires_change m) d p))
        = map_of (vp_dropped p) ++ (\<lambda>r. case map_of d r of None \<Rightarrow> None | Some rs \<Rightarrow> only_if (sdiff (requires_of m r) rs))
    \<and> (wf_dict (vp_added p) \<longrightarrow> wf_dict (vp_added (fold (requires_change m) d p)))"
  using assms
proof (induction d arbitrary: p)
  case Nil
  then show ?case by (simp add: map_add_def)
next
  case (Cons x d)
  obtain r rs where x: "x = (r, rs)" by (cases x)
  have wf: "wf_dict d" "map_of d r = None" using Cons.prems by (auto simp: x wf_dict_def map_of_eq_None_iff)
  let ?p = "requires_change m (r, rs) p"
  have p: "vp_model ?p = vp_model p" "vp_changes ?p = vp_changes p" "vp_deleted ?p = vp_deleted p" "vp_new ?p = vp_new p"
    "vp_updated ?p = vp_updated p" "vp_became_defined ?p = vp_became_defined p"
    "vp_became_undefined ?p = vp_became_undefined p"
    "map_of (vp_added ?p) = map_of (vp_added p) ++ (\<lambda>x. if x = r then only_if (sdiff rs (requires_of m r)) else None)"
    "map_of (vp_dropped ?p) = map_of (vp_dropped p) ++ (\<lambda>x. if x = r then only_if (sdiff (requires_of m r) rs) else None)"
    "wf_dict (vp_added p) \<Longrightarrow> wf_dict (vp_added ?p)"
    by (auto simp: requires_change_def Let_def only_if_def fun_eq_iff map_add_def simp del: sdiff_eq_Nil)
  show ?case
    using Cons.IH [OF wf(1), of ?p] wf(2) p(10) unfolding x fold_Cons comp_def p(1-9)
    by (auto simp: fun_eq_iff map_add_def split: option.split)
qed

section \<open>The sorted changes\<close>

definition turns_undefined :: "model_state \<Rightarrow> model_version \<Rightarrow> rid \<Rightarrow> bool" where
  "turns_undefined m v r \<longleftrightarrow> r \<in> set (mv_undefined v) \<and> \<not> undef_in m r"

definition turns_defined :: "model_state \<Rightarrow> model_version \<Rightarrow> rid \<Rightarrow> bool" where
  "turns_defined m v r \<longleftrightarrow> r \<notin> set (mv_undefined v) \<and> undef_in m r"

definition sorted_changes :: "model_state \<Rightarrow> (rid \<times> intent_change) list \<Rightarrow> version_plan \<Rightarrow> bool" where
  \<comment> \<open>the sets hold what the changes say\<close>
  "sorted_changes m ch p \<longleftrightarrow> wf_dict (vp_deleted p) \<and> distinct (vp_new p) \<and> distinct (vp_updated p)
     \<and> distinct (vp_became_defined p) \<and> distinct (vp_became_undefined p)
     \<and> set (dkeys (vp_deleted p)) = {r. \<exists>v. (r, Deleted v) \<in> set ch}
     \<and> set (vp_new p) = {r. (r, New) \<in> set ch} \<and> set (vp_updated p) = {r. (r, Updated) \<in> set ch}
     \<and> set (vp_became_undefined p) = {r. ((r, New) \<in> set ch \<or> (r, Updated) \<in> set ch) \<and> turns_undefined m (vp_model p) r}
     \<and> set (vp_became_defined p) = {r. ((r, New) \<in> set ch \<or> (r, Updated) \<in> set ch) \<and> turns_defined m (vp_model p) r}"

lemma keys_dset: "set (dkeys (dset d k v)) = insert k (set (dkeys d))"
  unfolding set_dkeys by (auto split: if_splits)

lemma sort_change_value:
  assumes "\<And>v. c \<noteq> Deleted v" and m: "model_inv m" and key: "has_key (mv_resources (vp_model p)) r"
  shows "sort_change m (r, c) p
    = (let p1 = (if c = New then p\<lparr>vp_new := sadd r (vp_new p)\<rparr> else p\<lparr>vp_updated := sadd r (vp_updated p)\<rparr>)
       in Inr (if turns_undefined m (vp_model p) r then p1\<lparr>vp_became_undefined := sadd r (vp_became_undefined p)\<rparr>
               else if turns_defined m (vp_model p) r then p1\<lparr>vp_became_defined := sadd r (vp_became_defined p)\<rparr>
               else p1))"
proof -
  have nd: "(case c of Deleted v \<Rightarrow> f v | _ \<Rightarrow> z) = z" for f and z :: "version_plan result"
    using assms(1) by (cases c) auto
  obtain i where i: "map_of (mv_resources (vp_model p)) r = Some i" using key by (auto elim: has_keyE)
  show ?thesis
  proof (cases "state_of m r")
    case None
    then show ?thesis using assms(1)
      by (cases c) (auto simp: sort_change_def Let_def turns_undefined_def turns_defined_def undef_in_def state_of_def)
  next
    case (Some st)
    then obtain i0 where "map_of (ms_intent m) r = Some i0" using known_state [OF m, of r] by (auto simp: known_def elim: has_keyE)
    then show ?thesis using assms(1) Some i
      by (cases c) (auto simp: sort_change_def Let_def turns_undefined_def turns_defined_def undef_in_def state_of_def)
  qed
qed

lemma sort_change_step:
  assumes p: "sorted_changes m ch p" and m: "model_inv m"
    and key: "(\<And>v. c \<noteq> Deleted v) \<Longrightarrow> has_key (mv_resources (vp_model p)) r"
  shows "\<exists>p'. sort_change m (r, c) p = Inr p' \<and> sorted_changes m (ch @ [(r, c)]) p'
    \<and> vp_model p' = vp_model p \<and> vp_changes p' = vp_changes p \<and> vp_added p' = vp_added p \<and> vp_dropped p' = vp_dropped p"
proof (cases "\<exists>v. c = Deleted v")
  case True
  then obtain v where v: "c = Deleted v" by blast
  have "set (dkeys (dset (vp_deleted p) r v)) = insert r (set (dkeys (vp_deleted p)))" by (rule keys_dset)
  then show ?thesis using p v by (auto simp: sort_change_def sorted_changes_def simp del: set_map)
next
  case False
  then have c: "c = New \<or> c = Updated" and nd: "\<And>v. c \<noteq> Deleted v" by (cases c; auto)+
  define p1 where "p1 = (if c = New then p\<lparr>vp_new := sadd r (vp_new p)\<rparr> else p\<lparr>vp_updated := sadd r (vp_updated p)\<rparr>)"
  define q where "q = (if turns_undefined m (vp_model p) r then p1\<lparr>vp_became_undefined := sadd r (vp_became_undefined p)\<rparr>
               else if turns_defined m (vp_model p) r then p1\<lparr>vp_became_defined := sadd r (vp_became_defined p)\<rparr>
               else p1)"
  have "sort_change m (r, c) p = Inr q"
    unfolding q_def p1_def by (simp only: sort_change_value [OF nd m key [OF nd]] Let_def)
  moreover have f: "vp_model q = vp_model p \<and> vp_changes q = vp_changes p \<and> vp_added q = vp_added p \<and> vp_dropped q = vp_dropped p"
    by (simp add: q_def p1_def)
  moreover have "vp_deleted q = vp_deleted p" by (simp add: q_def p1_def)
  moreover have "vp_new q = (if c = New then sadd r (vp_new p) else vp_new p)"
    "vp_updated q = (if c = New then vp_updated p else sadd r (vp_updated p))" by (simp_all add: q_def p1_def)
  moreover have "vp_became_undefined q = (if turns_undefined m (vp_model p) r then sadd r (vp_became_undefined p) else vp_became_undefined p)"
    by (simp add: q_def p1_def)
  moreover have "vp_became_defined q = (if turns_defined m (vp_model p) r then sadd r (vp_became_defined p) else vp_became_defined p)"
    by (simp add: q_def p1_def turns_undefined_def turns_defined_def)
  ultimately have "sorted_changes m (ch @ [(r, c)]) q"
    using p c by (auto simp: sorted_changes_def simp del: set_map)
  with f \<open>sort_change m (r, c) p = Inr q\<close> show ?thesis by blast
qed

lemma sort_changes_ok:
  assumes m: "model_inv m" and "sorted_changes m done p"
    and "\<forall>(r, c) \<in> set ch. (\<exists>v. c = Deleted v) \<or> has_key (mv_resources (vp_model p)) r"
  shows "\<exists>p'. rfold (sort_change m) ch p = Inr p' \<and> sorted_changes m (done @ ch) p'
    \<and> vp_model p' = vp_model p \<and> vp_changes p' = vp_changes p \<and> vp_added p' = vp_added p \<and> vp_dropped p' = vp_dropped p"
  using assms(2,3)
proof (induction ch arbitrary: p "done")
  case (Cons x ch)
  obtain r c where x: "x = (r, c)" by (cases x)
  have "(\<And>v. c \<noteq> Deleted v) \<Longrightarrow> has_key (mv_resources (vp_model p)) r" using Cons.prems(2) x by auto
  from sort_change_step [where c = c, OF Cons.prems(1) m this] obtain p1 where p1: "sort_change m (r, c) p = Inr p1"
    "sorted_changes m (done @ [(r, c)]) p1" "vp_model p1 = vp_model p" "vp_changes p1 = vp_changes p"
    "vp_added p1 = vp_added p" "vp_dropped p1 = vp_dropped p" by blast
  have "\<forall>(r, c) \<in> set ch. (\<exists>v. c = Deleted v) \<or> has_key (mv_resources (vp_model p1)) r" using Cons.prems(2) p1(3) by simp
  from Cons.IH [OF p1(2) this] p1(3-6) show ?case by (simp add: x p1(1))
qed simp

lemma plan_asserts_ok:
  assumes "sorted_changes m (vp_changes p) p" "wf_dict (vp_changes p)"
  shows "plan_asserts p"
proof -
  let ?D = "dkeys (vp_deleted p)" and ?N = "vp_new p" and ?U = "vp_updated p"
  have dist: "distinct ?D" "distinct ?N" "distinct ?U" "distinct (vp_became_defined p)" "distinct (vp_became_undefined p)"
    using assms(1) by (simp_all add: sorted_changes_def wf_dict_def)
  have one: "c = c'" if "(r, c) \<in> set (vp_changes p)" "(r, c') \<in> set (vp_changes p)" for r c c'
    using that assms(2) unfolding wf_dict_def by (metis eq_key_imp_eq_value)
  have sets: "set ?D = {r. \<exists>v. (r, Deleted v) \<in> set (vp_changes p)}" "set ?N = {r. (r, New) \<in> set (vp_changes p)}"
    "set ?U = {r. (r, Updated) \<in> set (vp_changes p)}" using assms(1) unfolding sorted_changes_def by blast+
  have keys: "set (dkeys (vp_changes p)) = set ?D \<union> set ?N \<union> set ?U"
  proof -
    have "c = New \<or> c = Updated \<or> (\<exists>v. c = Deleted v)" for c by (cases c) auto
    then have "x \<in> set (dkeys (vp_changes p)) \<longleftrightarrow> (\<exists>v. (x, Deleted v) \<in> set (vp_changes p))
        \<or> (x, New) \<in> set (vp_changes p) \<or> (x, Updated) \<in> set (vp_changes p)" for x
      unfolding set_map image_iff by (metis fst_conv surj_pair)
    then show ?thesis unfolding sets by blast
  qed
  have disj: "set ?D \<inter> set ?N = {}" "(set ?D \<union> set ?N) \<inter> set ?U = {}"
    unfolding sets using one by blast+
  have len: "length (vp_changes p) = card (set (dkeys (vp_changes p)))"
    using distinct_card [of "dkeys (vp_changes p)"] assms(2) by (simp add: wf_dict_def)
  have "length (sunion (sunion ?D ?N) ?U) = card (set ?D \<union> set ?N \<union> set ?U)"
    using distinct_card [of "sunion (sunion ?D ?N) ?U"] dist by simp
  moreover have "card (set ?D \<union> set ?N \<union> set ?U) = length (vp_deleted p) + length ?N + length ?U"
    using card_Un_disjoint disj distinct_card [OF dist(1)] distinct_card [OF dist(2)] distinct_card [OF dist(3)]
    by (metis List.finite_set finite_UnI length_map)
  moreover have "length (sunion (vp_became_defined p) (vp_became_undefined p))
      = length (vp_became_defined p) + length (vp_became_undefined p)"
  proof -
    have "set (vp_became_defined p) \<inter> set (vp_became_undefined p) = {}"
      using assms(1) by (auto simp: sorted_changes_def turns_undefined_def turns_defined_def)
    then show ?thesis
      using distinct_card [of "sunion (vp_became_defined p) (vp_became_undefined p)"] dist
      by (simp add: card_Un_disjoint distinct_card)
  qed
  ultimately show ?thesis unfolding plan_asserts_def len keys by simp
qed

section \<open>The plan\<close>

definition planned_requires :: "model_state \<Rightarrow> model_version list \<Rightarrow> rid \<Rightarrow> rid set" where
  \<comment> \<open>the requires of the latest version that has the resource\<close>
  "planned_requires m vs r = (case latest r vs of
     Some v \<Rightarrow> set (dget (mv_requires v) r []) | None \<Rightarrow> set (requires_of m r))"

definition planned :: "model_state \<Rightarrow> model_version list \<Rightarrow> rid \<Rightarrow> resource_intent option" where
  \<comment> \<open>the intents when the versions are applied one after the other\<close>
  "planned m vs = fst (fold apply_version vs (managed m))"

definition planned_change :: "model_state \<Rightarrow> model_version list \<Rightarrow> version_plan \<Rightarrow> rid \<Rightarrow> bool" where
  \<comment> \<open>what the change of a resource means\<close>
  "planned_change m vs p r \<longleftrightarrow> (case map_of (vp_changes p) r of
     None \<Rightarrow> map_option ri_attribute_hash (planned m vs r) = map_option ri_attribute_hash (map_of (ms_intent m) r)
   | Some (Deleted _) \<Rightarrow> planned m vs r = None
   | Some New \<Rightarrow> has_key (mv_resources (vp_model p)) r
   | Some Updated \<Rightarrow> has_key (mv_resources (vp_model p)) r \<and> known m r)"

definition plan_ok :: "model_state \<Rightarrow> model_version list \<Rightarrow> version_plan \<Rightarrow> bool" where
  "plan_ok m vs p \<longleftrightarrow> mv_version (vp_model p) = mv_version (last vs)
     \<and> wf_dict (vp_changes p) \<and> wf_dict (vp_added p) \<and> sorted_changes m (vp_changes p) p
     \<and> wf_dict (mv_resource_sets (vp_model p))
     \<and> (\<forall>r i. map_of (mv_resources (vp_model p)) r = Some i \<longrightarrow> ri_resource_id i = r \<and> wf_intent i \<and> planned m vs r = Some i)
     \<and> (\<forall>r. planned_change m vs p r)
     \<and> (\<forall>r. has_key (mv_requires (vp_model p)) r = has_key (mv_resources (vp_model p)) r)
     \<and> (\<forall>r rs. map_of (mv_requires (vp_model p)) r = Some rs \<longrightarrow> distinct rs \<and> set rs = planned_requires m vs r)
     \<and> (\<forall>r. planned m vs r \<noteq> None \<longrightarrow> \<not> has_key (mv_resources (vp_model p)) r
           \<longrightarrow> planned_requires m vs r = set (requires_of m r))
     \<and> (\<forall>rs. (case map_of (mv_resource_sets (vp_model p)) rs of Some x \<Rightarrow> set x
           | None \<Rightarrow> if mv_partial (vp_model p) then set (dget (ms_resource_sets m) rs []) else {})
         = snd (fold apply_version vs (managed m)) rs)
     \<and> map_of (vp_added p) = (\<lambda>r. case map_of (mv_requires (vp_model p)) r of
           None \<Rightarrow> None | Some rs \<Rightarrow> only_if (sdiff rs (requires_of m r)))
     \<and> map_of (vp_dropped p) = (\<lambda>r. case map_of (mv_requires (vp_model p)) r of
           None \<Rightarrow> None | Some rs \<Rightarrow> only_if (sdiff (requires_of m r) rs))"

lemma latest_member: "latest r vs = Some v \<Longrightarrow> v \<in> set vs"
proof -
  have "fold (\<lambda>v acc. if has_key (mv_resources v) r then Some v else acc) vs acc = Some v \<Longrightarrow> v \<in> set vs \<or> acc = Some v" for acc
    by (induction vs arbitrary: acc) (auto split: if_splits)
  then show "latest r vs = Some v \<Longrightarrow> v \<in> set vs" unfolding latest_def by blast
qed

lemma plan_version_ok:
  assumes m: "model_inv m" and vs: "vs \<noteq> []" "\<forall>v \<in> set vs. version_ok v"
  shows "\<exists>p. plan_version m vs [] = Inr p \<and> plan_ok m vs p"
proof -
  have wf: "\<forall>v \<in> set vs. wf_version v" using vs(2) by (simp add: version_ok_def)
  obtain c where c: "get_intent_changes m vs [] = Inr (as_version c)"
    "overlay m (as_version c) = fold apply_version vs (managed m)" "\<And>x. classified m {} c x" "complete m c"
    using get_intent_changes_ok [OF m vs(1) wf, of "[]"] by auto
  have fo: "follows (\<lambda>r. latest r vs) c" "ic_version c = mv_version (last vs)"
    using get_intent_changes_follows [OF c(1) wf] by simp_all
  define v where "v = fst (as_version c)"
  have v: "as_version c = (v, ic_changes c)" "mv_resources v = ic_intent c" "mv_requires v = ic_requires c"
    "mv_resource_sets v = ic_resource_sets c" "mv_partial v = ic_partial c" "mv_version v = ic_version c"
    by (simp_all add: v_def as_version_def)
  define p0 where "p0 = fold (requires_change m) (mv_requires v)
           \<lparr>vp_model = v, vp_changes = ic_changes c, vp_added = [], vp_dropped = [], vp_deleted = [],
            vp_new = [], vp_updated = [], vp_became_defined = [], vp_became_undefined = []\<rparr>"
  have "wf_dict (mv_requires v)" using fo by (simp add: v follows_def)
  note r = requires_changes [OF this, of m "\<lparr>vp_model = v, vp_changes = ic_changes c, vp_added = [], vp_dropped = [], vp_deleted = [],
            vp_new = [], vp_updated = [], vp_became_defined = [], vp_became_undefined = []\<rparr>", folded p0_def, simplified]
  have p0: "vp_model p0 = v" "vp_changes p0 = ic_changes c" using r by blast+
  have s0: "sorted_changes m [] p0" using r by (simp add: sorted_changes_def)
  have ch: "has_key (ic_intent c) x" if "map_of (ic_changes c) x = Some k" "\<forall>v. k \<noteq> Deleted v" for x k
    using c(3) [of x] that by (cases k) (auto simp: classified_def class_ok_def has_key_def)
  have "\<forall>(x, k) \<in> set (ic_changes c). (\<exists>v. k = Deleted v) \<or> has_key (mv_resources (vp_model p0)) x"
  proof (intro ballI, clarify)
    fix x k assume "(x, k) \<in> set (ic_changes c)" "\<not> has_key (mv_resources (vp_model p0)) x"
    then show "\<exists>v. k = Deleted v" using ch [of x k] map_of_SomeI [of "ic_changes c"] fo(1) by (auto simp: p0 v follows_def)
  qed
  from sort_changes_ok [OF m s0 this] obtain p where p: "rfold (sort_change m) (ic_changes c) p0 = Inr p"
    "sorted_changes m (ic_changes c) p"
    "vp_model p = v" "vp_changes p = ic_changes c" "vp_added p = vp_added p0" "vp_dropped p = vp_dropped p0"
    unfolding append.simps p0 by blast
  have wfc: "wf_dict (ic_changes c)" using fo by (simp add: follows_def)
  have "plan_asserts p" by (rule plan_asserts_ok) (use p wfc in simp_all)
  then have "plan_version m vs [] = Inr p"
    using p(1) by (simp add: plan_version_def c(1) v(1) p0_def Let_def)
  moreover have "plan_ok m vs p"
  proof -
    have W: "planned m vs r = (case map_of (ic_intent c) r of Some i \<Rightarrow> Some i
        | None \<Rightarrow> if ic_partial c \<and> \<not> is_deleted (ic_changes c) r then map_of (ms_intent m) r else None)" for r
      unfolding planned_def c(2) [symmetric] by (simp add: overlay_alt)
    have co: "ic_partial c \<or> (map_of (ms_intent m) r \<noteq> None \<longrightarrow> map_of (ic_intent c) r \<noteq> None \<or> is_deleted (ic_changes c) r)" for r
      using c(4) by (auto simp: complete_def)
    have at: "follows_at r (latest r vs) (map_of (ic_intent c) r) (map_of (ic_requires c) r) (is_deleted (ic_changes c) r)" for r
      using fo(1) by (simp add: follows_def)
    have given: "\<exists>w. latest r vs = Some w \<and> map_of (mv_resources w) r = Some i \<and> map_of (ic_requires c) r = Some (dget (mv_requires w) r [])"
      if "map_of (ic_intent c) r = Some i" for r i
      using at [of r] that by (simp add: follows_at_def)
    have "ri_resource_id i = r \<and> wf_intent i \<and> planned m vs r = Some i" if i: "map_of (mv_resources v) r = Some i" for r i
    proof -
      obtain w where "latest r vs = Some w" "map_of (mv_resources w) r = Some i" using given i v(2) by auto
      then show ?thesis using vs(2) latest_member [of r vs w] i by (auto simp: version_ok_def W v(2))
    qed
    moreover have "planned_change m vs p r" for r
      using c(3) [of r] co [of r]
      by (auto simp: planned_change_def p v classified_def class_ok_def W is_deleted_def has_key_def known_def
          split: option.splits intent_change.splits if_splits)
    moreover have "has_key (mv_requires v) r = has_key (mv_resources v) r" for r
      using at [of r] by (auto simp: v follows_at_def has_key_def split: option.splits)
    moreover have "distinct rs \<and> set rs = planned_requires m vs r" if rs: "map_of (mv_requires v) r = Some rs" for r rs
    proof -
      obtain i where "map_of (ic_intent c) r = Some i"
        using at [of r] rs by (auto simp: v follows_at_def split: option.splits)
      then obtain w where w: "latest r vs = Some w" "map_of (ic_requires c) r = Some (dget (mv_requires w) r [])" using given by blast
      then have "w \<in> set vs" by (intro latest_member)
      then have "distinct (dget (mv_requires w) r [])" using vs(2) by (simp add: version_ok_def)
      moreover have "rs = dget (mv_requires w) r []" using w(2) rs v(3) by simp
      ultimately show ?thesis using w(1) by (simp add: planned_requires_def)
    qed
    moreover have "planned_requires m vs r = set (requires_of m r)"
      if "planned m vs r \<noteq> None" "\<not> has_key (mv_resources v) r" for r
    proof -
      have "map_of (ic_intent c) r = None" using that(2) by (simp add: v has_key_def)
      moreover from this have "\<not> is_deleted (ic_changes c) r" using that(1) W [of r] by (auto split: if_splits)
      ultimately have "latest r vs = None" using at [of r] by (simp add: follows_at_def)
      then show ?thesis by (simp add: planned_requires_def)
    qed
    moreover have "(case map_of (mv_resource_sets v) rs of Some x \<Rightarrow> set x
        | None \<Rightarrow> if mv_partial v then set (dget (ms_resource_sets m) rs []) else {})
      = snd (fold apply_version vs (managed m)) rs" for rs
      unfolding c(2) [symmetric] overlay_alt snd_conv v(4,5) by (auto simp: dget_def split: option.split)
    moreover have "map_of (vp_added p0) = (\<lambda>r. case map_of (mv_requires v) r of None \<Rightarrow> None | Some rs \<Rightarrow> only_if (sdiff rs (requires_of m r)))"
      "map_of (vp_dropped p0) = (\<lambda>r. case map_of (mv_requires v) r of None \<Rightarrow> None | Some rs \<Rightarrow> only_if (sdiff (requires_of m r) rs))"
      using r by simp_all
    moreover have "wf_dict (vp_added p0)" using r by simp
    moreover have "wf_dict (mv_resource_sets v)" using fo(1) by (simp add: v follows_def)
    ultimately show ?thesis using p wfc fo(2) unfolding plan_ok_def p v(6) by blast
  qed
  ultimately show ?thesis by blast
qed

end
