(* ===== verification/Version_Takeover.thy ===== *)
theory Version_Takeover
  imports Version_Plan
begin

text \<open>
  How \<open>_new_version\<close> takes over the planned versions: the phases under the scheduler lock, one
  after the other, and what the scheduler manages and schedules afterwards.
\<close>

section \<open>Loosened states\<close>

definition loosened :: "model_state \<Rightarrow> model_state \<Rightarrow> bool" where
  \<comment> \<open>some temporarily blocked resources were unblocked\<close>
  "loosened s s' \<longleftrightarrow> (\<forall>x. state_of s' x = state_of s x \<or> (\<exists>st. state_of s x = Some st
     \<and> rs_blocked st = TEMPORARILY_BLOCKED \<and> state_of s' x = Some (st\<lparr>rs_blocked := NOT_BLOCKED\<rparr>)))"

lemma loosened_refl [simp]: "loosened s s"
  by (simp add: loosened_def)



section \<open>The requires of one resource\<close>




section \<open>Updating the model\<close>


































section \<open>After the propagation\<close>









section \<open>The whole method\<close>









section \<open>What is wanted, before the lock and under it\<close>










section \<open>Properties\<close>


definition sample_record :: "rid \<Rightarrow> string \<Rightarrow> bool \<Rightarrow> rid list \<Rightarrow> resource_record" where
  "sample_record r h u reqs = \<lparr>rr_resource_id = r, rr_is_undefined = u,
     rr_attributes = [(''requires'', PList (map PStr reqs))], rr_attribute_hash = h\<rparr>"

definition full_version :: "int \<Rightarrow> resource_record list \<Rightarrow> model_version" where
  "full_version v rs = (case from_db_records v [(None, rs)] False of Inr m \<Rightarrow> m | Inl _ \<Rightarrow> sample_version v False [])"

definition first_version :: model_version where
  \<comment> \<open>\<open>C\<close> requires \<open>B\<close>\<close>
  "first_version = full_version 1 [sample_record rB ''1'' False [], sample_record rC ''1'' False [rB]]"

lemma first_version:
  "from_db_records 1 [(None, [sample_record rB ''1'' False [], sample_record rC ''1'' False [rB]])] False = Inr first_version"
  "dkeys (mv_resources first_version) = [rB, rC]" "dget (mv_requires first_version) rB [] = []"
  "dget (mv_requires first_version) rC [] = [rB]" "mv_partial first_version = False" "mv_version first_version = 1"
  by code_simp+


text \<open>The state after one call of the method for each list of versions.\<close>

definition process :: "model_version list \<Rightarrow> (scheduler \<times> db_write list) result option \<Rightarrow> (scheduler \<times> db_write list) result option" where
  "process vs x = (case x of Some (Inr (s, _)) \<Rightarrow> new_version None (sc_state s) vs [] [] ''n'' s | y \<Rightarrow> y)"

definition run_versions :: "model_version list list \<Rightarrow> (scheduler \<times> db_write list) result option" where
  "run_versions vss = fold process vss (Some (Inr (sc_init\<lparr>sc_running := True\<rparr>, [])))"

definition outcome :: "(scheduler \<Rightarrow> 'a) \<Rightarrow> (scheduler \<times> db_write list) result option \<Rightarrow> 'a option" where
  "outcome f x = (case x of Some (Inr (s, _)) \<Rightarrow> Some (f s) | _ \<Rightarrow> None)"

text \<open>
  a dirty resource that is not scheduled. In the first version \<open>B\<close> is undefined; in the
  second one it is defined, and a new resource \<open>C\<close> requires it. The propagation first blocks
  \<open>C\<close>, then unblocks it again; because it is among the blocked ones, its deploy is deleted.
  Both resources are dirty afterwards, only \<open>B\<close> is queued, and nothing waits.
\<close>

theorem unblocked_resource_not_scheduled:
  "outcome (\<lambda>s. (ms_dirty (sc_state s), dkeys (sw_waiting (sc_work s)), dkeys (queued (sw_agent_queues (sc_work s))), sc_deploying_latest s))
     (run_versions [[full_version 1 [sample_record rB ''1'' True []]],
                    [full_version 2 [sample_record rB ''2'' False [], sample_record rC ''1'' False [rB]]]])
   = Some ([rB, rC], [], [Deploy rB], [])"
  by code_simp

text \<open>
  Requires that are lost. \<open>C\<close> requires \<open>B\<close>; then a version without them and one that has
  them again, unchanged, are processed together. Both resources are dropped from the model and
  added as new ones, and since the requires are the managed ones, they are not restored.
\<close>

theorem readded_resource_loses_requires:
  "outcome (\<lambda>s. (dkeys (ms_intent (sc_state s)), requires_of (sc_state s) rC))
     (run_versions [[first_version],
                    [full_version 2 [], full_version 3 [sample_record rB ''1'' False [], sample_record rC ''1'' False [rB]]]])
   = Some ([rB, rC], [])"
  by code_simp

end
