(* ===== verification/Python_Values.thy ===== *)
theory Python_Values
  imports Resource_State
begin

text \<open>
  What the language does with the values that the dict paths compare: \<open>str\<close> and \<open>repr\<close>,
  equality, and \<open>float\<close> as far as its result is compared with an integer. A character is a code
  point below 256. Values have no floating point numbers, so a parsed number only matters if
  it is an integer; it is the binary64 number nearest to the decimal one, ties to even.
\<close>

section \<open>Strings\<close>

definition hex_digit :: "nat \<Rightarrow> char" where
  "hex_digit d = (if d < 10 then char_of (48 + d) else char_of (87 + d))"

definition unprintable :: "char \<Rightarrow> bool" where
  "unprintable c = (let n = (of_char c :: nat) in n < 32 \<or> 127 \<le> n \<and> n \<le> 160 \<or> n = 173)"

definition repr_char :: "char \<Rightarrow> char \<Rightarrow> string" where
  \<comment> \<open>within the given quote\<close>
  "repr_char quote c =
     (let n = (of_char c :: nat) in
      if c = quote \<or> n = 92 then [CHR 0x5C, c]
      else if n = 9 then [CHR 0x5C, CHR ''t'']
      else if n = 10 then [CHR 0x5C, CHR ''n'']
      else if n = 13 then [CHR 0x5C, CHR ''r'']
      else if unprintable c then [CHR 0x5C, CHR ''x'', hex_digit (n div 16), hex_digit (n mod 16)]
      else [c])"

definition repr_str :: "string \<Rightarrow> string" where
  "repr_str s =
     (let quote = (if CHR 0x27 \<in> set s \<and> CHR 0x22 \<notin> set s then CHR 0x22 else CHR 0x27)
      in [quote] @ concat (map (repr_char quote) s) @ [quote])"

fun comma_separated :: "string list \<Rightarrow> string" where
  "comma_separated [] = []"
| "comma_separated [x] = x"
| "comma_separated (x # xs) = x @ '', '' @ comma_separated xs"

fun py_repr :: "pyval \<Rightarrow> string" where
  "py_repr PNone = ''None''"
| "py_repr (PBool b) = (if b then ''True'' else ''False'')"
| "py_repr (PInt i) = show_int i"
| "py_repr (PStr s) = repr_str s"
| "py_repr (PList xs) = ''['' @ comma_separated (map py_repr xs) @ '']''"
| "py_repr (PDict d) = ''{'' @ comma_separated (map (\<lambda>(k, v). repr_str k @ '': '' @ py_repr v) d) @ ''}''"

definition py_str :: "pyval \<Rightarrow> string" where
  "py_str v = (case v of PStr s \<Rightarrow> s | _ \<Rightarrow> py_repr v)"

section \<open>Equality\<close>

fun py_num :: "pyval \<Rightarrow> int option" where
  \<comment> \<open>a boolean is an integer\<close>
  "py_num (PInt i) = Some i"
| "py_num (PBool b) = Some (if b then 1 else 0)"
| "py_num _ = None"

fun py_eq :: "pyval \<Rightarrow> pyval \<Rightarrow> bool"
  and py_eq_list :: "pyval list \<Rightarrow> pyval list \<Rightarrow> bool"
  and py_eq_items :: "(string \<times> pyval) list \<Rightarrow> (string \<times> pyval) list \<Rightarrow> bool" where
  "py_eq PNone w = (w = PNone)"
| "py_eq (PBool b) w = (py_num w = Some (if b then 1 else 0))"
| "py_eq (PInt i) w = (py_num w = Some i)"
| "py_eq (PStr s) w = (w = PStr s)"
| "py_eq (PList xs) w = (case w of PList ys \<Rightarrow> py_eq_list xs ys | _ \<Rightarrow> False)"
| "py_eq (PDict d) w = (case w of PDict e \<Rightarrow> length d = length e \<and> py_eq_items d e | _ \<Rightarrow> False)"
| "py_eq_list [] ys = (ys = [])"
| "py_eq_list (x # xs) ys = (case ys of [] \<Rightarrow> False | y # ys' \<Rightarrow> py_eq x y \<and> py_eq_list xs ys')"
| "py_eq_items [] e = True"
| "py_eq_items ((k, v) # d) e = (case map_of e k of None \<Rightarrow> False | Some w \<Rightarrow> py_eq v w \<and> py_eq_items d e)"

fun py_index :: "pyval list \<Rightarrow> pyval \<Rightarrow> nat option" where
  \<comment> \<open>\<open>list.index\<close>\<close>
  "py_index [] v = None"
| "py_index (x # xs) v = (if py_eq x v then Some 0 else map_option Suc (py_index xs v))"

section \<open>Numbers\<close>

definition round_div :: "int \<Rightarrow> int \<Rightarrow> int" where
  \<comment> \<open>the integer nearest to the quotient, ties to even\<close>
  "round_div n d =
     (let q = n div d; r = n mod d
      in if 2 * r < d then q else if d < 2 * r then q + 1 else if even q then q else q + 1)"

function bit_length :: "int \<Rightarrow> nat" where
  "bit_length n = (if n \<le> 0 then 0 else Suc (bit_length (n div 2)))"
  by pat_completeness auto
termination
  by (relation "measure nat") auto

declare bit_length.simps [simp del]

definition double_integer :: "int \<Rightarrow> int \<Rightarrow> int option" where
  \<comment> \<open>the binary64 number nearest to the non-negative quotient, if it is an integer\<close>
  "double_integer n d =
     (if n < d then
        (if n * 2 ^ 1075 \<le> d then Some 0 else if (d - n) * 2 ^ 54 \<le> d then Some 1 else None)
      else
        let b = bit_length (n div d)
        in if b \<le> 53
           then let v = round_div (n * 2 ^ (53 - b)) d
                in if v mod 2 ^ (53 - b) = 0 then Some (v div 2 ^ (53 - b)) else None
           else let v = round_div n (d * 2 ^ (b - 53)) * 2 ^ (b - 53)
                in if 2 ^ 1024 \<le> v then None else Some v)"

definition is_space :: "char \<Rightarrow> bool" where
  "is_space c = (let n = (of_char c :: nat) in 9 \<le> n \<and> n \<le> 13 \<or> 28 \<le> n \<and> n \<le> 32 \<or> n = 133 \<or> n = 160)"

definition strip :: "string \<Rightarrow> string" where
  "strip s = rev (dropWhile is_space (rev (dropWhile is_space s)))"

definition to_lower :: "char \<Rightarrow> char" where
  "to_lower c = (let n = (of_char c :: nat) in if 65 \<le> n \<and> n \<le> 90 then char_of (n + 32) else c)"

fun drop_underscores :: "bool \<Rightarrow> string \<Rightarrow> string option" where
  \<comment> \<open>an underscore has to stand between two digits; the flag: a digit precedes\<close>
  "drop_underscores after_digit [] = Some []"
| "drop_underscores after_digit (c # cs) =
     (if c = CHR ''_''
      then (if after_digit \<and> cs \<noteq> [] \<and> is_digit (hd cs) then drop_underscores False cs else None)
      else map_option (Cons c) (drop_underscores (is_digit c) cs))"

definition scan_sign :: "string \<Rightarrow> bool \<times> string" where
  "scan_sign s = (if s \<noteq> [] \<and> hd s = CHR ''-'' then (True, tl s)
     else if s \<noteq> [] \<and> hd s = CHR ''+'' then (False, tl s) else (False, s))"

definition scan_exponent :: "string \<Rightarrow> int option" where
  "scan_exponent s =
     (if s = [] then Some 0
      else if hd s \<noteq> CHR ''e'' then None
      else let (neg, ds) = scan_sign (tl s)
           in if ds \<noteq> [] \<and> list_all is_digit ds
              then Some (if neg then - int (nat_of_digits ds) else int (nat_of_digits ds)) else None)"

definition scan_decimal :: "string \<Rightarrow> int option option" where
  \<comment> \<open>digits, fraction and exponent\<close>
  "scan_decimal s =
     (let whole = takeWhile is_digit s;
          rest = dropWhile is_digit s;
          (frac, rest') = (if rest \<noteq> [] \<and> hd rest = CHR ''.''
             then (takeWhile is_digit (tl rest), dropWhile is_digit (tl rest)) else ([], rest))
      in if whole = [] \<and> frac = [] then None
         else case scan_exponent rest' of
           None \<Rightarrow> None
         | Some e \<Rightarrow>
             let n = int (nat_of_digits (whole @ frac)); scale = e - int (length frac)
             in Some (if 0 \<le> scale then double_integer (n * 10 ^ nat scale) 1 else double_integer n (10 ^ nat (- scale))))"

definition py_float :: "string \<Rightarrow> int option option" where
  \<comment> \<open>\<open>None\<close>: \<open>float\<close> raises; \<open>Some None\<close>: the number is not an integer\<close>
  "py_float s =
     (case drop_underscores False (map to_lower (strip s)) of
        None \<Rightarrow> None
      | Some t \<Rightarrow>
          let (neg, u) = scan_sign t
          in if u = ''inf'' \<or> u = ''infinity'' \<or> u = ''nan'' then Some None
             else map_option (map_option (\<lambda>n. if neg then - n else n)) (scan_decimal u))"

lemma py_eq_refl_str [simp]: "py_eq (PStr s) (PStr s)"
  by simp

end
