(* ===== verification/Dict_Path.thy ===== *)
theory Dict_Path
  imports Python_Values
begin

text \<open>
  The dict paths of \<open>src/src/inmanta/util/dict_path.py\<close>: their values, their grammar, the parser
  and the printer, and the reading operations. A container is a tree of dictionaries with string
  keys and lists. A section stands for both the wild class and its strict subclass
  (\<open>WildInDict\<close>/\<open>InDict\<close>, \<open>WildKeyedList\<close>/\<open>KeyedList\<close>); the flag \<open>strict\<close> of the constructors
  and of the parser says which one is built. The regular expressions are scanners: no two of
  their alternatives start with the same character, so they never backtrack. A logged
  warning has no effect. The keys of a container are strings, and elements of a path are never composed
  paths themselves, as the parser and \<open>__add__\<close> build them.
\<close>

section \<open>Special characters\<close>

abbreviation backslash :: char where
  "backslash \<equiv> CHR 0x5C"

definition is_special :: "char \<Rightarrow> bool" where
  \<comment> \<open>\<open>SPECIAL_CHARACTERS\<close>\<close>
  "is_special c = (c \<in> set [backslash, CHR ''['', CHR '']'', CHR ''.'', CHR ''*'', CHR ''=''])"

definition escape_str :: "string \<Rightarrow> string" where
  "escape_str s = concat (map (\<lambda>c. if is_special c then [backslash, c] else [c]) s)"

fun unescape_str :: "string \<Rightarrow> string" where
  "unescape_str [] = []"
| "unescape_str [c] = [c]"
| "unescape_str (c # d # ds) =
     (if c = backslash \<and> is_special d then d # unescape_str ds else c # unescape_str (d # ds))"

section \<open>Values\<close>

datatype path_value = NormalValue string | WildCardValue | NullValue

definition create :: "string \<Rightarrow> path_value" where
  "create value =
     (if value = ''*'' then WildCardValue
      else if value = [backslash, CHR ''0''] then NullValue
      else NormalValue (unescape_str value))"

definition from_object :: "pyval \<Rightarrow> path_value" where
  "from_object v = (if v = PNone then NullValue else NormalValue (py_str v))"

fun escape :: "path_value \<Rightarrow> string" where
  "escape (NormalValue s) = escape_str s"
| "escape WildCardValue = ''*''"
| "escape NullValue = [backslash, CHR ''0'']"

definition normal_matches :: "string \<Rightarrow> pyval \<Rightarrow> bool" where
  \<comment> \<open>\<open>NormalValue.matches\<close>: numbers are compared as numbers when the text can be read as one\<close>
  "normal_matches s v =
     (if v = PNone then False
      else case (py_float s, py_num v) of
        (Some x, Some i) \<Rightarrow> x = Some i
      | _ \<Rightarrow> s = py_str v)"

fun matches :: "path_value \<Rightarrow> pyval \<Rightarrow> bool" where
  "matches (NormalValue s) v = normal_matches s v"
| "matches WildCardValue v = True"
| "matches NullValue v = (v = PNone)"

fun raw_value :: "path_value \<Rightarrow> pyval result" where
  \<comment> \<open>the property \<open>value\<close>\<close>
  "raw_value (NormalValue s) = Inr (PStr s)"
| "raw_value WildCardValue = Inl GeneralException"
| "raw_value NullValue = Inr PNone"

section \<open>Sections\<close>

datatype path_section =
    In_Dict path_value
  | Keyed_List string "(path_value \<times> path_value) list"

definition mk_in_dict :: "bool \<Rightarrow> string \<Rightarrow> path_section result" where
  "mk_in_dict strict key =
     (case create key of
        NullValue \<Rightarrow> Inl InvalidPathException
      | WildCardValue \<Rightarrow> if strict then Inl ValueError else Inr (In_Dict WildCardValue)
      | NormalValue s \<Rightarrow> Inr (In_Dict (NormalValue s)))"

definition parse_key :: "bool \<Rightarrow> string \<Rightarrow> path_value result" where
  "parse_key strict key =
     (case create key of
        NullValue \<Rightarrow> Inl InvalidPathException
      | WildCardValue \<Rightarrow> if strict then Inl ValueError else Inr WildCardValue
      | NormalValue s \<Rightarrow> Inr (NormalValue s))"

definition parse_value :: "bool \<Rightarrow> string \<Rightarrow> path_value result" where
  "parse_value strict value =
     (let v = create value in if strict \<and> v = WildCardValue then Inl ValueError else Inr v)"

definition parse_pair :: "bool \<Rightarrow> string \<times> string \<Rightarrow> (path_value \<times> path_value) result" where
  "parse_pair strict = (\<lambda>(k, v).
     rbind (parse_key strict k) (\<lambda>k'. rbind (parse_value strict v) (\<lambda>v'. Inr (k', v'))))"

definition mk_keyed_list :: "bool \<Rightarrow> string \<Rightarrow> (string \<times> string) list \<Rightarrow> path_section result" where
  "mk_keyed_list strict relation pairs =
     (case create relation of
        NormalValue rel \<Rightarrow>
          if pairs = [] then Inl ValueError
          else if \<not> distinct (map fst pairs) then Inl ValueError
          else rbind (rmap (parse_pair strict) pairs) (\<lambda>kvs. Inr (Keyed_List rel kvs))
      | _ \<Rightarrow> Inl InvalidPathException)"

definition pair_str :: "path_value \<times> path_value \<Rightarrow> string" where
  "pair_str = (\<lambda>(k, v). escape k @ ''='' @ escape v)"

fun join :: "string \<Rightarrow> string list \<Rightarrow> string" where
  \<comment> \<open>\<open>sep.join(xs)\<close>\<close>
  "join sep [] = []"
| "join sep [x] = x"
| "join sep (x # y # xs) = x @ sep @ join sep (y # xs)"

fun section_str :: "path_section \<Rightarrow> string" where
  \<comment> \<open>\<open>to_str\<close>\<close>
  "section_str (In_Dict key) = escape key"
| "section_str (Keyed_List relation pairs) =
     escape_str relation @ ''['' @ join ''][''  (map pair_str pairs) @ '']''"

section \<open>Parsing a section\<close>

fun scan_chars :: "bool \<Rightarrow> string \<Rightarrow> string \<times> string" where
  \<comment> \<open>the longest prefix of normal and escaped characters, and dots where they are allowed\<close>
  "scan_chars dots [] = ([], [])"
| "scan_chars dots [c] = (if is_special c \<and> \<not> (dots \<and> c = CHR ''.'') then ([], [c]) else ([c], []))"
| "scan_chars dots (c # d # ds) =
     (if c = backslash
      then (if is_special d then (let (t, r) = scan_chars dots ds in (c # d # t, r)) else ([], c # d # ds))
      else if is_special c \<and> \<not> (dots \<and> c = CHR ''.'') then ([], c # d # ds)
      else (let (t, r) = scan_chars dots (d # ds) in (c # t, r)))"

definition scan_key :: "string \<Rightarrow> (string \<times> string) option" where
  \<comment> \<open>\<open>REGEX_KEY_ATTRIBUTE\<close>\<close>
  "scan_key s =
     (if s \<noteq> [] \<and> hd s = CHR ''*'' then Some (''*'', tl s)
      else let (t, r) = scan_chars False s in if t = [] then None else Some (t, r))"

definition scan_value :: "string \<Rightarrow> string \<times> string" where
  \<comment> \<open>\<open>REGEX_KEY_VALUE\<close>\<close>
  "scan_value s =
     (if s \<noteq> [] \<and> hd s = CHR ''*'' then (''*'', tl s)
      else if take 2 s = [backslash, CHR ''0''] then (take 2 s, drop 2 s)
      else scan_chars True s)"

definition expect :: "char \<Rightarrow> string \<Rightarrow> string option" where
  "expect c s = (if s \<noteq> [] \<and> hd s = c then Some (tl s) else None)"

definition scan_pair :: "string \<Rightarrow> ((string \<times> string) \<times> string) option" where
  \<comment> \<open>\<open>KEY_VALUE_PAIR\<close>\<close>
  "scan_pair s =
     (case expect (CHR ''['') s of None \<Rightarrow> None | Some s1 \<Rightarrow>
      case scan_key s1 of None \<Rightarrow> None | Some (k, s2) \<Rightarrow>
      case expect (CHR ''='') s2 of None \<Rightarrow> None | Some s3 \<Rightarrow>
      let (v, s4) = scan_value s3 in
      case expect (CHR '']'') s4 of None \<Rightarrow> None | Some s5 \<Rightarrow> Some ((k, v), s5))"

lemma expect_length: "expect c s = Some t \<Longrightarrow> length t < length s"
  by (auto simp: expect_def split: if_splits)

lemma scan_chars_length: "length (snd (scan_chars d s)) \<le> length s"
  by (induction d s rule: scan_chars.induct) (auto simp: Let_def split: prod.splits)

lemma scan_key_length: "scan_key s = Some (t, r) \<Longrightarrow> length r \<le> length s"
  using scan_chars_length[of False s]
  by (auto simp: scan_key_def Let_def split: if_splits prod.splits)

lemma scan_value_length: "length (snd (scan_value s)) \<le> length s"
  using scan_chars_length[of True s] by (auto simp: scan_value_def)

lemma scan_pair_length: "scan_pair s = Some (p, r) \<Longrightarrow> length r < length s"
  unfolding scan_pair_def Let_def
  by (auto split: option.splits prod.splits dest!: expect_length scan_key_length)
    (metis scan_value_length snd_conv dual_order.strict_trans dual_order.strict_trans2)

function scan_pairs :: "string \<Rightarrow> (string \<times> string) list option" where
  \<comment> \<open>\<open>KEY_VALUE_PAIRS_PATTERN.finditer\<close> on text that \<open>KEYED_LIST_PATTERN\<close> accepts\<close>
  "scan_pairs s =
     (if s = [] then Some []
      else case scan_pair s of
        None \<Rightarrow> None
      | Some (p, r) \<Rightarrow> map_option (Cons p) (scan_pairs r))"
  by pat_completeness auto
termination
  by (relation "measure length") (auto dest: scan_pair_length)

declare scan_pairs.simps [simp del]

definition parse_in_dict :: "bool \<Rightarrow> string \<Rightarrow> path_section option result" where
  \<comment> \<open>\<open>WildInDict.parse\<close>\<close>
  "parse_in_dict strict inp =
     (if inp = ''*'' \<or> inp \<noteq> [] \<and> snd (scan_chars False inp) = []
      then rbind (mk_in_dict strict inp) (\<lambda>s. Inr (Some s)) else Inr None)"

definition parse_keyed_list :: "bool \<Rightarrow> string \<Rightarrow> path_section option result" where
  \<comment> \<open>\<open>WildKeyedList.parse\<close>\<close>
  "parse_keyed_list strict inp =
     (let (rel, rest) = scan_chars False inp
      in if rel = [] \<or> rest = [] then Inr None
         else case scan_pairs rest of
           None \<Rightarrow> Inr None
         | Some pairs \<Rightarrow> rbind (mk_keyed_list strict rel pairs) (\<lambda>s. Inr (Some s)))"

section \<open>Composed paths\<close>

record composed_path =
  path_text :: string
  expanded_path :: "path_section list"

definition un_parse :: "path_section list \<Rightarrow> string" where
  "un_parse ss = join ''.'' (map section_str ss)"

fun scan_selector :: "string \<Rightarrow> (string \<times> string) option" where
  \<comment> \<open>the rest of \<open>KEYED_LIST_FILTER\<close> after its opening bracket; the dot of the pattern is no newline\<close>
  "scan_selector [] = None"
| "scan_selector [c] = (if c = CHR '']'' then Some ([c], []) else None)"
| "scan_selector (c # d # ds) =
     (if c = CHR '']'' then Some ([c], d # ds)
      else if c = backslash
      then (if d = CHR 0x0A then None else map_option (\<lambda>(t, r). (c # d # t, r)) (scan_selector ds))
      else map_option (\<lambda>(t, r). (c # t, r)) (scan_selector (d # ds)))"

lemma scan_selector_length: "scan_selector s = Some (t, r) \<Longrightarrow> length r < length s"
  by (induction s arbitrary: t r rule: scan_selector.induct) (fastforce split: if_splits)+

definition flush :: "string \<Rightarrow> string list \<Rightarrow> string list" where
  "flush cur segments = (if cur = [] then segments else cur # segments)"

function find_segments :: "string \<Rightarrow> string \<Rightarrow> string list" where
  \<comment> \<open>\<open>COMPOSED_DICT_PATH_PATTERN.findall\<close>; the first argument is the match under construction\<close>
  "find_segments cur s =
     (if s = [] then flush cur []
      else if hd s = CHR ''.'' then flush cur (find_segments [] (tl s))
      else if hd s = CHR ''['' then
        (case scan_selector (tl s) of
           None \<Rightarrow> flush cur (find_segments [] (tl s))
         | Some (t, r) \<Rightarrow> find_segments (cur @ CHR ''['' # t) r)
      else if hd s = backslash then
        (if tl s = [] \<or> hd (tl s) = CHR 0x0A then flush cur (find_segments [] (tl s))
         else find_segments (cur @ [backslash, hd (tl s)]) (tl (tl s)))
      else find_segments (cur @ [hd s]) (tl s))"
  by pat_completeness auto
termination
  by (relation "measure (\<lambda>(cur, s). length s)")
    (auto simp: neq_Nil_conv dest!: scan_selector_length)

declare find_segments.simps [simp del]

definition split_on_dots :: "string \<Rightarrow> string list result" where
  "split_on_dots s =
     (let segments = find_segments [] s
      in if segments = [] then Inl InvalidPathException else Inr segments)"

definition parse_element :: "bool \<Rightarrow> string \<Rightarrow> path_section result" where
  "parse_element strict inp =
     rbind (parse_in_dict strict inp) (\<lambda>p. case p of Some s \<Rightarrow> Inr s | None \<Rightarrow>
     rbind (parse_keyed_list strict inp) (\<lambda>p. case p of Some s \<Rightarrow> Inr s | None \<Rightarrow>
     Inl InvalidPathException))"

definition do_parse :: "bool \<Rightarrow> string \<Rightarrow> path_section list result" where
  "do_parse strict s = rbind (split_on_dots s) (rmap (parse_element strict))"

definition composed_of_text :: "bool \<Rightarrow> string \<Rightarrow> composed_path result" where
  \<comment> \<open>\<open>WildComposedPath(path_str=s)\<close>\<close>
  "composed_of_text strict s =
     rbind (do_parse strict s) (\<lambda>ss. Inr \<lparr>path_text = s, expanded_path = ss\<rparr>)"

definition composed_of_sections :: "path_section list \<Rightarrow> composed_path" where
  \<comment> \<open>\<open>WildComposedPath(path=ss)\<close>\<close>
  "composed_of_sections ss = \<lparr>path_text = un_parse ss, expanded_path = ss\<rparr>"

definition parse_composed :: "bool \<Rightarrow> string \<Rightarrow> composed_path option result" where
  \<comment> \<open>\<open>WildComposedPath.parse\<close>\<close>
  "parse_composed strict inp =
     (case do_parse strict inp of
        Inr ss \<Rightarrow> Inr (Some (composed_of_sections ss))
      | Inl InvalidPathException \<Rightarrow> Inr None
      | Inl e \<Rightarrow> Inl e)"

datatype dict_path = Null_Path | Section_Path path_section | Composed_Path composed_path

definition path_sections :: "dict_path \<Rightarrow> path_section list" where
  \<comment> \<open>\<open>get_path_sections\<close>\<close>
  "path_sections p =
     (case p of Null_Path \<Rightarrow> [] | Section_Path s \<Rightarrow> [s] | Composed_Path cp \<Rightarrow> expanded_path cp)"

definition path_str :: "dict_path \<Rightarrow> string" where
  \<comment> \<open>\<open>to_str\<close>\<close>
  "path_str p =
     (case p of Null_Path \<Rightarrow> ''.'' | Section_Path s \<Rightarrow> section_str s | Composed_Path cp \<Rightarrow> path_text cp)"

definition path_add :: "dict_path \<Rightarrow> dict_path \<Rightarrow> dict_path" where
  \<comment> \<open>\<open>__add__\<close>\<close>
  "path_add p q = Composed_Path (composed_of_sections (path_sections p @ path_sections q))"

definition to_path :: "bool \<Rightarrow> string \<Rightarrow> dict_path result" where
  \<comment> \<open>\<open>to_path\<close>, or \<open>to_wild_path\<close> when not strict\<close>
  "to_path strict inp =
     (if inp = ''.'' then Inr Null_Path
      else
        let s = (if inp \<noteq> [] \<and> hd inp = CHR ''.'' then tl inp else inp)
        in case composed_of_text strict s of
             Inl ValueError \<Rightarrow> Inl InvalidPathException
           | Inl e \<Rightarrow> Inl e
           | Inr cp \<Rightarrow> Inr (Composed_Path cp))"

definition get_key :: "dict_path \<Rightarrow> string result" where
  "get_key p =
     (case p of
        Section_Path (In_Dict (NormalValue s)) \<Rightarrow> Inr s
      | Section_Path (In_Dict WildCardValue) \<Rightarrow> Inl GeneralException
      | Section_Path (Keyed_List rel pairs) \<Rightarrow> Inr rel
      | _ \<Rightarrow> Inl NotImplementedError)"

section \<open>Reading a container with a wild path\<close>

definition is_lookup_error :: "py_error \<Rightarrow> bool" where
  \<comment> \<open>the subclasses of \<open>LookupError\<close>\<close>
  "is_lookup_error e = (e \<in> set [KeyError, IndexError, ContainerStructureException])"

fun as_dict :: "pyval \<Rightarrow> (string, pyval) dict result" where
  \<comment> \<open>\<open>_validate_outer_container\<close> and the checks for a \<open>Mapping\<close>\<close>
  "as_dict (PDict d) = Inr d"
| "as_dict _ = Inl ContainerStructureException"

fun as_list :: "pyval \<Rightarrow> pyval list result" where
  \<comment> \<open>\<open>_validate_inner_container\<close>\<close>
  "as_list (PList xs) = Inr xs"
| "as_list _ = Inl ContainerStructureException"

definition pair_matches :: "path_value \<times> path_value \<Rightarrow> string \<times> pyval \<Rightarrow> bool" where
  "pair_matches = (\<lambda>(key, val) (k, v). matches key (PStr k) \<and> matches val v)"

definition selected :: "(path_value \<times> path_value) list \<Rightarrow> pyval \<Rightarrow> bool" where
  "selected pairs x =
     (case x of
        PDict e \<Rightarrow> list_all (\<lambda>p. list_ex (pair_matches p) e) pairs
      | _ \<Rightarrow> False)"

fun section_elements :: "path_section \<Rightarrow> pyval \<Rightarrow> pyval list result" where
  \<comment> \<open>\<open>WildInDict.get_elements\<close> and \<open>WildKeyedList.get_elements\<close>\<close>
  "section_elements (In_Dict key) c =
     rbind (as_dict c) (\<lambda>d. Inr (map snd (filter (\<lambda>(k, v). matches key (PStr k)) d)))"
| "section_elements (Keyed_List rel pairs) c =
     rbind (as_dict c) (\<lambda>outer.
       case map_of outer rel of
         None \<Rightarrow> Inr []
       | Some inner \<Rightarrow> rbind (as_list inner) (\<lambda>xs. Inr (filter (selected pairs) xs)))"

fun elements_along :: "(path_section \<Rightarrow> pyval \<Rightarrow> pyval list result) \<Rightarrow> path_section list \<Rightarrow> pyval list \<Rightarrow> pyval list result" where
  \<comment> \<open>the loop of \<open>WildComposedPath.get_elements\<close>, over the \<open>get_elements\<close> of its items\<close>
  "elements_along get [] cs = Inr cs"
| "elements_along get (s # ss) cs =
     rbind (rmap (get s) cs) (\<lambda>nexts. elements_along get ss (concat nexts))"

definition composed_elements :: "(path_section \<Rightarrow> pyval \<Rightarrow> pyval list result) \<Rightarrow> path_section list \<Rightarrow> pyval \<Rightarrow> pyval list result" where
  "composed_elements get ss c = (if c = PNone then Inl IndexError else elements_along get ss [c])"

definition null_elements :: "pyval \<Rightarrow> pyval list result" where
  \<comment> \<open>\<open>WildNullPath.get_elements\<close>\<close>
  "null_elements c = rbind (as_dict c) (\<lambda>_. Inr [c])"

definition wild_get_elements :: "dict_path \<Rightarrow> pyval \<Rightarrow> pyval list result" where
  \<comment> \<open>\<open>WildDictPath.get_elements\<close>\<close>
  "wild_get_elements p c =
     (case p of
        Null_Path \<Rightarrow> null_elements c
      | Section_Path s \<Rightarrow> section_elements s c
      | Composed_Path cp \<Rightarrow> composed_elements section_elements (expanded_path cp) c)"

section \<open>Resolving wild cards\<close>

fun resolve_section :: "path_section \<Rightarrow> pyval \<Rightarrow> path_section list result" where
  "resolve_section (In_Dict key) c =
     rbind (as_dict c) (\<lambda>d.
       rmap (\<lambda>(k, v). mk_in_dict False k) (filter (\<lambda>(k, v). matches key (PStr k)) d))"
| "resolve_section (Keyed_List rel pairs) c =
     (if list_ex (\<lambda>(k, v). k = WildCardValue) pairs then Inl NotImplementedError
      else rbind (as_dict c) (\<lambda>outer.
        case map_of outer rel of
          None \<Rightarrow> Inr []
        | Some inner \<Rightarrow>
            rbind (as_list inner) (\<lambda>xs.
            rbind (rmap (\<lambda>x. case x of
                PDict e \<Rightarrow>
                  rmap (mk_keyed_list False rel)
                    (product_lists (map (\<lambda>p. map (\<lambda>(k, v). (k, py_str v)) (filter (pair_matches p) e)) pairs))
              | _ \<Rightarrow> Inr []) xs) (\<lambda>matching. Inr (concat matching)))))"

fun resolve_sections :: "path_section list \<Rightarrow> pyval \<Rightarrow> path_section list list result" where
  \<comment> \<open>\<open>WildComposedPath.resolve_wild_cards\<close>, the sections of each returned path\<close>
  "resolve_sections [] c = (if c = PNone then Inl IndexError else Inr [])"
| "resolve_sections [s] c =
     (if c = PNone then Inl IndexError
      else rbind (resolve_section s c) (\<lambda>ps. Inr (map (\<lambda>p. [p]) ps)))"
| "resolve_sections (s # t # ss) c =
     (if c = PNone then Inl IndexError
      else rbind (resolve_section s c) (\<lambda>ps.
           rbind (rmap (\<lambda>p. rbind (section_elements p c) (\<lambda>es.
                  rbind (rmap (resolve_sections (t # ss)) es) (\<lambda>rests.
                  Inr (map (Cons p) (concat rests))))) ps) (\<lambda>pss.
           Inr (concat pss))))"

definition resolve_wild_cards :: "dict_path \<Rightarrow> pyval \<Rightarrow> dict_path list result" where
  "resolve_wild_cards p c =
     (case p of
        Null_Path \<Rightarrow> rbind (as_dict c) (\<lambda>_. Inr [Null_Path])
      | Section_Path s \<Rightarrow> rbind (resolve_section s c) (\<lambda>ps. Inr (map Section_Path ps))
      | Composed_Path cp \<Rightarrow>
          rbind (resolve_sections (expanded_path cp) c) (\<lambda>pss.
          Inr (map (\<lambda>ss. Composed_Path (composed_of_sections ss)) pss)))"

end
