(* ===== verification/Path_Grammar.thy ===== *)
theory Path_Grammar
  imports Dict_Path
begin

text \<open>
  The grammar of dict paths: escaping is undone by unescaping, every parsed path is well
  formed, and parsing the text of a well-formed path gives that path back.
\<close>

section \<open>Well-formed sections\<close>

fun strict_value :: "path_value \<Rightarrow> bool" where
  "strict_value WildCardValue = False"
| "strict_value _ = True"

lemma strict_value_iff: "strict_value v \<longleftrightarrow> v \<noteq> WildCardValue"
  by (cases v) auto

definition key_ok :: "bool \<Rightarrow> path_value \<Rightarrow> bool" where
  "key_ok strict k =
     (case k of NormalValue s \<Rightarrow> s \<noteq> [] | WildCardValue \<Rightarrow> \<not> strict | NullValue \<Rightarrow> False)"

fun section_ok :: "bool \<Rightarrow> path_section \<Rightarrow> bool" where
  "section_ok strict (In_Dict k) = key_ok strict k"
| "section_ok strict (Keyed_List rel pairs) =
     (rel \<noteq> [] \<and> pairs \<noteq> [] \<and> distinct (map fst pairs)
      \<and> list_all (\<lambda>(k, v). key_ok strict k \<and> (strict \<longrightarrow> strict_value v)) pairs)"

definition sections_ok :: "bool \<Rightarrow> path_section list \<Rightarrow> bool" where
  "sections_ok strict ss = (ss \<noteq> [] \<and> list_all (section_ok strict) ss)"

section \<open>Escaping\<close>

lemma is_special_backslash [simp]: "is_special backslash"
  by (simp add: is_special_def)

lemma escape_str_Nil [simp]: "escape_str [] = []"
  by (simp add: escape_str_def)

lemma escape_str_Cons [simp]:
  "escape_str (c # s) = (if is_special c then backslash # c # escape_str s else c # escape_str s)"
  by (simp add: escape_str_def)

lemma escape_str_eq_Nil [simp]: "escape_str s = [] \<longleftrightarrow> s = []"
  by (cases s) auto

lemma unescape_Cons [simp]: "c \<noteq> backslash \<Longrightarrow> unescape_str (c # s) = c # unescape_str s"
  by (cases s) auto

lemma unescape_escape [simp]: "unescape_str (escape_str s) = s"
proof (induction s)
  case (Cons c s)
  then show ?case by (cases "c = backslash") auto
qed simp

lemma escape_str_not_star: "escape_str s \<noteq> ''*''"
  by (cases s) (auto simp: is_special_def)

lemma escape_str_not_null: "escape_str s \<noteq> [backslash, CHR ''0'']"
  by (cases s) (auto simp: is_special_def)

lemma create_escape_str [simp]: "create (escape_str s) = NormalValue s"
  by (simp add: create_def escape_str_not_star escape_str_not_null)

lemma create_escape_value: "create (escape v) = v"
  by (cases v) (simp_all add: create_def escape_str_not_star escape_str_not_null)

lemma escape_inject [simp]: "escape v = escape w \<longleftrightarrow> v = w"
  by (metis create_escape_value)

lemma distinct_escape [simp]: "distinct (map (\<lambda>p. escape (fst p)) pairs) \<longleftrightarrow> distinct (map fst pairs)"
proof -
  have "map (\<lambda>p. escape (fst p)) pairs = map escape (map fst pairs)" by simp
  then show ?thesis by (metis distinct_map inj_on_def escape_inject)
qed

section \<open>Scanning what was printed\<close>

definition stops :: "bool \<Rightarrow> string \<Rightarrow> bool" where
  \<comment> \<open>text at which \<open>scan_chars\<close> stops\<close>
  "stops dots s = (s = [] \<or> hd s \<in> set [CHR ''['', CHR '']'', CHR ''='', CHR ''*''] \<or> \<not> dots \<and> hd s = CHR ''.'')"

lemma stops_simps [simp]: "stops dots []" "stops dots (CHR ''['' # s)" "stops dots (CHR '']'' # s)"
  "stops dots (CHR ''='' # s)" "stops False (CHR ''.'' # s)"
  by (simp_all add: stops_def)

lemma scan_chars_stop: "stops dots s \<Longrightarrow> scan_chars dots s = ([], s)"
  by (cases s rule: remdups_adj.cases) (auto simp: stops_def is_special_def)

lemma scan_chars_escaped [simp]:
  "is_special c \<Longrightarrow> scan_chars dots (backslash # c # s) = (let (t, r) = scan_chars dots s in (backslash # c # t, r))"
  by simp

lemma scan_chars_normal [simp]:
  "\<not> is_special c \<Longrightarrow> scan_chars dots (c # s) = (let (t, r) = scan_chars dots s in (c # t, r))"
  by (cases s) auto

lemma scan_chars_escape: "stops dots r \<Longrightarrow> scan_chars dots (escape_str s @ r) = (escape_str s, r)"
proof (induction s)
  case Nil
  then show ?case by (simp add: scan_chars_stop)
next
  case (Cons c s)
  then show ?case by (cases "is_special c") simp_all
qed

lemma escape_hd: "s \<noteq> [] \<Longrightarrow> hd (escape_str s @ r) \<notin> set [CHR ''*'', CHR ''['', CHR '']'', CHR ''='', CHR ''.'']"
  by (cases s) (auto simp: is_special_def)

lemma escape_take2: "take 2 (escape_str s @ CHR '']'' # r) \<noteq> [backslash, CHR ''0'']"
  by (cases s) (auto simp: is_special_def)

lemma scan_key_escape: "key_ok strict k \<Longrightarrow> scan_key (escape k @ CHR ''='' # r) = Some (escape k, CHR ''='' # r)"
  using escape_hd[of "case k of NormalValue s \<Rightarrow> s | _ \<Rightarrow> []" "CHR ''='' # r"]
  by (cases k) (auto simp: key_ok_def scan_key_def scan_chars_escape)

lemma scan_value_escape: "scan_value (escape v @ CHR '']'' # r) = (escape v, CHR '']'' # r)"
proof (cases v)
  case (NormalValue s)
  then show ?thesis
    using escape_hd[of s "CHR '']'' # r"] escape_take2[of s r]
    by (cases "s = []") (auto simp: scan_value_def scan_chars_escape scan_chars_stop)
qed (simp_all add: scan_value_def)

lemma expect_Cons [simp]: "expect c (c # s) = Some s"
  by (simp add: expect_def)

definition bracketed :: "path_value \<times> path_value \<Rightarrow> string" where
  "bracketed p = CHR ''['' # pair_str p @ '']''"

lemma scan_pair_bracketed:
  "key_ok strict (fst p) \<Longrightarrow> scan_pair (bracketed p @ r) = Some ((escape (fst p), escape (snd p)), r)"
  by (simp add: scan_pair_def bracketed_def pair_str_def split_beta scan_key_escape scan_value_escape)

lemma scan_pairs_bracketed:
  "list_all (\<lambda>p. key_ok strict (fst p)) pairs
   \<Longrightarrow> scan_pairs (concat (map bracketed pairs)) = Some (map (\<lambda>p. (escape (fst p), escape (snd p))) pairs)"
proof (induction pairs)
  case Nil
  then show ?case by (simp add: scan_pairs.simps[of "[]"])
next
  case (Cons p pairs)
  have "bracketed p @ concat (map bracketed pairs) \<noteq> []" by (simp add: bracketed_def)
  with Cons show ?case by (subst scan_pairs.simps) (simp add: scan_pair_bracketed[of strict])
qed

lemma join_brackets: "pairs \<noteq> [] \<Longrightarrow> CHR ''['' # join ''][''  (map pair_str pairs) @ '']'' = concat (map bracketed pairs)"
proof (induction pairs rule: induct_list012)
  case (3 x y zs)
  then show ?case by (simp add: bracketed_def)
qed (simp_all add: bracketed_def)

lemma section_str_keyed_list:
  "pairs \<noteq> [] \<Longrightarrow> section_str (Keyed_List rel pairs) = escape_str rel @ concat (map bracketed pairs)"
  using join_brackets[of pairs] by simp

section \<open>Parsing what was printed\<close>

lemma parse_key_escape: "key_ok strict k \<Longrightarrow> parse_key strict (escape k) = Inr k"
  by (cases k) (simp_all add: parse_key_def key_ok_def create_escape_value del: escape.simps)

lemma parse_value_escape: "(strict \<longrightarrow> strict_value v) \<Longrightarrow> parse_value strict (escape v) = Inr v"
  by (cases v) (simp_all add: parse_value_def create_escape_value del: escape.simps)

lemma mk_keyed_list_escape:
  assumes "section_ok strict (Keyed_List rel pairs)"
  shows "mk_keyed_list strict (escape_str rel) (map (\<lambda>p. (escape (fst p), escape (snd p))) pairs)
         = Inr (Keyed_List rel pairs)"
proof -
  have "rmap (parse_pair strict) (map (\<lambda>p. (escape (fst p), escape (snd p))) pairs) = Inr (map (\<lambda>p. p) pairs)"
    unfolding rmap_map using assms
    by (intro rmap_Inr) (auto simp: parse_pair_def list_all_iff parse_key_escape parse_value_escape)
  with assms show ?thesis by (simp add: mk_keyed_list_def comp_def)
qed

lemma parse_element_section_str:
  assumes "section_ok strict s"
  shows "parse_element strict (section_str s) = Inr s"
proof (cases s)
  case (In_Dict k)
  then show ?thesis using assms scan_chars_escape[of False "[]"]
    by (cases k)
      (auto simp: key_ok_def parse_element_def parse_in_dict_def mk_in_dict_def create_def
        escape_str_not_star escape_str_not_null)
next
  case (Keyed_List rel pairs)
  let ?tail = "concat (map bracketed pairs)"
  have ok: "rel \<noteq> []" "pairs \<noteq> []" "list_all (\<lambda>p. key_ok strict (fst p)) pairs"
    using assms Keyed_List by (auto simp: list_all_iff)
  then have printed: "section_str s = escape_str rel @ ?tail"
    using Keyed_List section_str_keyed_list by simp
  from ok(2) obtain r where tail: "?tail = CHR ''['' # r"
    by (cases pairs) (auto simp: bracketed_def)
  then have tail_ne: "?tail \<noteq> []" by simp
  from tail have scan: "scan_chars False (section_str s) = (escape_str rel, ?tail)"
    by (simp only: printed scan_chars_escape stops_simps)
  have "section_str s \<noteq> ''*''"
    using escape_hd[OF ok(1), of ?tail] unfolding printed by (auto simp: tail)
  then have "parse_in_dict strict (section_str s) = Inr None"
    by (simp add: parse_in_dict_def scan tail)
  moreover have "parse_keyed_list strict (section_str s) = Inr (Some s)"
    using assms ok mk_keyed_list_escape[of strict rel pairs] Keyed_List
    unfolding parse_keyed_list_def scan Let_def
    by (simp add: scan_pairs_bracketed[OF ok(3)] tail_ne del: concat_eq_Nil_conv)
  ultimately show ?thesis by (simp add: parse_element_def)
qed

section \<open>Splitting what was printed\<close>

lemma find_segments_Nil [simp]: "find_segments cur [] = flush cur []"
  by (subst find_segments.simps) simp

lemma find_segments_dot: "find_segments cur (CHR ''.'' # s) = flush cur (find_segments [] s)"
  by (subst find_segments.simps) simp

lemma find_segments_normal:
  "c \<notin> set [CHR ''.'', CHR ''['', backslash] \<Longrightarrow> find_segments cur (c # s) = find_segments (cur @ [c]) s"
  by (subst find_segments.simps) simp

lemma find_segments_escaped:
  "c \<noteq> CHR 0x0A \<Longrightarrow> find_segments cur (backslash # c # s) = find_segments (cur @ [backslash, c]) s"
  by (subst find_segments.simps) simp

lemma find_segments_selector:
  "scan_selector s = Some (t, r) \<Longrightarrow> find_segments cur (CHR ''['' # s) = find_segments (cur @ CHR ''['' # t) r"
  by (subst find_segments.simps) simp

lemma find_segments_escape: "find_segments cur (escape_str s @ r) = find_segments (cur @ escape_str s) r"
proof (induction s arbitrary: cur)
  case (Cons c s)
  then show ?case
    by (cases "is_special c")
      (auto simp: find_segments_escaped find_segments_normal is_special_def)
qed simp

definition extend_scan :: "string \<Rightarrow> (string \<times> string) option \<Rightarrow> (string \<times> string) option" where
  "extend_scan s = map_option (\<lambda>(t, r). (s @ t, r))"

lemma extend_scan_simps [simp]: "extend_scan s (Some (t, r)) = Some (s @ t, r)" "extend_scan s None = None"
  "extend_scan s (extend_scan t m) = extend_scan (s @ t) m"
  by (auto simp: extend_scan_def map_option_case split: option.splits)

declare scan_selector.simps(3) [simp del]

lemma scan_selector_normal:
  "c \<notin> set [CHR '']'', backslash] \<Longrightarrow> scan_selector (c # s) = extend_scan [c] (scan_selector s)"
  by (cases s) (auto simp: extend_scan_def scan_selector.simps(3))

lemma scan_selector_escaped:
  "c \<noteq> CHR 0x0A \<Longrightarrow> scan_selector (backslash # c # s) = extend_scan [backslash, c] (scan_selector s)"
  by (auto simp: extend_scan_def scan_selector.simps(3))

lemma scan_selector_close [simp]: "scan_selector (CHR '']'' # s) = Some ('']'', s)"
  by (cases s) (auto simp: scan_selector.simps(3))

lemma scan_selector_escape_str:
  "scan_selector (escape_str s @ r) = extend_scan (escape_str s) (scan_selector r)"
proof (induction s)
  case Nil
  then show ?case by (simp add: extend_scan_def map_option_case split: option.splits)
next
  case (Cons c s)
  then show ?case
    by (cases "is_special c")
      (auto simp: scan_selector_escaped scan_selector_normal is_special_def)
qed

lemma scan_selector_escape: "scan_selector (escape v @ r) = extend_scan (escape v) (scan_selector r)"
  by (cases v) (simp_all add: scan_selector_escape_str scan_selector_normal scan_selector_escaped)

lemma scan_selector_pair: "scan_selector (pair_str p @ '']'' @ r) = Some (pair_str p @ '']'', r)"
  by (simp add: pair_str_def split_beta scan_selector_escape scan_selector_normal)

lemma find_segments_bracketed:
  "find_segments cur (concat (map bracketed pairs) @ r) = find_segments (cur @ concat (map bracketed pairs)) r"
proof (induction pairs arbitrary: cur)
  case (Cons p pairs)
  have "find_segments cur (bracketed p @ s) = find_segments (cur @ bracketed p) s" for s
    using find_segments_selector[OF scan_selector_pair[of p s]] by (simp add: bracketed_def)
  with Cons show ?case by simp
qed simp

lemma find_segments_section:
  assumes "section_ok strict s"
  shows "find_segments cur (section_str s @ r) = find_segments (cur @ section_str s) r"
proof (cases s)
  case (In_Dict k)
  then show ?thesis using assms
    by (cases k) (simp_all add: key_ok_def find_segments_escape find_segments_normal)
next
  case (Keyed_List rel pairs)
  with assms have "section_str s = escape_str rel @ concat (map bracketed pairs)"
    by (simp add: section_str_keyed_list del: section_str.simps)
  then show ?thesis by (simp add: find_segments_escape find_segments_bracketed)
qed

lemma section_str_nonempty: "section_ok strict s \<Longrightarrow> section_str s \<noteq> []"
  by (cases s) (auto simp: key_ok_def split: path_value.splits)

lemma find_segments_un_parse:
  "list_all (section_ok strict) ss \<Longrightarrow> find_segments [] (un_parse ss) = map section_str ss"
proof (induction ss rule: induct_list012)
  case (2 s)
  then show ?case
    using find_segments_section[of strict s "[]" "[]"] section_str_nonempty[of strict s]
    by (simp add: un_parse_def flush_def)
next
  case (3 s t ss)
  then have "find_segments [] (un_parse (t # ss)) = map section_str (t # ss)" by simp
  moreover have "un_parse (s # t # ss) = section_str s @ CHR ''.'' # un_parse (t # ss)"
    by (simp add: un_parse_def)
  ultimately show ?case
    using 3 find_segments_section[of strict s "[]"] section_str_nonempty[of strict s]
    by (simp add: find_segments_dot flush_def)
qed (simp add: un_parse_def flush_def)

theorem do_parse_un_parse:
  assumes "sections_ok strict ss"
  shows "do_parse strict (un_parse ss) = Inr ss"
proof -
  have "rmap (parse_element strict) (map section_str ss) = Inr (map (\<lambda>s. s) ss)"
    unfolding rmap_map using assms
    by (intro rmap_Inr) (auto simp: sections_ok_def list_all_iff parse_element_section_str)
  then show ?thesis using assms find_segments_un_parse[of strict ss]
    by (simp add: sections_ok_def do_parse_def split_on_dots_def)
qed

section \<open>Parsed paths are well formed\<close>

lemma scan_chars_escaped_text:
  "scan_chars False s = (t, r) \<Longrightarrow> escape_str (unescape_str t) = t"
proof (induction False s arbitrary: t r rule: scan_chars.induct)
  case (3 c d ds)
  then show ?case by (auto simp: Let_def split: if_splits prod.splits)
qed (auto simp: is_special_def split: if_splits)

lemma scan_key_ok:
  assumes "scan_key s = Some (t, r)"
  shows "escape (create t) = t" and "key_ok False (create t)"
proof -
  have "t = ''*'' \<or> t \<noteq> [] \<and> escape_str (unescape_str t) = t"
    using assms scan_chars_escaped_text
    by (auto simp: scan_key_def Let_def split: if_splits prod.splits)
  then show "escape (create t) = t" "key_ok False (create t)"
    by (auto simp: create_escape_value create_def key_ok_def) (metis escape_str_not_null escape_str_Nil)+
qed

lemma scan_pair_key: "scan_pair s = Some ((k, v), r) \<Longrightarrow> \<exists>t r'. scan_key t = Some (k, r')"
  by (auto simp: scan_pair_def Let_def split: option.splits prod.splits)

lemma scan_pairs_keys:
  "scan_pairs s = Some pairs \<Longrightarrow> (k, v) \<in> set pairs \<Longrightarrow> escape (create k) = k \<and> key_ok False (create k)"
proof (induction s arbitrary: pairs rule: scan_pairs.induct)
  case (1 s)
  from 1(2,3) obtain p r ps where p: "s \<noteq> []" "scan_pair s = Some (p, r)" "scan_pairs r = Some ps" "pairs = p # ps"
    by (subst (asm) scan_pairs.simps) (auto split: if_splits option.splits)
  show ?case
  proof (cases "p = (k, v)")
    case True
    then show ?thesis using p(2) scan_pair_key scan_key_ok by metis
  next
    case False
    then show ?thesis using 1 p by auto
  qed
qed

lemma mk_keyed_list_ok:
  assumes made: "mk_keyed_list strict rel pairs = Inr s"
    and keys: "\<And>k v. (k, v) \<in> set pairs \<Longrightarrow> escape (create k) = k \<and> key_ok False (create k)"
    and rel: "unescape_str rel \<noteq> []"
  shows "section_ok strict s"
proof -
  from made obtain kvs where kvs: "pairs \<noteq> []" "distinct (map fst pairs)"
      "list_all2 (\<lambda>p y. parse_pair strict p = Inr y) pairs kvs"
      "s = Keyed_List (unescape_str rel) kvs"
    by (auto simp: mk_keyed_list_def create_def rbind_eq_Inr rmap_eq_Inr split: if_splits)
  from kvs(3) have parsed: "list_all2 (\<lambda>p y. fst y = create (fst p) \<and> (strict \<longrightarrow> strict_value (fst y))
      \<and> (strict \<longrightarrow> strict_value (snd y))) pairs kvs"
    by (rule list_all2_mono)
      (auto simp: rbind_eq_Inr parse_pair_def parse_key_def parse_value_def Let_def split: path_value.splits if_splits
        simp: strict_value_iff)
  then have firsts: "map fst kvs = map create (map fst pairs)"
    by (induction pairs kvs rule: list_all2_induct) auto
  have "inj_on create (fst ` set pairs)"
    using keys by (intro inj_on_inverseI[where g = escape]) auto
  then have "distinct (map fst kvs)"
    unfolding firsts using kvs(2) by (intro distinct_map[THEN iffD2]) simp
  moreover have "key_ok strict k \<and> (strict \<longrightarrow> strict_value v)" if "(k, v) \<in> set kvs" for k v
  proof -
    from that obtain i where i: "i < length kvs" "kvs ! i = (k, v)" by (auto simp: in_set_conv_nth)
    then have "i < length pairs" and at: "k = create (fst (pairs ! i)) \<and> (strict \<longrightarrow> strict_value k) \<and> (strict \<longrightarrow> strict_value v)"
      using parsed by (auto simp: list_all2_conv_all_nth)
    then have "key_ok False k" using keys[of "fst (pairs ! i)" "snd (pairs ! i)"] by auto
    then show ?thesis using at by (auto simp: key_ok_def split: path_value.splits)
  qed
  ultimately show ?thesis using rel kvs(1,3,4) by (auto simp: list_all_iff)
qed

lemma parse_element_ok:
  assumes "parse_element strict inp = Inr s"
  shows "section_ok strict s"
proof (cases "parse_in_dict strict inp = Inr None")
  case True
  then obtain rel rest pairs where inp: "scan_chars False inp = (rel, rest)" "rel \<noteq> []"
      "scan_pairs rest = Some pairs" "mk_keyed_list strict rel pairs = Inr s"
    using assms
    by (auto simp: parse_element_def parse_keyed_list_def rbind_eq_Inr Let_def
      split: option.splits prod.splits if_splits)
  from scan_chars_escaped_text[OF inp(1)] inp(2) have "unescape_str rel \<noteq> []"
    by (metis escape_str_Nil)
  with scan_pairs_keys[OF inp(3)] show ?thesis by (intro mk_keyed_list_ok[OF inp(4)])
next
  case False
  then have "mk_in_dict strict inp = Inr s" and inp: "inp = ''*'' \<or> inp \<noteq> [] \<and> snd (scan_chars False inp) = []"
    using assms
    by (auto simp: parse_element_def parse_in_dict_def rbind_eq_Inr split: option.splits if_splits)
  moreover have "inp = ''*'' \<or> unescape_str inp \<noteq> []"
  proof -
    have "fst (scan_chars d s) @ snd (scan_chars d s) = s" for d s
      by (induction d s rule: scan_chars.induct) (auto simp: Let_def split: prod.splits)
    then have "scan_chars False inp = (inp, [])" if "snd (scan_chars False inp) = []"
      using that by (metis append_Nil2 prod.collapse)
    then show ?thesis using inp scan_chars_escaped_text by (metis escape_str_Nil)
  qed
  ultimately show ?thesis
    by (auto simp: mk_in_dict_def create_def key_ok_def split: if_splits)
qed

theorem do_parse_ok:
  assumes "do_parse strict s = Inr ss"
  shows "sections_ok strict ss"
proof -
  from assms obtain segs where "segs \<noteq> []" "rmap (parse_element strict) segs = Inr ss"
    by (auto simp: do_parse_def split_on_dots_def rbind_eq_Inr Let_def split: if_splits)
  then have all2: "list_all2 (\<lambda>x y. parse_element strict x = Inr y) segs ss" and "ss \<noteq> []"
    by (auto simp: rmap_eq_Inr)
  from all2 have "list_all (section_ok strict) ss"
    by (induction rule: list_all2_induct) (auto dest: parse_element_ok)
  with \<open>ss \<noteq> []\<close> show ?thesis by (simp add: sections_ok_def)
qed

lemma parse_element_error:
  assumes "parse_element strict inp = Inl e"
  shows "e = InvalidPathException \<or> e = ValueError"
proof -
  have "e = InvalidPathException \<or> e = ValueError" if "parse_pair strict p = Inl e" for p e
    using that
    by (auto simp: parse_pair_def parse_key_def parse_value_def rbind_eq_Inl Let_def
      split: prod.splits path_value.splits if_splits)
  then have "e = InvalidPathException \<or> e = ValueError" if "mk_keyed_list strict rel pairs = Inl e" for rel pairs e
    using that
    by (auto simp: mk_keyed_list_def rbind_eq_Inl split: path_value.splits if_splits dest!: rmap_eq_Inl)
  moreover have "e = InvalidPathException \<or> e = ValueError" if "mk_in_dict strict inp = Inl e" for e
    using that by (auto simp: mk_in_dict_def split: path_value.splits if_splits)
  ultimately show ?thesis using assms
    by (auto simp: parse_element_def parse_in_dict_def parse_keyed_list_def rbind_eq_Inl rbind_eq_Inr Let_def
      split: if_splits option.splits prod.splits)
qed

section \<open>Properties\<close>

text \<open>C17: The text of a path is a faithful representation of it: for every path whose keys and
  relations are not empty and whose selectors name an attribute once, whatever special characters, line ends
  or wild cards its parts contain, \<open>to_wild_path\<close> (and \<open>to_path\<close> when it has no wild
  cards) reads \<open>to_str\<close> of the path as a path with the same sections.\<close>

theorem path_text_roundtrip:
  assumes "sections_ok strict ss"
  shows "to_path strict (path_str (Composed_Path (composed_of_sections ss)))
         = Inr (Composed_Path (composed_of_sections ss))"
proof -
  from assms obtain s r where ss: "ss = s # r" "section_ok strict s"
    by (cases ss) (auto simp: sections_ok_def)
  have first: "hd (section_str s @ q) \<noteq> CHR ''.''" for q
  proof (cases s)
    case (In_Dict k)
    then show ?thesis using ss(2) escape_hd[of "case k of NormalValue s \<Rightarrow> s | _ \<Rightarrow> []" q]
      by (cases k) (auto simp: key_ok_def)
  next
    case (Keyed_List rel pairs)
    then show ?thesis using ss(2) escape_hd[of rel] by simp
  qed
  have "un_parse ss \<noteq> [] \<and> hd (un_parse ss) \<noteq> CHR ''.''"
    using first[of "[]"] first[of "CHR ''.'' # un_parse r"] section_str_nonempty[OF ss(2)] ss(1)
    by (cases r) (auto simp: un_parse_def)
  then show ?thesis using do_parse_un_parse[OF assms]
    by (auto simp: to_path_def path_str_def composed_of_sections_def composed_of_text_def)
qed

text \<open>C18: Parsing only builds proper paths: a path that \<open>to_path\<close> returns is the null
  path, for the text \<open>.\<close> alone, or has at least one section, no empty key, no duplicate key in
  a selector and no wild card at all; every other text, whatever it contains, ends in
  \<open>InvalidPathException\<close>.\<close>

theorem to_path_well_formed:
  "case to_path True inp of
     Inr Null_Path \<Rightarrow> inp = ''.''
   | Inr (Section_Path s) \<Rightarrow> False
   | Inr (Composed_Path cp) \<Rightarrow> sections_ok True (expanded_path cp)
   | Inl e \<Rightarrow> e = InvalidPathException"
proof (cases "to_path True inp")
  case (Inl e)
  then obtain s where "do_parse True s = Inl e \<and> e \<noteq> ValueError \<or> e = InvalidPathException"
    by (auto simp: to_path_def composed_of_text_def rbind_def Let_def split: if_splits sum.splits py_error.splits)
  then have "e = InvalidPathException"
    by (auto simp: do_parse_def split_on_dots_def rbind_eq_Inl Let_def split: if_splits
      dest!: rmap_eq_Inl parse_element_error)
  with Inl show ?thesis by simp
next
  case (Inr p)
  then have "p = Null_Path \<and> inp = ''.''
      \<or> (\<exists>s cp. p = Composed_Path cp \<and> composed_of_text True s = Inr cp)"
    by (auto simp: to_path_def Let_def split: if_splits sum.splits py_error.splits)
  then show ?thesis using Inr
    by (auto simp: composed_of_text_def rbind_eq_Inr dest: do_parse_ok)
qed

text \<open>Text that is not a path can still be accepted: \<open>split_on_dots\<close> collects the
  parts that match and drops the characters in between, so a bracket that is never closed,
  a doubled or trailing dot and a trailing backslash are silently ignored, and each of these texts is read as
  the path \<open>a.b\<close> although \<open>to_path\<close> documents \<open>InvalidPathException\<close> for it.\<close>

theorem malformed_text_accepted:
  "list_all (\<lambda>s. to_path True s = Inr (Composed_Path
       \<lparr>path_text = s, expanded_path = [In_Dict (NormalValue ''a''), In_Dict (NormalValue ''b'')]\<rparr>))
     [''a.b'', ''a[b'', ''a..b'', ''a.b.'', ''a.b'' @ [backslash]]"
  by code_simp

theorem path_text_roundtrip_witness:
  "to_path True (path_str (Composed_Path (composed_of_sections
     [In_Dict (NormalValue ''a.b''), Keyed_List ''c'' [(NormalValue ''k='', NormalValue ''v]''), (NormalValue ''z'', NullValue)]])))
   = Inr (Composed_Path (composed_of_sections
     [In_Dict (NormalValue ''a.b''), Keyed_List ''c'' [(NormalValue ''k='', NormalValue ''v]''), (NormalValue ''z'', NullValue)]]))"
  by (rule path_text_roundtrip) (simp add: sections_ok_def key_ok_def)

end
