(* ===== verification/Dict_Path_Update.thy ===== *)
theory Dict_Path_Update
  imports Path_Grammar
begin

text \<open>
  The strict dict paths (\<open>DictPath\<close>): reading exactly one element, setting it, constructing
  the containers on the way, and removing it. A container is a tree, so a reference to an element inside it is the step that leads there, and a
  change of that element is put back at the same step. When an operation raises, the
  containers it may have constructed before are not modelled.
\<close>

section \<open>Operations\<close>

datatype path_step = At_Key string | At_Item string nat

fun key_text :: "path_value \<Rightarrow> string result" where
  \<comment> \<open>\<open>self.key.value\<close>\<close>
  "key_text (NormalValue s) = Inr s"
| "key_text _ = Inl GeneralException"

definition selector_item :: "path_value \<times> path_value \<Rightarrow> (string \<times> pyval) result" where
  "selector_item = (\<lambda>(k, v). rbind (key_text k) (\<lambda>k'. rbind (raw_value v) (\<lambda>v'. Inr (k', v'))))"

definition selector_dict :: "(path_value \<times> path_value) list \<Rightarrow> pyval result" where
  \<comment> \<open>\<open>new_dict\<close> of \<open>KeyedList.get_element\<close>\<close>
  "selector_dict pairs =
     rbind (rmap selector_item pairs) (\<lambda>items. Inr (PDict (fold (\<lambda>(k, v) d. dset d k v) items [])))"

definition positions :: "('a \<Rightarrow> bool) \<Rightarrow> 'a list \<Rightarrow> nat list" where
  "positions P xs = filter (\<lambda>i. P (xs ! i)) [0..<length xs]"

fun locate :: "bool \<Rightarrow> path_section \<Rightarrow> pyval \<Rightarrow> (pyval \<times> path_step) result" where
  \<comment> \<open>\<open>InDict.get_element\<close> and \<open>KeyedList.get_element\<close>: the container afterwards, and where the element is\<close>
  "locate construct (In_Dict key) c =
     rbind (as_dict c) (\<lambda>d.
       case filter (\<lambda>(k, v). matches key (PStr k)) d of
         [] \<Rightarrow> if construct
               then rbind (key_text key) (\<lambda>k. Inr (PDict (dset d k (PDict [])), At_Key k))
               else Inl KeyError
       | [(k, v)] \<Rightarrow> Inr (c, At_Key k)
       | _ \<Rightarrow> Inl KeyError)"
| "locate construct (Keyed_List rel pairs) c =
     rbind (as_dict c) (\<lambda>outer.
     rbind (as_list (dget outer rel (PList []))) (\<lambda>xs.
       case positions (selected pairs) xs of
         [] \<Rightarrow> if construct
               then rbind (selector_dict pairs) (\<lambda>new.
                      Inr (PDict (dset outer rel (PList (xs @ [new]))), At_Item rel (length xs)))
               else Inl KeyError
       | [i] \<Rightarrow> Inr (c, At_Item rel i)
       | _ \<Rightarrow> Inl KeyError))"

fun element_at :: "path_step \<Rightarrow> pyval \<Rightarrow> pyval result" where
  "element_at (At_Key k) c = rbind (as_dict c) (\<lambda>d. dlookup d k)"
| "element_at (At_Item rel i) c =
     rbind (as_dict c) (\<lambda>d. rbind (dlookup d rel) (\<lambda>l. rbind (as_list l) (\<lambda>xs.
       if i < length xs then Inr (xs ! i) else Inl IndexError)))"

fun put_at :: "path_step \<Rightarrow> pyval \<Rightarrow> pyval \<Rightarrow> pyval result" where
  \<comment> \<open>the container after its element at this step was changed\<close>
  "put_at (At_Key k) c x = rbind (as_dict c) (\<lambda>d. Inr (PDict (dset d k x)))"
| "put_at (At_Item rel i) c x =
     rbind (as_dict c) (\<lambda>d. rbind (dlookup d rel) (\<lambda>l. rbind (as_list l) (\<lambda>xs.
       Inr (PDict (dset d rel (PList (xs[i := x])))))))"

definition get_section :: "bool \<Rightarrow> path_section \<Rightarrow> pyval \<Rightarrow> (pyval \<times> pyval) result" where
  \<comment> \<open>\<open>get_element\<close> of a section: the container afterwards and the element\<close>
  "get_section construct s c =
     rbind (locate construct s c) (\<lambda>(c', p). rbind (element_at p c') (\<lambda>x. Inr (c', x)))"

definition lookup_or_empty :: "('a \<times> pyval) result \<Rightarrow> pyval list result" where
  \<comment> \<open>\<open>DictPath.get_elements\<close> around \<open>get_element\<close>\<close>
  "lookup_or_empty m =
     (case m of Inr (c, x) \<Rightarrow> Inr [x] | Inl e \<Rightarrow> if is_lookup_error e then Inr [] else Inl e)"

definition strict_elements :: "path_section \<Rightarrow> pyval \<Rightarrow> pyval list result" where
  "strict_elements s c = lookup_or_empty (get_section False s c)"

fun construct_along :: "path_section list \<Rightarrow> pyval \<Rightarrow> (pyval \<times> pyval) result" where
  \<comment> \<open>the loop of \<open>ComposedPath.get_element\<close> with \<open>construct\<close>\<close>
  "construct_along [] c = Inr (c, c)"
| "construct_along (s # ss) c =
     rbind (locate True s c) (\<lambda>(c', p). rbind (element_at p c') (\<lambda>x.
     rbind (construct_along ss x) (\<lambda>(x', r). rbind (put_at p c' x') (\<lambda>c''. Inr (c'', r)))))"

definition composed_get :: "bool \<Rightarrow> path_section list \<Rightarrow> pyval \<Rightarrow> (pyval \<times> pyval) result" where
  \<comment> \<open>\<open>ComposedPath.get_element\<close>\<close>
  "composed_get construct ss c =
     rbind (composed_elements strict_elements ss c) (\<lambda>es.
       if es = [] \<and> construct then construct_along ss c
       else case es of [x] \<Rightarrow> Inr (c, x) | _ \<Rightarrow> Inl KeyError)"

fun set_section :: "path_section \<Rightarrow> pyval \<Rightarrow> pyval \<Rightarrow> pyval result" where
  \<comment> \<open>\<open>InDict.set_element\<close> and \<open>KeyedList.set_element\<close>\<close>
  "set_section (In_Dict key) v c =
     rbind (as_dict c) (\<lambda>d. rbind (key_text key) (\<lambda>k. Inr (PDict (dset d k v))))"
| "set_section (Keyed_List rel pairs) v c =
     rbind (as_dict c) (\<lambda>outer.
       let outer' = (if has_key outer rel then outer else dset outer rel (PList [])) in
       rbind (dlookup outer' rel) (\<lambda>inner. rbind (as_list inner) (\<lambda>xs.
         case get_section False (Keyed_List rel pairs) (PDict outer') of
           Inl KeyError \<Rightarrow> Inr (PDict (dset outer' rel (PList (xs @ [v]))))
         | Inl e \<Rightarrow> Inl e
         | Inr (_, x) \<Rightarrow>
             (case py_index xs x of
                None \<Rightarrow> Inl ValueError
              | Some i \<Rightarrow> Inr (PDict (dset outer' rel (PList (xs[i := v]))))))))"

fun set_along :: "bool \<Rightarrow> path_section list \<Rightarrow> pyval \<Rightarrow> pyval \<Rightarrow> pyval result" where
  \<comment> \<open>\<open>ComposedPath.set_element\<close>\<close>
  "set_along construct [] v c = Inl IndexError"
| "set_along construct [s] v c = set_section s v c"
| "set_along construct (s # t # ss) v c =
     rbind (locate construct s c) (\<lambda>(c', p). rbind (element_at p c') (\<lambda>x.
     rbind (set_along construct (t # ss) v x) (put_at p c')))"

fun remove_section :: "path_section \<Rightarrow> pyval \<Rightarrow> pyval result" where
  \<comment> \<open>\<open>InDict.remove\<close> and \<open>KeyedList.remove\<close>\<close>
  "remove_section (In_Dict key) c =
     rbind (as_dict c) (\<lambda>d. Inr (PDict (filter (\<lambda>(k, v). \<not> matches key (PStr k)) d)))"
| "remove_section (Keyed_List rel pairs) c =
     rbind (as_dict c) (\<lambda>outer.
       case map_of outer rel of
         None \<Rightarrow> Inr c
       | Some inner \<Rightarrow> rbind (as_list inner) (\<lambda>xs.
           Inr (PDict (dset outer rel (PList (filter (\<lambda>x. \<not> selected pairs x) xs))))))"

fun remove_along :: "path_section list \<Rightarrow> pyval \<Rightarrow> pyval result" where
  \<comment> \<open>\<open>ComposedPath.remove\<close>\<close>
  "remove_along [] c = Inl IndexError"
| "remove_along [s] c = remove_section s c"
| "remove_along (s # t # ss) c =
     (case locate False s c of
        Inl KeyError \<Rightarrow> Inr c
      | Inl e \<Rightarrow> Inl e
      | Inr (c', p) \<Rightarrow>
          rbind (element_at p c') (\<lambda>x. rbind (remove_along (t # ss) x) (put_at p c')))"

definition get_element :: "dict_path \<Rightarrow> bool \<Rightarrow> pyval \<Rightarrow> (pyval \<times> pyval) result" where
  "get_element p construct c =
     (case p of
        Null_Path \<Rightarrow> rbind (as_dict c) (\<lambda>_. Inr (c, c))
      | Section_Path s \<Rightarrow> get_section construct s c
      | Composed_Path cp \<Rightarrow> composed_get construct (expanded_path cp) c)"

definition get_elements :: "dict_path \<Rightarrow> pyval \<Rightarrow> pyval list result" where
  \<comment> \<open>\<open>DictPath.get_elements\<close>, inherited by every strict path\<close>
  "get_elements p c = lookup_or_empty (get_element p False c)"

definition set_element :: "dict_path \<Rightarrow> pyval \<Rightarrow> bool \<Rightarrow> pyval \<Rightarrow> pyval result" where
  "set_element p v construct c =
     (case p of
        Null_Path \<Rightarrow> rbind (as_dict c) (\<lambda>d. rbind (as_dict v) (\<lambda>items.
          Inr (PDict (fold (\<lambda>(k, x) d. dset d k x) items d))))
      | Section_Path s \<Rightarrow> set_section s v c
      | Composed_Path cp \<Rightarrow> set_along construct (expanded_path cp) v c)"

definition remove_element :: "dict_path \<Rightarrow> pyval \<Rightarrow> pyval result" where
  \<comment> \<open>\<open>remove\<close>\<close>
  "remove_element p c =
     (case p of
        Null_Path \<Rightarrow> Inl NotImplementedError
      | Section_Path s \<Rightarrow> remove_section s c
      | Composed_Path cp \<Rightarrow> remove_along (expanded_path cp) c)"

end
