(* ===== verification/Dict_Path_Laws.thy ===== *)
theory Dict_Path_Laws
  imports Dict_Path_Update
begin

text \<open>
  What the strict dict paths promise: a value that was set is found again, a removed one is not,
  other keys are left alone, and a path can always be constructed in an empty container.
\<close>

section \<open>Containers\<close>

fun wf_val :: "pyval \<Rightarrow> bool" where
  \<comment> \<open>no dictionary has a key twice\<close>
  "wf_val (PDict d) = (wf_dict d \<and> list_all (\<lambda>(k, v). wf_val v) d)"
| "wf_val (PList xs) = list_all wf_val xs"
| "wf_val _ = True"

lemma wf_val_lookup: "wf_val (PDict d) \<Longrightarrow> map_of d k = Some v \<Longrightarrow> wf_val v"
  by (auto simp: list_all_iff dest!: map_of_SomeD)

lemma set_dset_subset: "set (dset d k v) \<subseteq> insert (k, v) (set d)"
  unfolding dset_def by (induction d) auto

lemma wf_val_dset: "wf_val (PDict d) \<Longrightarrow> wf_val v \<Longrightarrow> wf_val (PDict (dset d k v))"
  using set_dset_subset[of d k v] by (auto simp: list_all_iff)

lemma normal_matches_str [simp]: "normal_matches s (PStr t) \<longleftrightarrow> s = t"
  by (auto simp: normal_matches_def py_str_def split: option.splits)

lemma filter_key:
  "wf_dict d \<Longrightarrow> filter (\<lambda>(k', v). k = k') d = (case map_of d k of None \<Rightarrow> [] | Some v \<Rightarrow> [(k, v)])"
proof (induction d)
  case (Cons p d)
  then show ?case
    by (cases p) (auto simp: wf_dict_def map_of_eq_None_iff[symmetric] simp flip: filter_False split: option.splits)
qed simp

fun section_key :: "path_section \<Rightarrow> string" where
  \<comment> \<open>the key of the container that a strict section reads\<close>
  "section_key (In_Dict k) = (case k of NormalValue s \<Rightarrow> s | _ \<Rightarrow> [])"
| "section_key (Keyed_List rel pairs) = rel"

section \<open>Locating\<close>

lemma locate_in_dict:
  "wf_dict d \<Longrightarrow> locate construct (In_Dict (NormalValue k)) (PDict d) =
    (case map_of d k of
       Some v \<Rightarrow> Inr (PDict d, At_Key k)
     | None \<Rightarrow> if construct then Inr (PDict (dset d k (PDict [])), At_Key k) else Inl KeyError)"
  by (simp add: filter_key split: option.splits)

lemma positions_sing:
  "positions P xs = [i] \<longleftrightarrow> i < length xs \<and> (\<forall>j < length xs. P (xs ! j) \<longleftrightarrow> j = i)"
proof
  assume *: "positions P xs = [i]"
  then have "set (positions P xs) = {i}" by simp
  then show "i < length xs \<and> (\<forall>j < length xs. P (xs ! j) \<longleftrightarrow> j = i)"
    by (auto simp: positions_def)
next
  assume *: "i < length xs \<and> (\<forall>j < length xs. P (xs ! j) \<longleftrightarrow> j = i)"
  then have "set (positions P xs) = {i}" by (auto simp: positions_def)
  moreover have "distinct (positions P xs)" by (simp add: positions_def)
  ultimately show "positions P xs = [i]"
    by (metis distinct_card card.empty card_insert_disjoint empty_iff finite.emptyI length_0_conv
        length_Suc_conv list.set(1) list.set_intros(1) singleton_iff)
qed

lemma positions_Nil: "positions P xs = [] \<longleftrightarrow> (\<forall>x \<in> set xs. \<not> P x)"
  by (auto simp: positions_def filter_empty_conv all_set_conv_all_nth)

lemma positions_update: "positions P xs = [i] \<Longrightarrow> P x \<Longrightarrow> positions P (xs[i := x]) = [i]"
  by (auto simp: positions_sing nth_list_update)

lemma positions_append: "positions P xs = [] \<Longrightarrow> P x \<Longrightarrow> positions P (xs @ [x]) = [length xs]"
  by (auto simp: positions_sing positions_Nil nth_append)

lemma locate_dict: "locate construct s c = Inr (c', p) \<Longrightarrow> \<exists>d. c = PDict d"
  by (cases s; cases c) auto

lemma locate_keyed_list:
  assumes "locate construct (Keyed_List rel pairs) c = Inr (c', p)"
  obtains d xs where "c = PDict d" "dget d rel (PList []) = PList xs"
    and "\<exists>i. positions (selected pairs) xs = [i] \<and> c' = c \<and> p = At_Item rel i
         \<or> positions (selected pairs) xs = [] \<and> construct \<and>
           (\<exists>new. selector_dict pairs = Inr new \<and> c' = PDict (dset d rel (PList (xs @ [new])))
              \<and> p = At_Item rel (length xs))"
  using assms
proof -
  from assms obtain d where c: "c = PDict d" using locate_dict by blast
  with assms obtain xs where xs: "dget d rel (PList []) = PList xs"
    by (auto simp: rbind_eq_Inr elim: as_list.elims)
  show ?thesis using assms c xs by (intro that[OF c xs]) (auto simp: rbind_eq_Inr split: list.splits if_splits)
qed

lemma put_locate:
  assumes ok: "section_ok True s" and loc: "locate construct s c = Inr (c', p)" and wf: "wf_val c"
    and put: "put_at p c' x' = Inr c''" and x': "wf_val x'"
    and sel: "\<And>rel pairs. s = Keyed_List rel pairs \<Longrightarrow> selected pairs x'"
  shows "locate False s c'' = Inr (c'', p) \<and> element_at p c'' = Inr x' \<and> wf_val c''
    \<and> (\<exists>d y. c = PDict d \<and> c'' = PDict (dset d (section_key s) y))"
proof (cases s)
  case (In_Dict key)
  then obtain k where k: "key = NormalValue k" using ok by (cases key) (auto simp: key_ok_def)
  obtain d where d: "c = PDict d" "wf_dict d" using wf locate_dict[OF loc] by auto
  then have "p = At_Key k \<and> c'' = PDict (dset d k x')"
    using loc put In_Dict k by (auto simp: locate_in_dict simp del: locate.simps split: option.splits if_splits)
  then show ?thesis using In_Dict k d wf x' wf_val_dset[of d x' k]
    by (auto simp: locate_in_dict simp del: locate.simps wf_val.simps)
next
  case (Keyed_List rel pairs)
  obtain d xs where d: "c = PDict d" "dget d rel (PList []) = PList xs"
    and loc': "\<exists>i. positions (selected pairs) xs = [i] \<and> c' = c \<and> p = At_Item rel i
         \<or> positions (selected pairs) xs = [] \<and> construct \<and>
           (\<exists>new. selector_dict pairs = Inr new \<and> c' = PDict (dset d rel (PList (xs @ [new])))
              \<and> p = At_Item rel (length xs))"
    using loc unfolding Keyed_List by (rule locate_keyed_list)
  have wfxs: "list_all wf_val xs"
    using d wf wf_val_lookup[of d rel] by (cases "map_of d rel") (auto simp: dget_def)
  from loc' obtain i ys where ys: "positions (selected pairs) ys = [i]" "p = At_Item rel i"
      "c'' = PDict (dset d rel (PList ys))" "ys ! i = x'" "i < length ys" "list_all wf_val ys"
  proof (elim exE disjE conjE)
    fix i assume i: "positions (selected pairs) xs = [i]" "c' = c" "p = At_Item rel i"
    then have "i < length xs" by (simp add: positions_sing)
    moreover have "map_of d rel = Some (PList xs)"
      using d(2) \<open>i < length xs\<close> by (cases "map_of d rel") auto
    moreover have "list_all wf_val (xs[i := x'])"
      using wfxs x' by (auto simp: list_all_iff dest!: subsetD[OF set_update_subset_insert])
    ultimately show ?thesis
      using i put d sel[OF Keyed_List] positions_update[OF i(1)] by (intro that[of "xs[i := x']" i]) auto
  next
    fix new assume i: "positions (selected pairs) xs = []" "c' = PDict (dset d rel (PList (xs @ [new])))"
      "p = At_Item rel (length xs)"
    then show ?thesis
      using put sel[OF Keyed_List] wfxs x' positions_append[OF i(1)]
      by (intro that[of "xs @ [x']" "length xs"]) auto
  qed
  then show ?thesis
    using Keyed_List d(1) wf wf_val_dset[of d "PList ys" rel] by (auto simp: dget_def)
qed

section \<open>Selected elements\<close>

lemma pair_matches_strict:
  "pair_matches (NormalValue a, val) (k, v) \<longleftrightarrow> k = a \<and> matches val v"
  by (auto simp: pair_matches_def)

lemma selected_dset:
  assumes "selected pairs (PDict e)" "section_ok True (Keyed_List rel pairs)"
    and other: "NormalValue k \<notin> fst ` set pairs"
  shows "selected pairs (PDict (dset e k y))"
proof -
  have "list_ex (pair_matches (key, val)) (dset e k y)" if pair: "(key, val) \<in> set pairs" for key val
  proof -
    from pair assms(2) obtain a where a: "key = NormalValue a"
      by (cases key) (auto simp: list_all_iff key_ok_def)
    from pair assms(1) obtain b v where v: "(b, v) \<in> set e" "pair_matches (key, val) (b, v)"
      by (auto simp: selected_def list_all_iff list_ex_iff)
    then have "b = a" "a \<noteq> k" using a pair other by (auto simp: pair_matches_strict rev_image_eqI)
    have "(b, v) \<in> set (dset e k y)"
      using v(1) \<open>b = a\<close> \<open>a \<noteq> k\<close> unfolding dset_def by (induction e) auto
    then show ?thesis using v(2) by (auto simp: list_ex_iff)
  qed
  then show ?thesis by (auto simp: selected_def list_all_iff)
qed

lemma map_of_fold_dset:
  "distinct (map fst items) \<Longrightarrow>
   map_of (fold (\<lambda>(k, v) d. dset d k v) items d) k = (case map_of items k of None \<Rightarrow> map_of d k | Some v \<Rightarrow> Some v)"
proof (induction items arbitrary: d)
  case (Cons p items)
  then show ?case by (cases p) (auto simp: map_of_eq_None_iff[symmetric] split: option.splits)
qed simp

lemma selector_items:
  assumes "section_ok True (Keyed_List rel pairs)" and made: "rmap selector_item pairs = Inr items"
  shows "list_all2 (\<lambda>p it. fst p = NormalValue (fst it) \<and> matches (snd p) (snd it)) pairs items"
    and "distinct (map fst items)"
proof -
  from made have all2: "list_all2 (\<lambda>p it. selector_item p = Inr it) pairs items" by (simp add: rmap_eq_Inr)
  have one: "fst p = NormalValue (fst it) \<and> matches (snd p) (snd it)" if "selector_item p = Inr it" for p it
    using that
    by (cases "(fst p, snd p)" rule: prod.exhaust; cases "fst p"; cases "snd p")
      (auto simp: selector_item_def split_beta rbind_eq_Inr)
  from all2 one show pairwise: "list_all2 (\<lambda>p it. fst p = NormalValue (fst it) \<and> matches (snd p) (snd it)) pairs items"
    by (rule list_all2_mono)
  then have "map fst pairs = map NormalValue (map fst items)"
    by (induction rule: list_all2_induct) auto
  then show "distinct (map fst items)" using assms(1) by (metis distinct_map section_ok.simps(2))
qed

lemma selector_dict_selected:
  assumes ok: "section_ok True (Keyed_List rel pairs)" and made: "selector_dict pairs = Inr new"
  shows "selected pairs new \<and> wf_val new \<and> (\<exists>e. new = PDict e \<and> (\<forall>k. NormalValue k \<notin> fst ` set pairs \<longrightarrow> map_of e k = None))"
proof -
  from made obtain items where items: "rmap selector_item pairs = Inr items"
    and new: "new = PDict (fold (\<lambda>(k, v) d. dset d k v) items [])"
    by (auto simp: selector_dict_def rbind_eq_Inr)
  note pairwise = selector_items[OF ok items]
  let ?e = "fold (\<lambda>(k, v) d. dset d k v) items []"
  have look: "map_of ?e k = map_of items k" for k
    using map_of_fold_dset[OF pairwise(2), of "[]" k] by (simp split: option.splits)
  have "list_ex (pair_matches p) ?e" if "p \<in> set pairs" for p
  proof -
    from that obtain i where "i < length pairs" "p = pairs ! i" by (auto simp: in_set_conv_nth)
    then have it: "items ! i \<in> set items" "fst p = NormalValue (fst (items ! i))" "matches (snd p) (snd (items ! i))"
      using pairwise(1) by (auto simp: list_all2_conv_all_nth)
    then have "map_of ?e (fst (items ! i)) = Some (snd (items ! i))"
      using pairwise(2) by (simp add: look)
    from map_of_SomeD[OF this] show ?thesis
      using it(2,3) unfolding list_ex_iff
      by (intro bexI[of _ "items ! i"]; cases p; cases "items ! i") (auto simp: pair_matches_strict)
  qed
  moreover have "wf_val (PDict ?e)"
  proof -
    have simple: "wf_val (snd it)" if "it \<in> set items" for it
    proof -
      from that items obtain i where "selector_item (pairs ! i) = Inr it"
        by (auto simp: rmap_eq_Inr list_all2_conv_all_nth in_set_conv_nth)
      then show ?thesis by (cases "snd (pairs ! i)") (auto simp: selector_item_def split_beta rbind_eq_Inr)
    qed
    have "wf_val (PDict (fold (\<lambda>(k, v) d. dset d k v) its d))"
      if "\<And>it. it \<in> set its \<Longrightarrow> wf_val (snd it)" "wf_val (PDict d)" for its d
      using that
    proof (induction its arbitrary: d)
      case (Cons it its)
      then have "wf_val (PDict (dset d (fst it) (snd it)))" by (intro wf_val_dset) auto
      then show ?case using Cons by (auto simp: split_beta simp del: wf_val.simps)
    qed simp
    from this[OF simple] show ?thesis by simp
  qed
  moreover have "map_of ?e k = None" if "NormalValue k \<notin> fst ` set pairs" for k
  proof (rule ccontr)
    assume "map_of ?e k \<noteq> None"
    then obtain v where "(k, v) \<in> set items" using look map_of_SomeD by (metis not_None_eq)
    then obtain i where "i < length items" "items ! i = (k, v)" by (auto simp: in_set_conv_nth)
    then have "pairs ! i \<in> set pairs" "fst (pairs ! i) = NormalValue k"
      using pairwise(1) by (auto simp: list_all2_conv_all_nth)
    then show False using that by (metis image_eqI)
  qed
  ultimately show ?thesis using new by (auto simp: selected_def list_all_iff)
qed

lemma selector_dict_total:
  assumes "section_ok True (Keyed_List rel pairs)"
  shows "\<exists>new. selector_dict pairs = Inr new"
proof -
  have "selector_item p = Inr (case fst p of NormalValue a \<Rightarrow> a | _ \<Rightarrow> [],
      case snd p of NormalValue b \<Rightarrow> PStr b | _ \<Rightarrow> PNone)" if "p \<in> set pairs" for p
    using that assms
    by (cases p; cases "fst p"; cases "snd p")
      (fastforce simp: selector_item_def list_all_iff key_ok_def)+
  then show ?thesis by (simp add: selector_dict_def rmap_Inr)
qed

section \<open>Paths\<close>

fun independent :: "path_section list \<Rightarrow> bool" where
  \<comment> \<open>no section overwrites an attribute that selects the element it lies in\<close>
  "independent (Keyed_List rel pairs # s # ss) =
     (NormalValue (section_key s) \<notin> fst ` set pairs \<and> independent (s # ss))"
| "independent (In_Dict k # s # ss) = independent (s # ss)"
| "independent _ = True"

definition ends_in_key :: "path_section list \<Rightarrow> bool" where
  "ends_in_key ss = (case last ss of In_Dict _ \<Rightarrow> True | _ \<Rightarrow> False)"

lemma independent_tl: "independent (s # t # ss) \<Longrightarrow> independent (t # ss)"
  by (cases s) auto

lemma strict_elements_located:
  "locate False s c = Inr (c, p) \<Longrightarrow> element_at p c = Inr x \<Longrightarrow> strict_elements s c = Inr [x]"
  by (simp add: strict_elements_def lookup_or_empty_def get_section_def)

lemma locate_element:
  assumes ok: "section_ok True s" and loc: "locate construct s c = Inr (c', p)" and el: "element_at p c' = Inr x"
    and wf: "wf_val c"
  shows "wf_val x \<and> (\<forall>rel pairs. s = Keyed_List rel pairs \<longrightarrow> selected pairs x)"
proof (cases s)
  case (In_Dict key)
  then obtain k where k: "key = NormalValue k" using ok by (cases key) (auto simp: key_ok_def)
  obtain d where d: "c = PDict d" "wf_dict d" using wf locate_dict[OF loc] by auto
  then have "x = PDict [] \<or> map_of d k = Some x"
    using loc el In_Dict k by (auto simp: locate_in_dict simp del: locate.simps split: option.splits if_splits)
  then show ?thesis using In_Dict wf d wf_val_lookup[of d k x] by auto
next
  case (Keyed_List rel pairs)
  obtain d xs where d: "c = PDict d" "dget d rel (PList []) = PList xs"
    and loc': "\<exists>i. positions (selected pairs) xs = [i] \<and> c' = c \<and> p = At_Item rel i
         \<or> positions (selected pairs) xs = [] \<and> construct \<and>
           (\<exists>new. selector_dict pairs = Inr new \<and> c' = PDict (dset d rel (PList (xs @ [new])))
              \<and> p = At_Item rel (length xs))"
    using loc unfolding Keyed_List by (rule locate_keyed_list)
  have wfxs: "list_all wf_val xs"
    using d wf wf_val_lookup[of d rel] by (cases "map_of d rel") (auto simp: dget_def)
  from loc' have "selected pairs x \<and> wf_val x"
  proof (elim exE disjE conjE)
    fix i assume i: "positions (selected pairs) xs = [i]" "c' = c" "p = At_Item rel i"
    then have "i < length xs" "selected pairs (xs ! i)" by (auto simp: positions_sing)
    moreover have "map_of d rel = Some (PList xs)"
      using d(2) \<open>i < length xs\<close> by (cases "map_of d rel") auto
    ultimately show ?thesis using i d el wfxs by (auto simp: list_all_iff)
  next
    fix new assume "selector_dict pairs = Inr new" "c' = PDict (dset d rel (PList (xs @ [new])))"
      "p = At_Item rel (length xs)"
    then show ?thesis using el selector_dict_selected[OF ok[unfolded Keyed_List]] by auto
  qed
  then show ?thesis using Keyed_List by simp
qed

lemma selected_dict: "selected pairs x \<Longrightarrow> \<exists>e. x = PDict e"
  by (cases x) (auto simp: selected_def)

lemma set_along_get:
  assumes "ss \<noteq> []" "list_all (section_ok True) ss" "independent ss" "ends_in_key ss"
    and "wf_val c" "wf_val v" "set_along construct ss v c = Inr c'"
  shows "elements_along strict_elements ss [c'] = Inr [v] \<and> wf_val c'
    \<and> (\<exists>d y. c = PDict d \<and> c' = PDict (dset d (section_key (hd ss)) y))"
  using assms
proof (induction ss arbitrary: c c' rule: induct_list012)
  case (2 s)
  then obtain k where s: "s = In_Dict (NormalValue k)"
    by (cases s) (auto simp: ends_in_key_def key_ok_def split: path_value.splits)
  with 2 obtain d where d: "c = PDict d" "c' = PDict (dset d k v)" by (auto simp: rbind_eq_Inr elim: as_dict.elims)
  then have "wf_val c'" using 2 wf_val_dset by blast
  then have "locate False s c' = Inr (c', At_Key k)"
    using d s by (auto simp: locate_in_dict simp del: locate.simps)
  then have "strict_elements s c' = Inr [v]" using d by (intro strict_elements_located) auto
  then show ?case using d s \<open>wf_val c'\<close> by auto
next
  case (3 s t ss)
  then obtain c1 p x x' where step: "locate construct s c = Inr (c1, p)" "element_at p c1 = Inr x"
      "set_along construct (t # ss) v x = Inr x'" "put_at p c1 x' = Inr c'"
    by (auto simp: rbind_eq_Inr)
  have ok: "section_ok True s" using 3 by simp
  note el = locate_element[OF ok step(1,2) \<open>wf_val c\<close>]
  have IH: "elements_along strict_elements (t # ss) [x'] = Inr [v] \<and> wf_val x'
      \<and> (\<exists>d y. x = PDict d \<and> x' = PDict (dset d (section_key t) y))"
  proof -
    have "list_all (section_ok True) (t # ss)" "ends_in_key (t # ss)"
      using 3(4,6) by (simp_all add: ends_in_key_def)
    moreover have "independent (t # ss)" using 3(5) by (rule independent_tl)
    ultimately show ?thesis using "3.IH"(2)[of x x'] el 3(8) step(3) by simp
  qed
  have "selected pairs x'" if s: "s = Keyed_List rel pairs" for rel pairs
  proof -
    from IH obtain e y where e: "x = PDict e" "x' = PDict (dset e (section_key t) y)" by blast
    have "NormalValue (section_key t) \<notin> fst ` set pairs" using 3(5) s by simp
    then show ?thesis using el ok selected_dset[of pairs e rel "section_key t" y] unfolding s e by blast
  qed
  from put_locate[OF ok step(1) \<open>wf_val c\<close> step(4) _ this] IH
  have put: "locate False s c' = Inr (c', p)" "element_at p c' = Inr x'" "wf_val c'"
    "\<exists>d y. c = PDict d \<and> c' = PDict (dset d (section_key s) y)" by auto
  then show ?case using IH strict_elements_located[OF put(1,2)] by simp
qed simp

lemma composed_elements_dict: "composed_elements get ss (PDict d) = elements_along get ss [PDict d]"
  by (simp add: composed_elements_def)

lemma as_list_dget_absent: "map_of d rel = None \<Longrightarrow> as_list (dget d rel (PList [])) = Inr []"
  by simp

lemma set_along_total:
  assumes "ss \<noteq> []" "list_all (section_ok True) ss" "independent ss" "map_of d (section_key (hd ss)) = None"
    and "wf_val (PDict d)"
  shows "\<exists>c'. set_along True ss v (PDict d) = Inr c'"
  using assms
proof (induction ss arbitrary: d rule: induct_list012)
  case (2 s)
  then show ?case
    by (cases s)
      (auto simp: key_ok_def get_section_def positions_def has_key_def split: path_value.splits)
next
  case (3 s t ss)
  have ok: "section_ok True s" using 3 by simp
  show ?case
  proof (cases s)
    case (In_Dict key)
    then obtain k where k: "s = In_Dict (NormalValue k)" using ok by (cases key) (auto simp: key_ok_def)
    have "locate True s (PDict d) = Inr (PDict (dset d k (PDict [])), At_Key k)"
      using 3 k by (simp add: locate_in_dict del: locate.simps)
    moreover obtain x' where "set_along True (t # ss) v (PDict []) = Inr x'"
      using 3 independent_tl by fastforce
    ultimately show ?thesis by simp
  next
    case (Keyed_List rel pairs)
    obtain new where new: "selector_dict pairs = Inr new" using selector_dict_total ok Keyed_List by blast
    then obtain e where e: "new = PDict e" "map_of e (section_key t) = None" "wf_val new"
      using selector_dict_selected[of rel pairs new] ok Keyed_List 3(5) by auto
    have "locate True s (PDict d) = Inr (PDict (dset d rel (PList [new])), At_Item rel 0)"
      using 3 Keyed_List new by (simp add: positions_def)
    moreover obtain x' where "set_along True (t # ss) v new = Inr x'"
      using 3 e independent_tl by fastforce
    ultimately show ?thesis by simp
  qed
qed simp

section \<open>Removing\<close>

lemma elements_along_Nil [simp]: "elements_along get ss [] = Inr []"
  by (induction ss) auto

lemma strict_elements_missing: "locate False s c = Inl KeyError \<Longrightarrow> strict_elements s c = Inr []"
  by (simp add: strict_elements_def lookup_or_empty_def get_section_def is_lookup_error_def)

lemma locate_same: "locate False s c = Inr (c', p) \<Longrightarrow> c' = c"
proof (cases s)
  case (In_Dict key)
  assume loc: "locate False s c = Inr (c', p)"
  then obtain d where "c = PDict d" using locate_dict by blast
  then show ?thesis using loc In_Dict
    by (cases "filter (\<lambda>(k, v). matches key (PStr k)) d" rule: remdups_adj.cases) auto
next
  case (Keyed_List rel pairs)
  assume "locate False s c = Inr (c', p)"
  then show ?thesis unfolding Keyed_List by (rule locate_keyed_list) auto
qed

lemma put_unselected:
  assumes "locate False (Keyed_List rel pairs) c = Inr (c, p)" "put_at p c x' = Inr c''" "\<not> selected pairs x'"
    and "wf_val c" "wf_val x'"
  shows "locate False (Keyed_List rel pairs) c'' = Inl KeyError \<and> wf_val c''"
proof -
  obtain d xs i where d: "c = PDict d" "dget d rel (PList []) = PList xs"
    and i: "positions (selected pairs) xs = [i]" "p = At_Item rel i"
    using assms(1) by (rule locate_keyed_list) auto
  from i(1) have "i < length xs" by (simp add: positions_sing)
  then have "map_of d rel = Some (PList xs)"
    using d(2) by (cases "map_of d rel") auto
  then have c'': "c'' = PDict (dset d rel (PList (xs[i := x'])))" and wfl: "wf_val (PList xs)"
    using assms(2,4) d(1) i wf_val_lookup[of d rel "PList xs"] by auto
  have "positions (selected pairs) (xs[i := x']) = []"
    using i(1) assms(3) by (auto simp: positions_sing positions_Nil all_set_conv_all_nth nth_list_update)
  moreover have "wf_val (PList (xs[i := x']))"
    using wfl assms(5) by (auto simp: list_all_iff dest!: subsetD[OF set_update_subset_insert])
  ultimately show ?thesis using c'' d(1) assms(4) wf_val_dset[of d "PList (xs[i := x'])" rel]
    by (simp add: dget_def del: wf_val.simps)
qed

lemma remove_section_missing:
  assumes "section_ok True s" "wf_val c" "remove_section s c = Inr c'"
  shows "locate False s c' = Inl KeyError \<and> wf_val c'"
proof (cases s)
  case (In_Dict key)
  with assms obtain k d where "key = NormalValue k" "c = PDict d"
    by (cases key; cases c) (auto simp: key_ok_def)
  moreover have "filter (\<lambda>x. (case x of (a, v) \<Rightarrow> k \<noteq> a) \<and> (case x of (a, v) \<Rightarrow> k = a)) d = []" for k :: string and d :: "(string \<times> pyval) list"
    by (auto simp: filter_empty_conv)
  ultimately show ?thesis using assms In_Dict
    by (auto simp: wf_dict_def list_all_iff distinct_map_filter)
next
  case (Keyed_List rel pairs)
  with assms obtain d where d: "c = PDict d" by (cases c) auto
  show ?thesis
  proof (cases "map_of d rel")
    case None
    then show ?thesis using Keyed_List d assms by (auto simp: positions_def)
  next
    case (Some inner)
    then obtain xs where xs: "inner = PList xs" using Keyed_List d assms by (cases inner) auto
    let ?ys = "filter (\<lambda>x. \<not> selected pairs x) xs"
    have "wf_val (PList ?ys)" using Some xs assms(2) d wf_val_lookup[of d rel] by (auto simp: list_all_iff)
    moreover have "positions (selected pairs) ?ys = []" by (simp add: positions_Nil)
    ultimately show ?thesis
      using Some xs Keyed_List d assms wf_val_dset[of d "PList ?ys" rel] by (auto simp: dget_def)
  qed
qed

lemma remove_along_missing:
  assumes "list_all (section_ok True) ss" "wf_val c" "remove_along ss c = Inr c'"
  shows "elements_along strict_elements ss [c'] = Inr [] \<and> wf_val c'"
  using assms
proof (induction ss arbitrary: c c' rule: induct_list012)
  case (2 s)
  then show ?case
    using remove_section_missing[of s c c'] strict_elements_missing[of s c'] by simp
next
  case (3 s t ss)
  have ok: "section_ok True s" using 3(3) by simp
  show ?case
  proof (cases "locate False s c")
    case (Inl e)
    then have "c' = c" using 3(5) by (cases e) auto
    moreover have "e = KeyError" using 3(5) Inl by (cases e) auto
    ultimately show ?thesis using Inl 3(4) strict_elements_missing[of s c] by simp
  next
    case (Inr q)
    then obtain p where loc: "locate False s c = Inr (c, p)" using locate_same by (cases q) auto
    from 3(5) loc obtain x x' where x: "element_at p c = Inr x" "remove_along (t # ss) x = Inr x'"
        "put_at p c x' = Inr c'" by (auto simp: rbind_eq_Inr)
    note el = locate_element[OF ok loc x(1) 3(4)]
    have IH: "elements_along strict_elements (t # ss) [x'] = Inr [] \<and> wf_val x'"
      using "3.IH"(2)[of x x'] 3(3) el x(2) by simp
    show ?thesis
    proof (cases "\<exists>rel pairs. s = Keyed_List rel pairs \<and> \<not> selected pairs x'")
      case True
      then obtain rel pairs where s: "s = Keyed_List rel pairs" "\<not> selected pairs x'" by blast
      from put_unselected[OF loc[unfolded s] x(3) s(2) 3(4)] IH
      have "locate False s c' = Inl KeyError" "wf_val c'" by (simp_all add: s del: locate.simps)
      then show ?thesis using strict_elements_missing[of s c'] by simp
    next
      case False
      then have "locate False s c' = Inr (c', p) \<and> element_at p c' = Inr x' \<and> wf_val c'"
        using put_locate[OF ok loc 3(4) x(3)] IH by blast
      then show ?thesis using IH strict_elements_located[of s c' p x'] by simp
    qed
  qed
qed simp

section \<open>Strict and wild reading\<close>

lemma map_positions: "map (nth xs) (positions P xs) = filter P xs"
proof -
  have "map (nth xs) (positions P xs) = filter P (map (nth xs) [0..<length xs])"
    by (simp add: positions_def filter_map comp_def)
  then show ?thesis by (simp add: map_nth)
qed

lemma strict_element_wild:
  assumes "section_ok True s" "wf_val c" "strict_elements s c = Inr [x]"
  shows "section_elements s c = Inr [x] \<and> wf_val x"
proof -
  from assms(3) obtain c1 p where loc: "locate False s c = Inr (c1, p)" "element_at p c1 = Inr x"
    by (auto simp: strict_elements_def lookup_or_empty_def get_section_def rbind_eq_Inr split: sum.splits if_splits)
  then have loc: "locate False s c = Inr (c, p)" "element_at p c = Inr x"
    using locate_same by auto
  have "section_elements s c = Inr [x]"
  proof (cases s)
    case (In_Dict key)
    then obtain k where "key = NormalValue k" using assms(1) by (cases key) (auto simp: key_ok_def)
    moreover obtain d where "c = PDict d" "wf_dict d" using assms(2) locate_dict[OF loc(1)] by auto
    ultimately show ?thesis using loc In_Dict
      by (auto simp: locate_in_dict filter_key simp del: locate.simps split: option.splits)
  next
    case (Keyed_List rel pairs)
    obtain d xs i where d: "c = PDict d" "dget d rel (PList []) = PList xs"
      and i: "positions (selected pairs) xs = [i]" "p = At_Item rel i"
      using loc(1) unfolding Keyed_List by (rule locate_keyed_list) auto
    from i(1) have "i < length xs" by (simp add: positions_sing)
    then have "map_of d rel = Some (PList xs)" using d(2) by (cases "map_of d rel") auto
    moreover have "filter (selected pairs) xs = [xs ! i]" using map_positions[of xs "selected pairs"] i(1) by simp
    ultimately show ?thesis using loc(2) d i Keyed_List by (auto split: if_splits)
  qed
  then show ?thesis using locate_element[OF assms(1) loc assms(2)] by simp
qed

lemma strict_elements_le_1: "strict_elements s c = Inr es \<Longrightarrow> es = [] \<or> (\<exists>x. es = [x])"
  by (auto simp: strict_elements_def lookup_or_empty_def split: sum.splits if_splits)

lemma strict_along_wild:
  assumes "list_all (section_ok True) ss" "wf_val c" "elements_along strict_elements ss [c] = Inr [x]"
  shows "elements_along section_elements ss [c] = Inr [x]"
  using assms
proof (induction ss arbitrary: c)
  case (Cons s ss)
  from Cons.prems(3) obtain es where es: "strict_elements s c = Inr es" "elements_along strict_elements ss es = Inr [x]"
    by (auto simp: rbind_eq_Inr)
  with strict_elements_le_1 obtain y where "es = [y]" by fastforce
  then show ?case using Cons es strict_element_wild[of s c y] by simp
qed simp

section \<open>Equal elements of a list\<close>

lemma py_eq_same: "wf_val x \<Longrightarrow> y = x \<Longrightarrow> py_eq x y"
  and py_eq_list_same: "list_all wf_val xs \<Longrightarrow> ys = xs \<Longrightarrow> py_eq_list xs ys"
  and py_eq_items_same:
    "list_all (\<lambda>(k, v). wf_val v) d \<Longrightarrow> list_all (\<lambda>(k, v). map_of e k = Some v) d \<Longrightarrow> py_eq_items d e"
proof (induction x y and xs ys and d e rule: py_eq_py_eq_list_py_eq_items.induct)
  case (6 d w)
  then have "\<forall>x\<in>set d. case x of (k, v) \<Rightarrow> map_of d k = Some v" by (auto intro: map_of_SomeI)
  with 6 show ?case by (simp add: list_all_iff)
qed (auto split: pyval.splits list.splits)

lemma py_index_first:
  assumes "i < length xs" "wf_val (xs ! i)" "\<And>j. j < i \<Longrightarrow> \<not> py_eq (xs ! j) (xs ! i)"
  shows "py_index xs (xs ! i) = Some i"
  using assms
proof (induction xs arbitrary: i)
  case (Cons x xs)
  show ?case
  proof (cases i)
    case 0
    then show ?thesis using Cons.prems(2) py_eq_same[of x x] by simp
  next
    case (Suc j)
    then have "\<not> py_eq x (xs ! j)" using Cons.prems(3)[of 0] by simp
    moreover have "py_index xs (xs ! j) = Some j"
      using Cons.IH[of j] Cons.prems Suc by (metis Suc_less_eq length_Cons nth_Cons_Suc)
    ultimately show ?thesis using Suc by simp
  qed
qed simp

lemma update_selected:
  assumes "positions P xs = [i]"
  shows "xs[i := v] = map (\<lambda>x. if P x then v else x) xs"
  using assms by (intro nth_equalityI) (auto simp: positions_sing nth_list_update)

section \<open>Properties\<close>

text \<open>C19: A value that is set under a path is found there again: when \<open>ComposedPath.set_element\<close>
  returns for a path that ends in a dictionary key, \<open>get_element\<close> on the resulting container returns
  exactly that value, and the outermost dictionary has kept every other key. The one thing
  the path must not do is overwrite an attribute by which one of its own list elements is
  selected.\<close>

theorem set_element_found:
  assumes "sections_ok True (expanded_path cp)" "independent (expanded_path cp)" "ends_in_key (expanded_path cp)"
    and "wf_val (PDict d)" "wf_val v"
    and "set_element (Composed_Path cp) v construct (PDict d) = Inr c'"
  shows "get_element (Composed_Path cp) False c' = Inr (c', v)
    \<and> (\<exists>d'. c' = PDict d' \<and> wf_val c' \<and> (\<forall>k. k \<noteq> section_key (hd (expanded_path cp)) \<longrightarrow> map_of d' k = map_of d k))"
proof -
  from assms set_along_get[of "expanded_path cp" "PDict d" v construct c']
  have "elements_along strict_elements (expanded_path cp) [c'] = Inr [v]" "wf_val c'"
    "\<exists>y. c' = PDict (dset d (section_key (hd (expanded_path cp))) y)"
    by (auto simp: sections_ok_def set_element_def)
  then show ?thesis
    by (auto simp: get_element_def composed_get_def composed_elements_dict)
qed

theorem set_element_found_witness:
  "get_element (Composed_Path \<lparr>path_text = ''l[a=x].b'', expanded_path =
      [Keyed_List ''l'' [(NormalValue ''a'', NormalValue ''x'')], In_Dict (NormalValue ''b'')]\<rparr>) False
     (PDict [(''k'', PInt 7), (''l'', PList [PDict [(''a'', PStr ''y'')], PDict [(''a'', PStr ''x''), (''b'', PBool True)]])])
   = Inr (PDict [(''k'', PInt 7), (''l'', PList [PDict [(''a'', PStr ''y'')], PDict [(''a'', PStr ''x''), (''b'', PBool True)]])], PBool True)"
proof -
  let ?cp = "\<lparr>path_text = ''l[a=x].b'', expanded_path =
      [Keyed_List ''l'' [(NormalValue ''a'', NormalValue ''x'')], In_Dict (NormalValue ''b'')]\<rparr>"
  have "set_element (Composed_Path ?cp) (PBool True) True
      (PDict [(''k'', PInt 7), (''l'', PList [PDict [(''a'', PStr ''y'')]])])
    = Inr (PDict [(''k'', PInt 7), (''l'', PList [PDict [(''a'', PStr ''y'')], PDict [(''a'', PStr ''x''), (''b'', PBool True)]])])"
    by code_simp
  from set_element_found[OF _ _ _ _ _ this] show ?thesis
    by (simp add: sections_ok_def key_ok_def ends_in_key_def wf_dict_def)
qed

text \<open>C20: Constructing never fails: whenever the outermost key of a path is absent from a
  dictionary (in particular in an empty one), \<open>set_element\<close> with \<open>construct\<close> succeeds for every path
  that does not overwrite its own selectors, building every container on the way.\<close>

theorem set_element_constructs:
  assumes "sections_ok True (expanded_path cp)" "independent (expanded_path cp)"
    and "wf_val (PDict d)" "map_of d (section_key (hd (expanded_path cp))) = None"
  shows "\<exists>c'. set_element (Composed_Path cp) v True (PDict d) = Inr c'"
  using assms set_along_total[of "expanded_path cp" d v] by (simp add: sections_ok_def set_element_def)

theorem set_element_constructs_witness:
  "\<exists>c'. set_element (Composed_Path \<lparr>path_text = ''l[a=x].b'', expanded_path =
      [Keyed_List ''l'' [(NormalValue ''a'', NormalValue ''x'')], In_Dict (NormalValue ''b'')]\<rparr>) PNone True (PDict []) = Inr c'"
  by (rule set_element_constructs) (simp_all add: sections_ok_def key_ok_def)

text \<open>C21: After a successful \<open>remove\<close> the path leads nowhere: \<open>get_elements\<close> returns the empty
  list, whether an element was removed, several matching elements were, or the path did not exist.\<close>

theorem removed_element_gone:
  assumes "sections_ok True (expanded_path cp)" "wf_val c" "remove_element (Composed_Path cp) c = Inr c'"
  shows "get_elements (Composed_Path cp) c' = Inr [] \<and> wf_val c'"
proof -
  have gone: "elements_along strict_elements (expanded_path cp) [c'] = Inr []" "wf_val c'"
    using assms remove_along_missing[of "expanded_path cp" c c'] by (auto simp: sections_ok_def remove_element_def)
  then show ?thesis
    by (auto simp: get_elements_def get_element_def composed_get_def composed_elements_def lookup_or_empty_def
        is_lookup_error_def)
qed

theorem removed_element_gone_witness:
  "get_elements (Composed_Path \<lparr>path_text = ''a.b'', expanded_path =
      [In_Dict (NormalValue ''a''), In_Dict (NormalValue ''b'')]\<rparr>) (PDict [(''a'', PDict [(''c'', PInt 2)])]) = Inr []"
  using removed_element_gone[of "\<lparr>path_text = ''a.b'', expanded_path =
      [In_Dict (NormalValue ''a''), In_Dict (NormalValue ''b'')]\<rparr>"
      "PDict [(''a'', PDict [(''b'', PInt 1), (''c'', PInt 2)])]" "PDict [(''a'', PDict [(''c'', PInt 2)])]"]
  by (simp add: sections_ok_def key_ok_def wf_dict_def remove_element_def dset_def)

text \<open>A strict path agrees with the wild path of the same text: whenever \<open>get_element\<close>
  finds an element, the generic \<open>get_elements\<close> of the wild path finds that element and no other.\<close>

theorem strict_path_is_wild_path:
  assumes "sections_ok True (expanded_path cp)" "wf_val c" "get_element (Composed_Path cp) False c = Inr (c', x)"
  shows "wild_get_elements (Composed_Path cp) c = Inr [x] \<and> c' = c"
proof -
  from assms(3) obtain es where es: "composed_elements strict_elements (expanded_path cp) c = Inr es"
      "(case es of [x] \<Rightarrow> Inr (c, x) | _ \<Rightarrow> Inl KeyError) = Inr (c', x)"
    unfolding get_element_def composed_get_def dict_path.case rbind_eq_Inr by auto
  then have "es = [x] \<and> c' = c" by (cases es rule: remdups_adj.cases) auto
  with es(1) have "c \<noteq> PNone" "elements_along strict_elements (expanded_path cp) [c] = Inr [x]" "c' = c"
    by (auto simp: composed_elements_def split: if_split_asm)
  then show ?thesis
    using assms strict_along_wild[of "expanded_path cp" c x]
    by (simp add: sections_ok_def wild_get_elements_def composed_elements_def)
qed

theorem strict_path_is_wild_path_witness:
  "wild_get_elements (Composed_Path \<lparr>path_text = ''a'', expanded_path = [In_Dict (NormalValue ''a'')]\<rparr>)
     (PDict [(''a'', PInt 3)]) = Inr [PInt 3]"
  using strict_path_is_wild_path[of "\<lparr>path_text = ''a'', expanded_path = [In_Dict (NormalValue ''a'')]\<rparr>"
      "PDict [(''a'', PInt 3)]" "PDict [(''a'', PInt 3)]" "PInt 3"]
  by (simp add: sections_ok_def key_ok_def wf_dict_def get_element_def composed_get_def composed_elements_def
      strict_elements_def lookup_or_empty_def get_section_def)

text \<open>\<open>KeyedList.set_element\<close> on a list whose elements are pairwise unequal: it replaces the one selected
  element in place, and when none is selected it appends the value; but when several are
  selected it also appends, instead of raising the documented \<open>LookupError\<close>.\<close>

theorem keyed_list_set_element:
  assumes "map_of d rel = Some (PList xs)" "wf_val (PDict d)"
    and "sorted_wrt (\<lambda>x y. \<not> py_eq x y) xs"
  shows "set_element (Section_Path (Keyed_List rel pairs)) v construct (PDict d) =
    Inr (PDict (dset d rel (PList
      (if length (filter (selected pairs) xs) = 1
       then map (\<lambda>x. if selected pairs x then v else x) xs else xs @ [v]))))"
proof -
  have len: "length (filter (selected pairs) xs) = length (positions (selected pairs) xs)"
    by (metis length_map map_positions)
  show ?thesis
  proof (cases "positions (selected pairs) xs" rule: remdups_adj.cases)
    case (2 i)
    then have "i < length xs" by (simp add: positions_sing)
    moreover have "list_all wf_val xs" using assms(1,2) wf_val_lookup[of d rel "PList xs"] by simp
    ultimately have "py_index xs (xs ! i) = Some i"
      using assms(3) by (intro py_index_first) (auto simp: list_all_iff sorted_wrt_iff_nth_less)
    then show ?thesis
      using 2 assms(1) \<open>i < length xs\<close> len update_selected[OF 2, of v]
      by (simp add: set_element_def get_section_def)
  qed (use assms(1) len in \<open>simp_all add: set_element_def get_section_def\<close>)
qed

theorem keyed_list_set_element_witness:
  "set_element (Section_Path (Keyed_List ''l'' [(NormalValue ''a'', NormalValue ''x'')])) PNone True
     (PDict [(''l'', PList [PDict [(''a'', PStr ''x''), (''n'', PInt 1)], PDict [(''a'', PStr ''x''), (''n'', PInt 2)]])])
   = Inr (PDict [(''l'', PList [PDict [(''a'', PStr ''x''), (''n'', PInt 1)], PDict [(''a'', PStr ''x''), (''n'', PInt 2)], PNone])])"
  using keyed_list_set_element[of "[(''l'', PList [PDict [(''a'', PStr ''x''), (''n'', PInt 1)], PDict [(''a'', PStr ''x''), (''n'', PInt 2)]])]" "''l''"
      "[PDict [(''a'', PStr ''x''), (''n'', PInt 1)], PDict [(''a'', PStr ''x''), (''n'', PInt 2)]]"
      "[(NormalValue ''a'', NormalValue ''x'')]" PNone True]
  by (simp add: wf_dict_def dset_def selected_def pair_matches_def)

text \<open>The list element to be replaced is looked up again with \<open>list.index\<close>, which compares with
  \<open>==\<close>, and \<open>1 == True\<close>: setting \<open>l[a=True]\<close> replaces the element whose \<open>a\<close> is 1, which the path does not
  select, and keeps the one it does.\<close>

theorem equal_element_replaced_instead:
  "set_element (Section_Path (Keyed_List ''l'' [(NormalValue ''a'', NormalValue ''True'')])) (PStr ''new'') True
     (PDict [(''l'', PList [PDict [(''a'', PInt 1)], PDict [(''a'', PBool True)]])])
   = Inr (PDict [(''l'', PList [PStr ''new'', PDict [(''a'', PBool True)]])])"
  by code_simp

end
