(* ===== verification/Path_Wildcards.thy ===== *)
theory Path_Wildcards
  imports Dict_Path_Laws
begin

text \<open>
  Resolving the wild cards of a dict path: for containers whose leaves are strings and whose
  keys and texts hold no escape sequences, the resolved paths reach exactly the elements that
  the wild path reaches.
\<close>

section \<open>Plain containers\<close>

definition plain_str :: "string \<Rightarrow> bool" where
  \<comment> \<open>a string that stands for itself as a data value of a path\<close>
  "plain_str s \<longleftrightarrow> create s = NormalValue s"

fun plain_tree :: "pyval \<Rightarrow> bool" where
  "plain_tree (PDict d) = list_all (\<lambda>(k, v). plain_str k \<and> plain_str (py_str v) \<and> plain_tree v) d"
| "plain_tree (PList xs) = list_all plain_tree xs"
| "plain_tree (PStr s) = True"
| "plain_tree _ = False"

fun resolvable :: "path_section \<Rightarrow> bool" where
  \<comment> \<open>no wild card as a key, and a relation that stands for itself\<close>
  "resolvable (In_Dict key) = (key \<noteq> NullValue)"
| "resolvable (Keyed_List rel pairs) =
     (plain_str rel \<and> pairs \<noteq> [] \<and> distinct (map fst pairs) \<and> list_all (\<lambda>(k, v). \<exists>s. k = NormalValue s) pairs)"

lemma plain_lookup: "plain_tree (PDict d) \<Longrightarrow> (k, v) \<in> set d \<Longrightarrow> plain_str k \<and> plain_str (py_str v) \<and> plain_tree v"
  unfolding plain_tree.simps list_all_iff by (drule (1) bspec) simp

lemma plain_member: "plain_tree (PList xs) \<Longrightarrow> x \<in> set xs \<Longrightarrow> plain_tree x"
  by (simp add: list_all_iff)

lemma plain_map_of: "plain_tree (PDict d) \<Longrightarrow> map_of d k = Some v \<Longrightarrow> plain_tree v"
  using plain_lookup[of d k v] map_of_SomeD[of d k v] by blast

lemma plain_matches: "plain_tree v \<Longrightarrow> matches (NormalValue s) v \<longleftrightarrow> s = py_str v"
  by (cases v) (auto simp: normal_matches_def split: option.splits)

lemma plain_no_null: "plain_tree v \<Longrightarrow> \<not> matches NullValue v"
  by (cases v) auto

lemma plain_same_text:
  "plain_tree v \<Longrightarrow> plain_tree v' \<Longrightarrow> matches val v \<Longrightarrow> py_str v' = py_str v \<Longrightarrow> matches val v'"
  using plain_matches plain_no_null by (cases val) auto

lemma mk_in_dict_plain: "plain_str k \<Longrightarrow> mk_in_dict strict k = Inr (In_Dict (NormalValue k))"
  by (simp add: mk_in_dict_def plain_str_def)

section \<open>Reading\<close>

lemma section_elements_in_dict:
  assumes "section_elements (In_Dict key) c = Inr es"
  obtains d where "c = PDict d" "es = map snd (filter (\<lambda>(k, v). matches key (PStr k)) d)"
  using assms by (cases c) auto

lemma section_elements_keyed_list:
  assumes "section_elements (Keyed_List rel pairs) c = Inr es"
  obtains (absent) d where "c = PDict d" "map_of d rel = None" "es = []"
  | (present) d xs where "c = PDict d" "map_of d rel = Some (PList xs)" "es = filter (selected pairs) xs"
proof -
  from assms obtain d where d: "c = PDict d" by (cases c) auto
  show ?thesis
  proof (cases "map_of d rel")
    case None
    then show ?thesis using absent[OF d] assms d by simp
  next
    case (Some inner)
    then show ?thesis using present[OF d] assms d by (cases inner) auto
  qed
qed

lemma section_elements_plain:
  assumes plain: "plain_tree c" and "section_elements s c = Inr es" "x \<in> set es"
  shows "plain_tree x"
proof (cases s)
  case (In_Dict key)
  from assms(2)[unfolded In_Dict] obtain d where d: "c = PDict d" "es = map snd (filter (\<lambda>(k, v). matches key (PStr k)) d)"
    by (rule section_elements_in_dict)
  then obtain k where "(k, x) \<in> set d" using assms(3) by auto
  then show ?thesis using plain_lookup plain[unfolded d(1)] by blast
next
  case (Keyed_List rel pairs)
  from assms(2)[unfolded Keyed_List] show ?thesis
  proof (cases rule: section_elements_keyed_list)
    case (present d xs)
    then have "plain_tree (PList xs)" using plain_map_of plain by blast
    then show ?thesis using present(3) assms(3) by (simp add: list_all_iff)
  qed (use assms(3) in simp)
qed

lemma elements_along_append:
  "elements_along get ss (cs @ cs') = Inr es \<Longrightarrow>
   \<exists>a b. elements_along get ss cs = Inr a \<and> elements_along get ss cs' = Inr b \<and> es = a @ b"
proof (induction ss arbitrary: cs cs')
  case (Cons s ss)
  from Cons.prems obtain ns where ns: "rmap (get s) (cs @ cs') = Inr ns" "elements_along get ss (concat ns) = Inr es"
    by (auto simp: rbind_eq_Inr)
  from rmap_append[OF ns(1)] obtain a b where "rmap (get s) cs = Inr a" "rmap (get s) cs' = Inr b" "ns = a @ b"
    by blast
  with Cons.IH[of "concat a" "concat b"] ns(2) show ?case by simp
qed simp

lemma elements_along_step:
  "elements_along get (s # ss) [c] = rbind (get s c) (\<lambda>es. elements_along get ss es)"
  by (cases "get s c") auto

lemma elements_along_one:
  assumes "elements_along get ss cs = Inr es" "c \<in> set cs"
  shows "\<exists>es1. elements_along get ss [c] = Inr es1 \<and> set es1 \<subseteq> set es"
proof -
  obtain a b where "cs = a @ [c] @ b" using assms(2) by (metis append_Cons append_Nil split_list)
  with assms(1) obtain x y where y: "elements_along get ss ([c] @ b) = Inr y" "es = x @ y"
    using elements_along_append[of get ss a "[c] @ b" es] by blast
  from elements_along_append[OF y(1)] y(2) show ?thesis by auto
qed

lemma elements_along_from:
  assumes "elements_along get ss cs = Inr es" "x \<in> set es"
  shows "\<exists>c \<in> set cs. \<exists>es1. elements_along get ss [c] = Inr es1 \<and> x \<in> set es1"
  using assms
proof (induction cs arbitrary: es)
  case Nil
  then show ?case by simp
next
  case (Cons c cs)
  from elements_along_append[of get ss "[c]" cs es] Cons.prems(1) obtain a b where
    ab: "elements_along get ss [c] = Inr a" "elements_along get ss cs = Inr b" "es = a @ b" by auto
  show ?case
  proof (cases "x \<in> set a")
    case True
    then show ?thesis using ab by auto
  next
    case False
    then show ?thesis using Cons.IH[OF ab(2)] Cons.prems(2) ab(3) by auto
  qed
qed

section \<open>Narrower paths\<close>

definition narrows :: "path_section \<Rightarrow> path_section \<Rightarrow> bool" where
  \<comment> \<open>on every plain container where the second can be read, so can the first, and it reaches no more\<close>
  "narrows p s \<longleftrightarrow> (\<forall>c es. plain_tree c \<and> section_elements s c = Inr es \<longrightarrow>
     (\<exists>es'. section_elements p c = Inr es' \<and> set es' \<subseteq> set es))"

lemma narrows_along:
  assumes "list_all2 narrows ps ss" "elements_along section_elements ss cs = Inr es"
    and "set cs' \<subseteq> set cs" "\<forall>c \<in> set cs. plain_tree c"
  shows "\<exists>es'. elements_along section_elements ps cs' = Inr es' \<and> set es' \<subseteq> set es"
  using assms
proof (induction ps ss arbitrary: cs cs' rule: list_all2_induct)
  case Nil
  then show ?case by simp
next
  case (Cons p ps s ss)
  from Cons.prems(1) obtain ns where ns: "rmap (section_elements s) cs = Inr ns"
      "elements_along section_elements ss (concat ns) = Inr es"
    by (auto simp: rbind_eq_Inr)
  have each: "\<exists>a. section_elements s c = Inr a \<and> a \<in> set ns" if "c \<in> set cs" for c
    using rmap_memI[OF ns(1) that] by blast
  have one: "\<exists>a'. section_elements p c = Inr a' \<and> set a' \<subseteq> set (concat ns)" if "c \<in> set cs'" for c
  proof -
    have "c \<in> set cs" using that Cons.prems(2) by blast
    moreover from each[OF this] obtain a where a: "section_elements s c = Inr a" "a \<in> set ns" by blast
    ultimately obtain a' where "section_elements p c = Inr a'" "set a' \<subseteq> set a"
      using Cons.hyps(1) Cons.prems(3) unfolding narrows_def by blast
    then show ?thesis using a(2) by auto
  qed
  then obtain ns' where ns': "rmap (section_elements p) cs' = Inr ns'" using rmap_total by metis
  have "set (concat ns') \<subseteq> set (concat ns)"
  proof
    fix x assume "x \<in> set (concat ns')"
    then obtain a' where "a' \<in> set ns'" "x \<in> set a'" by auto
    then obtain c where "c \<in> set cs'" "section_elements p c = Inr a'"
      using rmap_memD[OF ns'] by blast
    with one[of c] \<open>x \<in> set a'\<close> show "x \<in> set (concat ns)" by auto
  qed
  moreover have "\<forall>c \<in> set (concat ns). plain_tree c"
    using rmap_memD[OF ns(1)] Cons.prems(3) section_elements_plain[of _ s] by fastforce
  ultimately show ?case using Cons.IH[OF ns(2)] ns' by auto
qed

section \<open>Resolving one section\<close>

lemma narrows_in_dict:
  assumes "matches key (PStr k)" "key \<noteq> NullValue"
  shows "narrows (In_Dict (NormalValue k)) (In_Dict key)"
  unfolding narrows_def
proof (intro allI impI, elim conjE)
  fix c es assume "plain_tree c" "section_elements (In_Dict key) c = Inr es"
  from this(2) obtain d where "c = PDict d" "es = map snd (filter (\<lambda>(k, v). matches key (PStr k)) d)"
    by (rule section_elements_in_dict)
  then show "\<exists>es'. section_elements (In_Dict (NormalValue k)) c = Inr es' \<and> set es' \<subseteq> set es"
    using assms by (cases key) auto
qed

definition item_text :: "string \<times> pyval \<Rightarrow> path_value \<times> path_value" where
  "item_text = (\<lambda>(k, v). (NormalValue k, NormalValue (py_str v)))"

lemma parse_item_plain:
  "plain_str k \<Longrightarrow> plain_str (py_str v) \<Longrightarrow> parse_pair False (k, py_str v) = Inr (item_text (k, v))"
  by (simp add: parse_pair_def parse_key_def parse_value_def plain_str_def item_text_def)

lemma mk_keyed_list_plain:
  assumes "plain_str rel" "its \<noteq> []" "distinct (map fst its)" "\<forall>(k, v) \<in> set its. plain_str k \<and> plain_str (py_str v)"
  shows "mk_keyed_list False rel (map (\<lambda>(k, v). (k, py_str v)) its) = Inr (Keyed_List rel (map item_text its))"
proof -
  have "rmap (parse_pair False) (map (\<lambda>(k, v). (k, py_str v)) its) = Inr (map item_text its)"
    unfolding rmap_map using assms(4) parse_item_plain by (intro rmap_Inr) auto
  moreover have "map fst (map (\<lambda>(k, v). (k, py_str v)) its) = map fst its" by (induction its) auto
  ultimately show ?thesis using assms(1-3) by (simp add: mk_keyed_list_def plain_str_def comp_def split_beta)
qed

lemma narrows_keyed_list:
  assumes its: "list_all2 (\<lambda>p it. pair_matches p it \<and> plain_tree (snd it)) pairs its"
    and keys: "list_all (\<lambda>(k, v). \<exists>s. k = NormalValue s) pairs"
  shows "narrows (Keyed_List rel (map item_text its)) (Keyed_List rel pairs)"
  unfolding narrows_def
proof (intro allI impI, elim conjE)
  fix c es assume c: "plain_tree c" "section_elements (Keyed_List rel pairs) c = Inr es"
  have sel: "selected pairs x" if x: "selected (map item_text its) x" "plain_tree x" for x
  proof -
    obtain e where e: "x = PDict e" using x(1) selected_dict by blast
    have "list_ex (pair_matches p) e" if "p \<in> set pairs" for p
    proof -
      from that obtain i where "i < length pairs" "p = pairs ! i" by (auto simp: in_set_conv_nth)
      with its obtain it where it: "it \<in> set its" "pair_matches p it" "plain_tree (snd it)"
        using nth_mem[of i its] by (intro that[of "its ! i"]) (auto simp: list_all2_conv_all_nth)
      obtain a where a: "fst p = NormalValue a" using keys \<open>p \<in> set pairs\<close> by (auto simp: list_all_iff)
      from x(1) it(1) obtain k v where kv: "(k, v) \<in> set e" "pair_matches (item_text it) (k, v)"
        unfolding e selected_def by (auto simp: list_all_iff list_ex_iff)
      have pv: "plain_tree v" using plain_lookup x(2) kv(1) unfolding e by blast
      have "k = fst it" "py_str v = py_str (snd it)"
        using kv(2) plain_matches[OF pv] by (cases it; simp add: item_text_def pair_matches_strict)+
      moreover have "fst it = a" "matches (snd p) (snd it)"
        using it(2) a by (cases p; cases it; simp add: pair_matches_strict)+
      ultimately have "pair_matches p (k, v)"
        using plain_same_text[OF it(3) pv] a by (cases p) (simp add: pair_matches_strict)
      then show ?thesis using kv(1) by (auto simp: list_ex_iff)
    qed
    then show ?thesis by (simp add: e selected_def list_all_iff)
  qed
  from c(2) show "\<exists>es'. section_elements (Keyed_List rel (map item_text its)) c = Inr es' \<and> set es' \<subseteq> set es"
  proof (cases rule: section_elements_keyed_list)
    case (present d xs)
    then have "plain_tree (PList xs)" using plain_map_of c(1) by blast
    then show ?thesis using present sel by (auto simp: list_all_iff)
  qed simp
qed

lemma in_concat_map: "x \<in> set xs \<Longrightarrow> y \<in> set (f x) \<Longrightarrow> y \<in> set (concat (map f xs))"
  by auto

lemma product_lists_map: "product_lists (map (map f) xss) = map (map f) (product_lists xss)"
  by (induction xss) (simp_all add: map_concat comp_def)

definition resolved_item :: "(path_value \<times> path_value) list \<Rightarrow> (string \<times> pyval) list \<Rightarrow> (string \<times> pyval) list \<Rightarrow> bool" where
  "resolved_item pairs e its \<longleftrightarrow> list_all2 (\<lambda>p it. it \<in> set e \<and> pair_matches p it) pairs its"

lemma set_resolved:
  "set (product_lists (map (\<lambda>p. filter (pair_matches p) e) pairs)) = {its. resolved_item pairs e its}"
proof -
  have "list_all2 (\<lambda>x ys. x \<in> set ys) its (map (\<lambda>p. filter (pair_matches p) e) pairs) \<longleftrightarrow> resolved_item pairs e its" for its
    unfolding resolved_item_def by (auto simp: list_all2_conv_all_nth)
  then show ?thesis by (simp add: product_lists_set)
qed

lemma resolved_item_ok:
  assumes "resolved_item pairs e its" "plain_tree (PDict e)" "resolvable (Keyed_List rel pairs)"
  shows "mk_keyed_list False rel (map (\<lambda>(k, v). (k, py_str v)) its) = Inr (Keyed_List rel (map item_text its))
    \<and> narrows (Keyed_List rel (map item_text its)) (Keyed_List rel pairs)
    \<and> section_ok True (Keyed_List rel (map item_text its)) = (rel \<noteq> [] \<and> (\<forall>it \<in> set its. fst it \<noteq> []))"
proof -
  have keys: "list_all (\<lambda>(k, v). \<exists>s. k = NormalValue s) pairs" "distinct (map fst pairs)" "pairs \<noteq> []" "plain_str rel"
    using assms(3) by auto
  have plain: "plain_str (fst it) \<and> plain_str (py_str (snd it)) \<and> plain_tree (snd it)" if "it \<in> set e" for it
    using plain_lookup[OF assms(2), of "fst it" "snd it"] that by simp
  have its: "list_all2 (\<lambda>p it. pair_matches p it \<and> plain_tree (snd it)) pairs its"
    using assms(1) plain unfolding resolved_item_def by (auto elim!: list_all2_mono)
  have mem: "it \<in> set e" if "it \<in> set its" for it
    using that assms(1) unfolding resolved_item_def by (auto simp: list_all2_conv_all_nth in_set_conv_nth)
  have "map fst pairs = map NormalValue (map fst its)"
    using assms(1) keys(1) unfolding resolved_item_def
  proof (induction rule: list_all2_induct)
    case (Cons p ps it its)
    then show ?case by (cases p; cases it) (auto simp: pair_matches_strict)
  qed simp
  then have "distinct (map fst its)" using keys(2) by (metis distinct_map)
  moreover have "its \<noteq> []" using assms(1) keys(3) by (auto simp: resolved_item_def)
  moreover have "\<forall>(k, v) \<in> set its. plain_str k \<and> plain_str (py_str v)" using mem plain by fastforce
  ultimately show ?thesis
    using mk_keyed_list_plain[OF keys(4)] narrows_keyed_list[OF its keys(1)]
    by (auto simp: list_all_iff item_text_def key_ok_def split_beta comp_def distinct_map inj_on_def)
qed

lemma resolve_section_exact:
  assumes plain: "plain_tree c" and res: "resolvable s" and read: "section_elements s c = Inr es"
  shows "\<exists>ps. resolve_section s c = Inr ps \<and> (\<forall>p \<in> set ps. narrows p s)
    \<and> (\<forall>x \<in> set es. \<exists>p \<in> set ps. \<exists>es'. section_elements p c = Inr es' \<and> x \<in> set es')"
proof (cases s)
  case (In_Dict key)
  from read[unfolded In_Dict] obtain d where d: "c = PDict d" "es = map snd (filter (\<lambda>(k, v). matches key (PStr k)) d)"
    by (rule section_elements_in_dict)
  let ?items = "filter (\<lambda>(k, v). matches key (PStr k)) d"
  have "plain_str k" if "(k, v) \<in> set d" for k v
    using plain_lookup[of d k v] plain that d(1) by blast
  then have "rmap (\<lambda>(k, v). mk_in_dict False k) ?items = Inr (map (\<lambda>(k, v). In_Dict (NormalValue k)) ?items)"
    by (intro rmap_Inr) (auto simp: mk_in_dict_plain)
  then have r: "resolve_section s c = Inr (map (\<lambda>(k, v). In_Dict (NormalValue k)) ?items)"
    by (simp add: In_Dict d(1))
  have "narrows p s" if "p \<in> set (map (\<lambda>(k, v). In_Dict (NormalValue k)) ?items)" for p
    using that res narrows_in_dict[of key] In_Dict by auto
  moreover have "\<exists>p \<in> set (map (\<lambda>(k, v). In_Dict (NormalValue k)) ?items). \<exists>es'. section_elements p c = Inr es' \<and> x \<in> set es'"
    if "x \<in> set es" for x
  proof -
    from that d(2) obtain k where k: "(k, x) \<in> set ?items" by auto
    then have "x \<in> set (map snd (filter (\<lambda>(k', v). matches (NormalValue k) (PStr k')) d))" by force
    then show ?thesis using k d(1) by (intro bexI[of _ "In_Dict (NormalValue k)"]) auto
  qed
  ultimately show ?thesis using r by blast
next
  case (Keyed_List rel pairs)
  have no_wild: "\<not> list_ex (\<lambda>(k, v). k = WildCardValue) pairs"
    using res Keyed_List by (auto simp: list_all_iff list_ex_iff)
  from read[unfolded Keyed_List] show ?thesis
  proof (cases rule: section_elements_keyed_list)
    case (absent d)
    then show ?thesis using no_wild Keyed_List by auto
  next
    case (present d xs)
    let ?its = "\<lambda>x. case x of PDict e \<Rightarrow> product_lists (map (\<lambda>p. filter (pair_matches p) e) pairs) | _ \<Rightarrow> []"
    let ?mk = "\<lambda>its. Keyed_List rel (map item_text its)"
    let ?emit = "\<lambda>x. case x of
                PDict e \<Rightarrow>
                  rmap (mk_keyed_list False rel)
                    (product_lists (map (\<lambda>p. map (\<lambda>(k, v). (k, py_str v)) (filter (pair_matches p) e)) pairs))
              | _ \<Rightarrow> Inr []"
    have xs: "plain_tree (PList xs)" using plain_map_of plain present by blast
    have emit: "?emit x = Inr (map ?mk (?its x))" if "x \<in> set xs" for x
    proof (cases x)
      case (PDict e)
      have "plain_tree (PDict e)" using plain_member[OF xs that] unfolding PDict .
      then have "mk_keyed_list False rel (map (\<lambda>(k, v). (k, py_str v)) its) = Inr (?mk its)" if "its \<in> set (?its x)" for its
        using that resolved_item_ok[of pairs e its rel] set_resolved[of e pairs] res Keyed_List PDict by auto
      then have "rmap (mk_keyed_list False rel) (map (map (\<lambda>(k, v). (k, py_str v))) (?its x)) = Inr (map ?mk (?its x))"
        unfolding rmap_map by (rule rmap_Inr)
      then show ?thesis using PDict by (simp add: comp_def flip: product_lists_map)
    qed auto
    then have r: "resolve_section s c = Inr (concat (map (\<lambda>x. map ?mk (?its x)) xs))"
      using no_wild Keyed_List present rmap_Inr[of xs ?emit, OF emit] by simp
    have "narrows p s" if p: "p \<in> set (concat (map (\<lambda>x. map ?mk (?its x)) xs))" for p
    proof -
      from p obtain x its where x: "x \<in> set xs" "its \<in> set (?its x)" "p = ?mk its" by auto
      then obtain e where e: "x = PDict e" by (cases x) auto
      have "plain_tree (PDict e)" using plain_member[OF xs x(1)] unfolding e .
      then show ?thesis
        using x(2,3) e set_resolved[of e pairs] resolved_item_ok[of pairs e its rel] res Keyed_List by auto
    qed
    moreover have "\<exists>p \<in> set (concat (map (\<lambda>x. map ?mk (?its x)) xs)). \<exists>es'. section_elements p c = Inr es' \<and> x \<in> set es'"
      if "x \<in> set es" for x
    proof -
      from that present have x: "x \<in> set xs" "selected pairs x" by auto
      then obtain e where e: "x = PDict e" using selected_dict by blast
      have plain_e: "plain_tree (PDict e)" using plain_member[OF xs x(1)] unfolding e .
      have "\<forall>p \<in> set pairs. \<exists>it \<in> set e. pair_matches p it"
        using x(2) e by (simp add: selected_def list_all_iff list_ex_iff)
      then obtain pick where pick: "\<And>p. p \<in> set pairs \<Longrightarrow> pick p \<in> set e \<and> pair_matches p (pick p)" by metis
      let ?picked = "map pick pairs"
      have "resolved_item pairs e ?picked"
        unfolding resolved_item_def using pick by (auto simp: list_all2_conv_all_nth)
      then have member: "?picked \<in> set (?its x)" using set_resolved[of e pairs] e by auto
      have "pair_matches (item_text it) it" if it: "it \<in> set e" for it
      proof -
        have "plain_tree (snd it)" using plain_lookup[OF plain_e, of "fst it" "snd it"] it by simp
        from plain_matches[OF this, of "py_str (snd it)"] show ?thesis
          unfolding item_text_def split_beta by (subst (2) surjective_pairing) (simp add: pair_matches_strict del: prod.collapse)
      qed
      then have "\<exists>it \<in> set e. pair_matches (item_text (pick p)) it" if "p \<in> set pairs" for p
        using pick[OF that] by blast
      then have "selected (map item_text ?picked) x"
        by (simp add: e selected_def list_all_iff list_ex_iff)
      then have "section_elements (?mk ?picked) c = Inr (filter (selected (map item_text ?picked)) xs)
          \<and> x \<in> set (filter (selected (map item_text ?picked)) xs)"
        using present x(1) by simp
      moreover have "?mk ?picked \<in> set (concat (map (\<lambda>x. map ?mk (?its x)) xs))"
        using x(1) by (rule in_concat_map) (unfold set_map, rule image_eqI[OF refl member])
      ultimately show ?thesis by blast
    qed
    ultimately show ?thesis using r by blast
  qed
qed

section \<open>Resolving a path\<close>

lemma narrows_subset:
  assumes "list_all2 narrows ps ss" "elements_along section_elements ss [c] = Inr es" "plain_tree c"
  shows "\<exists>es'. elements_along section_elements ps [c] = Inr es' \<and> set es' \<subseteq> set es"
  using narrows_along[OF assms(1,2)] assms(3) by simp

lemma resolve_sections_exact:
  assumes "ss \<noteq> []" "list_all resolvable ss" "plain_tree c" "elements_along section_elements ss [c] = Inr es"
  shows "\<exists>pss. resolve_sections ss c = Inr pss \<and> (\<forall>ps \<in> set pss. list_all2 narrows ps ss)
    \<and> (\<forall>x \<in> set es. \<exists>ps \<in> set pss. \<exists>es'. elements_along section_elements ps [c] = Inr es' \<and> x \<in> set es')"
  using assms
proof (induction ss arbitrary: c es rule: induct_list012)
  case (2 s)
  have c: "c \<noteq> PNone" using 2(3) by auto
  from 2(4) have read: "section_elements s c = Inr es" by (auto simp: rbind_eq_Inr)
  from resolve_section_exact[OF 2(3) _ read] 2(2) obtain ps where ps: "resolve_section s c = Inr ps"
      "\<forall>p \<in> set ps. narrows p s" "\<forall>x \<in> set es. \<exists>p \<in> set ps. \<exists>es'. section_elements p c = Inr es' \<and> x \<in> set es'"
    by auto
  have "\<exists>qs \<in> set (map (\<lambda>p. [p]) ps). \<exists>es'. elements_along section_elements qs [c] = Inr es' \<and> x \<in> set es'"
    if "x \<in> set es" for x
  proof -
    from ps(3) that obtain p es' where "p \<in> set ps" "section_elements p c = Inr es'" "x \<in> set es'" by blast
    then show ?thesis by (intro bexI[of _ "[p]"]) auto
  qed
  then show ?case using ps c by auto
next
  case (3 s t ss)
  have c: "c \<noteq> PNone" using 3(5) by auto
  from 3(6) obtain es1 where es1: "section_elements s c = Inr es1" "elements_along section_elements (t # ss) es1 = Inr es"
    unfolding elements_along_step by (auto simp: rbind_eq_Inr)
  from resolve_section_exact[OF 3(5) _ es1(1)] 3(4) obtain ps where ps: "resolve_section s c = Inr ps"
      "\<forall>p \<in> set ps. narrows p s" "\<forall>x \<in> set es1. \<exists>p \<in> set ps. \<exists>es'. section_elements p c = Inr es' \<and> x \<in> set es'"
    by auto
  have rest: "\<exists>pss. resolve_sections (t # ss) e = Inr pss \<and> (\<forall>ps \<in> set pss. list_all2 narrows ps (t # ss))
      \<and> (\<forall>es2. elements_along section_elements (t # ss) [e] = Inr es2 \<longrightarrow>
           (\<forall>x \<in> set es2. \<exists>ps \<in> set pss. \<exists>es'. elements_along section_elements ps [e] = Inr es' \<and> x \<in> set es'))"
    if e: "e \<in> set es1" for e
  proof -
    obtain es2 where "elements_along section_elements (t # ss) [e] = Inr es2"
      using elements_along_one[OF es1(2) e] by blast
    with "3.IH"(2)[of e es2] section_elements_plain[OF 3(5) es1(1) e] 3(4) show ?thesis by auto
  qed
  let ?after = "\<lambda>p. rbind (section_elements p c) (\<lambda>es. rbind (rmap (resolve_sections (t # ss)) es) (\<lambda>rests.
      Inr (map (Cons p) (concat rests))))"
  have after: "\<exists>esp rests. section_elements p c = Inr esp \<and> set esp \<subseteq> set es1
      \<and> rmap (resolve_sections (t # ss)) esp = Inr rests \<and> ?after p = Inr (map (Cons p) (concat rests))"
    if "p \<in> set ps" for p
  proof -
    from ps(2) that es1(1) 3(5) obtain esp where esp: "section_elements p c = Inr esp" "set esp \<subseteq> set es1"
      unfolding narrows_def by blast
    have "\<exists>y. resolve_sections (t # ss) e = Inr y" if "e \<in> set esp" for e
      using rest[of e] that esp(2) by blast
    then obtain rests where "rmap (resolve_sections (t # ss)) esp = Inr rests" using rmap_total by metis
    with esp show ?thesis by simp
  qed
  then obtain pss where pss: "rmap ?after ps = Inr pss" using rmap_total[of ps ?after] by blast
  have r: "resolve_sections (s # t # ss) c = Inr (concat pss)" using c ps(1) pss by simp
  have narrow: "list_all2 narrows qs (s # t # ss)" if qs: "qs \<in> set (concat pss)" for qs
  proof -
    from qs obtain group where g: "group \<in> set pss" "qs \<in> set group" by auto
    from rmap_memD[OF pss g(1)] obtain p where p: "p \<in> set ps" "?after p = Inr group" by blast
    from after[OF p(1)] p(2) obtain esp rests where a: "section_elements p c = Inr esp" "set esp \<subseteq> set es1"
        "rmap (resolve_sections (t # ss)) esp = Inr rests" "group = map (Cons p) (concat rests)" by auto
    from g(2) a(4) obtain qs' rs where q: "qs = p # qs'" "qs' \<in> set rs" "rs \<in> set rests" by auto
    from rmap_memD[OF a(3) q(3)] obtain e where "e \<in> set esp" "resolve_sections (t # ss) e = Inr rs" by blast
    with rest[of e] a(2) q(2) have "list_all2 narrows qs' (t # ss)" by fastforce
    then show ?thesis using q(1) ps(2) p(1) by simp
  qed
  moreover have "\<exists>qs \<in> set (concat pss). \<exists>es'. elements_along section_elements qs [c] = Inr es' \<and> x \<in> set es'"
    if x: "x \<in> set es" for x
  proof -
    from elements_along_from[OF es1(2) x] obtain e es2 where e: "e \<in> set es1"
        "elements_along section_elements (t # ss) [e] = Inr es2" "x \<in> set es2" by blast
    from ps(3) e(1) obtain p esp where p: "p \<in> set ps" "section_elements p c = Inr esp" "e \<in> set esp" by blast
    from after[OF p(1)] p(2) obtain rests where a: "set esp \<subseteq> set es1"
        "rmap (resolve_sections (t # ss)) esp = Inr rests" "?after p = Inr (map (Cons p) (concat rests))" by auto
    from rmap_memI[OF a(2) p(3)] obtain rs where rs: "rs \<in> set rests" "resolve_sections (t # ss) e = Inr rs" by blast
    from rest[OF e(1)] rs(2) e(2,3) obtain qs es3 where q: "qs \<in> set rs"
        "elements_along section_elements qs [e] = Inr es3" "x \<in> set es3" by auto
    have "map (Cons p) (concat rests) \<in> set pss" using rmap_memI[OF pss p(1)] a(3) by auto
    moreover have "p # qs \<in> set (map (Cons p) (concat rests))" using rs(1) q(1) by auto
    ultimately have member: "p # qs \<in> set (concat pss)" unfolding set_concat by blast
    obtain es' where es': "elements_along section_elements (p # qs) [c] = Inr es'"
      using narrows_subset[OF narrow[OF member] 3(6) 3(5)] by blast
    then have "elements_along section_elements qs esp = Inr es'" using p(2) by (auto simp: rbind_eq_Inr)
    from elements_along_one[OF this p(3)] q(2,3) have "x \<in> set es'" by auto
    then show ?thesis using member es' by blast
  qed
  ultimately show ?case using r by blast
qed simp

section \<open>Properties\<close>

text \<open>C25: Resolving the wild cards of a composed path is exact: on a container of dictionaries, lists and
  strings without escape sequences, if the path can be read and has no wild card as the key of
  a selector, then \<open>resolve_wild_cards\<close> succeeds, every path it returns can be read, and together
  they reach exactly the elements that the path itself reaches.\<close>

theorem resolve_wild_cards_exact:
  assumes "expanded_path cp \<noteq> []" "list_all resolvable (expanded_path cp)" "plain_tree c"
    and "wild_get_elements (Composed_Path cp) c = Inr es"
  shows "\<exists>paths. resolve_wild_cards (Composed_Path cp) c = Inr paths
    \<and> (\<forall>p \<in> set paths. \<exists>es'. wild_get_elements p c = Inr es')
    \<and> {x. \<exists>p \<in> set paths. \<exists>es'. wild_get_elements p c = Inr es' \<and> x \<in> set es'} = set es"
proof -
  have c: "c \<noteq> PNone" using assms(3) by auto
  have along: "elements_along section_elements (expanded_path cp) [c] = Inr es"
    using assms(4) c by (simp add: wild_get_elements_def composed_elements_def)
  from resolve_sections_exact[OF assms(1-3) along] obtain pss where
    pss: "resolve_sections (expanded_path cp) c = Inr pss" "\<forall>ps \<in> set pss. list_all2 narrows ps (expanded_path cp)"
    "\<forall>x \<in> set es. \<exists>ps \<in> set pss. \<exists>es'. elements_along section_elements ps [c] = Inr es' \<and> x \<in> set es'" by blast
  let ?path = "\<lambda>ss. Composed_Path (composed_of_sections ss)"
  have read: "wild_get_elements (?path ss) c = elements_along section_elements ss [c]" for ss
    using c by (simp add: wild_get_elements_def composed_elements_def composed_of_sections_def)
  have "\<exists>es'. elements_along section_elements ps [c] = Inr es' \<and> set es' \<subseteq> set es" if "ps \<in> set pss" for ps
    using narrows_subset[OF _ along assms(3)] pss(2) that by blast
  moreover have "resolve_wild_cards (Composed_Path cp) c = Inr (map ?path pss)"
    using pss(1) by (simp add: resolve_wild_cards_def)
  ultimately show ?thesis using pss(3) by (intro exI[of _ "map ?path pss"]) (fastforce simp: read)
qed

theorem resolve_wild_cards_exact_witness:
  "\<exists>paths. resolve_wild_cards (Composed_Path \<lparr>path_text = ''*.l[a=*].b'', expanded_path =
       [In_Dict WildCardValue, Keyed_List ''l'' [(NormalValue ''a'', WildCardValue)], In_Dict (NormalValue ''b'')]\<rparr>)
     (PDict [(''x'', PDict [(''l'', PList [PDict [(''a'', PStr ''1''), (''b'', PStr ''u'')], PDict [(''a'', PStr ''2''), (''b'', PStr ''v'')]])])])
   = Inr paths
   \<and> {x. \<exists>p \<in> set paths. \<exists>es'. wild_get_elements p
       (PDict [(''x'', PDict [(''l'', PList [PDict [(''a'', PStr ''1''), (''b'', PStr ''u'')], PDict [(''a'', PStr ''2''), (''b'', PStr ''v'')]])])])
      = Inr es' \<and> x \<in> set es'} = {PStr ''u'', PStr ''v''}"
proof -
  let ?c = "PDict [(''x'', PDict [(''l'', PList [PDict [(''a'', PStr ''1''), (''b'', PStr ''u'')], PDict [(''a'', PStr ''2''), (''b'', PStr ''v'')]])])]"
  let ?cp = "\<lparr>path_text = ''*.l[a=*].b'', expanded_path =
       [In_Dict WildCardValue, Keyed_List ''l'' [(NormalValue ''a'', WildCardValue)], In_Dict (NormalValue ''b'')]\<rparr>"
  have plain: "plain_tree ?c" by code_simp
  have read: "wild_get_elements (Composed_Path ?cp) ?c = Inr [PStr ''u'', PStr ''v'']" by code_simp
  have "list_all resolvable (expanded_path ?cp)" by (simp add: plain_str_def create_def)
  from resolve_wild_cards_exact[OF _ this plain read] show ?thesis by auto
qed

end
