(* ===== verification/Task_Runner.thy ===== *)
theory Task_Runner
  imports Resource_Scheduler
begin

text \<open>
  \<open>TaskRunner\<close> of \<open>src/src/inmanta/deploy/scheduler.py\<close>: the main loop of one agent and the
  notifications that start and stop it, as a step relation. Each step is the code between two
  points at which the event loop may switch to another coroutine: a notification decides under its lock, with an answer
  of \<open>should_runner_be_running\<close> that may be outdated by then, and the main loop is observed before its check, in
  \<open>queue_get\<close> and in the execution of a task. The second half composes the runners with the
  scheduler that suspends and resumes them.
\<close>

section \<open>One runner\<close>

datatype agent_status = STARTED | STOPPING | STOPPED

datatype loop_phase = Ended | At_Check | Waiting | Executing

datatype notify_task = Pending | Cancelled

record task_runner =
  rn_status :: agent_status
  rn_loop :: loop_phase \<comment> \<open>\<open>_task\<close>; \<open>Ended\<close>: it is \<open>None\<close> or done\<close>
  rn_notify :: "(nat, notify_task) dict" \<comment> \<open>\<open>_notify_tasks\<close>\<close>
  rn_next :: nat \<comment> \<open>supply of identifiers\<close>

definition runner_init :: task_runner where
  "runner_init = \<lparr>rn_status = STOPPED, rn_loop = Ended, rn_notify = [], rn_next = 0\<rparr>"

definition runner_start :: "task_runner \<Rightarrow> task_runner result" where
  \<comment> \<open>\<open>_start\<close>\<close>
  "runner_start r =
     (if rn_loop r \<noteq> Ended then Inl AssertionError
      else Inr (r\<lparr>rn_status := STARTED, rn_loop := At_Check\<rparr>))"

definition runner_stop :: "nat option \<Rightarrow> task_runner \<Rightarrow> task_runner" where
  \<comment> \<open>\<open>_stop\<close>; the argument is the notification that calls it, if one does\<close>
  "runner_stop current r =
     r\<lparr>rn_notify := map (\<lambda>(i, t). (i, if Some i = current then t else Cancelled)) (rn_notify r),
       rn_status := STOPPING\<rparr>"

definition notify :: "nat option \<Rightarrow> bool \<Rightarrow> task_runner \<Rightarrow> task_runner result" where
  \<comment> \<open>the flag is the answer of \<open>should_runner_be_running\<close>\<close>
  "notify task_id should_be_running r =
     rbind (case rn_status r of
        STARTED \<Rightarrow> if \<not> should_be_running then Inr (runner_stop task_id r) else Inr r
      | STOPPED \<Rightarrow> if should_be_running then runner_start r else Inr r
      | STOPPING \<Rightarrow> if should_be_running then Inr (r\<lparr>rn_status := STARTED\<rparr>) else Inr r) (\<lambda>r'.
     case task_id of
       None \<Rightarrow> Inr r'
     | Some i \<Rightarrow> if has_key (rn_notify r') i then Inr (r'\<lparr>rn_notify := ddel (rn_notify r') i\<rparr>) else Inl KeyError)"

definition notify_sync :: "task_runner \<Rightarrow> task_runner" where
  "notify_sync r =
     r\<lparr>rn_notify := dset (rn_notify r) (rn_next r) Pending, rn_next := Suc (rn_next r)\<rparr>"

definition run_check :: "bool \<Rightarrow> task_runner \<Rightarrow> task_runner" where
  \<comment> \<open>the condition of the loop in \<open>_run\<close>, and its end; the flag is \<open>_running\<close> of the scheduler\<close>
  "run_check scheduler_running r =
     (if scheduler_running \<and> rn_status r = STARTED then r\<lparr>rn_loop := Waiting\<rparr>
      else r\<lparr>rn_loop := Ended, rn_status := STOPPED\<rparr>)"

definition is_running :: "task_runner \<Rightarrow> bool" where
  "is_running r = (rn_status r = STARTED)"

definition join_runner :: "task_runner \<Rightarrow> bool result" where
  \<comment> \<open>\<open>join\<close>; whether it returns without waiting\<close>
  "join_runner r = (if is_running r then Inl AssertionError else Inr (rn_loop r = Ended))"

datatype runner_event =
    Notified "nat option" bool
  | Stop_Requested
  | Notify_Scheduled
  | Notify_Cleaned nat
  | Checked bool
  | Got_Task
  | Task_Finished

inductive runner_step :: "bool \<Rightarrow> task_runner \<Rightarrow> runner_event \<Rightarrow> task_runner \<Rightarrow> bool" for orderly :: bool where
  \<comment> \<open>in an orderly run only a runner whose main loop is active is asked to stop\<close>
  Notified:
    "\<lbrakk>\<forall>i. task_id = Some i \<longrightarrow> map_of (rn_notify r) i = Some Pending; notify task_id b r = Inr r'\<rbrakk>
     \<Longrightarrow> runner_step orderly r (Notified task_id b) r'"
| Stop: "(orderly \<Longrightarrow> rn_loop r \<noteq> Ended) \<Longrightarrow> runner_step orderly r Stop_Requested (runner_stop None r)"
| Schedule: "runner_step orderly r Notify_Scheduled (notify_sync r)"
| Clean: "map_of (rn_notify r) i = Some Cancelled
     \<Longrightarrow> runner_step orderly r (Notify_Cleaned i) (r\<lparr>rn_notify := ddel (rn_notify r) i\<rparr>)"
| Check: "rn_loop r = At_Check \<Longrightarrow> runner_step orderly r (Checked running) (run_check running r)"
| Get: "rn_loop r = Waiting \<Longrightarrow> runner_step orderly r Got_Task (r\<lparr>rn_loop := Executing\<rparr>)"
| Finish: "rn_loop r = Executing \<Longrightarrow> runner_step orderly r Task_Finished (r\<lparr>rn_loop := At_Check\<rparr>)"

inductive runner_run :: "bool \<Rightarrow> task_runner \<Rightarrow> runner_event list \<Rightarrow> task_runner \<Rightarrow> bool" for orderly :: bool where
  Start: "runner_run orderly r [] r"
| Step: "\<lbrakk>runner_run orderly r es r'; runner_step orderly r' e r''\<rbrakk> \<Longrightarrow> runner_run orderly r (es @ [e]) r''"

inductive_cases runner_stepE: "runner_step orderly r e r'"
inductive_simps runner_step_checked [simp]: "runner_step orderly r (Checked b) r'"
inductive_simps runner_step_notified [simp]: "runner_step orderly r (Notified i b) r'"
inductive_simps runner_step_stop [simp]: "runner_step orderly r Stop_Requested r'"

lemmas step_defs = runner_start_def runner_stop_def notify_sync_def run_check_def is_running_def
lemmas runner_defs = step_defs notify_def

section \<open>Invariants\<close>

definition alive :: "task_runner \<Rightarrow> bool" where
  \<comment> \<open>a runner is stopped exactly when its main loop is not active\<close>
  "alive r = ((rn_status r = STOPPED) = (rn_loop r = Ended))"

definition dead :: "task_runner \<Rightarrow> bool" where
  \<comment> \<open>no main loop, and a status that does not let one be started\<close>
  "dead r = (rn_loop r = Ended \<and> rn_status r \<noteq> STOPPED)"

lemma alive_init [simp]: "alive runner_init"
  by (simp add: alive_def runner_init_def)

lemma notify_alive: "notify i b r = Inr r' \<Longrightarrow> alive r \<Longrightarrow> alive r'"
  by (auto simp: runner_defs alive_def rbind_eq_Inr split: agent_status.splits option.splits if_splits)

lemma notify_dead: "notify i b r = Inr r' \<Longrightarrow> dead r \<Longrightarrow> dead r'"
  by (auto simp: runner_defs dead_def rbind_eq_Inr split: agent_status.splits option.splits if_splits)

lemma step_alive: "runner_step True r e r' \<Longrightarrow> alive r \<Longrightarrow> alive r'"
  by (erule runner_stepE) (auto dest: notify_alive, auto simp: step_defs alive_def)

lemma step_dead: "runner_step orderly r e r' \<Longrightarrow> dead r \<Longrightarrow> dead r'"
  by (erule runner_stepE) (auto dest: notify_dead, auto simp: step_defs dead_def)

lemma run_alive: "runner_run True r es r' \<Longrightarrow> alive r \<Longrightarrow> alive r'"
  by (induction rule: runner_run.induct) (auto intro: step_alive)

lemma run_dead: "runner_run orderly r es r' \<Longrightarrow> dead r \<Longrightarrow> dead r'"
  by (induction rule: runner_run.induct) (auto intro: step_dead)

lemma has_key_map_snd [simp]: "has_key (map (\<lambda>(i, t). (i, f i t)) d) k = has_key d k"
  by (induction d) (auto simp: has_key_def)

lemma notify_total:
  assumes "alive r" "\<forall>i. task_id = Some i \<longrightarrow> has_key (rn_notify r) i"
  shows "\<exists>r'. notify task_id b r = Inr r'"
  using assms
  by (cases task_id; cases "rn_status r") (auto simp: runner_defs alive_def)

section \<open>Suspending and resuming\<close>

record runners =
  ru_scheduler :: scheduler
  ru_workers :: "(string, task_runner) dict"
  ru_halted :: bool \<comment> \<open>the environment in the database\<close>
  ru_paused :: "string pyset" \<comment> \<open>the paused agents in the database\<close>

definition should_run :: "runners \<Rightarrow> string \<Rightarrow> bool" where
  "should_run s endpoint =
     should_runner_be_running (ru_halted s) (\<lambda>ag. ag \<in> set (ru_paused s)) endpoint (ru_scheduler s)"

definition put_worker :: "string \<Rightarrow> task_runner \<Rightarrow> runners \<Rightarrow> runners" where
  "put_worker name r s = s\<lparr>ru_workers := dset (ru_workers s) name r\<rparr>"

definition create_agent :: "string \<Rightarrow> runners \<Rightarrow> runners" where
  \<comment> \<open>\<open>_create_agent\<close>\<close>
  "create_agent name s = put_worker name (notify_sync runner_init) s"

definition refresh_agent_state_from_db :: "string \<Rightarrow> runners \<Rightarrow> runners result" where
  "refresh_agent_state_from_db name s =
     (case map_of (ru_workers s) name of
        None \<Rightarrow> Inr s
      | Some r \<Rightarrow> rbind (notify None (should_run s name) r) (\<lambda>r'. Inr (put_worker name r' s)))"

definition refresh_all_agent_states_from_db :: "runners \<Rightarrow> runners result" where
  "refresh_all_agent_states_from_db s = rfold refresh_agent_state_from_db (dkeys (ru_workers s)) s"

definition is_agent_running :: "string \<Rightarrow> runners \<Rightarrow> bool" where
  "is_agent_running name s =
     (case map_of (ru_workers s) name of None \<Rightarrow> False | Some r \<Rightarrow> is_running r)"

definition stop_workers :: "runners \<Rightarrow> runners" where
  \<comment> \<open>\<open>worker.stop()\<close> for all workers\<close>
  "stop_workers s = s\<lparr>ru_workers := map (\<lambda>(name, r). (name, runner_stop None r)) (ru_workers s)\<rparr>"

definition suspend_deployments :: "string \<Rightarrow> runners \<Rightarrow> runners" where
  \<comment> \<open>until it waits for the workers\<close>
  "suspend_deployments reason s =
     (let s1 = stop_workers (s\<lparr>ru_scheduler := (ru_scheduler s)\<lparr>sc_deployment_suspended := True\<rparr>\<rparr>);
          w = sc_work (ru_scheduler s1)
      in s1\<lparr>ru_scheduler := (ru_scheduler s1)\<lparr>sc_work :=
           w\<lparr>sw_agent_queues := send_shutdown reason (sw_agent_queues w)\<rparr>\<rparr>\<rparr>)"

definition resume_deployments :: "runners \<Rightarrow> runners result" where
  "resume_deployments s =
     refresh_all_agent_states_from_db (s\<lparr>ru_scheduler := (ru_scheduler s)\<lparr>sc_deployment_suspended := False\<rparr>\<rparr>)"

definition stop_all :: "runners \<Rightarrow> runners" where
  \<comment> \<open>\<open>ResourceScheduler.stop\<close>\<close>
  "stop_all s =
     (if \<not> sc_running (ru_scheduler s) then s
      else let s1 = stop_workers s in s1\<lparr>ru_scheduler := sc_stop (ru_scheduler s1)\<rparr>)"

definition reset_all :: "runners \<Rightarrow> runners result" where
  \<comment> \<open>\<open>ResourceScheduler._reset\<close>, once every worker has been joined\<close>
  "reset_all s =
     rbind (sc_reset (ru_scheduler s)) (\<lambda>sc.
     rbind (rfold (\<lambda>(name, r) _. rbind (join_runner r) (\<lambda>_. Inr ())) (ru_workers s) ()) (\<lambda>_.
       Inr (s\<lparr>ru_scheduler := sc, ru_workers := []\<rparr>)))"

section \<open>Properties\<close>

text \<open>C22: A task runner has at most one main loop and never loses it: however notifications,
  stop requests and the steps of the main loop interleave, as long as only runners whose main
  loop is active are stopped, the status is \<open>STOPPED\<close> exactly when no main loop is active, a
  pending notification never runs into the assertion against starting twice, and when it
  finds that the agent should run there is a main loop afterwards.\<close>

theorem task_runner_one_loop:
  assumes "runner_run True runner_init es r" "map_of (rn_notify r) i = Some Pending"
  shows "(rn_status r = STOPPED \<longleftrightarrow> rn_loop r = Ended)
    \<and> (\<exists>r'. notify (Some i) should r = Inr r' \<and> is_running r' = should \<and> \<not> has_key (rn_notify r') i
          \<and> (should \<longrightarrow> rn_loop r' \<noteq> Ended))"
proof -
  have inv: "alive r" using assms(1) by (rule run_alive) simp
  with notify_total[of r "Some i" should] assms(2) obtain r' where r': "notify (Some i) should r = Inr r'" by auto
  then have "is_running r' = should \<and> \<not> has_key (rn_notify r') i \<and> (should \<longrightarrow> rn_loop r' \<noteq> Ended)"
    using inv by (auto simp: runner_defs alive_def rbind_eq_Inr split: agent_status.splits if_splits)
  then show ?thesis using inv r' unfolding alive_def by blast
qed

theorem task_runner_one_loop_witness:
  "\<exists>r'. notify (Some 0) True (notify_sync runner_init) = Inr r' \<and> is_running r' \<and> rn_loop r' \<noteq> Ended"
proof -
  have "map_of (rn_notify (notify_sync runner_init)) 0 = Some Pending"
    by (simp add: notify_sync_def runner_init_def dset_def)
  from task_runner_one_loop[OF runner_run.Step[OF runner_run.Start runner_step.Schedule] this, of True]
  show ?thesis by blast
qed

text \<open>Stopping a runner that is already stopped kills it for good: its status becomes
  \<open>STOPPING\<close> although there is no main loop that could confirm it, so no sequence of
  notifications, stop requests or other steps ever starts a main loop again, while a
  notification that it should run makes it report that it is running.\<close>

theorem stopped_twice_never_runs:
  assumes "rn_status r = STOPPED" "rn_loop r = Ended" "runner_run False (runner_stop None r) es r'"
  shows "rn_loop r' = Ended \<and> rn_status r' \<noteq> STOPPED
    \<and> (\<forall>r''. notify None True r' = Inr r'' \<longrightarrow> is_running r'' \<and> rn_loop r'' = Ended)"
proof -
  have "dead (runner_stop None r)" using assms(2) by (simp add: dead_def runner_stop_def)
  then have "dead r'" using assms(3) by (auto intro: run_dead)
  then show ?thesis
    by (auto simp: dead_def runner_defs rbind_eq_Inr split: agent_status.splits if_splits)
qed

definition started_runner :: task_runner where
  "started_runner = \<lparr>rn_status = STARTED, rn_loop = Waiting, rn_notify = [], rn_next = 0\<rparr>"

theorem stopped_twice_never_runs_witness:
  "\<exists>r'. runner_run False (runner_stop None runner_init) ([] @ [Notified None True]) r'
     \<and> is_running r' \<and> rn_loop r' = Ended \<and> rn_status r' \<noteq> STOPPED"
proof -
  have "runner_run False (runner_stop None runner_init) ([] @ [Notified None True]) (started_runner\<lparr>rn_loop := Ended\<rparr>)"
    by (rule runner_run.Step[OF runner_run.Start])
      (simp add: runner_defs runner_init_def started_runner_def)
  with stopped_twice_never_runs[OF _ _ this] show ?thesis
    by (intro exI[of _ "started_runner\<lparr>rn_loop := Ended\<rparr>"]) (simp add: runner_init_def started_runner_def is_running_def)
qed

definition two_agents :: runners where
  \<comment> \<open>agent b is paused, agent a waits for work\<close>
  "two_agents = \<lparr>ru_scheduler = sc_init\<lparr>sc_running := True\<rparr>,
     ru_workers = [(''a'', started_runner), (''b'', runner_init)], ru_halted = False, ru_paused = [''b'']\<rparr>"

definition agent_status_of :: "string \<Rightarrow> runners \<Rightarrow> (agent_status \<times> loop_phase) option" where
  "agent_status_of name s = map_option (\<lambda>r. (rn_status r, rn_loop r)) (map_of (ru_workers s) name)"

text \<open>Suspending and resuming deployments while an agent is paused loses that agent: after the
  suspension the main loop of the other agent ends and resuming starts it again, but when the
  paused agent is unpaused later, it reports that it is running and has no main loop.\<close>

theorem paused_agent_lost_by_suspension:
  "let suspended = suspend_deployments ''removing venvs'' two_agents;
       ended = put_worker ''a'' (run_check True ((the (map_of (ru_workers suspended) ''a''))\<lparr>rn_loop := At_Check\<rparr>)) suspended
   in case resume_deployments ended of
        Inl e \<Rightarrow> False
      | Inr resumed \<Rightarrow>
          agent_status_of ''a'' resumed = Some (STARTED, At_Check)
          \<and> (case refresh_agent_state_from_db ''b'' (resumed\<lparr>ru_paused := []\<rparr>) of
               Inl e \<Rightarrow> False
             | Inr unpaused \<Rightarrow> should_run unpaused ''b'' \<and> is_agent_running ''b'' unpaused
                 \<and> agent_status_of ''b'' unpaused = Some (STARTED, Ended))"
  by code_simp

end
