(* ===== verification/Task_Execution.thy ===== *)
theory Task_Execution
  imports Resource_Scheduler
begin

text \<open>
  The tasks of \<open>src/src/inmanta/deploy/tasks.py\<close>: what a deploy, a dry run and the refresh of facts do between
  the calls to the task manager. The executor is not part of the model: whether one can be
  obtained, and what it reports, are arguments. Between the start and the end of a deploy
  other coroutines change the scheduler, which is an argument too.
\<close>

section \<open>Resource details\<close>

record resource_details =
  rd_id :: id_obj
  rd_rid :: rid
  rd_rvid :: string
  rd_model_version :: int
  rd_requires :: "id_obj list"
  rd_attributes :: "(string, pyval) dict"

fun parse_requirement :: "pyval \<Rightarrow> id_obj result" where
  "parse_requirement (PStr r) = parse_id r None"
| "parse_requirement _ = Inl TypeError"

fun iterate :: "pyval \<Rightarrow> pyval list result" where
  \<comment> \<open>iteration over a value\<close>
  "iterate (PList xs) = Inr xs"
| "iterate (PStr s) = Inr (map (\<lambda>c. PStr [c]) s)"
| "iterate (PDict d) = Inr (map (\<lambda>(k, v). PStr k) d)"
| "iterate _ = Inl TypeError"

definition mk_resource_details :: "rid \<Rightarrow> int \<Rightarrow> (string, pyval) dict \<Rightarrow> resource_details result" where
  "mk_resource_details r version attributes =
     rbind (parse_id r None) (\<lambda>i0. rbind (copy_id i0 version) (\<lambda>i.
     rbind (dlookup attributes ''requires'') (\<lambda>reqs. rbind (iterate reqs) (\<lambda>xs.
     rbind (rmap parse_requirement xs) (\<lambda>requires.
       Inr \<lparr>rd_id = i, rd_rid = resource_str i, rd_rvid = resource_version_str i, rd_model_version = version,
            rd_requires = requires, rd_attributes = dset attributes ''id'' (PStr (resource_version_str i))\<rparr>)))))"

definition get_executor_resource_details :: "rid \<Rightarrow> int \<Rightarrow> resource_intent \<Rightarrow> resource_details result" where
  "get_executor_resource_details r version i = mk_resource_details r version (ri_attributes i)"

section \<open>Deploy\<close>

datatype executor_failure = PoolManagerNotRunning | ModuleLoadingException | ExecutorException

datatype executor_outcome =
    No_Executor executor_failure
  | Execution_Failed
  | Reported deploy_report

definition undeployable :: "string \<Rightarrow> log_line \<Rightarrow> deploy_report result" where
  "undeployable rvid message = mk_deploy_report rvid h_unavailable [message]"

fun failure_message :: "rid \<Rightarrow> executor_failure \<Rightarrow> log_line" where
  "failure_message r PoolManagerNotRunning =
     TaskLog ''Trying to create executor while executor manager is not running.''"
| "failure_message r ModuleLoadingException = TaskLog ''Failed to load modules''"
| "failure_message r ExecutorException = TaskLog ''All resources of this type failed to install handler code dependencies''"

definition task_report :: "rid \<Rightarrow> string option \<Rightarrow> deploy_intent \<Rightarrow> executor_outcome \<Rightarrow> deploy_report result" where
  \<comment> \<open>the body of the \<open>try\<close> of \<open>Deploy.execute\<close>: the report it leaves, or an exception and no report\<close>
  "task_report r reason d out =
     rbind (get_executor_resource_details r (di_model_version d) (di_intent d)) (\<lambda>details.
       case out of
         No_Executor f \<Rightarrow> undeployable (rd_rvid details) (failure_message r f)
       | _ \<Rightarrow>
           if reason = None then Inl AssertionError
           else case out of
             Reported report \<Rightarrow> Inr report
           | _ \<Rightarrow> undeployable (rd_rvid details) (TaskLog ''Failure during executor execution for resource''))"

definition finish_task ::
  "rid \<Rightarrow> string option \<Rightarrow> deploy_intent \<Rightarrow> executor_outcome \<Rightarrow> time \<Rightarrow> bool \<Rightarrow> scheduler \<Rightarrow> unit result \<times> scheduler" where
  \<comment> \<open>with the \<open>finally\<close> block: it logs every exception of \<open>deploy_done\<close>, and without a report it does not get there\<close>
  "finish_task r reason d out finished db_ok s =
     (case task_report r reason d out of
        Inl e \<Rightarrow> (Inl e, s)
      | Inr report \<Rightarrow> (Inr (), snd (deploy_done d report finished db_ok s)))"

definition execute_deploy ::
  "time \<Rightarrow> bool \<Rightarrow> rid \<Rightarrow> string option \<Rightarrow> (deploy_intent \<Rightarrow> scheduler \<Rightarrow> scheduler) \<Rightarrow> (deploy_intent \<Rightarrow> executor_outcome)
    \<Rightarrow> time \<Rightarrow> bool \<Rightarrow> scheduler \<Rightarrow> unit result \<times> scheduler" where
  \<comment> \<open>\<open>Deploy.execute\<close>\<close>
  "execute_deploy started start_ok r reason others executor finished end_ok s =
     (case deploy_start started start_ok r s of
        (Inl e, s1) \<Rightarrow> (Inr (), s1)
      | (Inr None, s1) \<Rightarrow> (Inr (), s1)
      | (Inr (Some d), s1) \<Rightarrow> finish_task r reason d (executor d) finished end_ok (others d s1))"

section \<open>Dry runs and facts\<close>

record dryrun_report =
  dy_rvid :: string
  dy_dryrun_id :: string
  dy_changes :: "(string, string \<times> string) dict" \<comment> \<open>current and desired\<close>

datatype dryrun_outcome =
    No_Dryrun_Executor executor_failure
  | Dryrun_Failed
  | Dryrun_Reported dryrun_report

definition failed_dryrun :: "string \<Rightarrow> string \<Rightarrow> string \<Rightarrow> dryrun_report" where
  \<comment> \<open>\<open>_log_failure_and_create_dryrun_report\<close>\<close>
  "failed_dryrun dryrun_id rvid message =
     \<lparr>dy_rvid = rvid, dy_dryrun_id = dryrun_id, dy_changes = [(''handler'', (''FAILED'', message))]\<rparr>"

definition execute_dryrun :: "rid \<Rightarrow> int \<Rightarrow> resource_intent \<Rightarrow> string \<Rightarrow> dryrun_outcome \<Rightarrow> dryrun_report result" where
  \<comment> \<open>\<open>DryRun.execute\<close>: the report that \<open>dryrun_done\<close> gets\<close>
  "execute_dryrun r version i dryrun_id out =
     rbind (get_executor_resource_details r version i) (\<lambda>details.
       Inr (case out of
         No_Dryrun_Executor PoolManagerNotRunning \<Rightarrow> failed_dryrun dryrun_id (rd_rvid details)
           ''Unable to construct an executor for this resource, because executor manager is not running''
       | No_Dryrun_Executor _ \<Rightarrow> failed_dryrun dryrun_id (rd_rvid details)
           ''Unable to construct an executor for this resource''
       | Dryrun_Failed \<Rightarrow> failed_dryrun dryrun_id (rd_rvid details) ''Resource is in an undeployable state''
       | Dryrun_Reported report \<Rightarrow> report))"

definition execute_refresh_fact ::
  "rid \<Rightarrow> (resource_details \<Rightarrow> 'report result option) \<Rightarrow> scheduler \<Rightarrow> 'report option result" where
  \<comment> \<open>\<open>RefreshFact.execute\<close>: the report that \<open>fact_refresh_done\<close> gets, if any; the argument is \<open>None\<close>
      when no executor can be obtained, and else what its \<open>get_facts\<close> returns or raises\<close>
  "execute_refresh_fact r executor s =
     (case get_resource_version_intent r s of
        None \<Rightarrow> Inr None
      | Some (version, i) \<Rightarrow>
          rbind (get_executor_resource_details r version i) (\<lambda>details.
            case executor details of
              None \<Rightarrow> Inr None
            | Some facts \<Rightarrow> rbind facts (\<lambda>report. Inr (Some report))))"

section \<open>Reports\<close>

lemma mk_details_ok:
  assumes "parse_id r None = Inr i" "resource_str i = r" "0 \<le> version"
    and "map_of attributes ''requires'' = Some (PList xs)" "\<forall>x \<in> set xs. \<exists>j. parse_requirement x = Inr j"
  shows "\<exists>details. mk_resource_details r version attributes = Inr details
    \<and> (\<forall>m. undeployable (rd_rvid details) m =
         Inr \<lparr>dr_rvid = rd_rvid details, dr_resource_id = r, dr_resource_state = h_unavailable, dr_messages = [m]\<rparr>)"
proof -
  have valid: "valid_id i" using assms(1) by (rule parse_id_valid)
  then have copy: "copy_id i version = Inr (i\<lparr>id_version := version\<rparr>)" and valid': "valid_id (i\<lparr>id_version := version\<rparr>)"
    using assms(3) by (auto simp: copy_id_def mk_id_def valid_id_def)
  obtain js where "rmap parse_requirement xs = Inr js"
    using assms(5) rmap_eq_Inl[of parse_requirement xs] by (cases "rmap parse_requirement xs") fastforce+
  moreover have "resource_str (i\<lparr>id_version := version\<rparr>) = r" using assms(2) by (simp add: resource_str_def)
  ultimately show ?thesis
    using assms(1,4) copy parse_id_resource_version_str[OF valid']
    by (simp add: mk_resource_details_def undeployable_def mk_deploy_report_def)
qed

lemma failed_task_report:
  assumes "parse_id r None = Inr i" "resource_str i = r" "0 \<le> di_model_version d"
    and "map_of (ri_attributes (di_intent d)) ''requires'' = Some (PList xs)"
      "\<forall>x \<in> set xs. \<exists>j. parse_requirement x = Inr j"
    and "out = Execution_Failed \<and> reason \<noteq> None \<or> (\<exists>f. out = No_Executor f)"
  shows "\<exists>report. task_report r reason d out = Inr report \<and> dr_resource_id report = r
    \<and> dr_resource_state report = h_unavailable"
  using mk_details_ok[OF assms(1-5)] assms(6)
  by (auto simp: task_report_def get_executor_resource_details_def)

section \<open>Properties\<close>

text \<open>A deploy whose executor cannot be obtained, or fails, is settled as a failed deploy: the
  task does not raise, the scheduler keeps its invariant, the resource is non-compliant with the result \<open>FAILED\<close>
  and stays dirty, it no longer counts as being deployed, nothing else changes its state, and every dependent that listens to its
  events is scheduled. This holds for whatever the other coroutines did in the meantime, as
  long as the scheduler still wants the intent that was being deployed.\<close>

theorem failed_executor_settles:
  assumes "parse_id r None = Inr rid" "resource_str rid = r" "0 \<le> di_model_version d"
    and "map_of (ri_attributes (di_intent d)) ''requires'' = Some (PList xs)"
      "\<forall>x \<in> set xs. \<exists>j. parse_requirement x = Inr j"
    and "out = Execution_Failed \<and> reason \<noteq> None \<or> (\<exists>f. out = No_Executor f)"
    and "sched_inv s" "ri_resource_id (di_intent d) = r"
    and "map_of (ms_intent (sc_state s)) r = Some i" "ri_attribute_hash i = ri_attribute_hash (di_intent d)"
    and "state_of (sc_state s) r = Some st" "rs_compliance st \<noteq> UNDEFINED"
    and "r \<in> set (sc_deploying_latest s)" "r \<notin> set (sc_deploying_unmanaged s)"
    and "has_key (aq_in_progress (sw_agent_queues (sc_work s))) (Deploy r)"
    and "r \<notin> set (requires_of (sc_state s) r)"
  shows "\<exists>s'. finish_task r reason d out finished db_ok s = (Inr (), s') \<and> sched_inv s'
    \<and> state_of (sc_state s') = (state_of (sc_state s))(r \<mapsto> \<lparr>rs_compliance = NON_COMPLIANT, rs_last_handler_run = FAILED,
        rs_blocked = rs_blocked st, rs_last_deployed = Some finished, rs_last_handler_run_compliant = Some False\<rparr>)
    \<and> set (ms_dirty (sc_state s')) = insert r (set (ms_dirty (sc_state s)))
    \<and> set (sc_deploying_latest s') = set (sc_deploying_latest s) - {r}
    \<and> (\<forall>x \<in> event_targets i False (sc_state s). wsched (sc_work s') {} x)"
proof -
  obtain report where report: "task_report r reason d out = Inr report" "dr_resource_id report = r"
      "dr_resource_state report = h_unavailable"
    using failed_task_report[OF assms(1-6)] by blast
  have state: "h_unavailable = dr_resource_state (enforce_compliance_reporting s report)"
    using report(3) by (simp add: enforce_compliance_reporting_def)
  have none: "recovery_targets i False m = {}" for m by (simp add: recovery_targets_def)
  obtain res s' where "deploy_done d report finished db_ok s = (res, s')" "sched_inv s'"
      "state_of (sc_state s') r = Some \<lparr>rs_compliance = NON_COMPLIANT, rs_last_handler_run = FAILED,
        rs_blocked = rs_blocked st, rs_last_deployed = Some finished, rs_last_handler_run_compliant = Some False\<rparr>"
      "\<forall>x. x \<noteq> r \<longrightarrow> state_of (sc_state s') x = state_of (sc_state s) x"
      "set (ms_dirty (sc_state s')) = insert r (set (ms_dirty (sc_state s)))"
      "set (sc_deploying_latest s') = set (sc_deploying_latest s) - {r}"
      "\<forall>x \<in> event_targets i False (sc_state s). wsched (sc_work s') {} x"
    using deploy_done_ok[OF assms(7) report(2) assms(8-16) state _ refl refl, of FAILED finished db_ok]
    by (auto simp: none outcome_skips_def outcome_dirty_def outcome_blocked_def unblocking_def)
  then show ?thesis using report(1) by (auto simp: finish_task_def)
qed

theorem failed_executor_settles_witness:
  "\<exists>s'. finish_task rB (Some ''why'') \<lparr>di_model_version = 1, di_intent = (sample_intent rB)\<lparr>ri_attributes := [(''requires'', PList [PStr rA])]\<rparr>,
       di_dependencies = [], di_deploy_start = 5\<rparr> Execution_Failed 9 True (sample_scheduler [rB]) = (Inr (), s')
     \<and> ms_dirty (sc_state s') = [rB] \<and> sc_deploying_latest s' = [] \<and> wsched (sc_work s') {} rC"
proof -
  have ids: "case parse_id rB None of Inr j \<Rightarrow> resource_str j = rB | Inl _ \<Rightarrow> False"
    "case parse_id rA None of Inr j \<Rightarrow> True | Inl _ \<Rightarrow> False" by code_simp+
  then obtain j k where j: "parse_id rB None = Inr j" "resource_str j = rB" "parse_id rA None = Inr k"
    by (auto split: sum.splits)
  let ?d = "\<lparr>di_model_version = 1, di_intent = (sample_intent rB)\<lparr>ri_attributes := [(''requires'', PList [PStr rA])]\<rparr>,
       di_dependencies = [], di_deploy_start = 5\<rparr>"
  let ?s = "sample_scheduler [rB]"
  have inv: "sched_inv ?s" by (rule sample_scheduler_ok) simp
  have d: "0 \<le> di_model_version ?d" "map_of (ri_attributes (di_intent ?d)) ''requires'' = Some (PList [PStr rA])"
      "\<forall>x \<in> set [PStr rA]. \<exists>j. parse_requirement x = Inr j" "ri_resource_id (di_intent ?d) = rB"
    using j(3) by simp_all
  have now: "Execution_Failed = Execution_Failed \<and> Some ''why'' \<noteq> None \<or> (\<exists>f. Execution_Failed = No_Executor f)"
    by simp
  have m: "map_of (ms_intent (sc_state ?s)) rB = Some (sample_intent rB)"
      "ri_attribute_hash (sample_intent rB) = ri_attribute_hash (di_intent ?d)"
      "state_of (sc_state ?s) rB = Some (sample_state HAS_UPDATE NOT_BLOCKED)"
      "rs_compliance (sample_state HAS_UPDATE NOT_BLOCKED) \<noteq> UNDEFINED"
      "rB \<in> set (sc_deploying_latest ?s)" "rB \<notin> set (sc_deploying_unmanaged ?s)"
      "has_key (aq_in_progress (sw_agent_queues (sc_work ?s))) (Deploy rB)"
      "rB \<notin> set (requires_of (sc_state ?s) rB)"
    by (simp_all add: chain_lookups)
  obtain s' where s': "finish_task rB (Some ''why'') ?d Execution_Failed 9 True ?s = (Inr (), s')"
      "sched_inv s'" "set (ms_dirty (sc_state s')) = {rB}" "set (sc_deploying_latest s') = {}"
      "\<forall>x \<in> event_targets (sample_intent rB) False (sc_state ?s). wsched (sc_work s') {} x"
    using failed_executor_settles[OF j(1,2) d(1-3) now inv d(4) m, of 9 True]
    by (elim exE conjE) (rule that, assumption+, simp_all)
  have "distinct (ms_dirty (sc_state s'))" using s'(2) by (simp add: sched_inv_def model_inv_defs)
  then have "ms_dirty (sc_state s') = [rB]"
    using s'(3) by (cases "ms_dirty (sc_state s')" rule: remdups_adj.cases) auto
  then show ?thesis using s'(1,4,5) by (auto simp: chain_events)
qed

definition dirty_scheduler :: scheduler where
  \<comment> \<open>\<open>D\<close> has an update\<close>
  "dirty_scheduler = (sample_scheduler [])
     \<lparr>sc_state := (sample_model (chain_rows NOT_BLOCKED NOT_BLOCKED NOT_BLOCKED))\<lparr>ms_dirty := [rD]\<rparr>\<rparr>"

definition requested_again :: "scheduler \<Rightarrow> (bool \<times> bool) result" where
  \<comment> \<open>after a request to deploy everything: whether \<open>D\<close> is dirty, and whether it is queued or waiting\<close>
  "requested_again s = rbind (deploy ''again'' USER_DEPLOY None None s) (\<lambda>s'.
     Inr (rD \<in> set (ms_dirty (sc_state s')),
          aq_contains (Deploy rD) (sw_agent_queues (sc_work s')) \<or> has_key (sw_waiting (sc_work s')) rD))"

text \<open>When the start of a deploy cannot be written to the database, the task gives up without
  reporting its end, but the resource has already been added to the deploys in progress:
  it stays there, so a later request to deploy everything, which schedules the dirty resource otherwise, skips it.\<close>

theorem unreported_start_blocks_deploys:
  "execute_deploy 3 False rD (Some ''why'') (\<lambda>d s. s) (\<lambda>d. Execution_Failed) 9 True dirty_scheduler
     = (Inr (), dirty_scheduler\<lparr>sc_deploying_latest := [rD]\<rparr>)
   \<and> requested_again (dirty_scheduler\<lparr>sc_deploying_latest := [rD]\<rparr>) = Inr (True, False)
   \<and> requested_again dirty_scheduler = Inr (True, True)"
  by (intro conjI; code_simp)

end
