(* ===== verification/Status_Report.thy ===== *)
theory Status_Report
  imports Resource_Scheduler
begin

text \<open>
  The self-check of \<open>src/src/inmanta/deploy/scheduler.py\<close> (\<open>get_resource_state\<close>): the states in the
  database are compared with the ones the scheduler keeps. What the database returns is an
  argument. Returning control to the event loop now and then is left out: the scheduler lock is held.
\<close>

section \<open>Discrepancies\<close>

fun handler_result_str :: "handler_result \<Rightarrow> string" where
  "handler_result_str NEW = ''new''"
| "handler_result_str SUCCESSFUL = ''successful''"
| "handler_result_str FAILED = ''failed''"
| "handler_result_str SKIPPED = ''skipped''"

fun blocked_str :: "blocked \<Rightarrow> string" where
  "blocked_str BLOCKED = ''blocked''"
| "blocked_str NOT_BLOCKED = ''not_blocked''"
| "blocked_str TEMPORARILY_BLOCKED = ''temporarily_blocked''"

fun compliance_str :: "compliance \<Rightarrow> string" where
  "compliance_str COMPLIANT = ''compliant''"
| "compliance_str HAS_UPDATE = ''has_update''"
| "compliance_str NON_COMPLIANT = ''non_compliant''"
| "compliance_str UNDEFINED = ''undefined''"

record discrepancy =
  dp_rid :: "rid option"
  dp_field :: "string option"
  dp_expected :: string
  dp_actual :: string

fun state_translation_table ::
  "const_resource_state \<Rightarrow> (handler_result option \<times> blocked option \<times> compliance option) option" where
  "state_translation_table unavailable = Some (None, Some NOT_BLOCKED, Some NON_COMPLIANT)"
| "state_translation_table skipped = Some (Some SKIPPED, None, None)"
| "state_translation_table dry = Some (None, None, None)"
| "state_translation_table deployed = Some (Some SUCCESSFUL, Some NOT_BLOCKED, None)"
| "state_translation_table failed = Some (Some FAILED, Some NOT_BLOCKED, None)"
| "state_translation_table deploying = Some (None, Some NOT_BLOCKED, None)"
| "state_translation_table available = Some (None, Some NOT_BLOCKED, Some HAS_UPDATE)"
| "state_translation_table undefined_state = Some (None, Some BLOCKED, Some UNDEFINED)"
| "state_translation_table skipped_for_undefined = Some (None, Some BLOCKED, None)"
| "state_translation_table cancelled = None"
| "state_translation_table non_compliant = None"

definition field_discrepancy :: "rid \<Rightarrow> string \<Rightarrow> ('a \<Rightarrow> string) \<Rightarrow> 'a option \<Rightarrow> 'a \<Rightarrow> discrepancy list" where
  \<comment> \<open>one of the three comparisons in the loop\<close>
  "field_discrepancy r field str db actual =
     (case db of
        None \<Rightarrow> []
      | Some expected \<Rightarrow>
          if actual \<noteq> expected
          then [\<lparr>dp_rid = Some r, dp_field = Some field, dp_expected = str expected, dp_actual = str actual\<rparr>]
          else [])"

definition resource_discrepancies :: "rid \<Rightarrow> const_resource_state \<Rightarrow> resource_state \<Rightarrow> discrepancy list result" where
  "resource_discrepancies r db_status st =
     (case state_translation_table db_status of
        None \<Rightarrow> Inl KeyError
      | Some (db_deploy_result, db_blocked_status, db_compliance_status) \<Rightarrow>
          Inr (field_discrepancy r ''last_handler_run'' handler_result_str db_deploy_result (rs_last_handler_run st)
             @ field_discrepancy r ''blocked_status'' blocked_str db_blocked_status (rs_blocked st)
             @ field_discrepancy r ''compliance_status'' compliance_str db_compliance_status (rs_compliance st)))"

definition only_in_db :: "int option \<Rightarrow> rid \<Rightarrow> discrepancy" where
  "only_in_db version r = \<lparr>dp_rid = Some r, dp_field = None,
     dp_expected = ''Resource is present in the DB (model version '' @ (case version of None \<Rightarrow> ''None'' | Some v \<Rightarrow> show_int v)
       @ ''). It is expected in the scheduler's state map.'',
     dp_actual = ''Resource is missing from the scheduler's state map.''\<rparr>"

definition only_in_scheduler :: "int option \<Rightarrow> rid \<Rightarrow> discrepancy" where
  "only_in_scheduler version r = \<lparr>dp_rid = Some r, dp_field = None,
     dp_expected = ''Resource is not present in the DB (model version '' @ (case version of None \<Rightarrow> ''None'' | Some v \<Rightarrow> show_int v)
       @ ''). It shouldn't be in the scheduler's state map.'',
     dp_actual = ''Resource is present in the scheduler's state map.''\<rparr>"

definition build_discrepancy_map ::
  "int option \<Rightarrow> (rid, const_resource_state) dict \<Rightarrow> (rid, resource_state) dict \<Rightarrow> (rid, discrepancy list) dict result" where
  "build_discrepancy_map version db states =
     (let m1 = fold (\<lambda>r m. dset m r [only_in_db version r]) (sdiff (dkeys db) (dkeys states)) [];
          m2 = fold (\<lambda>r m. dset m r [only_in_scheduler version r]) (sdiff (dkeys states) (dkeys db)) m1
      in rfold (\<lambda>r m. rbind (dlookup db r) (\<lambda>status. rbind (dlookup states r) (\<lambda>st.
           rbind (resource_discrepancies r status st) (\<lambda>ds.
             Inr (if ds \<noteq> [] then dset m r ds else m))))) (sinter (dkeys db) (dkeys states)) m2)"

section \<open>The report\<close>

datatype discrepancies = Mismatch "discrepancy list" | Discrepancy_Map "(rid, discrepancy list) dict"

record status_report =
  sr_scheduler_state :: "(rid, resource_state) dict"
  sr_db_state :: "(rid, resource_intent) dict"
  sr_resource_states :: "(rid, const_resource_state) dict"
  sr_discrepancies :: discrepancies

definition report_model_version_mismatch :: "int \<Rightarrow> int option \<Rightarrow> status_report" where
  "report_model_version_mismatch own db_version =
     \<lparr>sr_scheduler_state = [], sr_db_state = [], sr_resource_states = [],
      sr_discrepancies = Mismatch [\<lparr>dp_rid = None, dp_field = Some ''model_version'',
        dp_expected = (case db_version of None \<Rightarrow> ''None'' | Some v \<Rightarrow> show_int v), dp_actual = show_int own\<rparr>]\<rparr>"

definition get_resource_state ::
  "model_version option \<Rightarrow> int option \<Rightarrow> (rid, const_resource_state) dict \<Rightarrow> scheduler \<Rightarrow> status_report result" where
  \<comment> \<open>the arguments: the latest released version, if there is one, and the latest resource states\<close>
  "get_resource_state latest_model latest_version db s =
     (let own = ms_version (sc_state s) in
      case latest_model of
        None \<Rightarrow> Inr \<lparr>sr_scheduler_state = [], sr_db_state = [], sr_resource_states = [], sr_discrepancies = Discrepancy_Map []\<rparr>
      | Some v \<Rightarrow>
          if mv_version v \<noteq> own then Inr (report_model_version_mismatch own (Some (mv_version v)))
          else if latest_version \<noteq> Some own then Inr (report_model_version_mismatch own latest_version)
          else rbind (build_discrepancy_map latest_version db (ms_resource_state (sc_state s))) (\<lambda>ds.
                 Inr \<lparr>sr_scheduler_state = ms_resource_state (sc_state s), sr_db_state = mv_resources v,
                      sr_resource_states = db, sr_discrepancies = Discrepancy_Map ds\<rparr>))"

section \<open>What is reported\<close>

definition agrees :: "const_resource_state \<Rightarrow> resource_state \<Rightarrow> bool" where
  \<comment> \<open>the state is one that the status in the database can stand for\<close>
  "agrees c st = (case state_translation_table c of
      None \<Rightarrow> False
    | Some (result, blocked, compliance) \<Rightarrow>
        (result = None \<or> result = Some (rs_last_handler_run st))
        \<and> (blocked = None \<or> blocked = Some (rs_blocked st))
        \<and> (compliance = None \<or> compliance = Some (rs_compliance st)))"

lemma field_discrepancy_Nil [simp]: "field_discrepancy r f str db actual = [] \<longleftrightarrow> db = None \<or> db = Some actual"
  by (auto simp: field_discrepancy_def split: option.splits)

lemma resource_discrepancies_Nil:
  "state_translation_table c \<noteq> None \<Longrightarrow>
   \<exists>ds. resource_discrepancies r c st = Inr ds \<and> (ds = [] \<longleftrightarrow> agrees c st)"
  by (auto simp: resource_discrepancies_def agrees_def)

lemma fold_dset_keys: "has_key (fold (\<lambda>r m. dset m r (f r)) rs m) x \<longleftrightarrow> x \<in> set rs \<or> has_key m x"
  by (induction rs arbitrary: m) auto

lemma discrepancy_loop:
  assumes "\<forall>r \<in> set rs. has_key db r \<and> has_key states r"
  shows "(\<forall>r \<in> set rs. \<forall>c. map_of db r = Some c \<longrightarrow> state_translation_table c \<noteq> None) \<longrightarrow>
     (\<exists>m'. rfold (\<lambda>r m. rbind (dlookup db r) (\<lambda>status. rbind (dlookup states r) (\<lambda>st.
           rbind (resource_discrepancies r status st) (\<lambda>ds.
             Inr (if ds \<noteq> [] then dset m r ds else m))))) rs m = Inr m'
      \<and> (\<forall>x. has_key m' x \<longleftrightarrow> has_key m x \<or> x \<in> set rs \<and> \<not> agrees (the (map_of db x)) (the (map_of states x))))"
  using assms
proof (induction rs arbitrary: m)
  case Nil
  then show ?case by simp
next
  case (Cons r rs)
  obtain c st where c: "map_of db r = Some c" "map_of states r = Some st"
    using Cons.prems by (auto elim!: has_keyE)
  show ?case
  proof (rule impI)
    assume total: "\<forall>r \<in> set (r # rs). \<forall>c. map_of db r = Some c \<longrightarrow> state_translation_table c \<noteq> None"
    then obtain ds where ds: "resource_discrepancies r c st = Inr ds" "ds = [] \<longleftrightarrow> agrees c st"
      using resource_discrepancies_Nil[of c r st] c by auto
    let ?m = "if ds \<noteq> [] then dset m r ds else m"
    obtain m' where "rfold (\<lambda>r m. rbind (dlookup db r) (\<lambda>status. rbind (dlookup states r) (\<lambda>st.
           rbind (resource_discrepancies r status st) (\<lambda>ds.
             Inr (if ds \<noteq> [] then dset m r ds else m))))) rs ?m = Inr m'"
        "\<forall>x. has_key m' x \<longleftrightarrow> has_key ?m x \<or> x \<in> set rs \<and> \<not> agrees (the (map_of db x)) (the (map_of states x))"
      using Cons total by fastforce
    then show "\<exists>m'. rfold (\<lambda>r m. rbind (dlookup db r) (\<lambda>status. rbind (dlookup states r) (\<lambda>st.
           rbind (resource_discrepancies r status st) (\<lambda>ds.
             Inr (if ds \<noteq> [] then dset m r ds else m))))) (r # rs) m = Inr m'
      \<and> (\<forall>x. has_key m' x \<longleftrightarrow> has_key m x \<or> x \<in> set (r # rs) \<and> \<not> agrees (the (map_of db x)) (the (map_of states x)))"
      using c ds by (intro exI[of _ m']) (auto split: if_splits)
  qed
qed

lemma discrepancy_loop_error:
  "r \<in> set rs \<Longrightarrow> map_of db r = Some c \<Longrightarrow> state_translation_table c = None \<Longrightarrow>
   \<forall>r \<in> set rs. has_key db r \<and> has_key states r \<Longrightarrow>
   rfold (\<lambda>r m. rbind (dlookup db r) (\<lambda>status. rbind (dlookup states r) (\<lambda>st.
           rbind (resource_discrepancies r status st) (\<lambda>ds.
             Inr (if ds \<noteq> [] then dset m r ds else m))))) rs m = Inl KeyError"
proof (induction rs arbitrary: m)
  case (Cons x rs)
  obtain c' st where x: "map_of db x = Some c'" "map_of states x = Some st"
    using Cons.prems(4) by (auto elim!: has_keyE)
  show ?case
  proof (cases "state_translation_table c'")
    case None
    then show ?thesis using x by (simp add: resource_discrepancies_def)
  next
    case (Some t)
    then have "r \<in> set rs" using Cons.prems(1-3) x by auto
    with Some show ?thesis using Cons x by (auto simp: resource_discrepancies_def split: prod.split)
  qed
qed simp

section \<open>Properties\<close>

text \<open>C23: The self-check reports exactly what is wrong: when the versions agree and every status
  in the database can be translated, the report lists a resource if and only if it is in
  only one of the two places, or is in both with a state that its status in the database
  does not stand for.\<close>

theorem self_check_exact:
  assumes "mv_version v = ms_version (sc_state s)"
    and "\<forall>r c. map_of db r = Some c \<and> has_key (ms_resource_state (sc_state s)) r \<longrightarrow> state_translation_table c \<noteq> None"
  shows "\<exists>ds. get_resource_state (Some v) (Some (mv_version v)) db s =
      Inr \<lparr>sr_scheduler_state = ms_resource_state (sc_state s), sr_db_state = mv_resources v,
           sr_resource_states = db, sr_discrepancies = Discrepancy_Map ds\<rparr>
    \<and> (\<forall>r. has_key ds r \<longleftrightarrow>
         (case (map_of db r, map_of (ms_resource_state (sc_state s)) r) of
            (Some c, Some st) \<Rightarrow> \<not> agrees c st
          | (None, None) \<Rightarrow> False
          | _ \<Rightarrow> True))"
proof -
  let ?states = "ms_resource_state (sc_state s)"
  let ?m = "fold (\<lambda>r m. dset m r [only_in_scheduler (Some (mv_version v)) r]) (sdiff (dkeys ?states) (dkeys db))
      (fold (\<lambda>r m. dset m r [only_in_db (Some (mv_version v)) r]) (sdiff (dkeys db) (dkeys ?states)) [])"
  have both: "\<forall>r \<in> set (sinter (dkeys db) (dkeys ?states)). has_key db r \<and> has_key ?states r"
    by (auto simp: has_key_iff)
  obtain ds where ds: "build_discrepancy_map (Some (mv_version v)) db ?states = Inr ds"
      "\<forall>r. has_key ds r \<longleftrightarrow> has_key ?m r \<or> r \<in> set (sinter (dkeys db) (dkeys ?states))
          \<and> \<not> agrees (the (map_of db r)) (the (map_of ?states r))"
    using discrepancy_loop[OF both, of ?m] both assms(2) unfolding build_discrepancy_map_def Let_def by blast
  have "has_key ds r \<longleftrightarrow>
         (case (map_of db r, map_of ?states r) of
            (Some c, Some st) \<Rightarrow> \<not> agrees c st
          | (None, None) \<Rightarrow> False
          | _ \<Rightarrow> True)" for r
    unfolding ds(2)[rule_format] fold_dset_keys
    by (auto simp: set_dkeys simp del: set_map split: option.splits)
  then show ?thesis using ds(1) assms(1) by (simp add: get_resource_state_def)
qed

text \<open>The self-check fails on a status it does not know: as soon as one resource that the
  scheduler manages is \<open>non_compliant\<close> in the database, which is what a handler that only
  reports leaves there, or \<open>cancelled\<close>, it raises a \<open>KeyError\<close> instead of returning a report.\<close>

theorem self_check_unknown_status:
  assumes "mv_version v = ms_version (sc_state s)"
    and "map_of db r = Some c" "has_key (ms_resource_state (sc_state s)) r" "c = non_compliant \<or> c = cancelled"
  shows "get_resource_state (Some v) (Some (mv_version v)) db s = Inl KeyError"
proof -
  have both: "\<forall>r \<in> set (sinter (dkeys db) (dkeys (ms_resource_state (sc_state s)))).
      has_key db r \<and> has_key (ms_resource_state (sc_state s)) r"
    by (auto simp: has_key_iff)
  have "r \<in> set (sinter (dkeys db) (dkeys (ms_resource_state (sc_state s))))"
    using assms(2,3) has_key_Some[OF assms(2)] by (simp add: has_key_iff)
  from discrepancy_loop_error[OF this assms(2) _ both] assms(1,4) show ?thesis
    by (auto simp: get_resource_state_def build_discrepancy_map_def Let_def)
qed

definition empty_version :: model_version where
  "empty_version = \<lparr>mv_version = 1, mv_resources = [], mv_resource_sets = [], mv_requires = [], mv_undefined = [],
     mv_partial = False\<rparr>"

theorem self_check_exact_witness:
  "\<exists>ds. get_resource_state (Some empty_version) (Some 1) [(rB, available), (''x'', failed)] (sample_scheduler [])
     = Inr \<lparr>sr_scheduler_state = ms_resource_state (sc_state (sample_scheduler [])), sr_db_state = [],
            sr_resource_states = [(rB, available), (''x'', failed)], sr_discrepancies = Discrepancy_Map ds\<rparr>
     \<and> \<not> has_key ds rB \<and> has_key ds rC \<and> has_key ds ''x''"
proof -
  have v: "mv_version empty_version = ms_version (sc_state (sample_scheduler []))"
    by (simp add: empty_version_def sample_model_def)
  have l: "map_of (ms_resource_state (sample_model (chain_rows NOT_BLOCKED NOT_BLOCKED NOT_BLOCKED))) x
      = state_of (sample_model (chain_rows NOT_BLOCKED NOT_BLOCKED NOT_BLOCKED)) x" for x
    by (simp add: state_of_def)
  have x: "''x'' \<noteq> rA" "''x'' \<noteq> rB" "''x'' \<noteq> rC" "''x'' \<noteq> rD" "rB \<noteq> ''x''" "rC \<noteq> ''x''"
    by (simp_all add: rA_def rB_def rC_def rD_def)
  have t: "\<forall>r c. map_of [(rB, available), (''x'', failed)] r = Some c
      \<and> has_key (ms_resource_state (sc_state (sample_scheduler []))) r \<longrightarrow> state_translation_table c \<noteq> None"
    by (auto split: if_splits)
  obtain ds where ds: "get_resource_state (Some empty_version) (Some (mv_version empty_version))
        [(rB, available), (''x'', failed)] (sample_scheduler [])
     = Inr \<lparr>sr_scheduler_state = ms_resource_state (sc_state (sample_scheduler [])), sr_db_state = mv_resources empty_version,
            sr_resource_states = [(rB, available), (''x'', failed)], sr_discrepancies = Discrepancy_Map ds\<rparr>"
      "\<forall>r. has_key ds r \<longleftrightarrow>
         (case (map_of [(rB, available), (''x'', failed)] r, map_of (ms_resource_state (sc_state (sample_scheduler []))) r) of
            (Some c, Some st) \<Rightarrow> \<not> agrees c st | (None, None) \<Rightarrow> False | _ \<Rightarrow> True)"
    using self_check_exact[OF v t] by blast
  then show ?thesis
    by (intro exI[of _ ds]) (simp add: l x chain_lookups agrees_def empty_version_def sample_state_def)
qed

theorem self_check_unknown_status_witness:
  "get_resource_state (Some empty_version) (Some 1) [(rB, non_compliant)] (sample_scheduler []) = Inl KeyError"
proof -
  have "has_key (ms_resource_state (sc_state (sample_scheduler []))) rB"
    by (simp add: sample_model_def chain_rows_def has_key_def)
  from self_check_unknown_status[OF _ _ this, of empty_version "[(rB, non_compliant)]" non_compliant]
  show ?thesis by (simp add: empty_version_def sample_model_def)
qed

end
