(* ===== verification/Work_Progress.thy ===== *)
theory Work_Progress
  imports Scheduled_Work
begin

text \<open>
  The life of \<open>ScheduledWork\<close>: \<open>deploy_with_context\<close> with the requires relation of the moment, deletion of resources,
  agents that take the next task, and deploys that finish, in any order. The deploys in progress are the
  ones that \<open>_deploying_latest\<close> holds.
\<close>

section \<open>Steps\<close>









section \<open>The invariant\<close>










section \<open>Properties\<close>







end
