(* ===== verification/Type_System.thy ===== *)
theory Type_System
  imports Core_Prelude "HOL-Library.Word"
begin

text \<open>
  The types of the modelling language (\<open>ast/type.py\<close>, and \<open>Entity\<close> as a type from \<open>ast/entity.py\<close>):
  equality, subtypes, the validation of values, attribute types, and the normalisation of unions.

  An object of a subclass of \<open>Type\<close> is a value of \<open>itype\<close>. An entity carries its parents, as the
  object does. The compiler keeps one \<open>Literal\<close> inside its \<open>list\<close> and one inside its \<open>dict\<close> type, which
  are never compared with each other; \<open>LiteralT\<close> stands for either. A typedef carries its base type; the outcome of its
  constraint on a value is a parameter of the functions that use it.
\<close>

named_theorems type_defs \<open>definitions by cases on the constructor of a type\<close>

section \<open>Types\<close>

datatype entity = Entity (ent_namespace: string) (ent_name: string) (parent_entities: "entity list") (paired_dataclass: bool)

datatype itype =
    ReferenceType itype
  | OrReferenceType itype
  | NullT
  | NullableType itype
  | AnyT
  | NumberT
  | FloatT
  | IntegerT
  | BoolT
  | StringT
  | ListT
  | TypedList itype
  | LiteralList
  | DictT
  | TypedDict itype
  | LiteralDict
  | UnionT "itype list"
  | LiteralT
  | ConstraintType (ct_namespace: string) (ct_name: string) (basetype: itype)
  | EntityT entity

definition literal_types :: "itype list" where
  "literal_types = [NullableType FloatT, NumberT, BoolT, StringT, TypedList LiteralT, TypedDict LiteralT, ReferenceType LiteralT]"

definition entity_full_name :: "entity \<Rightarrow> string" where
  "entity_full_name e = ent_namespace e @ ''::'' @ ent_name e"

fun named_type :: "itype \<Rightarrow> string option" where
  \<comment> \<open>the full name of a \<open>NamedType\<close>\<close>
  "named_type (ConstraintType ns n b) = Some (ns @ ''::'' @ n)"
| "named_type (EntityT e) = Some (entity_full_name e)"
| "named_type t = None"

definition same_named :: "itype \<Rightarrow> itype \<Rightarrow> bool" where
  "same_named t u = (named_type t = named_type u)"

section \<open>Equality\<close>

text \<open>A comparison with \<open>==\<close> asks the left operand, the right one first if its class is a proper
  subclass, and the other one if the answer is \<open>NotImplemented\<close>. So \<open>LiteralList\<close> equals a \<open>TypedList\<close> of a literal, and
  \<open>Literal\<close> equals a \<open>Union\<close> with the same list of types.\<close>

fun eq_literal :: "itype \<Rightarrow> bool" where
  \<comment> \<open>\<open>t == Literal()\<close>\<close>
  "eq_literal LiteralT = True"
| "eq_literal (UnionT ts) = (case ts of
     [a, b, c, d, l, m, r] \<Rightarrow> a = NullableType FloatT \<and> b = NumberT \<and> c = BoolT \<and> d = StringT
       \<and> (case l of LiteralList \<Rightarrow> True | TypedList x \<Rightarrow> eq_literal x | _ \<Rightarrow> False)
       \<and> (case m of LiteralDict \<Rightarrow> True | TypedDict x \<Rightarrow> eq_literal x | _ \<Rightarrow> False)
       \<and> (case r of ReferenceType x \<Rightarrow> eq_literal x | _ \<Rightarrow> False)
   | _ \<Rightarrow> False)"
| "eq_literal t = False"

fun type_eq :: "itype \<Rightarrow> itype \<Rightarrow> bool" and type_eq_list :: "itype list \<Rightarrow> itype list \<Rightarrow> bool" where
  "type_eq (ReferenceType a) u = (case u of ReferenceType b \<Rightarrow> type_eq a b | _ \<Rightarrow> False)"
| "type_eq (OrReferenceType a) u = (case u of OrReferenceType b \<Rightarrow> type_eq a b | _ \<Rightarrow> False)"
| "type_eq (NullableType a) u = (case u of NullableType b \<Rightarrow> type_eq a b | _ \<Rightarrow> False)"
| "type_eq (TypedList a) u = (case u of TypedList b \<Rightarrow> type_eq a b | LiteralList \<Rightarrow> eq_literal a | _ \<Rightarrow> False)"
| "type_eq LiteralList u = (case u of TypedList b \<Rightarrow> eq_literal b | LiteralList \<Rightarrow> True | _ \<Rightarrow> False)"
| "type_eq (TypedDict a) u = (case u of TypedDict b \<Rightarrow> type_eq a b | LiteralDict \<Rightarrow> eq_literal a | _ \<Rightarrow> False)"
| "type_eq LiteralDict u = (case u of TypedDict b \<Rightarrow> eq_literal b | LiteralDict \<Rightarrow> True | _ \<Rightarrow> False)"
| "type_eq (UnionT ts) u = (case u of UnionT us \<Rightarrow> type_eq_list ts us | LiteralT \<Rightarrow> eq_literal (UnionT ts) | _ \<Rightarrow> False)"
| "type_eq LiteralT u = eq_literal u"
| "type_eq (ConstraintType ns n b) u = same_named (ConstraintType ns n b) u"
| "type_eq (EntityT e) u = (case u of EntityT f \<Rightarrow> ent_name e = ent_name f \<and> ent_namespace e = ent_namespace f | _ \<Rightarrow> False)"
| "type_eq NullT u = (u = NullT)"
| "type_eq AnyT u = (u = AnyT)"
| "type_eq NumberT u = (u = NumberT)"
| "type_eq FloatT u = (u = FloatT)"
| "type_eq IntegerT u = (u = IntegerT)"
| "type_eq BoolT u = (u = BoolT)"
| "type_eq StringT u = (u = StringT)"
| "type_eq ListT u = (u = ListT)"
| "type_eq DictT u = (u = DictT)"
| "type_eq_list [] us = (us = [])"
| "type_eq_list (t # ts) us = (case us of [] \<Rightarrow> False | u # us' \<Rightarrow> type_eq t u \<and> type_eq_list ts us')"

section \<open>Classification\<close>

fun is_entity :: "itype \<Rightarrow> bool" where
  "is_entity (EntityT e) = True"
| "is_entity _ = False"

fun is_attribute_type :: "itype \<Rightarrow> bool" where
  "is_attribute_type (ReferenceType t) = is_attribute_type t"
| "is_attribute_type (OrReferenceType t) = is_attribute_type t"
| "is_attribute_type (NullableType t) = is_attribute_type t"
| "is_attribute_type (TypedList t) = is_attribute_type t"
| "is_attribute_type (UnionT ts) = list_all is_attribute_type ts"
| "is_attribute_type t = (t \<in> {NumberT, FloatT, IntegerT, BoolT, StringT, LiteralList, LiteralDict, LiteralT})"

fun supports_references :: "itype \<Rightarrow> bool" where
  "supports_references (ReferenceType t) = True"
| "supports_references (OrReferenceType t) = True"
| "supports_references (NullableType t) = supports_references t"
| "supports_references (UnionT ts) = list_ex supports_references ts"
| "supports_references _ = False"

fun get_base_type :: "itype \<Rightarrow> itype" where
  "get_base_type (ReferenceType t) = t"
| "get_base_type (OrReferenceType t) = t"
| "get_base_type (NullableType t) = get_base_type t"
| "get_base_type (TypedList t) = t"
| "get_base_type t = t"

fun with_base_type :: "itype \<Rightarrow> itype \<Rightarrow> itype" where
  "with_base_type (NullableType t) b = NullableType (with_base_type t b)"
| "with_base_type (TypedList t) b = TypedList b"
| "with_base_type LiteralList b = LiteralList"
| "with_base_type _ b = b"

fun has_custom_to_python :: "itype \<Rightarrow> bool" where
  "has_custom_to_python (ReferenceType t) = is_entity t"
| "has_custom_to_python (OrReferenceType t) = (is_entity t \<or> has_custom_to_python t)"
| "has_custom_to_python (NullableType t) = has_custom_to_python t"
| "has_custom_to_python (TypedList t) = has_custom_to_python t"
| "has_custom_to_python (TypedDict t) = has_custom_to_python t"
| "has_custom_to_python (UnionT ts) = list_ex has_custom_to_python ts"
| "has_custom_to_python (ConstraintType ns n b) = has_custom_to_python b"
| "has_custom_to_python (EntityT e) = paired_dataclass e"
| "has_custom_to_python _ = False"

definition mk_reference_type :: "itype \<Rightarrow> itype result" where
  \<comment> \<open>\<open>ReferenceType(t)\<close>: a reference to an entity has to be one to a dataclass\<close>
  "mk_reference_type t =
     (if supports_references t then Inl AssertionError
      else case t of
        EntityT e \<Rightarrow> if paired_dataclass e then Inr (ReferenceType t) else Inl TypingException
      | _ \<Rightarrow> Inr (ReferenceType t))"

definition mk_or_reference_type :: "itype \<Rightarrow> itype result" where
  "mk_or_reference_type t = rbind (mk_reference_type t) (\<lambda>_. Inr (OrReferenceType t))"

section \<open>Entities\<close>

fun is_parent :: "entity \<Rightarrow> entity \<Rightarrow> bool" where
  "is_parent (Entity ns n ps d) c =
     (list_ex (\<lambda>p. entity_full_name p = entity_full_name c) ps \<or> list_ex (\<lambda>p. is_parent p c) ps)"

definition is_subclass :: "entity \<Rightarrow> entity \<Rightarrow> bool \<Rightarrow> bool" where
  "is_subclass e c strict = (\<not> strict \<and> entity_full_name c = entity_full_name e \<or> is_parent e c)"

section \<open>Subtypes\<close>

definition is_list_type :: "itype \<Rightarrow> bool" where
  \<comment> \<open>\<open>isinstance(t, List)\<close>\<close>
  "is_list_type t = (case t of ListT \<Rightarrow> True | TypedList _ \<Rightarrow> True | LiteralList \<Rightarrow> True | _ \<Rightarrow> False)"

definition is_dict_type :: "itype \<Rightarrow> bool" where
  "is_dict_type t = (case t of DictT \<Rightarrow> True | TypedDict _ \<Rightarrow> True | LiteralDict \<Rightarrow> True | _ \<Rightarrow> False)"

definition list_element :: "itype \<Rightarrow> itype option" where
  \<comment> \<open>the element type if the type is a \<open>TypedList\<close>\<close>
  "list_element t = (case t of TypedList e \<Rightarrow> Some e | LiteralList \<Rightarrow> Some LiteralT | _ \<Rightarrow> None)"

definition dict_element :: "itype \<Rightarrow> itype option" where
  "dict_element t = (case t of TypedDict e \<Rightarrow> Some e | LiteralDict \<Rightarrow> Some LiteralT | _ \<Rightarrow> None)"

primrec weight :: "itype \<Rightarrow> nat" where
  "weight (ReferenceType t) = Suc (weight t)"
| "weight (OrReferenceType t) = Suc (weight t)"
| "weight NullT = 1"
| "weight (NullableType t) = Suc (weight t)"
| "weight AnyT = 1"
| "weight NumberT = 2"
| "weight FloatT = 1"
| "weight IntegerT = 1"
| "weight BoolT = 1"
| "weight StringT = 1"
| "weight ListT = 1"
| "weight (TypedList t) = Suc (weight t)"
| "weight LiteralList = 2"
| "weight DictT = 1"
| "weight (TypedDict t) = Suc (weight t)"
| "weight LiteralDict = 2"
| "weight (UnionT ts) = Suc (sum_list (map weight ts))"
| "weight LiteralT = 1"
| "weight (ConstraintType ns n b) = Suc (weight b)"
| "weight (EntityT e) = 1"

lemma weight_member: "t \<in> set ts \<Longrightarrow> weight t \<le> sum_list (map weight ts)"
  by (simp add: member_le_sum_list)

lemma weight_list_element: "list_element t = Some e \<Longrightarrow> weight e < weight t"
  by (auto simp: list_element_def split: itype.splits)

lemma weight_dict_element: "dict_element t = Some e \<Longrightarrow> weight e < weight t"
  by (auto simp: dict_element_def split: itype.splits)

function issubtype :: "itype \<Rightarrow> itype \<Rightarrow> bool" and issupertype :: "itype \<Rightarrow> itype \<Rightarrow> bool" where
  "issubtype t u = (case t of
     ReferenceType a \<Rightarrow> (case u of ReferenceType b \<Rightarrow> issubtype b a | _ \<Rightarrow> issupertype u t)
   | NullableType a \<Rightarrow> (case u of NullableType b \<Rightarrow> issubtype a b \<or> issupertype u t | _ \<Rightarrow> issupertype u t)
   | NumberT \<Rightarrow> issubtype FloatT u \<and> issubtype IntegerT u
   | ListT \<Rightarrow> u = AnyT \<or> is_list_type u
   | TypedList a \<Rightarrow> (case list_element u of Some b \<Rightarrow> issubtype a b | None \<Rightarrow> issupertype u t)
   | LiteralList \<Rightarrow> (case list_element u of Some b \<Rightarrow> issubtype LiteralT b | None \<Rightarrow> issupertype u t)
   | DictT \<Rightarrow> u = AnyT \<or> is_dict_type u
   | TypedDict a \<Rightarrow> (case dict_element u of Some b \<Rightarrow> issubtype a b | None \<Rightarrow> issupertype u t)
   | LiteralDict \<Rightarrow> (case dict_element u of Some b \<Rightarrow> issubtype LiteralT b | None \<Rightarrow> issupertype u t)
   | UnionT ts \<Rightarrow> type_eq t u \<or> list_all (\<lambda>e. issubtype e u) ts
   | ConstraintType ns n b \<Rightarrow> type_eq t u \<or> issubtype b u
   | EntityT e \<Rightarrow> (case u of EntityT f \<Rightarrow> is_subclass e f False | _ \<Rightarrow> issupertype u t)
   | _ \<Rightarrow> type_eq t u \<or> issupertype u t)"
| "issupertype t other = (case t of
     OrReferenceType e \<Rightarrow> (case other of
         ReferenceType x \<Rightarrow> issubtype x e
       | OrReferenceType x \<Rightarrow> issubtype x e
       | _ \<Rightarrow> issubtype other e)
   | NullableType e \<Rightarrow> other = NullT \<or> issubtype other e
   | AnyT \<Rightarrow> True
   | NumberT \<Rightarrow> other = FloatT \<or> other = IntegerT
   | UnionT ts \<Rightarrow> list_ex (\<lambda>u. issubtype other u) ts
   | LiteralT \<Rightarrow> is_attribute_type other
   | _ \<Rightarrow> False)"
  by pat_completeness auto
termination
  by (relation "measure (\<lambda>x. case x of Inl (t, u) \<Rightarrow> 2 * (weight t + weight u) + 1 | Inr (t, u) \<Rightarrow> 2 * (weight t + weight u))")
    (auto dest!: weight_member weight_list_element weight_dict_element)

declare issubtype.simps [simp del] issupertype.simps [simp del]

section \<open>Values\<close>

type_synonym reference = "itype option"
  \<comment> \<open>a reference, by its \<open>_model_type\<close>\<close>

datatype dslval =
    VNone
  | VPyNone
  | VUnknown
  | VBool bool
  | VInt int
  | VFloat "64 word"
  | VStr string
  | VList "dslval list"
  | VDict "(string \<times> dslval) list"
  | VInstance entity "reference option"
  | VReference reference

text \<open>\<open>VNone\<close> is the \<open>null\<close> of the language (\<open>NoneValue\<close>), \<open>VPyNone\<close> the \<open>None\<close> of Python, \<open>VUnknown\<close> an
  \<open>Unknown\<close>, and a float is given by its bits. An instance is typed by its entity, and may stand for a reference (its \<open>dataclass_self\<close>).\<close>

fun unwrap_reference :: "dslval \<Rightarrow> reference option" where
  "unwrap_reference (VReference r) = Some r"
| "unwrap_reference (VInstance e r) = r"
| "unwrap_reference _ = None"

definition is_runtime_exception :: "py_error \<Rightarrow> bool" where
  \<comment> \<open>\<open>RuntimeException\<close> and its subclasses\<close>
  "is_runtime_exception e = (e \<in> {RuntimeException, TypingException, UnexpectedReference, AttributeException, NotFoundException,
     UnsetException, DoubleSetException, ModifiedAfterFreezeException, OptionalValueException})"

fun try_each :: "('a \<Rightarrow> bool result) \<Rightarrow> 'a list \<Rightarrow> bool result" where
  \<comment> \<open>the first one that does not raise a \<open>RuntimeException\<close> decides\<close>
  "try_each f [] = Inl TypingException"
| "try_each f (x # xs) = (case f x of
     Inr b \<Rightarrow> if b then Inr True else try_each f xs
   | Inl e \<Rightarrow> if is_runtime_exception e then try_each f xs else Inl e)"

lemma try_each_cong [fundef_cong]:
  "xs = ys \<Longrightarrow> (\<And>x. x \<in> set ys \<Longrightarrow> f x = g x) \<Longrightarrow> try_each f xs = try_each g ys"
proof (induction xs arbitrary: ys)
  case (Cons x xs)
  then obtain "f x = g x" "ys = x # xs" and "try_each f xs = try_each g xs" by fastforce
  then show ?case by (cases "g x") auto
qed simp

section \<open>Validation\<close>

definition type_validate :: "dslval \<Rightarrow> bool result" where
  \<comment> \<open>\<open>Type.validate\<close>\<close>
  "type_validate v = (case v of VReference _ \<Rightarrow> Inl UnexpectedReference | _ \<Rightarrow> Inr True)"

definition primitive_validate :: "(dslval \<Rightarrow> bool) \<Rightarrow> (dslval \<Rightarrow> bool) \<Rightarrow> dslval \<Rightarrow> bool result" where
  \<comment> \<open>the fast path by the exact type, then the checks of the class\<close>
  "primitive_validate exact isinst v =
     (if exact v then Inr True
      else rbind (type_validate v) (\<lambda>_.
        if v = VUnknown then Inr True
        else if isinst v then Inr True else Inl RuntimeException))"

fun is_bool :: "dslval \<Rightarrow> bool" where
  "is_bool (VBool b) = True"
| "is_bool _ = False"

fun is_int :: "dslval \<Rightarrow> bool" where
  \<comment> \<open>\<open>type(value) is int\<close>\<close>
  "is_int (VInt i) = True"
| "is_int _ = False"

fun is_float :: "dslval \<Rightarrow> bool" where
  "is_float (VFloat w) = True"
| "is_float _ = False"

fun is_str :: "dslval \<Rightarrow> bool" where
  "is_str (VStr s) = True"
| "is_str _ = False"

definition is_integral :: "dslval \<Rightarrow> bool" where
  \<comment> \<open>\<open>numbers.Integral\<close>, of which \<open>bool\<close> is one\<close>
  "is_integral v = (is_int v \<or> is_bool v)"

definition is_number :: "dslval \<Rightarrow> bool" where
  "is_number v = (is_integral v \<or> is_float v)"

definition number_validate :: "dslval \<Rightarrow> bool result" where
  "number_validate = primitive_validate (\<lambda>v. is_int v \<or> is_float v) is_number"

definition float_validate :: "dslval \<Rightarrow> bool result" where
  "float_validate = primitive_validate is_float is_float"

definition integer_validate :: "dslval \<Rightarrow> bool result" where
  "integer_validate = primitive_validate is_int is_integral"

definition bool_validate :: "dslval \<Rightarrow> bool result" where
  "bool_validate = primitive_validate is_bool (\<lambda>_. False)"

definition string_validate :: "dslval \<Rightarrow> bool result" where
  "string_validate = primitive_validate is_str is_str"

definition list_validate :: "dslval \<Rightarrow> bool result" where
  "list_validate v = (case v of VPyNone \<Rightarrow> Inr True | VUnknown \<Rightarrow> Inr True | VList _ \<Rightarrow> Inr True | _ \<Rightarrow> Inl TypingException)"

definition dict_validate :: "dslval \<Rightarrow> bool result" where
  "dict_validate v = (case v of VPyNone \<Rightarrow> Inr True | VUnknown \<Rightarrow> Inr True | VDict _ \<Rightarrow> Inr True | _ \<Rightarrow> Inl RuntimeException)"

definition reference_validate :: "itype \<Rightarrow> dslval \<Rightarrow> bool result" where
  "reference_validate t v = (case unwrap_reference v of
     Some None \<Rightarrow> Inl AssertionError
   | Some (Some m) \<Rightarrow> if issubtype m t then Inr True else Inl TypingException
   | None \<Rightarrow> Inl TypingException)"

definition entity_validate :: "entity \<Rightarrow> dslval \<Rightarrow> bool result" where
  "entity_validate e v = (case v of
     VUnknown \<Rightarrow> Inr True
   | VInstance f _ \<Rightarrow>
       if entity_full_name f = entity_full_name e \<or> is_subclass f e True then Inr True else Inl RuntimeException
   | _ \<Rightarrow> Inl RuntimeException)"

text \<open>The constraint of a typedef: its outcome for the full name of the typedef and a value; a
  constraint may raise.\<close>

type_synonym constraints = "string \<Rightarrow> dslval \<Rightarrow> bool result"

primrec nesting :: "itype \<Rightarrow> nat" where
  \<comment> \<open>how often a type is unfolded before a smaller value is reached\<close>
  "nesting (ReferenceType t) = 0"
| "nesting (OrReferenceType t) = Suc (nesting t)"
| "nesting NullT = 0"
| "nesting (NullableType t) = Suc (nesting t)"
| "nesting AnyT = 0"
| "nesting NumberT = 0"
| "nesting FloatT = 0"
| "nesting IntegerT = 0"
| "nesting BoolT = 0"
| "nesting StringT = 0"
| "nesting ListT = 0"
| "nesting (TypedList t) = 0"
| "nesting LiteralList = 0"
| "nesting DictT = 0"
| "nesting (TypedDict t) = 0"
| "nesting LiteralDict = 0"
| "nesting (UnionT ts) = Suc (sum_list (map nesting ts))"
| "nesting LiteralT = 2"
| "nesting (ConstraintType ns n b) = Suc (nesting b)"
| "nesting (EntityT e) = 0"

lemma nesting_member: "t \<in> set ts \<Longrightarrow> nesting t \<le> sum_list (map nesting ts)"
  by (simp add: member_le_sum_list)

lemma nesting_literal: "t \<in> set literal_types \<Longrightarrow> nesting t < nesting LiteralT"
  by (auto simp: literal_types_def)

lemma size_dict_member: "(k, x) \<in> set d \<Longrightarrow> size x \<le> size_list (size_prod (\<lambda>_. 0) size) d"
  by (induction d) auto

lemma size_list_member': "x \<in> set xs \<Longrightarrow> size x \<le> size_list size xs"
  by (induction xs) auto

function validate :: "constraints \<Rightarrow> itype \<Rightarrow> dslval \<Rightarrow> bool result" where
  "validate C (ReferenceType t) v = reference_validate t v"
| "validate C (OrReferenceType t) v =
     (if is_str v \<or> is_int v \<or> is_float v \<or> is_bool v then validate C t v
      else if unwrap_reference v \<noteq> None then reference_validate t v
      else validate C t v)"
| "validate C NullT v = (if v = VNone then Inr True else Inl RuntimeException)"
| "validate C (NullableType t) v = (if v = VNone then Inr True else validate C t v)"
| "validate C AnyT v = type_validate v"
| "validate C NumberT v = number_validate v"
| "validate C FloatT v = float_validate v"
| "validate C IntegerT v = integer_validate v"
| "validate C BoolT v = bool_validate v"
| "validate C StringT v = string_validate v"
| "validate C ListT v = list_validate v"
| "validate C (TypedList t) v = rbind (list_validate v) (\<lambda>_.
     case v of VList vs \<Rightarrow> rbind (rmap (validate C t) vs) (\<lambda>_. Inr True) | _ \<Rightarrow> Inl AssertionError)"
| "validate C LiteralList v = rbind (list_validate v) (\<lambda>_.
     case v of VList vs \<Rightarrow> rbind (rmap (validate C LiteralT) vs) (\<lambda>_. Inr True) | _ \<Rightarrow> Inl AssertionError)"
| "validate C DictT v = dict_validate v"
| "validate C (TypedDict t) v = rbind (dict_validate v) (\<lambda>_.
     case v of VDict d \<Rightarrow> rbind (rmap (\<lambda>p. validate C t (snd p)) d) (\<lambda>_. Inr True) | _ \<Rightarrow> Inl AssertionError)"
| "validate C LiteralDict v = rbind (dict_validate v) (\<lambda>_.
     case v of VDict d \<Rightarrow> rbind (rmap (\<lambda>p. validate C LiteralT (snd p)) d) (\<lambda>_. Inr True) | _ \<Rightarrow> Inl AssertionError)"
| "validate C (UnionT ts) v = try_each (\<lambda>t. validate C t v) ts"
| "validate C LiteralT v = try_each (\<lambda>t. validate C t v) literal_types"
| "validate C (ConstraintType ns n b) v =
     (if v = VUnknown then Inr True
      else rbind (validate C b v) (\<lambda>_. rbind (C (ns @ ''::'' @ n) v) (\<lambda>ok.
        if ok then Inr True else Inl RuntimeException)))"
| "validate C (EntityT e) v = entity_validate e v"
  by pat_completeness auto
termination
  by (relation "measures [\<lambda>(C, t, v). size v, \<lambda>(C, t, v). nesting t]")
    (auto intro!: le_imp_less_Suc intro: nesting_member size_dict_member size_list_member' dest: nesting_literal)

end
