(* ===== verification/Type_Laws.thy ===== *)
theory Type_Laws
  imports Type_System
begin

text \<open>
  Subtypes and validation: which values a type accepts, and that a subtype accepts no more.
\<close>

section \<open>Plain values and declared names\<close>

definition declares :: "(string \<Rightarrow> itype option) \<Rightarrow> itype \<Rightarrow> bool" where
  \<comment> \<open>the name of the type is bound to the type itself\<close>
  "declares D t = (case named_type t of None \<Rightarrow> True | Some n \<Rightarrow> D n = Some t)"

fun entity_declared :: "(string \<Rightarrow> itype option) \<Rightarrow> entity \<Rightarrow> bool" where
  "entity_declared D (Entity ns n ps d) = (declares D (EntityT (Entity ns n ps d)) \<and> list_all (entity_declared D) ps)"

fun type_declared :: "(string \<Rightarrow> itype option) \<Rightarrow> itype \<Rightarrow> bool" where
  "type_declared D (ReferenceType t) = type_declared D t"
| "type_declared D (OrReferenceType t) = type_declared D t"
| "type_declared D (NullableType t) = type_declared D t"
| "type_declared D (TypedList t) = type_declared D t"
| "type_declared D (TypedDict t) = type_declared D t"
| "type_declared D (UnionT ts) = list_all (type_declared D) ts"
| "type_declared D (ConstraintType ns n b) = (declares D (ConstraintType ns n b) \<and> type_declared D b)"
| "type_declared D (EntityT e) = entity_declared D e"
| "type_declared D _ = True"

fun plain_value :: "(string \<Rightarrow> itype option) \<Rightarrow> dslval \<Rightarrow> bool" where
  \<comment> \<open>no reference, nothing unknown and no \<open>None\<close> of Python inside\<close>
  "plain_value D (VList vs) = list_all (plain_value D) vs"
| "plain_value D (VDict d) = list_all (\<lambda>p. plain_value D (snd p)) d"
| "plain_value D (VInstance e r) = (r = None \<and> entity_declared D e)"
| "plain_value D v = (v \<noteq> VUnknown \<and> v \<noteq> VPyNone \<and> (\<forall>r. v \<noteq> VReference r))"

fun fully_typed :: "itype \<Rightarrow> bool" where
  \<comment> \<open>no untyped list or dict inside\<close>
  "fully_typed (ReferenceType t) = fully_typed t"
| "fully_typed (OrReferenceType t) = fully_typed t"
| "fully_typed (NullableType t) = fully_typed t"
| "fully_typed ListT = False"
| "fully_typed (TypedList t) = fully_typed t"
| "fully_typed DictT = False"
| "fully_typed (TypedDict t) = fully_typed t"
| "fully_typed (UnionT ts) = list_all fully_typed ts"
| "fully_typed (ConstraintType ns n b) = fully_typed b"
| "fully_typed _ = True"

definition orderly :: "constraints \<Rightarrow> bool" where
  \<comment> \<open>a constraint raises nothing but exceptions of the compiler\<close>
  "orderly C = (\<forall>n v e. C n v = Inl e \<longrightarrow> is_runtime_exception e)"

abbreviation valid :: "constraints \<Rightarrow> itype \<Rightarrow> dslval \<Rightarrow> bool" where
  "valid C t v \<equiv> validate C t v = Inr True"

section \<open>What a type accepts\<close>

definition settled :: "bool result \<Rightarrow> bool" where
  \<comment> \<open>accepted, or refused with an exception of the compiler\<close>
  "settled r = (r = Inr True \<or> (\<exists>e. r = Inl e \<and> is_runtime_exception e))"

lemma settled_intros [intro, simp]:
  "settled (Inr True)" "settled (Inl RuntimeException)" "settled (Inl TypingException)" "settled (Inl UnexpectedReference)"
  by (auto simp: settled_def is_runtime_exception_def)

lemma settledE:
  assumes "settled r"
  obtains (accepted) "r = Inr True" | (refused) e where "r = Inl e" "is_runtime_exception e"
  using assms by (auto simp: settled_def)

lemma try_each_settled:
  "\<forall>x \<in> set xs. settled (f x) \<Longrightarrow>
   settled (try_each f xs) \<and> (try_each f xs = Inr True \<longleftrightarrow> (\<exists>x \<in> set xs. f x = Inr True))"
proof (induction xs)
  case (Cons x xs)
  then have IH: "settled (try_each f xs)" "(try_each f xs = Inr True) = (\<exists>x \<in> set xs. f x = Inr True)"
    and "settled (f x)" by auto
  from this(3) show ?case
  proof (cases rule: settledE)
    case (refused e)
    then show ?thesis using IH by simp
  qed simp
qed auto

lemma rmap_settled:
  "\<forall>x \<in> set xs. settled (f x) \<Longrightarrow> settled (rbind (rmap f xs) (\<lambda>_. Inr True))
   \<and> (rbind (rmap f xs) (\<lambda>_. Inr True) = Inr True \<longleftrightarrow> (\<forall>x \<in> set xs. f x = Inr True))"
proof (induction xs)
  case (Cons x xs)
  then have IH: "settled (rbind (rmap f xs) (\<lambda>_. Inr True))"
      "(rbind (rmap f xs) (\<lambda>_. Inr True) = Inr True) = (\<forall>x \<in> set xs. f x = Inr True)"
    and "settled (f x)" by auto
  from this(3) show ?case
  proof (cases rule: settledE)
    case accepted
    then show ?thesis using IH by (cases "rmap f xs") auto
  next
    case (refused e)
    then show ?thesis by (auto simp: settled_def)
  qed
qed auto

lemmas primitive_defs = number_validate_def float_validate_def integer_validate_def bool_validate_def string_validate_def
  is_number_def is_integral_def primitive_validate_def type_validate_def

lemma plain_unwrap: "plain_value D v \<Longrightarrow> unwrap_reference v = None"
  by (cases v) auto

lemma validate_settled: "plain_value D v \<Longrightarrow> orderly C \<Longrightarrow> settled (validate C t v)"
proof (induction C t v rule: validate.induct)
  case (12 C t v)
  then show ?case by (cases v) (auto simp: list_validate_def list_all_iff rmap_settled)
next
  case (13 C v)
  then show ?case by (cases v) (auto simp: list_validate_def list_all_iff rmap_settled)
next
  case (15 C t v)
  then show ?case by (cases v) (auto simp: dict_validate_def list_all_iff rmap_settled)
next
  case (16 C v)
  then show ?case by (cases v) (auto simp: dict_validate_def list_all_iff rmap_settled)
next
  case (17 C ts v)
  then show ?case by (simp add: try_each_settled)
next
  case (18 C v)
  then show ?case by (simp add: try_each_settled)
next
  case (19 C ns n b v)
  then have "settled (validate C b v)" by (cases v) auto
  then show ?case using 19(3)
    by (auto simp: settled_def orderly_def rbind_def is_runtime_exception_def split: sum.splits)
qed (auto simp: primitive_defs reference_validate_def plain_unwrap list_validate_def dict_validate_def entity_validate_def
    split: dslval.splits)

lemma try_each_only_True: "try_each f xs \<noteq> Inr False"
  by (induction xs) (auto split: sum.splits)

lemma validate_only_True: "validate C t v \<noteq> Inr False"
proof (induction C t v rule: validate.induct)
  case (17 C ts v)
  then show ?case by (simp add: try_each_only_True)
next
  case (18 C v)
  then show ?case by (simp add: try_each_only_True)
qed (auto simp: primitive_defs reference_validate_def list_validate_def dict_validate_def entity_validate_def rbind_eq_Inr
    split: dslval.splits option.splits)

lemma validate_bool: "validate C t v = Inr b \<longleftrightarrow> b \<and> validate C t v = Inr True"
  using validate_only_True[of C t v] by (cases b) auto

lemma type_validate_plain: "plain_value D v \<Longrightarrow> type_validate v = Inr True"
  by (cases v) (auto simp: type_validate_def)

lemma valid_reference: "plain_value D v \<Longrightarrow> \<not> valid C (ReferenceType t) v"
  by (simp add: reference_validate_def plain_unwrap)

lemma valid_or_reference: "plain_value D v \<Longrightarrow> valid C (OrReferenceType t) v = valid C t v"
  by (simp add: plain_unwrap)

lemma valid_union: "plain_value D v \<Longrightarrow> orderly C \<Longrightarrow> valid C (UnionT ts) v = (\<exists>t \<in> set ts. valid C t v)"
  by (simp add: try_each_settled validate_settled)

lemma valid_literal: "plain_value D v \<Longrightarrow> orderly C \<Longrightarrow> valid C LiteralT v = (\<exists>t \<in> set literal_types. valid C t v)"
  by (simp add: try_each_settled validate_settled)

lemma list_elements_valid:
  assumes "plain_value D v" "orderly C"
  shows "rbind (list_validate v) (\<lambda>_. case v of VList vs \<Rightarrow> rbind (rmap (validate C t) vs) (\<lambda>_. Inr True) | _ \<Rightarrow> Inl AssertionError)
    = Inr True \<longleftrightarrow> (\<exists>vs. v = VList vs \<and> (\<forall>x \<in> set vs. plain_value D x \<and> valid C t x))"
proof (cases v)
  case (VList vs)
  then have plain: "\<forall>x \<in> set vs. plain_value D x" using assms(1) by (simp add: list_all_iff)
  then have "\<forall>x \<in> set vs. settled (validate C t x)" using validate_settled assms(2) by blast
  from rmap_settled[OF this] show ?thesis using VList plain by (simp add: list_validate_def)
qed (use assms(1) in \<open>auto simp: list_validate_def\<close>)

lemma dict_elements_valid:
  assumes "plain_value D v" "orderly C"
  shows "rbind (dict_validate v) (\<lambda>_. case v of VDict d \<Rightarrow> rbind (rmap (\<lambda>p. validate C t (snd p)) d) (\<lambda>_. Inr True) | _ \<Rightarrow> Inl AssertionError)
    = Inr True \<longleftrightarrow> (\<exists>d. v = VDict d \<and> (\<forall>p \<in> set d. plain_value D (snd p) \<and> valid C t (snd p)))"
proof (cases v)
  case (VDict d)
  then have plain: "\<forall>p \<in> set d. plain_value D (snd p)" using assms(1) by (simp add: list_all_iff)
  then have "\<forall>p \<in> set d. settled (validate C t (snd p))" using validate_settled assms(2) by blast
  from rmap_settled[OF this] show ?thesis using VDict plain by (simp add: dict_validate_def)
qed (use assms(1) in \<open>auto simp: dict_validate_def\<close>)

lemma primitive_valid:
  assumes "plain_value D v"
  shows "valid C NumberT v = is_number v" "valid C FloatT v = is_float v" "valid C IntegerT v = is_integral v"
    "valid C BoolT v = is_bool v" "valid C StringT v = is_str v"
  using assms by (cases v; simp add: primitive_defs)+

lemma container_valid:
  assumes "plain_value D v" "orderly C"
  shows "valid C (TypedList t) v = (\<exists>vs. v = VList vs \<and> (\<forall>x \<in> set vs. plain_value D x \<and> valid C t x))"
    "valid C LiteralList v = valid C (TypedList LiteralT) v"
    "valid C (TypedDict t) v = (\<exists>d. v = VDict d \<and> (\<forall>p \<in> set d. plain_value D (snd p) \<and> valid C t (snd p)))"
    "valid C LiteralDict v = valid C (TypedDict LiteralT) v"
  using list_elements_valid[OF assms] dict_elements_valid[OF assms] by (simp_all only: validate.simps)

lemma untyped_valid:
  assumes "plain_value D v"
  shows "valid C ListT v = (\<exists>vs. v = VList vs)" "valid C DictT v = (\<exists>d. v = VDict d)"
  using assms by (cases v; simp add: list_validate_def dict_validate_def)+

lemma constraint_valid:
  assumes "plain_value D v"
  shows "valid C (ConstraintType ns n b) v \<longleftrightarrow> valid C b v \<and> C (ns @ ''::'' @ n) v = Inr True"
proof -
  have "v \<noteq> VUnknown" using assms by auto
  then show ?thesis using validate_only_True[of C b v]
    by (cases "validate C b v"; cases "C (ns @ ''::'' @ n) v") auto
qed

lemma simple_valid: "valid C NullT v = (v = VNone)" "valid C (NullableType t) v = (v = VNone \<or> valid C t v)"
    "valid C (EntityT e) v = (entity_validate e v = Inr True)"
  by simp_all

lemma any_valid: "plain_value D v \<Longrightarrow> valid C AnyT v"
  by (simp add: type_validate_plain)

declare validate.simps [simp del]

section \<open>Equal types accept the same values\<close>

lemma eq_literal_union:
  assumes "eq_literal (UnionT ts)"
  obtains l m r where "ts = [NullableType FloatT, NumberT, BoolT, StringT, l, m, ReferenceType r]"
    "l = LiteralList \<or> (\<exists>x. l = TypedList x \<and> eq_literal x)" "m = LiteralDict \<or> (\<exists>x. m = TypedDict x \<and> eq_literal x)"
  using assms by (auto split: list.splits itype.splits)

lemma same_elements:
  assumes "orderly C" "\<And>x. plain_value D x \<Longrightarrow> valid C t x = valid C u x" "plain_value D v"
  shows "valid C (TypedList t) v = valid C (TypedList u) v" "valid C (TypedDict t) v = valid C (TypedDict u) v"
  unfolding container_valid[OF assms(3,1)] using assms(2) by auto

lemma eq_literal_cases: "eq_literal t \<Longrightarrow> t = LiteralT \<or> (\<exists>ts. t = UnionT ts)"
  by (cases t) auto

lemma eq_literal_valid:
  assumes "orderly C" "eq_literal t" "plain_value D v"
  shows "valid C t v = valid C LiteralT v"
  using assms(2,3)
proof (induction t arbitrary: v rule: measure_induct_rule[where f = weight])
  case (less t)
  note v = less.prems(2) assms(1)
  show ?case
  proof (cases "t = LiteralT")
    case False
    then obtain ts where t: "t = UnionT ts" using eq_literal_cases less.prems(1) by blast
    from less.prems(1)[unfolded t] obtain l m r where ts: "ts = [NullableType FloatT, NumberT, BoolT, StringT, l, m, ReferenceType r]"
      "l = LiteralList \<or> (\<exists>x. l = TypedList x \<and> eq_literal x)" "m = LiteralDict \<or> (\<exists>x. m = TypedDict x \<and> eq_literal x)"
      by (rule eq_literal_union)
    have inner: "valid C x w = valid C LiteralT w" if "eq_literal x" "plain_value D w" "weight x < weight l + weight m" for x w
      using less.IH[of x w] that t ts(1) by simp
    have "valid C l v = valid C (TypedList LiteralT) v"
    proof (cases "l = LiteralList")
      case False
      then obtain x where "l = TypedList x" "eq_literal x" using ts(2) by blast
      then show ?thesis using same_elements(1)[OF assms(1) _ v(1), of x LiteralT] inner[of x] by simp
    qed (simp only: container_valid[OF v])
    moreover have "valid C m v = valid C (TypedDict LiteralT) v"
    proof (cases "m = LiteralDict")
      case False
      then obtain x where "m = TypedDict x" "eq_literal x" using ts(3) by blast
      then show ?thesis using same_elements(2)[OF assms(1) _ v(1), of x LiteralT] inner[of x] by simp
    qed (simp only: container_valid[OF v])
    ultimately show ?thesis
      unfolding t ts(1) valid_union[OF v] valid_literal[OF v] literal_types_def using valid_reference[OF v(1)] by simp
  qed simp
qed

lemma eq_literal_elements:
  assumes "orderly C" "eq_literal t" "plain_value D v"
  shows "valid C (TypedList t) v = valid C LiteralList v" "valid C (TypedDict t) v = valid C LiteralDict v"
  using same_elements[OF assms(1) eq_literal_valid[OF assms(1,2)] assms(3)]
  by (simp_all only: container_valid(2,4)[OF assms(3,1)])

lemma declared_name:
  assumes "type_declared D t"
  shows "declares D t"
proof (cases t)
  case (EntityT e)
  then show ?thesis using assms by (cases e) simp
qed (use assms in \<open>auto simp: declares_def\<close>)

lemma same_named_valid:
  assumes "same_named t u" "named_type t \<noteq> None" "type_declared D t" "type_declared D u"
  shows "t = u"
proof -
  have "declares D t" "declares D u" using assms(3,4) by (simp_all add: declared_name)
  then show ?thesis using assms(1,2) by (auto simp: same_named_def declares_def)
qed

lemma type_eq_valid:
  assumes "orderly C"
  shows "type_eq t u \<Longrightarrow> type_declared D t \<Longrightarrow> type_declared D u \<Longrightarrow> plain_value D v \<Longrightarrow> valid C t v = valid C u v"
    "type_eq_list ts us \<Longrightarrow> list_all (type_declared D) ts \<Longrightarrow> list_all (type_declared D) us \<Longrightarrow> plain_value D v \<Longrightarrow>
     (\<exists>t \<in> set ts. valid C t v) = (\<exists>t \<in> set us. valid C t v)"
proof (induction t u and ts us arbitrary: v and v rule: type_eq_type_eq_list.induct)
  case (1 a u)
  then show ?case by (cases u) (simp_all add: valid_reference)
next
  case (2 a u)
  then show ?case by (cases u) (simp_all add: valid_or_reference)
next
  case (3 a u)
  then show ?case by (cases u) (simp_all add: simple_valid)
next
  case (4 a u)
  note E = eq_literal_elements(1)[OF assms _ 4(5)]
  show ?case
  proof (cases u)
    case (TypedList b)
    then show ?thesis using same_elements(1)[OF assms 4(1) 4(5)] 4(2-4) by (simp)
  qed (use E(1) 4(2) in \<open>simp_all\<close>)
next
  case (5 u)
  note E = eq_literal_elements(1)[OF assms _ 5(4), symmetric]
  show ?case using E 5(1) by (cases u) (simp_all)
next
  case (6 a u)
  note E = eq_literal_elements(2)[OF assms _ 6(5)]
  show ?case
  proof (cases u)
    case (TypedDict b)
    then show ?thesis using same_elements(2)[OF assms 6(1) 6(5)] 6(2-4) by (simp)
  qed (use E(1) 6(2) in \<open>simp_all\<close>)
next
  case (7 u)
  note E = eq_literal_elements(2)[OF assms _ 7(4), symmetric]
  show ?case using E 7(1) by (cases u) (simp_all)
next
  case (8 ts u)
  show ?case
  proof (cases u)
    case (UnionT us)
    with 8(2-4) have "type_eq_list ts us" "list_all (type_declared D) ts" "list_all (type_declared D) us" by simp_all
    from 8(1)[OF UnionT this 8(5)] show ?thesis unfolding UnionT valid_union[OF 8(5) assms] .
  next
    case LiteralT
    then show ?thesis using eq_literal_valid[OF assms _ 8(5), of "UnionT ts"] 8(2) by simp
  qed (use 8(2) in simp_all)
next
  case (9 u)
  then show ?case using eq_literal_valid[OF assms _ 9(4), of u] by simp
next
  case (10 ns n b u)
  then show ?case using same_named_valid[of "ConstraintType ns n b" u D] by (simp)
next
  case (11 e u)
  then show ?case using same_named_valid[of "EntityT e" u D] by (cases u) (simp_all add: same_named_def entity_full_name_def)
next
  case (22 t ts us)
  then show ?case by (cases us) (simp_all)
qed simp_all

section \<open>Attribute types are literals\<close>

lemma literal_validI:
  assumes "plain_value D v" "orderly C" "t \<in> set literal_types" "valid C t v"
  shows "valid C LiteralT v"
  unfolding valid_literal[OF assms(1,2)] using assms(3,4) by blast

lemma primitive_literal:
  assumes "plain_value D v" "orderly C" "is_number v \<or> is_bool v \<or> is_str v \<or> v = VNone"
  shows "valid C LiteralT v"
  unfolding valid_literal[OF assms(1,2)] literal_types_def using assms(3) primitive_valid[OF assms(1)]
  by (auto simp: simple_valid)

lemma attribute_valid_literal:
  assumes "orderly C"
  shows "is_attribute_type t \<Longrightarrow> plain_value D v \<Longrightarrow> valid C t v \<Longrightarrow> valid C LiteralT v"
proof (induction t arbitrary: v)
  case (ReferenceType t)
  then show ?case using valid_reference by blast
next
  case (OrReferenceType t)
  then show ?case using valid_or_reference by simp
next
  case (NullableType t)
  then show ?case using primitive_literal[OF _ assms] by (auto simp: simple_valid)
next
  case (TypedList t)
  then have "valid C (TypedList LiteralT) v" unfolding container_valid[OF TypedList(3) assms] by auto
  then show ?case using literal_validI[OF TypedList(3) assms, of "TypedList LiteralT"] by (simp add: literal_types_def)
next
  case LiteralList
  then show ?case using literal_validI[OF _ assms, of D v "TypedList LiteralT"] container_valid(2)[OF _ assms]
    by (simp add: literal_types_def)
next
  case LiteralDict
  then show ?case using literal_validI[OF _ assms, of D v "TypedDict LiteralT"] container_valid(4)[OF _ assms]
    by (simp add: literal_types_def)
next
  case (UnionT ts)
  then show ?case by (auto simp: valid_union[OF UnionT(3) assms] list_all_iff)
qed (use primitive_literal[OF _ assms] primitive_valid in \<open>auto simp: is_number_def\<close>)

section \<open>Subtypes\<close>

lemma entity_declared_parent: "entity_declared D e \<Longrightarrow> p \<in> set (parent_entities e) \<Longrightarrow> entity_declared D p"
  by (cases e) (auto simp: list_all_iff)

lemma same_entity:
  assumes "entity_full_name e = entity_full_name f" "entity_declared D e" "entity_declared D f"
  shows "e = f"
  using same_named_valid[of "EntityT e" "EntityT f" D] assms by (simp add: same_named_def)

lemma is_parent_trans:
  assumes "entity_declared D g" "entity_declared D e" "is_parent g e" "is_parent e f"
  shows "is_parent g f"
  using assms(1,3)
proof (induction g)
  case (Entity ns n ps d)
  then obtain p where p: "p \<in> set ps" "entity_full_name p = entity_full_name e \<or> is_parent p e"
    by (auto simp: list_ex_iff)
  have "entity_declared D p" using Entity.prems(1) p(1) by (simp add: list_all_iff)
  then have "is_parent p f"
    using p(2) same_entity[OF _ _ assms(2)] assms(4) Entity.IH[OF p(1)] by blast
  then show ?case using p(1) by (auto simp: list_ex_iff)
qed

lemma is_parent_name: "entity_full_name f = entity_full_name e \<Longrightarrow> is_parent g f = is_parent g e"
proof (induction g)
  case (Entity ns n ps d)
  then show ?case by (simp add: list_ex_iff)
qed

lemma is_subclass_valid:
  assumes "entity_declared D e" "plain_value D v" "is_subclass e f False" "valid C (EntityT e) v"
  shows "valid C (EntityT f) v"
proof -
  from assms(2,4) obtain g where g: "v = VInstance g None" "entity_declared D g"
      "entity_full_name g = entity_full_name e \<or> is_parent g e"
    by (cases v) (auto simp: simple_valid entity_validate_def is_subclass_def split: if_splits)
  from this(3) have "entity_full_name g = entity_full_name f \<or> is_parent g f"
  proof
    assume "entity_full_name g = entity_full_name e"
    then have "g = e" using same_entity g(2) assms(1) by blast
    then show ?thesis using assms(3) by (auto simp: is_subclass_def)
  next
    assume e: "is_parent g e"
    show ?thesis
    proof (cases "entity_full_name f = entity_full_name e")
      case True
      with e show ?thesis using is_parent_name by blast
    next
      case False
      then show ?thesis using assms(3) is_parent_trans[OF g(2) assms(1) e] by (auto simp: is_subclass_def)
    qed
  qed
  then show ?thesis using g(1) by (simp add: simple_valid entity_validate_def is_subclass_def)
qed

definition accepts_in :: "(string \<Rightarrow> itype option) \<Rightarrow> constraints \<Rightarrow> itype \<Rightarrow> itype \<Rightarrow> bool" where
  \<comment> \<open>on plain values, the second type accepts what the first one accepts\<close>
  "accepts_in D C t u = (type_declared D t \<and> type_declared D u \<and> fully_typed t \<longrightarrow>
     (\<forall>v. plain_value D v \<and> valid C t v \<longrightarrow> valid C u v))"

lemma accepts_in_elements:
  assumes "orderly C" "type_declared D t" "type_declared D u" "fully_typed t" "accepts_in D C t u" "plain_value D v"
  shows "valid C (TypedList t) v \<Longrightarrow> valid C (TypedList u) v" "valid C (TypedDict t) v \<Longrightarrow> valid C (TypedDict u) v"
  using assms(2-5) unfolding container_valid[OF assms(6,1)] accepts_in_def by blast+

lemma issupertype_valid:
  assumes "orderly C" "issupertype u t"
    and IH: "\<And>t' u'. issubtype t' u' \<Longrightarrow> weight t' + weight u' < weight t + weight u \<Longrightarrow> accepts_in D C t' u'"
  shows "accepts_in D C t u"
  unfolding accepts_in_def
proof (intro impI allI, elim conjE)
  fix v assume v: "type_declared D t" "type_declared D u" "fully_typed t" "plain_value D v" "valid C t v"
  show "valid C u v"
  proof (cases u)
    case (OrReferenceType e)
    have "valid C e v"
    proof (cases t)
      case (ReferenceType x)
      then show ?thesis using v(4,5) valid_reference by blast
    next
      case (OrReferenceType x)
      then have "issubtype x e" using assms(2) \<open>u = OrReferenceType e\<close> by (simp add: issupertype.simps)
      from IH[OF this] show ?thesis
        using v \<open>u = OrReferenceType e\<close> \<open>t = OrReferenceType x\<close> valid_or_reference by (auto simp: accepts_in_def)
    qed (use assms(2) IH[of t e] v OrReferenceType in \<open>auto simp: accepts_in_def issupertype.simps\<close>)
    then show ?thesis using OrReferenceType valid_or_reference[OF v(4)] by simp
  next
    case (NullableType e)
    then show ?thesis using assms(2) IH[of t e] v by (auto simp: simple_valid issupertype.simps accepts_in_def)
  next
    case AnyT
    then show ?thesis using any_valid[OF v(4)] by simp
  next
    case NumberT
    then show ?thesis using assms(2) v(5) primitive_valid[OF v(4)]
      by (auto simp: issupertype.simps is_number_def is_integral_def)
  next
    case (UnionT ts)
    with assms(2) obtain e where e: "e \<in> set ts" "issubtype t e" by (auto simp: issupertype.simps list_ex_iff)
    have "type_declared D e" using v(2) e(1) UnionT by (simp add: list_all_iff)
    moreover have "weight e < weight u" using weight_member[OF e(1)] UnionT by simp
    ultimately have "valid C e v" using IH[OF e(2)] v by (simp add: accepts_in_def)
    then show ?thesis unfolding UnionT valid_union[OF v(4) assms(1)] using e(1) by blast
  next
    case LiteralT
    then show ?thesis using assms(2) attribute_valid_literal[OF assms(1) _ v(4,5)] by (simp add: issupertype.simps)
  qed (use assms(2) in \<open>simp_all add: issupertype.simps\<close>)
qed

lemma type_eq_accepts: "orderly C \<Longrightarrow> type_eq t u \<Longrightarrow> accepts_in D C t u"
  using type_eq_valid(1) unfolding accepts_in_def by blast

lemma list_element_valid:
  "list_element u = Some b \<Longrightarrow> plain_value D v \<Longrightarrow> orderly C \<Longrightarrow> valid C u v = valid C (TypedList b) v"
  by (cases u) (simp_all add: list_element_def container_valid(2))

lemma dict_element_valid:
  "dict_element u = Some b \<Longrightarrow> plain_value D v \<Longrightarrow> orderly C \<Longrightarrow> valid C u v = valid C (TypedDict b) v"
  by (cases u) (simp_all add: dict_element_def container_valid(4))

lemma element_declared:
  "list_element u = Some b \<Longrightarrow> type_declared D u \<Longrightarrow> type_declared D b"
  "dict_element u = Some b \<Longrightarrow> type_declared D u \<Longrightarrow> type_declared D b"
  by (cases u; auto simp: list_element_def dict_element_def)+

lemma element_fully_typed:
  "list_element u = Some b \<Longrightarrow> fully_typed u \<Longrightarrow> fully_typed b"
  "dict_element u = Some b \<Longrightarrow> fully_typed u \<Longrightarrow> fully_typed b"
  by (cases u; auto simp: list_element_def dict_element_def)+

lemma list_subtype_accepts:
  assumes "orderly C" "list_element t = Some a" "list_element u = Some b" "accepts_in D C a b"
  shows "accepts_in D C t u"
  unfolding accepts_in_def
proof (intro impI allI, elim conjE)
  fix v assume v: "type_declared D t" "type_declared D u" "fully_typed t" "plain_value D v" "valid C t v"
  have "valid C (TypedList a) v" using v(5) list_element_valid[OF assms(2) v(4) assms(1)] by simp
  from accepts_in_elements(1)[OF assms(1) element_declared(1)[OF assms(2) v(1)] element_declared(1)[OF assms(3) v(2)]
      element_fully_typed(1)[OF assms(2) v(3)] assms(4) v(4) this]
  show "valid C u v" using list_element_valid[OF assms(3) v(4) assms(1)] by simp
qed

lemma dict_subtype_accepts:
  assumes "orderly C" "dict_element t = Some a" "dict_element u = Some b" "accepts_in D C a b"
  shows "accepts_in D C t u"
  unfolding accepts_in_def
proof (intro impI allI, elim conjE)
  fix v assume v: "type_declared D t" "type_declared D u" "fully_typed t" "plain_value D v" "valid C t v"
  have "valid C (TypedDict a) v" using v(5) dict_element_valid[OF assms(2) v(4) assms(1)] by simp
  from accepts_in_elements(2)[OF assms(1) element_declared(2)[OF assms(2) v(1)] element_declared(2)[OF assms(3) v(2)]
      element_fully_typed(2)[OF assms(2) v(3)] assms(4) v(4) this]
  show "valid C u v" using dict_element_valid[OF assms(3) v(4) assms(1)] by simp
qed

lemma issubtype_list:
  "list_element t = Some a \<Longrightarrow> issubtype t u = (case list_element u of Some b \<Rightarrow> issubtype a b | None \<Rightarrow> issupertype u t)"
  by (cases t) (simp_all add: list_element_def issubtype.simps split: itype.splits)

lemma issubtype_dict:
  "dict_element t = Some a \<Longrightarrow> issubtype t u = (case dict_element u of Some b \<Rightarrow> issubtype a b | None \<Rightarrow> issupertype u t)"
  by (cases t) (simp_all add: dict_element_def issubtype.simps split: itype.splits)

lemma issubtype_accepts:
  assumes "orderly C"
  shows "issubtype t u \<Longrightarrow> accepts_in D C t u"
proof (induction "weight t + weight u" arbitrary: t u rule: less_induct)
  case less
  have super: ?case if "issupertype u t"
    using issupertype_valid[OF assms that] less.hyps by blast
  have eq: ?case if "type_eq t u"
    using type_eq_accepts[OF assms that] .
  have list: ?case if "list_element t = Some a" for a
  proof (cases "list_element u")
    case None
    then show ?thesis using super less.prems issubtype_list[OF that] by simp
  next
    case (Some b)
    then have "issubtype a b" using less.prems issubtype_list[OF that] by simp
    from less.hyps[OF _ this] weight_list_element[OF that] weight_list_element[OF Some] show ?thesis
      using list_subtype_accepts[OF assms that Some] by simp
  qed
  have dict: ?case if "dict_element t = Some a" for a
  proof (cases "dict_element u")
    case None
    then show ?thesis using super less.prems issubtype_dict[OF that] by simp
  next
    case (Some b)
    then have "issubtype a b" using less.prems issubtype_dict[OF that] by simp
    from less.hyps[OF _ this] weight_dict_element[OF that] weight_dict_element[OF Some] show ?thesis
      using dict_subtype_accepts[OF assms that Some] by simp
  qed
  show ?case
  proof (cases t)
    case (ReferenceType a)
    then show ?thesis using valid_reference by (auto simp: accepts_in_def)
  next
    case (NullableType a)
    show ?thesis
    proof (cases "\<exists>b. u = NullableType b \<and> issubtype a b")
      case True
      then obtain b where b: "u = NullableType b" "issubtype a b" by blast
      with less.hyps[OF _ b(2)] NullableType show ?thesis by (auto simp: accepts_in_def simple_valid)
    next
      case False
      then show ?thesis using less.prems NullableType super by (simp add: issubtype.simps[of "NullableType a"] split: itype.splits)
    qed
  next
    case NumberT
    then have "accepts_in D C FloatT u" "accepts_in D C IntegerT u"
      using less.prems less.hyps[of FloatT u] less.hyps[of IntegerT u] by (simp_all add: issubtype.simps[of NumberT])
    then show ?thesis using NumberT primitive_valid by (simp add: accepts_in_def is_number_def) blast
  next
    case (UnionT ts)
    show ?thesis
    proof (cases "type_eq t u")
      case False
      then have sub: "\<forall>e \<in> set ts. issubtype e u" using less.prems UnionT by (simp add: issubtype.simps[of "UnionT ts"] list_all_iff)
      have "accepts_in D C e u" if "e \<in> set ts" for e
        using less.hyps[of e u] sub that weight_member[OF that] UnionT by simp
      then show ?thesis using UnionT valid_union[OF _ assms] by (auto simp: accepts_in_def list_all_iff) 
    qed (rule eq)
  next
    case (ConstraintType ns n b)
    show ?thesis
    proof (cases "type_eq t u")
      case False
      then have "accepts_in D C b u"
        using less.hyps[of b u] less.prems ConstraintType by (simp add: issubtype.simps[of "ConstraintType ns n b"])
      then show ?thesis using ConstraintType constraint_valid by (auto simp: accepts_in_def)
    qed (rule eq)
  next
    case (EntityT e)
    show ?thesis
    proof (cases "\<exists>f. u = EntityT f")
      case True
      then show ?thesis using EntityT less.prems is_subclass_valid by (auto simp: accepts_in_def issubtype.simps[of "EntityT e"])
    next
      case False
      then show ?thesis using less.prems EntityT super by (simp add: issubtype.simps[of "EntityT e"] split: itype.splits)
    qed
  next
    case (TypedList a)
    then show ?thesis using list by (simp add: list_element_def)
  next
    case LiteralList
    then show ?thesis using list by (simp add: list_element_def)
  next
    case (TypedDict a)
    then show ?thesis using dict by (simp add: dict_element_def)
  next
    case LiteralDict
    then show ?thesis using dict by (simp add: dict_element_def)
  next
    case ListT
    then show ?thesis by (simp add: accepts_in_def)
  next
    case DictT
    then show ?thesis by (simp add: accepts_in_def)
  qed (use less.prems super eq in \<open>auto simp: issubtype.simps\<close>)
qed

lemma boolean_is_an_integer: "validate C IntegerT (VBool b) = Inr True \<and> validate C NumberT (VBool b) = Inr True"
  by (simp add: validate.simps primitive_defs)

section \<open>Reflexivity\<close>

lemma eq_literal_not: "list_element t = Some x \<Longrightarrow> \<not> eq_literal t" "dict_element t = Some x \<Longrightarrow> \<not> eq_literal t"
  by (cases t; simp add: list_element_def dict_element_def)+

lemma type_eq_refl: "type_eq t t"
proof (induction t)
  case (UnionT ts)
  then have "type_eq_list ts ts" by (induction ts) auto
  then show ?case by simp
qed (simp_all add: same_named_def)

lemma issubtype_refl: "issubtype t t"
proof (induction t)
  case (UnionT ts)
  show ?case by (simp add: issubtype.simps type_eq_refl del: type_eq.simps)
next
  case (TypedList t)
  then show ?case by (simp add: issubtype_list[where a = t] list_element_def)
next
  case LiteralList
  show ?case by (simp add: issubtype_list[where a = LiteralT] list_element_def issubtype.simps[of LiteralT])
next
  case (TypedDict t)
  then show ?case by (simp add: issubtype_dict[where a = t] dict_element_def)
next
  case LiteralDict
  show ?case by (simp add: issubtype_dict[where a = LiteralT] dict_element_def issubtype.simps[of LiteralT])
next
  case NumberT
  show ?case by (simp add: issubtype.simps issupertype.simps)
next
  case (OrReferenceType t)
  show ?case by (simp add: issubtype.simps[of "OrReferenceType t"] type_eq_refl)
qed (simp_all add: issubtype.simps is_list_type_def is_dict_type_def is_subclass_def same_named_def)

section \<open>Properties\<close>

text \<open>C28: A subtype accepts no more than its supertype: if a type without untyped lists and dicts is a subtype of another one and
  accepts a value that holds no references and nothing unknown, then so does the other one. Names are
  declared once, and constraints raise nothing but exceptions of the compiler.\<close>

theorem subtype_accepts_no_more:
  assumes "issubtype t u" "validate C t v = Inr True"
    and "fully_typed t" "plain_value D v" "type_declared D t" "type_declared D u" "orderly C"
  shows "validate C u v = Inr True"
  using issubtype_accepts[OF assms(7,1)] assms(2-6) unfolding accepts_in_def by blast

theorem subtype_accepts_no_more_witness:
  "validate (\<lambda>n v. Inr (v = VInt 80))
     (OrReferenceType (UnionT [StringT, TypedDict (NullableType NumberT)])) (VDict [(''a'', VInt 80), (''b'', VNone)]) = Inr True"
proof -
  let ?C = "\<lambda>n v. Inr (v = VInt 80)" and ?port = "ConstraintType ''net'' ''port'' IntegerT"
  let ?D = "[''net::port'' \<mapsto> ?port]" and ?t = "TypedDict (NullableType ?port)"
  let ?u = "OrReferenceType (UnionT [StringT, TypedDict (NullableType NumberT)])"
  have accepted: "validate ?C ?t (VDict [(''a'', VInt 80), (''b'', VNone)]) = Inr True"
    by (simp add: validate.simps dict_validate_def integer_validate_def primitive_validate_def)
  have sub: "issubtype ?t ?u" by code_simp
  have C: "orderly ?C" by (simp add: orderly_def)
  show ?thesis
    by (rule subtype_accepts_no_more[OF sub accepted _ _ _ _ C, where D = ?D]) (simp_all add: declares_def)
qed

text \<open>Untyped containers are the wrong way round: the untyped list is a subtype of every typed list and the
  untyped dict of every typed dict, although the typed ones refuse elements of another type, and
  no typed list is a subtype of the untyped one, although the untyped one accepts all lists.\<close>

theorem untyped_containers_inverted:
  "issubtype ListT (TypedList t) \<and> \<not> issubtype (TypedList t) ListT
   \<and> issubtype DictT (TypedDict t) \<and> \<not> issubtype (TypedDict t) DictT
   \<and> validate C ListT (VList vs) = Inr True \<and> validate C (TypedList IntegerT) (VList [VStr s]) = Inl RuntimeException
   \<and> validate C DictT (VDict d) = Inr True \<and> validate C (TypedDict IntegerT) (VDict [(k, VStr s)]) = Inl RuntimeException"
  by (simp add: issubtype.simps issupertype.simps is_list_type_def is_dict_type_def list_element_def dict_element_def
      validate.simps list_validate_def dict_validate_def integer_validate_def primitive_defs)

text \<open>References are the wrong way round: the type of references to \<open>a\<close> is a subtype of that of references to \<open>b\<close> iff
  \<open>b\<close> is a subtype of \<open>a\<close>, but a reference to an \<open>a\<close> is accepted as a reference to a \<open>b\<close> iff \<open>a\<close> is a subtype
  of \<open>b\<close>, and so is its type for the shorthand that allows values as well.\<close>

theorem reference_types_inverted:
  "issubtype (ReferenceType a) (ReferenceType b) = issubtype b a
   \<and> (validate C (ReferenceType b) (VReference (Some a)) = Inr True) = issubtype a b
   \<and> issubtype (ReferenceType a) (OrReferenceType b) = issubtype a b"
  by (simp add: issubtype.simps[of "ReferenceType a"] issupertype.simps validate.simps reference_validate_def)

end
