(* ===== verification/Type_Unions.thy ===== *)
theory Type_Unions
  imports Type_Laws
begin

text \<open>
  Unions and attribute types: the normalisation of a union (\<open>create_union\<close>) and the types
  with which the compiler checks attributes (\<open>ast/attribute.py\<close>).
\<close>

section \<open>Hashing\<close>

fun type_hash :: "itype \<Rightarrow> unit result" where
  \<comment> \<open>whether \<open>hash(t)\<close> returns: a subclass that redefines \<open>__eq__\<close> alone has no hash, and that of a literal recurs for ever\<close>
  "type_hash LiteralList = Inl TypeError"
| "type_hash LiteralDict = Inl TypeError"
| "type_hash LiteralT = Inl RecursionError"
| "type_hash (ReferenceType t) = type_hash t"
| "type_hash (OrReferenceType t) = type_hash t"
| "type_hash (NullableType t) = type_hash t"
| "type_hash (TypedList t) = type_hash t"
| "type_hash (TypedDict t) = type_hash t"
| "type_hash (UnionT ts) = rbind (rmap type_hash ts) (\<lambda>_. Inr ())"
| "type_hash _ = Inr ()"

abbreviation hashable :: "itype \<Rightarrow> bool" where
  "hashable t \<equiv> type_hash t = Inr ()"

section \<open>Normalisation\<close>

type_synonym base_or_ref = "itype option \<times> itype option"
  \<comment> \<open>\<open>BaseOrRef\<close>: \<open>has_base\<close> and \<open>has_ref\<close>\<close>

definition convert :: "base_or_ref \<Rightarrow> itype result" where
  "convert = (\<lambda>(has_base, has_ref). case (has_base, has_ref) of
     (Some b, Some r) \<Rightarrow> mk_or_reference_type b
   | (None, Some r) \<Rightarrow> Inr r
   | (Some b, None) \<Rightarrow> Inr b
   | (None, None) \<Rightarrow> Inl AssertionError)"

fun sorted_update :: "(base_or_ref \<Rightarrow> base_or_ref) \<Rightarrow> itype \<Rightarrow> (itype \<times> base_or_ref) list \<Rightarrow> (itype \<times> base_or_ref) list" where
  \<comment> \<open>the \<open>defaultdict\<close> keyed by types\<close>
  "sorted_update f t [] = [(t, f (None, None))]"
| "sorted_update f t ((k, b) # d) = (if type_eq k t then (k, f b) # d else (k, b) # sorted_update f t d)"

lemma weight_positive: "0 < weight t"
  by (cases t) auto

function sort_types :: "itype list \<Rightarrow> itype list \<Rightarrow> (itype \<times> base_or_ref) list \<Rightarrow> bool \<Rightarrow> ((itype \<times> base_or_ref) list \<times> bool) result" where
  \<comment> \<open>the work list, the types seen, the sorted types, and whether the union is nullable\<close>
  "sort_types [] seen d nullable = Inr (d, nullable)"
| "sort_types (t # work) seen d nullable = rbind (type_hash t) (\<lambda>_.
     if list_ex (\<lambda>s. type_eq s t) seen then sort_types work seen d nullable
     else case t of
       UnionT ts \<Rightarrow> sort_types (work @ ts) (t # seen) d nullable
     | LiteralT \<Rightarrow> Inl RecursionError \<comment> \<open>the hash has raised\<close>
     | NullableType e \<Rightarrow> sort_types (work @ [e]) (t # seen) d True
     | NullT \<Rightarrow> sort_types work (t # seen) d True
     | ReferenceType e \<Rightarrow> sort_types work (t # seen) (sorted_update (\<lambda>(b, r). (b, Some t)) e d) nullable
     | _ \<Rightarrow> sort_types work (t # seen) (sorted_update (\<lambda>(b, r). (Some t, r)) t d) nullable)"
  by pat_completeness auto
termination
  by (relation "measure (\<lambda>(work, seen, d, nullable). sum_list (map weight work))") (auto simp: weight_positive)

definition create_union :: "itype list \<Rightarrow> itype result" where
  "create_union types = rbind (sort_types types [] [] False) (\<lambda>(d, nullable).
     rbind (rmap (\<lambda>kb. convert (snd kb)) d) (\<lambda>bases.
       let base_union = (case bases of [b] \<Rightarrow> b | _ \<Rightarrow> UnionT bases)
       in Inr (if nullable then NullableType base_union else base_union)))"

section \<open>Attributes\<close>

definition wrap_type :: "itype \<Rightarrow> bool \<Rightarrow> bool \<Rightarrow> bool \<Rightarrow> itype result" where
  \<comment> \<open>for \<open>multi\<close>, \<open>nullable\<close> and \<open>with_references\<close>\<close>
  "wrap_type base multi nullable refs =
     rbind (if multi then rbind (if refs then mk_or_reference_type base else Inr base) (\<lambda>t. Inr (TypedList t)) else Inr base) (\<lambda>t.
       let t = (if nullable then NullableType t else t)
       in if refs then mk_or_reference_type t else Inr t)"

definition attribute_validate :: "constraints \<Rightarrow> itype \<Rightarrow> dslval \<Rightarrow> bool result" where
  \<comment> \<open>\<open>Attribute.validate\<close> for the internal type; nothing is checked about an unknown value\<close>
  "attribute_validate C type_internal v = (if v = VUnknown then Inr True else validate C type_internal v)"

section \<open>Equal types with a hash are the same\<close>

lemma hashable_union: "hashable (UnionT ts) \<longleftrightarrow> list_all hashable ts"
  by (induction ts) (auto simp: rbind_eq_Inr)

lemma eq_literal_no_hash: "eq_literal t \<Longrightarrow> \<not> hashable t"
proof (induction t rule: measure_induct_rule[where f = weight])
  case (less t)
  show ?case
  proof (cases "t = LiteralT")
    case False
    then obtain ts where t: "t = UnionT ts" using eq_literal_cases less.prems by blast
    from less.prems[unfolded t] obtain l m r where ts: "ts = [NullableType FloatT, NumberT, BoolT, StringT, l, m, ReferenceType r]"
        "l = LiteralList \<or> (\<exists>x. l = TypedList x \<and> eq_literal x)" "m = LiteralDict \<or> (\<exists>x. m = TypedDict x \<and> eq_literal x)"
      by (rule eq_literal_union)
    have smaller: "weight x < weight t" if "l = TypedList x" for x using that t ts(1) by simp
    from ts(2) have "\<not> hashable l"
    proof
      assume "\<exists>x. l = TypedList x \<and> eq_literal x"
      then obtain x where x: "l = TypedList x" "eq_literal x" by blast
      from less.IH[OF smaller[OF x(1)] x(2)] x(1) show ?thesis by simp
    qed simp
    then show ?thesis unfolding t hashable_union ts(1) by simp
  qed simp
qed

lemma type_eq_same:
  "type_eq t u \<Longrightarrow> hashable t \<Longrightarrow> hashable u \<Longrightarrow> type_declared D t \<Longrightarrow> type_declared D u \<Longrightarrow> t = u"
  "type_eq_list ts us \<Longrightarrow> list_all hashable ts \<Longrightarrow> list_all hashable us \<Longrightarrow>
   list_all (type_declared D) ts \<Longrightarrow> list_all (type_declared D) us \<Longrightarrow> ts = us"
proof (induction t u and ts us rule: type_eq_type_eq_list.induct)
  case (4 a u)
  then show ?case using eq_literal_no_hash[of a] by (cases u) auto
next
  case (6 a u)
  then show ?case using eq_literal_no_hash[of a] by (cases u) auto
next
  case (8 ts u)
  then show ?case using eq_literal_no_hash[of "UnionT ts"] by (cases u) (auto simp: hashable_union simp del: type_hash.simps(9))
next
  case (10 ns n b u)
  then show ?case using same_named_valid[of "ConstraintType ns n b" u D] by simp
next
  case (11 e u)
  then show ?case using same_named_valid[of "EntityT e" u D] by (cases u) (simp_all add: same_named_def entity_full_name_def)
next
  case (22 t ts us)
  then show ?case by (cases us) auto
qed (auto split: itype.splits)

section \<open>What a normalised union accepts\<close>

fun well_built :: "itype \<Rightarrow> bool" where
  \<comment> \<open>its constructors have not raised; no literal on its own, which has no name\<close>
  "well_built (ReferenceType t) = (well_built t \<and> mk_reference_type t = Inr (ReferenceType t))"
| "well_built (OrReferenceType t) = (well_built t \<and> mk_reference_type t = Inr (ReferenceType t))"
| "well_built (NullableType t) = well_built t"
| "well_built (TypedList t) = well_built t"
| "well_built (TypedDict t) = well_built t"
| "well_built (UnionT ts) = list_all well_built ts"
| "well_built (ConstraintType ns n b) = (well_built b \<and> \<not> supports_references b)"
| "well_built LiteralT = False"
| "well_built _ = True"

definition union_value :: "(string \<Rightarrow> itype option) \<Rightarrow> dslval \<Rightarrow> bool" where
  \<comment> \<open>a plain value, or a reference whose model type is set\<close>
  "union_value D v = (plain_value D v \<or> (\<exists>m. v = VReference (Some m)))"

lemma reference_settled: "orderly C \<Longrightarrow> settled (validate C t (VReference (Some m)))"
proof (induction C t "VReference (Some m)" rule: validate.induct)
  case (17 C ts)
  then show ?case by (simp add: try_each_settled validate.simps)
next
  case (18 C)
  then show ?case by (simp add: try_each_settled validate.simps)
next
  case (19 C ns n b)
  then show ?case
    by (auto simp: validate.simps settled_def orderly_def rbind_def is_runtime_exception_def split: sum.splits)
qed (simp_all add: validate.simps primitive_defs reference_validate_def list_validate_def dict_validate_def entity_validate_def)

lemma union_value_settled: "union_value D v \<Longrightarrow> orderly C \<Longrightarrow> settled (validate C t v)"
  using validate_settled reference_settled by (auto simp: union_value_def)

lemma union_accepts:
  "union_value D v \<Longrightarrow> orderly C \<Longrightarrow> valid C (UnionT ts) v = (\<exists>t \<in> set ts. valid C t v)"
  by (simp add: validate.simps try_each_settled union_value_settled)

lemma reference_refused:
  "well_built t \<Longrightarrow> \<not> supports_references t \<Longrightarrow> orderly C \<Longrightarrow> \<not> valid C t (VReference (Some m))"
proof (induction C t "VReference (Some m)" rule: validate.induct)
  case (17 C ts)
  then show ?case
    using union_accepts[of "\<lambda>_. None" "VReference (Some m)" C ts] by (auto simp: union_value_def list_all_iff list_ex_iff)
next
  case (19 C ns n b)
  then have "\<not> valid C b (VReference (Some m))" by simp
  then show ?case using validate_only_True[of C b "VReference (Some m)"]
    by (cases "validate C b (VReference (Some m))") (auto simp: validate.simps)
qed (simp_all add: validate.simps primitive_defs list_validate_def dict_validate_def entity_validate_def)

lemma or_reference_accepts:
  assumes "union_value D v" "orderly C" "well_built t" "mk_reference_type t = Inr (ReferenceType t)"
  shows "valid C (OrReferenceType t) v \<longleftrightarrow> valid C t v \<or> valid C (ReferenceType t) v"
proof (cases "plain_value D v")
  case True
  then show ?thesis using valid_or_reference valid_reference by blast
next
  case False
  then obtain m where v: "v = VReference (Some m)" using assms(1) by (auto simp: union_value_def)
  have "\<not> supports_references t" using assms(4) by (auto simp: mk_reference_type_def split: if_splits)
  from reference_refused[OF assms(3) this assms(2)] show ?thesis by (simp add: v validate.simps)
qed

section \<open>The loop\<close>

definition member_ok :: "(string \<Rightarrow> itype option) \<Rightarrow> itype \<Rightarrow> bool" where
  "member_ok D t = (hashable t \<and> type_declared D t \<and> well_built t)"

definition plain_member :: "itype \<Rightarrow> bool" where
  "plain_member t = (case t of UnionT _ \<Rightarrow> False | NullableType _ \<Rightarrow> False | NullT \<Rightarrow> False | ReferenceType _ \<Rightarrow> False | LiteralT \<Rightarrow> False | _ \<Rightarrow> True)"

definition entry_ok :: "(string \<Rightarrow> itype option) \<Rightarrow> itype \<times> base_or_ref \<Rightarrow> bool" where
  "entry_ok D = (\<lambda>(k, b, r). member_ok D k \<and> (b = None \<and> r \<noteq> None \<or> b = Some k \<and> plain_member k)
     \<and> (r = None \<or> r = Some (ReferenceType k) \<and> member_ok D (ReferenceType k)))"

definition sorted_ok :: "(string \<Rightarrow> itype option) \<Rightarrow> (itype \<times> base_or_ref) list \<Rightarrow> bool" where
  "sorted_ok D d = (distinct (map fst d) \<and> list_all (entry_ok D) d)"

definition sorted_members :: "(itype \<times> base_or_ref) list \<Rightarrow> itype set" where
  \<comment> \<open>the types that the sorted types stand for\<close>
  "sorted_members d = {t. \<exists>k b r. (k, b, r) \<in> set d \<and> (b = Some t \<or> r = Some t)}"

lemma sorted_members_simps [simp]:
  "sorted_members [] = {}"
  "sorted_members ((k, b, r) # d) = set_option b \<union> set_option r \<union> sorted_members d"
  by (auto simp: sorted_members_def)

lemma member_parts:
  "member_ok D (UnionT ts) \<Longrightarrow> list_all (member_ok D) ts"
  "member_ok D (NullableType t) \<Longrightarrow> member_ok D t"
  "member_ok D (ReferenceType t) \<Longrightarrow> member_ok D t"
  unfolding member_ok_def hashable_union by (auto simp: list_all_iff)

lemma same_member: "type_eq s t \<Longrightarrow> member_ok D s \<Longrightarrow> member_ok D t \<Longrightarrow> s = t"
  unfolding member_ok_def using type_eq_same(1) by blast

lemma sorted_update_ref:
  assumes "sorted_ok D d" "member_ok D (ReferenceType e)"
  shows "sorted_ok D (sorted_update (\<lambda>(b, r). (b, Some (ReferenceType e))) e d)
    \<and> set (map fst (sorted_update (\<lambda>(b, r). (b, Some (ReferenceType e))) e d)) = insert e (fst ` set d)
    \<and> sorted_members (sorted_update (\<lambda>(b, r). (b, Some (ReferenceType e))) e d) = insert (ReferenceType e) (sorted_members d)"
  using assms(1)
proof (induction d)
  case Nil
  then show ?case using assms(2) member_parts(3)[OF assms(2)]
    by (simp add: sorted_ok_def entry_ok_def)
next
  case (Cons p d)
  obtain k b r where p: "p = (k, b, r)" by (cases p) auto
  have k: "member_ok D k" "sorted_ok D d" using Cons.prems by (auto simp: sorted_ok_def entry_ok_def p)
  show ?case
  proof (cases "type_eq k e")
    case True
    then have "k = e" using same_member k(1) member_parts(3)[OF assms(2)] by blast
    then show ?thesis using True Cons.prems assms(2)
      by (auto simp: p sorted_ok_def entry_ok_def)
  next
    case False
    then have "k \<noteq> e" using type_eq_refl by blast
    then show ?thesis using False Cons.prems Cons.IH[OF k(2)]
      by (auto simp: p sorted_ok_def)
  qed
qed

lemma sorted_update_base:
  assumes "sorted_ok D d" "member_ok D t" "plain_member t"
  shows "sorted_ok D (sorted_update (\<lambda>(b, r). (Some t, r)) t d)
    \<and> set (map fst (sorted_update (\<lambda>(b, r). (Some t, r)) t d)) = insert t (fst ` set d)
    \<and> sorted_members (sorted_update (\<lambda>(b, r). (Some t, r)) t d) = insert t (sorted_members d)"
  using assms(1)
proof (induction d)
  case Nil
  then show ?case using assms(2,3) by (simp add: sorted_ok_def entry_ok_def)
next
  case (Cons p d)
  obtain k b r where p: "p = (k, b, r)" by (cases p) auto
  have k: "member_ok D k" "sorted_ok D d" using Cons.prems by (auto simp: sorted_ok_def entry_ok_def p)
  show ?case
  proof (cases "type_eq k t")
    case True
    then have "k = t" using same_member k(1) assms(2) by blast
    then show ?thesis using True Cons.prems assms(2,3)
      by (auto simp: p sorted_ok_def entry_ok_def)
  next
    case False
    then have "k \<noteq> t" using type_eq_refl by blast
    then show ?thesis using False Cons.prems Cons.IH[OF k(2)]
      by (auto simp: p sorted_ok_def)
  qed
qed

definition covered :: "itype set \<Rightarrow> itype set \<Rightarrow> itype set \<Rightarrow> bool \<Rightarrow> bool" where
  \<comment> \<open>for the types seen, the ones still to be looked at, and those sorted: nothing that was seen is lost\<close>
  "covered seen work members nullable = (\<forall>s \<in> seen. case s of
     UnionT ts \<Rightarrow> set ts \<subseteq> seen \<union> work
   | NullableType e \<Rightarrow> nullable \<and> e \<in> seen \<union> work
   | NullT \<Rightarrow> nullable
   | _ \<Rightarrow> s \<in> members)"

definition members_accept :: "constraints \<Rightarrow> dslval \<Rightarrow> itype set \<Rightarrow> bool \<Rightarrow> bool" where
  "members_accept C v members nullable = (nullable \<and> v = VNone \<or> (\<exists>t \<in> members. valid C t v))"

lemma covered_accepts:
  assumes "covered seen {} members nullable" "orderly C" "union_value D v"
  shows "t \<in> seen \<Longrightarrow> valid C t v \<Longrightarrow> members_accept C v members nullable"
proof (induction t rule: measure_induct_rule[where f = weight])
  case (less t)
  have c: "case t of UnionT ts \<Rightarrow> set ts \<subseteq> seen | NullableType e \<Rightarrow> nullable \<and> e \<in> seen | NullT \<Rightarrow> nullable | _ \<Rightarrow> t \<in> members"
    using assms(1) less.prems(1) unfolding covered_def Un_empty_right by (rule bspec)
  show ?case
  proof (cases t)
    case (UnionT ts)
    then obtain e where e: "e \<in> set ts" "valid C e v"
      using less.prems(2) union_accepts[OF assms(3,2)] by blast
    then have "weight e < weight t" using weight_member[OF e(1)] UnionT by simp
    moreover have "e \<in> seen" using c e(1) UnionT by auto
    ultimately show ?thesis using less.IH e(2) by blast
  next
    case (NullableType e)
    show ?thesis
    proof (cases "v = VNone")
      case False
      then show ?thesis using less.IH[of e] less.prems(2) c NullableType by (simp add: simple_valid)
    qed (use c NullableType in \<open>simp add: members_accept_def\<close>)
  qed (use c less.prems(2) in \<open>auto simp: members_accept_def simple_valid(1)\<close>)
qed

definition sorts_to :: "(string \<Rightarrow> itype option) \<Rightarrow> constraints \<Rightarrow> itype list \<Rightarrow> itype list \<Rightarrow> (itype \<times> base_or_ref) list \<Rightarrow> bool \<Rightarrow> bool" where
  "sorts_to D C work seen d nullable = (\<exists>d' nullable' seen'. sort_types work seen d nullable = Inr (d', nullable')
     \<and> sorted_ok D d' \<and> set work \<union> set seen \<subseteq> seen' \<and> covered seen' {} (sorted_members d') nullable'
     \<and> (\<forall>v. union_value D v \<longrightarrow> members_accept C v (sorted_members d') nullable' \<longrightarrow>
          members_accept C v (sorted_members d) nullable \<or> (\<exists>t \<in> set work. valid C t v)))"

lemma sorts_to_step:
  assumes "sort_types (t # work) seen d nullable = sort_types work' seen' d' nullable'"
    and "sorts_to D C work' seen' d' nullable'"
    and "set work \<union> set seen \<union> {t} \<subseteq> set work' \<union> set seen'"
    and "\<And>v. union_value D v \<Longrightarrow> members_accept C v (sorted_members d') nullable' \<or> (\<exists>t \<in> set work'. valid C t v) \<Longrightarrow>
        members_accept C v (sorted_members d) nullable \<or> (\<exists>t \<in> set (t # work). valid C t v)"
  shows "sorts_to D C (t # work) seen d nullable"
proof -
  from assms(2) obtain d'' nullable'' seen'' where r: "sort_types work' seen' d' nullable' = Inr (d'', nullable'')"
      "sorted_ok D d''" "set work' \<union> set seen' \<subseteq> seen''" "covered seen'' {} (sorted_members d'') nullable''"
      "\<forall>v. union_value D v \<longrightarrow> members_accept C v (sorted_members d'') nullable'' \<longrightarrow>
          members_accept C v (sorted_members d') nullable' \<or> (\<exists>t \<in> set work'. valid C t v)"
    unfolding sorts_to_def by blast
  have seen: "set (t # work) \<union> set seen \<subseteq> seen''" using assms(3) r(3) by auto
  have sound: "members_accept C v (sorted_members d) nullable \<or> (\<exists>t \<in> set (t # work). valid C t v)"
    if v: "union_value D v" "members_accept C v (sorted_members d'') nullable''" for v
    using r(5) v assms(4)[OF v(1)] by blast
  show ?thesis unfolding sorts_to_def assms(1)
    by (intro exI[of _ d''] exI[of _ nullable''] exI[of _ seen''] conjI allI impI r(1,2,4) seen sound)
qed

lemma covered_step:
  assumes "covered seen work members nullable" "seen \<union> work \<subseteq> seen' \<union> work'" "members \<subseteq> members'" "nullable \<longrightarrow> nullable'"
    and "\<And>s. s \<in> seen' - seen \<Longrightarrow> covered {s} (seen' \<union> work') members' nullable'"
  shows "covered seen' work' members' nullable'"
  unfolding covered_def
proof
  fix s assume s: "s \<in> seen'"
  show "case s of UnionT ts \<Rightarrow> set ts \<subseteq> seen' \<union> work' | NullableType e \<Rightarrow> nullable' \<and> e \<in> seen' \<union> work'
      | NullT \<Rightarrow> nullable' | _ \<Rightarrow> s \<in> members'"
  proof (cases "s \<in> seen")
    case True
    with assms(1) have "case s of UnionT ts \<Rightarrow> set ts \<subseteq> seen \<union> work | NullableType e \<Rightarrow> nullable \<and> e \<in> seen \<union> work
      | NullT \<Rightarrow> nullable | _ \<Rightarrow> s \<in> members" unfolding covered_def by blast
    then show ?thesis using assms(2-4) by (cases s) auto
  next
    case False
    then have "covered {s} (seen' \<union> work') members' nullable'" using assms(5) s by blast
    then show ?thesis using s unfolding covered_def by (cases s) auto
  qed
qed

lemma sort_types_base:
  assumes "hashable t" "\<not> list_ex (\<lambda>s. type_eq s t) seen" "plain_member t"
  shows "sort_types (t # work) seen d nullable = sort_types work (t # seen) (sorted_update (\<lambda>(b, r). (Some t, r)) t d) nullable"
  using assms by (cases t) (simp_all add: plain_member_def del: type_eq.simps)

lemma sort_types_step:
  assumes "hashable t"
  shows "list_ex (\<lambda>s. type_eq s t) seen \<Longrightarrow> sort_types (t # work) seen d nullable = sort_types work seen d nullable"
    "\<not> list_ex (\<lambda>s. type_eq s t) seen \<Longrightarrow> t = UnionT ts \<Longrightarrow>
     sort_types (t # work) seen d nullable = sort_types (work @ ts) (t # seen) d nullable"
    "\<not> list_ex (\<lambda>s. type_eq s t) seen \<Longrightarrow> t = NullableType e \<Longrightarrow>
     sort_types (t # work) seen d nullable = sort_types (work @ [e]) (t # seen) d True"
    "\<not> list_ex (\<lambda>s. type_eq s t) seen \<Longrightarrow> t = NullT \<Longrightarrow> sort_types (t # work) seen d nullable = sort_types work (t # seen) d True"
    "\<not> list_ex (\<lambda>s. type_eq s t) seen \<Longrightarrow> t = ReferenceType e \<Longrightarrow> sort_types (t # work) seen d nullable
      = sort_types work (t # seen) (sorted_update (\<lambda>(b, r). (b, Some t)) e d) nullable"
  using assms by (simp_all del: type_eq.simps)

lemma member_kinds:
  assumes "hashable t"
  obtains (union) ts where "t = UnionT ts" | (nullable) e where "t = NullableType e" | (null) "t = NullT"
    | (ref) e where "t = ReferenceType e" | (base) "plain_member t"
  using assms by (cases t) (auto simp: plain_member_def)

lemma covered_base: "plain_member t \<Longrightarrow> t \<in> members \<Longrightarrow> covered {t} work members nullable"
  by (cases t) (auto simp: covered_def plain_member_def)

lemma sorts_to_total:
  assumes "orderly C"
  shows "list_all (member_ok D) work \<Longrightarrow> list_all (member_ok D) seen \<Longrightarrow> sorted_ok D d \<Longrightarrow>
    covered (set seen) (set work) (sorted_members d) nullable \<Longrightarrow> sorts_to D C work seen d nullable"
proof (induction "sum_list (map weight work)" arbitrary: work seen d nullable rule: less_induct)
  case less
  note ok = less.prems
  show ?case
  proof (cases work)
    case Nil
    then have "covered (set seen) {} (sorted_members d) nullable" using ok(4) by simp
    then show ?thesis unfolding sorts_to_def Nil using ok(3)
      by (intro exI[of _ d] exI[of _ nullable] exI[of _ "set seen"]) simp
  next
    case (Cons t work')
    have t: "member_ok D t" "list_all (member_ok D) work'" "hashable t" using ok(1) Cons by (simp_all add: member_ok_def[symmetric], simp add: member_ok_def)
    note step = sort_types_step[OF t(3)]
    show ?thesis
    proof (cases "list_ex (\<lambda>s. type_eq s t) seen")
      case True
      then obtain s where "s \<in> set seen" "type_eq s t" by (auto simp: list_ex_iff)
      then have "t \<in> set seen" using same_member ok(2) t(1) unfolding list_all_iff by blast
      then have same: "set seen \<union> set work = set seen \<union> set work'" using Cons by auto
      have "covered (set seen) (set work') (sorted_members d) nullable"
        using covered_step[OF ok(4), of "set seen" "set work'" "sorted_members d" nullable] same by simp
      then have "sorts_to D C work' seen d nullable"
        using less.hyps[of work'] Cons weight_positive[of t] t(2) ok(2,3) by simp
      from sorts_to_step[OF step(1)[OF True] this] \<open>t \<in> set seen\<close> show ?thesis unfolding Cons by auto
    next
      case False
      have proceed: ?thesis
        if eq: "sort_types (t # work') seen d nullable = sort_types w (t # seen) d' n'"
          and small: "sum_list (map weight w) < sum_list (map weight work)" and w: "list_all (member_ok D) w" "set work' \<subseteq> set w"
          and d': "sorted_ok D d'" "sorted_members d \<subseteq> sorted_members d'" and n': "nullable \<longrightarrow> n'"
          and c: "covered {t} (set (t # seen) \<union> set w) (sorted_members d') n'"
          and sound: "\<And>v. union_value D v \<Longrightarrow> members_accept C v (sorted_members d') n' \<or> (\<exists>t \<in> set w. valid C t v) \<Longrightarrow>
            members_accept C v (sorted_members d) nullable \<or> (\<exists>t \<in> set (t # work'). valid C t v)" for w d' n'
      proof -
        have "covered (set (t # seen)) (set w) (sorted_members d') n'"
          using covered_step[OF ok(4), of "set (t # seen)" "set w" "sorted_members d'" n'] Cons w(2) d'(2) n' c by auto
        then have "sorts_to D C w (t # seen) d' n'"
          using less.hyps[of w "t # seen" d' n'] small w(1) t(1) ok(2) d'(1) by simp
        from sorts_to_step[OF eq this _ sound] w(2) show ?thesis unfolding Cons by auto
      qed
      from t(3) show ?thesis
      proof (cases rule: member_kinds)
        case (union ts)
        show ?thesis
          by (rule proceed[OF step(2)[OF False union]])
            (use t ok union Cons member_parts(1) union_accepts[OF _ assms] in \<open>auto simp: covered_def\<close>)
      next
        case (nullable e)
        show ?thesis
          by (rule proceed[OF step(3)[OF False nullable]])
            (use t ok nullable Cons member_parts(2) in \<open>auto simp: covered_def members_accept_def simple_valid(2)\<close>)
      next
        case null
        show ?thesis
          by (rule proceed[OF step(4)[OF False null]])
            (use t ok null Cons in \<open>auto simp: covered_def members_accept_def simple_valid(1)\<close>)
      next
        case (ref e)
        have u: "sorted_ok D (sorted_update (\<lambda>(b, r). (b, Some t)) e d)"
            "sorted_members (sorted_update (\<lambda>(b, r). (b, Some t)) e d) = insert t (sorted_members d)"
          using sorted_update_ref[OF ok(3)] t(1) ref by simp_all
        show ?thesis
          by (rule proceed[OF step(5)[OF False ref]])
            (use t ok ref Cons u weight_positive[of t] in \<open>auto simp: covered_def members_accept_def\<close>)
      next
        case base
        have u: "sorted_ok D (sorted_update (\<lambda>(b, r). (Some t, r)) t d)"
            "sorted_members (sorted_update (\<lambda>(b, r). (Some t, r)) t d) = insert t (sorted_members d)"
          using sorted_update_base[OF ok(3) t(1) base] by simp_all
        show ?thesis
          by (rule proceed[OF sort_types_base[OF t(3) False base]])
            (use t ok Cons u weight_positive[of t] covered_base[OF base] in \<open>auto simp: members_accept_def\<close>)
      qed
    qed
  qed
qed

section \<open>The result\<close>

definition flat_member :: "itype \<Rightarrow> bool" where
  \<comment> \<open>neither a union nor anything that stands for \<open>null\<close> alone\<close>
  "flat_member t = (case t of UnionT _ \<Rightarrow> False | NullableType _ \<Rightarrow> False | NullT \<Rightarrow> False | _ \<Rightarrow> True)"

definition normal_union :: "itype \<Rightarrow> bool" where
  "normal_union t = (let u = (case t of NullableType e \<Rightarrow> e | _ \<Rightarrow> t)
     in case u of UnionT ts \<Rightarrow> length ts \<noteq> 1 \<and> list_all flat_member ts | _ \<Rightarrow> flat_member u)"

lemma convert_exact:
  assumes "entry_ok D (k, br)"
  obtains t where "convert br = Inr t" "flat_member t"
    "\<And>C v. union_value D v \<Longrightarrow> orderly C \<Longrightarrow> valid C t v = (\<exists>u. (fst br = Some u \<or> snd br = Some u) \<and> valid C u v)"
proof -
  obtain b r where br: "br = (b, r)" by (cases br) auto
  note ok = assms[unfolded br entry_ok_def]
  have plain_flat: "plain_member k \<Longrightarrow> flat_member k" by (cases k) (auto simp: plain_member_def flat_member_def)
  show ?thesis
  proof (cases b)
    case None
    with ok have "r = Some (ReferenceType k)" by auto
    then show ?thesis using that[of "ReferenceType k"] None by (simp add: br convert_def flat_member_def)
  next
    case (Some x)
    then have k: "x = k" "plain_member k" using ok by auto
    show ?thesis
    proof (cases r)
      case None
      then show ?thesis using that[of k] Some k plain_flat by (simp add: br convert_def)
    next
      case (Some y)
      then have y: "y = ReferenceType k" "well_built k" "mk_reference_type k = Inr (ReferenceType k)"
        using ok by (auto simp: member_ok_def)
      then show ?thesis using that[of "OrReferenceType k"] \<open>b = Some x\<close> k(1) Some or_reference_accepts
        by (auto simp: br convert_def mk_or_reference_type_def flat_member_def)
    qed
  qed
qed

lemma convert_all:
  assumes "list_all (entry_ok D) d"
  shows "\<exists>bases. rmap (\<lambda>kb. convert (snd kb)) d = Inr bases \<and> list_all flat_member bases
    \<and> (\<forall>C v. union_value D v \<longrightarrow> orderly C \<longrightarrow> (\<exists>t \<in> set bases. valid C t v) = (\<exists>t \<in> sorted_members d. valid C t v))"
  using assms
proof (induction d)
  case (Cons p d)
  obtain k br where p: "p = (k, br)" by (cases p)
  from Cons obtain bases where IH: "rmap (\<lambda>kb. convert (snd kb)) d = Inr bases" "list_all flat_member bases"
      "\<forall>C v. union_value D v \<longrightarrow> orderly C \<longrightarrow> (\<exists>t \<in> set bases. valid C t v) = (\<exists>t \<in> sorted_members d. valid C t v)"
    by auto
  from Cons.prems p have "entry_ok D (k, br)" by simp
  then obtain t where t: "convert br = Inr t" "flat_member t"
    "\<And>C v. union_value D v \<Longrightarrow> orderly C \<Longrightarrow> valid C t v = (\<exists>u. (fst br = Some u \<or> snd br = Some u) \<and> valid C u v)"
    using convert_exact by blast
  have members: "sorted_members (p # d) = {u. fst br = Some u \<or> snd br = Some u} \<union> sorted_members d"
    by (cases br) (auto simp: p)
  have "(\<exists>x \<in> set (t # bases). valid C x v) = (\<exists>x \<in> sorted_members (p # d). valid C x v)"
    if "union_value D v" "orderly C" for C v
    unfolding members using t(3)[OF that] IH(3) that by auto
  then show ?case using IH(1,2) t(1,2) p by (intro exI[of _ "t # bases"]) simp
qed simp

lemma union_of_bases:
  assumes "list_all flat_member bases" "union_value D v" "orderly C"
  defines "u \<equiv> (case bases of [b] \<Rightarrow> b | _ \<Rightarrow> UnionT bases)"
  shows "valid C u v = (\<exists>t \<in> set bases. valid C t v)"
proof (cases "\<exists>b. bases = [b]")
  case False
  then have "u = UnionT bases" unfolding u_def by (auto split: list.splits)
  then show ?thesis using union_accepts[OF assms(2,3)] by simp
qed (auto simp: u_def)

lemma union_of_bases_normal:
  assumes "list_all flat_member bases"
  defines "u \<equiv> (case bases of [b] \<Rightarrow> b | _ \<Rightarrow> UnionT bases)"
  shows "normal_union u" "normal_union (NullableType u)"
proof -
  have "normal_union u \<and> normal_union (NullableType u)"
  proof (cases "\<exists>b. bases = [b]")
    case True
    then obtain b where b: "bases = [b]" by blast
    then have "flat_member b" using assms(1) by simp
    then show ?thesis unfolding u_def b by (cases b) (simp_all add: normal_union_def flat_member_def)
  next
    case False
    then have u: "u = UnionT bases" unfolding u_def by (auto split: list.splits)
    have "length bases \<noteq> 1" using False by (auto simp: length_Suc_conv)
    then show ?thesis unfolding u normal_union_def using assms(1) by simp
  qed
  then show "normal_union u" "normal_union (NullableType u)" by simp_all
qed

section \<open>Properties\<close>

text \<open>C37: The normalisation of a union is exact: if the types can be hashed and their constructors have not raised, the union
  is made, it is flat with \<open>null\<close> outermost, and it accepts a plain value or a reference iff one of
  the given types does. In particular, replacing a type and the references to it by their shorthand loses nothing.\<close>

theorem create_union_exact:
  assumes "list_all hashable ts" "list_all well_built ts" "list_all (type_declared D) ts" "orderly C"
  shows "\<exists>u. create_union ts = Inr u \<and> normal_union u
    \<and> (\<forall>v. union_value D v \<longrightarrow> (validate C u v = Inr True) = (\<exists>t \<in> set ts. validate C t v = Inr True))"
proof -
  have ok: "list_all (member_ok D) ts" using assms(1-3) by (simp add: member_ok_def list_all_iff)
  have "sorts_to D C ts [] [] False"
    using sorts_to_total[OF assms(4) ok] by (simp add: sorted_ok_def covered_def)
  then obtain d n seen where r: "sort_types ts [] [] False = Inr (d, n)" "sorted_ok D d" "set ts \<subseteq> seen"
      "covered seen {} (sorted_members d) n"
      "\<forall>v. union_value D v \<longrightarrow> members_accept C v (sorted_members d) n \<longrightarrow>
         members_accept C v {} False \<or> (\<exists>t \<in> set ts. valid C t v)"
    unfolding sorts_to_def by auto
  from convert_all[of D d] r(2) obtain bases where b: "rmap (\<lambda>kb. convert (snd kb)) d = Inr bases" "list_all flat_member bases"
      "\<forall>C v. union_value D v \<longrightarrow> orderly C \<longrightarrow> (\<exists>t \<in> set bases. valid C t v) = (\<exists>t \<in> sorted_members d. valid C t v)"
    unfolding sorted_ok_def by blast
  let ?base = "case bases of [b] \<Rightarrow> b | _ \<Rightarrow> UnionT bases"
  let ?u = "if n then NullableType ?base else ?base"
  have "create_union ts = Inr ?u" using r(1) b(1) by (simp add: create_union_def)
  moreover have "normal_union ?u" using union_of_bases_normal[OF b(2)] by simp
  moreover have "valid C ?u v = (\<exists>t \<in> set ts. valid C t v)" if v: "union_value D v" for v
  proof -
    have "valid C ?u v = members_accept C v (sorted_members d) n"
      using union_of_bases[OF b(2) v assms(4)] b(3) v assms(4) by (auto simp: members_accept_def simple_valid(2))
    also have "\<dots> = (\<exists>t \<in> set ts. valid C t v)"
      using covered_accepts[OF r(4) assms(4) v] r(3) r(5) v by (auto simp: members_accept_def)
    finally show ?thesis .
  qed
  ultimately show ?thesis by blast
qed

theorem create_union_exact_witness:
  "\<exists>u. create_union [UnionT [IntegerT, NullT], ReferenceType IntegerT, StringT] = Inr u \<and> normal_union u
    \<and> validate (\<lambda>n v. Inr True) u (VReference (Some IntegerT)) = Inr True"
proof -
  let ?ts = "[UnionT [IntegerT, NullT], ReferenceType IntegerT, StringT]" and ?C = "\<lambda>n v. Inr True" and ?D = "\<lambda>_. None"
  have pre: "list_all hashable ?ts" "list_all well_built ?ts" "list_all (type_declared ?D) ?ts" "orderly ?C"
    by (simp_all add: mk_reference_type_def orderly_def)
  from create_union_exact[OF pre] obtain u where u: "create_union ?ts = Inr u" "normal_union u"
    "\<forall>v. union_value ?D v \<longrightarrow> (validate ?C u v = Inr True) = (\<exists>t \<in> set ?ts. validate ?C t v = Inr True)" by blast
  have "union_value ?D (VReference (Some IntegerT))" by (simp add: union_value_def)
  moreover have "validate ?C (ReferenceType IntegerT) (VReference (Some IntegerT)) = Inr True"
    by (simp add: validate.simps reference_validate_def issubtype_refl)
  ultimately show ?thesis using u by auto
qed

text \<open>C38: For an attribute whose declared base type is neither a reference nor an entity, the declared type and the internal
  type are always made; on plain values the internal one accepts what the declared one accepts, it accepts a
  reference in place of the value iff the model type fits, and one in place of an element of a list iff its model type is a subtype of the base type.\<close>

theorem attribute_type_exact:
  assumes "\<not> supports_references base" "\<not> is_entity base" "orderly C"
  shows "\<exists>declared internal. wrap_type base multi nullable False = Inr declared \<and> wrap_type base multi nullable True = Inr internal
    \<and> (\<forall>v. plain_value D v \<longrightarrow> (attribute_validate C internal v = Inr True) = (validate C declared v = Inr True))
    \<and> (\<forall>m. (validate C internal (VReference (Some m)) = Inr True) = issubtype m (get_base_type internal))
    \<and> (\<forall>m. multi \<longrightarrow> (validate C internal (VList [VReference (Some m)]) = Inr True) = issubtype m base)"
proof -
  let ?elem = "if multi then TypedList base else base"
  let ?elem' = "if multi then TypedList (OrReferenceType base) else base"
  let ?t = "if nullable then NullableType ?elem else ?elem" and ?t' = "if nullable then NullableType ?elem' else ?elem'"
  have mk: "mk_reference_type t = Inr (ReferenceType t)" if "\<not> supports_references t" "\<not> is_entity t" for t
    using that by (cases t) (simp_all add: mk_reference_type_def)
  have "\<not> supports_references ?t'" "\<not> is_entity ?t'" using assms(1,2) by simp_all
  from mk[OF this] mk[OF assms(1,2)] have w: "wrap_type base multi nullable False = Inr ?t"
      "wrap_type base multi nullable True = Inr (OrReferenceType ?t')"
    by (cases multi; cases nullable; simp add: wrap_type_def mk_or_reference_type_def)+
  have elem: "valid C ?elem' v = valid C ?elem v" if "plain_value D v" for v
    using same_elements(1)[OF assms(3) valid_or_reference that] by simp
  have plain: "valid C (OrReferenceType ?t') v = valid C ?t v" if "plain_value D v" for v
    unfolding valid_or_reference[OF that] using elem[OF that] by (simp add: simple_valid(2))
  have known: "v \<noteq> VUnknown" if "plain_value D v" for v using that by auto
  have ref: "valid C (OrReferenceType ?t') (VReference (Some m)) = issubtype m ?t'" for m
    by (simp add: validate.simps reference_validate_def)
  have "valid C (TypedList (OrReferenceType base)) (VList [VReference (Some m)]) = issubtype m base" for m
    by (simp add: validate.simps reference_validate_def list_validate_def)
  then have list: "valid C (OrReferenceType ?t') (VList [VReference (Some m)]) = issubtype m base" if multi for m
    using that by (simp add: validate.simps(2,4))
  show ?thesis
    by (rule exI[of _ ?t], rule exI[of _ "OrReferenceType ?t'"], intro conjI w allI impI list)
      (simp_all only: attribute_validate_def plain known ref get_base_type.simps if_False simp_thms)
qed

theorem attribute_type_exact_witness:
  "\<exists>internal. wrap_type StringT True False True = Inr internal
    \<and> validate (\<lambda>n v. Inr True) internal (VList [VReference (Some StringT)]) = Inr True"
proof -
  have "orderly (\<lambda>n v. Inr True)" by (simp add: orderly_def)
  from attribute_type_exact[of StringT "\<lambda>n v. Inr True" True False "\<lambda>_. None", OF _ _ this] show ?thesis
    using issubtype_refl by fastforce
qed

end
