(* ===== verification/Type_Names.thy ===== *)
theory Type_Names
  imports Type_Unions
begin

text \<open>
  Types as text: how a type is written in the language and in Python, how a name in the model is resolved to a
  type (\<open>resolve_type\<close>, and \<open>Namespace.get_type\<close> from \<open>ast/__init__.py\<close>), and which types of
  Python annotations correspond to a type.
\<close>

section \<open>Texts\<close>

definition wrap_nullable :: "string \<Rightarrow> string" where
  "wrap_nullable s = (if CHR '' '' \<in> set s then ''('' @ s @ '')?'' else s @ ''?'')"

definition wrap_list :: "string \<Rightarrow> string" where
  "wrap_list s = (if CHR '' '' \<in> set s then ''('' @ s @ '')[]'' else s @ ''[]'')"

fun type_string :: "itype \<Rightarrow> string option" where
  \<comment> \<open>\<open>None\<close> if the type cannot be written in the language\<close>
  "type_string (OrReferenceType t) = type_string t"
| "type_string NullT = Some ''null''"
| "type_string (NullableType t) = map_option wrap_nullable (type_string t)"
| "type_string NumberT = Some ''number''"
| "type_string FloatT = Some ''float''"
| "type_string IntegerT = Some ''int''"
| "type_string BoolT = Some ''bool''"
| "type_string StringT = Some ''string''"
| "type_string ListT = Some ''list''"
| "type_string (TypedList t) = map_option wrap_list (type_string t)"
| "type_string LiteralList = Some ''list''"
| "type_string DictT = Some ''dict''"
| "type_string (TypedDict t) = Some ''dict''"
| "type_string LiteralDict = Some ''dict''"
| "type_string (ConstraintType ns n b) = Some (ns @ ''::'' @ n)"
| "type_string (EntityT e) = Some (entity_full_name e)"
| "type_string _ = None"

fun separated :: "string \<Rightarrow> string list \<Rightarrow> string" where
  \<comment> \<open>\<open>sep.join\<close>\<close>
  "separated sep [] = []"
| "separated sep [x] = x"
| "separated sep (x # xs) = x @ sep @ separated sep xs"

fun type_string_internal :: "itype \<Rightarrow> string" where
  "type_string_internal (ReferenceType t) = ''Reference['' @ type_string_internal t @ '']''"
| "type_string_internal (OrReferenceType t) = ''Reference['' @ type_string_internal t @ ''] | '' @ type_string_internal t"
| "type_string_internal NullT = ''null''"
| "type_string_internal (NullableType t) = wrap_nullable (type_string_internal t)"
| "type_string_internal AnyT = ''any''"
| "type_string_internal NumberT = ''number''"
| "type_string_internal FloatT = ''float''"
| "type_string_internal IntegerT = ''int''"
| "type_string_internal BoolT = ''bool''"
| "type_string_internal StringT = ''string''"
| "type_string_internal ListT = ''list''"
| "type_string_internal (TypedList t) = wrap_list (type_string_internal t)"
| "type_string_internal LiteralList = wrap_list ''Literal''"
| "type_string_internal DictT = ''Dict''"
| "type_string_internal (TypedDict t) = ''dict[string, '' @ type_string_internal t @ '']''"
| "type_string_internal LiteralDict = ''dict[string, Literal]''"
| "type_string_internal (UnionT ts) = ''Union['' @ separated '','' (map type_string_internal ts) @ '']''"
| "type_string_internal LiteralT = ''Literal''"
| "type_string_internal (ConstraintType ns n b) = ns @ ''::'' @ n"
| "type_string_internal (EntityT e) = entity_full_name e"

definition type_str :: "itype \<Rightarrow> string" where
  \<comment> \<open>\<open>Type.__str__\<close>\<close>
  "type_str t = (case type_string t of Some s \<Rightarrow> s | None \<Rightarrow> type_string_internal t)"

fun dots_for_colons :: "string \<Rightarrow> string" where
  \<comment> \<open>\<open>replace("::", ".")\<close>\<close>
  "dots_for_colons (CHR '':'' # CHR '':'' # s) = CHR ''.'' # dots_for_colons s"
| "dots_for_colons (c # s) = c # dots_for_colons s"
| "dots_for_colons [] = []"

definition formatted :: "string option \<Rightarrow> string" where
  \<comment> \<open>an optional text in an f-string\<close>
  "formatted s = (case s of Some x \<Rightarrow> x | None \<Rightarrow> ''None'')"

fun as_python_type_string :: "itype \<Rightarrow> string option" where
  "as_python_type_string (ReferenceType t) = Some (''Reference['' @ formatted (as_python_type_string t) @ '']'')"
| "as_python_type_string (OrReferenceType t) =
     Some (''Reference['' @ formatted (as_python_type_string t) @ ''] | '' @ formatted (as_python_type_string t))"
| "as_python_type_string NullT = Some ''None''"
| "as_python_type_string (NullableType t) = Some (formatted (as_python_type_string t) @ '' | None'')"
| "as_python_type_string AnyT = Some ''object''"
| "as_python_type_string NumberT = Some ''numbers.Number''"
| "as_python_type_string FloatT = Some ''float''"
| "as_python_type_string IntegerT = Some ''int''"
| "as_python_type_string BoolT = Some ''bool''"
| "as_python_type_string StringT = Some ''str''"
| "as_python_type_string ListT = Some ''list[object]''"
| "as_python_type_string (TypedList t) = Some (''list['' @ formatted (as_python_type_string t) @ '']'')"
| "as_python_type_string LiteralList = Some ''list[object]''"
| "as_python_type_string DictT = Some ''dict''"
| "as_python_type_string (TypedDict t) = Some (''dict[str, '' @ formatted (as_python_type_string t) @ '']'')"
| "as_python_type_string LiteralDict = Some ''dict[str, object]''"
| "as_python_type_string (UnionT ts) =
     (let texts = map as_python_type_string ts
      in if None \<in> set texts then None else Some (separated '' | '' (map formatted texts)))"
| "as_python_type_string LiteralT = Some ''object''"
| "as_python_type_string (ConstraintType ns n b) = as_python_type_string b"
| "as_python_type_string (EntityT e) =
     (if paired_dataclass e then Some (''inmanta_plugins.'' @ dots_for_colons (ent_namespace e) @ ''.'' @ ent_name e) else None)"

section \<open>Names\<close>

definition TYPES :: "(string, itype) dict" where
  "TYPES = [(''string'', StringT), (''float'', FloatT), (''number'', NumberT), (''int'', IntegerT),
     (''bool'', BoolT), (''list'', LiteralList), (''dict'', LiteralDict)]"

record namespace =
  primitives :: "(string, itype) dict"
  visible_namespaces :: "(string, (string, itype) dict) dict"
  defines_types :: "(string, itype) dict list"

text \<open>A namespace with the types of the namespaces visible from it, by their names, and the types that it
  and the namespaces around it define, the innermost first.\<close>

fun rsplit_colons :: "string \<Rightarrow> (string \<times> string) option" where
  \<comment> \<open>\<open>rsplit("::", 1)\<close>\<close>
  "rsplit_colons [] = None"
| "rsplit_colons (c # s) = (case rsplit_colons s of
     Some (a, b) \<Rightarrow> Some (c # a, b)
   | None \<Rightarrow> if take 2 (c # s) = ''::'' then Some ([], drop 2 (c # s)) else None)"

fun lookup_outwards :: "(string, itype) dict list \<Rightarrow> string \<Rightarrow> itype result" where
  "lookup_outwards [] name = Inl RuntimeException"
| "lookup_outwards (d # ds) name = (case map_of d name of Some t \<Rightarrow> Inr t | None \<Rightarrow> lookup_outwards ds name)"

definition get_type :: "namespace \<Rightarrow> string \<Rightarrow> itype result" where
  \<comment> \<open>a missing import and an unknown type are both \<open>RuntimeException\<close>s\<close>
  "get_type ns name = (case rsplit_colons name of
     Some (prefix, n) \<Rightarrow> (case map_of (visible_namespaces ns) prefix of
         Some d \<Rightarrow> (case map_of d n of Some t \<Rightarrow> Inr t | None \<Rightarrow> Inl RuntimeException)
       | None \<Rightarrow> Inl RuntimeException)
   | None \<Rightarrow> (case map_of (primitives ns) name of
         Some t \<Rightarrow> Inr t
       | None \<Rightarrow> lookup_outwards (defines_types ns) name))"

definition ends_with :: "string \<Rightarrow> string \<Rightarrow> bool" where
  "ends_with s suffix = (suffix = drop (length s - length suffix) s \<and> length suffix \<le> length s)"

definition resolve_type :: "namespace \<Rightarrow> string \<Rightarrow> itype result" where
  "resolve_type ns text =
     (if text = ''list'' then Inr ListT
      else if text = ''dict'' then Inr (TypedDict AnyT)
      else
        let nullable = ends_with text ''?'';
            text = (if nullable then butlast text else text);
            multi = ends_with text ''[]'';
            text = (if multi then take (length text - 2) text else text)
        in rbind (get_type ns text) (\<lambda>t.
             let t = (if multi then TypedList t else t)
             in Inr (if nullable then NullableType t else t)))"

section \<open>Correspondence with Python types\<close>

fun remove_type :: "itype \<Rightarrow> itype list \<Rightarrow> itype list result" where
  \<comment> \<open>\<open>list.remove\<close>\<close>
  "remove_type t [] = Inl ValueError"
| "remove_type t (u # us) = (if type_eq u t then Inr us else rbind (remove_type t us) (\<lambda>r. Inr (u # r)))"

definition union_members :: "itype \<Rightarrow> itype list" where
  "union_members t = (case t of UnionT ts \<Rightarrow> ts | LiteralT \<Rightarrow> literal_types | _ \<Rightarrow> [t])"

function corresponds_to :: "itype \<Rightarrow> itype \<Rightarrow> bool result"
  and first_corresponding :: "itype \<Rightarrow> itype list \<Rightarrow> itype option result"
  and union_corresponds :: "itype list \<Rightarrow> itype list \<Rightarrow> itype list \<Rightarrow> bool result" where
  "corresponds_to t u = (case t of
     ReferenceType a \<Rightarrow> (case u of ReferenceType b \<Rightarrow> corresponds_to a b | _ \<Rightarrow> Inr False)
   | OrReferenceType a \<Rightarrow>
       if u = AnyT then Inr True
       else rbind (corresponds_to a u) (\<lambda>ok.
         if ok then Inr True else case u of OrReferenceType b \<Rightarrow> corresponds_to a b | _ \<Rightarrow> Inr False)
   | NullT \<Rightarrow> Inr (u = NullT \<or> u = AnyT)
   | NullableType a \<Rightarrow> if u = AnyT then Inr True else (case u of NullableType b \<Rightarrow> corresponds_to a b | _ \<Rightarrow> Inr False)
   | AnyT \<Rightarrow> Inr True
   | NumberT \<Rightarrow> Inr (u \<in> {AnyT, FloatT, IntegerT, NumberT})
   | ListT \<Rightarrow> Inr (u = AnyT \<or> is_list_type u)
   | TypedList a \<Rightarrow> if u = AnyT then Inr True else (case list_element u of Some b \<Rightarrow> corresponds_to a b | None \<Rightarrow> Inr False)
   | LiteralList \<Rightarrow> if u = AnyT then Inr True else (case list_element u of Some b \<Rightarrow> corresponds_to LiteralT b | None \<Rightarrow> Inr False)
   | DictT \<Rightarrow> Inr (u = AnyT \<or> is_dict_type u)
   | TypedDict a \<Rightarrow> if u = AnyT then Inr True
       else if \<not> is_dict_type u then Inr False
       else (case dict_element u of Some b \<Rightarrow> corresponds_to a b | None \<Rightarrow> Inr True)
   | LiteralDict \<Rightarrow> if u = AnyT then Inr True
       else if \<not> is_dict_type u then Inr False
       else (case dict_element u of Some b \<Rightarrow> corresponds_to LiteralT b | None \<Rightarrow> Inr True)
   | UnionT ts \<Rightarrow> union_corresponds ts (union_members u) (union_members u)
   | LiteralT \<Rightarrow> Inr (u = AnyT \<or> is_attribute_type u)
   | ConstraintType ns n b \<Rightarrow> if t = u \<or> u = AnyT then Inr True else corresponds_to b u
   | EntityT e \<Rightarrow> Inr (u = AnyT \<or> u = t)
   | _ \<Rightarrow> Inr (u = AnyT \<or> type_eq u t))"
| "first_corresponding t [] = Inr None"
| "first_corresponding t (u # us) = rbind (corresponds_to t u) (\<lambda>ok. if ok then Inr (Some u) else first_corresponding t us)"
| "union_corresponds [] us unmatched = Inr (unmatched = [])"
| "union_corresponds (t # ts) us unmatched = rbind (first_corresponding t us) (\<lambda>m. case m of
     None \<Rightarrow> Inr False
   | Some u \<Rightarrow> rbind (remove_type u unmatched) (\<lambda>rest. union_corresponds ts us rest))"
  by pat_completeness auto
termination
  by (relation "measures [\<lambda>x. case x of Inl (t, u) \<Rightarrow> weight t | Inr (Inl (t, us)) \<Rightarrow> weight t
        | Inr (Inr (ts, us, r)) \<Rightarrow> Suc (sum_list (map weight ts)),
      \<lambda>x. case x of Inl (t, u) \<Rightarrow> 1 | Inr (Inl (t, us)) \<Rightarrow> Suc (Suc (length us)) | Inr (Inr (ts, us, r)) \<Rightarrow> 0]")
    (auto simp: weight_positive dest: weight_list_element weight_dict_element)

declare corresponds_to.simps [simp del]

section \<open>What the texts mean\<close>

lemma ends_with_append [simp]: "ends_with (s @ x) x"
  by (simp add: ends_with_def)

lemma ends_with_question: "ends_with s ''?'' \<longleftrightarrow> (\<exists>r. s = r @ ''?'')"
proof
  assume "ends_with s ''?''"
  then have "s = take (length s - 1) s @ ''?''" unfolding ends_with_def by (metis One_nat_def append_take_drop_id length_Cons list.size(3))
  then show "\<exists>r. s = r @ ''?''" by blast
qed (auto simp: ends_with_def)

lemma wrap_clean: "CHR '' '' \<notin> set s \<Longrightarrow> wrap_list s = s @ ''[]'' \<and> wrap_nullable s = s @ ''?''"
  by (simp add: wrap_list_def wrap_nullable_def)

definition plain_name :: "string \<Rightarrow> bool" where
  \<comment> \<open>a name as the grammar of the language allows it: no space and no modifier at the end\<close>
  "plain_name s = (CHR '' '' \<notin> set s \<and> \<not> ends_with s ''?'' \<and> \<not> ends_with s ''[]'')"

lemma resolve_plain:
  assumes "plain_name s" "s \<noteq> ''list''" "s \<noteq> ''dict''"
  shows "resolve_type ns s = get_type ns s"
  using assms by (cases "get_type ns s") (simp_all add: resolve_type_def plain_name_def)

lemma not_bare: "s @ ''[]'' \<noteq> ''list''" "s @ ''[]'' \<noteq> ''dict''" "s @ ''?'' \<noteq> ''list''" "s @ ''?'' \<noteq> ''dict''"
  by (auto dest: arg_cong[where f = last])

lemma list_suffix:
  "ends_with (s @ ''[]'') ''[]''" "\<not> ends_with (s @ ''[]'') ''?''" "take (length (s @ ''[]'') - 2) (s @ ''[]'') = s"
  by (simp_all add: ends_with_def)

lemma resolve_list: "resolve_type ns (s @ ''[]'') = rbind (get_type ns s) (\<lambda>t. Inr (TypedList t))"
  using list_suffix[of s] not_bare(1,2)[of s] by (cases "get_type ns s") (simp_all add: resolve_type_def)

lemma resolve_nullable:
  "\<not> ends_with s ''[]'' \<Longrightarrow> resolve_type ns (s @ ''?'') = rbind (get_type ns s) (\<lambda>t. Inr (NullableType t))"
  using not_bare(3,4)[of s] by (cases "get_type ns s") (simp_all add: resolve_type_def)

lemma resolve_nullable_list:
  "resolve_type ns (s @ ''[]?'') = rbind (get_type ns s) (\<lambda>t. Inr (NullableType (TypedList t)))"
proof -
  have "butlast (s @ ''[]?'') = s @ ''[]''" by (simp add: butlast_append)
  moreover have "s @ ''[]?'' \<noteq> ''list''" "s @ ''[]?'' \<noteq> ''dict''" using not_bare(3,4)[of "s @ ''[]''"] by simp_all
  moreover have "ends_with (s @ ''[]?'') ''?''" using ends_with_append[of "s @ ''[]''" "''?''"] by simp
  ultimately show ?thesis using list_suffix[of s] by (cases "get_type ns s") (simp_all add: resolve_type_def)
qed

section \<open>Properties\<close>

text \<open>C39: The text of a type resolves to the type: for a base type that its own name resolves to, the base type itself, lists of it, and
  the nullable versions of both are read back from what \<open>type_string\<close> writes; only the names
  \<open>list\<close> and \<open>dict\<close> on their own mean other types. The table of primitive types satisfies what its comment guarantees.\<close>

theorem type_string_resolves:
  assumes "type_string b = Some s" "get_type ns s = Inr b" "plain_name s"
  shows "map_option (resolve_type ns) (type_string (TypedList b)) = Some (Inr (TypedList b))
    \<and> map_option (resolve_type ns) (type_string (NullableType b)) = Some (Inr (NullableType b))
    \<and> map_option (resolve_type ns) (type_string (NullableType (TypedList b))) = Some (Inr (NullableType (TypedList b)))
    \<and> map_option (resolve_type ns) (type_string b)
      = Some (Inr (if s = ''list'' then ListT else if s = ''dict'' then TypedDict AnyT else b))
    \<and> list_all (\<lambda>(k, t). type_string t = Some k) TYPES"
proof -
  have "CHR '' '' \<notin> set s" "\<not> ends_with s ''[]''" using assms(3) by (simp_all add: plain_name_def)
  then show ?thesis
    using assms wrap_clean[of s] wrap_clean[of "s @ ''[]''"] resolve_plain[OF assms(3)]
      resolve_list[of ns s] resolve_nullable[of s ns] resolve_nullable_list[of ns s]
    by (auto simp: TYPES_def) (simp add: resolve_type_def)+
qed

theorem type_string_resolves_witness:
  "map_option (resolve_type \<lparr>primitives = TYPES, visible_namespaces = [], defines_types = []\<rparr>)
     (type_string (NullableType (TypedList LiteralList))) = Some (Inr (NullableType (TypedList LiteralList)))"
proof -
  let ?ns = "\<lparr>primitives = TYPES, visible_namespaces = [], defines_types = []\<rparr>"
  have "type_string LiteralList = Some ''list''" "get_type ?ns ''list'' = Inr LiteralList" "plain_name ''list''"
    by (simp, code_simp, code_simp)
  from type_string_resolves[OF this] show ?thesis by blast
qed

text \<open>A type that cannot be written in Python is written all the same: \<open>as_python_type_string\<close> should be \<open>None\<close> if there is no such
  type, and is for an entity without a dataclass and for a union with one, but a list, a dict or a nullable
  type of such an entity is written with the text \<open>None\<close>, that is as another type.\<close>

theorem unwritable_element_written:
  assumes "\<not> paired_dataclass e"
  shows "as_python_type_string (EntityT e) = None \<and> as_python_type_string (UnionT [EntityT e, StringT]) = None
    \<and> as_python_type_string (TypedList (EntityT e)) = as_python_type_string (TypedList NullT)
    \<and> as_python_type_string (TypedDict (EntityT e)) = as_python_type_string (TypedDict NullT)
    \<and> as_python_type_string (NullableType (EntityT e)) = as_python_type_string (NullableType NullT)"
  using assms by (simp add: formatted_def)

theorem unwritable_element_written_witness:
  "as_python_type_string (TypedList (EntityT (Entity ''std'' ''File'' [] False))) = Some ''list[None]''"
  using unwritable_element_written[of "Entity ''std'' ''File'' [] False"] by (simp add: formatted_def)

text \<open>The correspondence of a union fails on its own kind: if two members of a union correspond to the same type,
  comparing the union with that type, or with a union in which it comes first, raises a \<open>ValueError\<close> instead of an answer.\<close>

theorem union_correspondence_raises:
  "corresponds_to (UnionT (NumberT # IntegerT # ts)) IntegerT = Inl ValueError
   \<and> corresponds_to (UnionT (StringT # BoolT # ts)) AnyT = Inl ValueError
   \<and> corresponds_to (UnionT [IntegerT, NumberT]) (UnionT [IntegerT, NumberT]) = Inl ValueError"
  by (simp add: corresponds_to.simps union_members_def)

end
