(* ===== verification/Freeze_Order.thy ===== *)
theory Freeze_Order
  imports Core_Prelude
begin

text \<open>
  The order in which the compiler freezes relations (\<open>execute/scheduler.py\<close>): the graph of the relation
  precedence rules with its freeze order, and the queue of the variables that may be frozen.

  A relation attribute is identified by a name; a node of the graph is stored under its attribute.
\<close>

type_synonym relation_attr = string

section \<open>The graph of precedence rules\<close>

record graph_node =
  gn_dependents :: "relation_attr pyset"
  gn_dependencies :: "relation_attr pyset"

record precedence_graph =
  root_nodes :: "relation_attr pyset"
  attribute_to_node :: "(relation_attr, graph_node) dict"

definition empty_node :: graph_node where
  "empty_node = \<lparr>gn_dependents = [], gn_dependencies = []\<rparr>"

definition empty_graph :: precedence_graph where
  "empty_graph = \<lparr>root_nodes = [], attribute_to_node = []\<rparr>"

definition get_or_create_node :: "relation_attr \<Rightarrow> bool \<Rightarrow> precedence_graph \<Rightarrow> precedence_graph" where
  "get_or_create_node a attach_to_root g =
     (if has_key (attribute_to_node g) a then g
      else g\<lparr>attribute_to_node := dset (attribute_to_node g) a empty_node,
             root_nodes := (if attach_to_root then sadd a (root_nodes g) else root_nodes g)\<rparr>)"

definition node_of :: "precedence_graph \<Rightarrow> relation_attr \<Rightarrow> graph_node" where
  "node_of g a = dget (attribute_to_node g) a empty_node"

definition add_dependent :: "relation_attr \<Rightarrow> relation_attr \<Rightarrow> precedence_graph \<Rightarrow> precedence_graph" where
  "add_dependent a dependent g =
     (let n = node_of g a;
          g1 = g\<lparr>attribute_to_node := dset (attribute_to_node g) a (n\<lparr>gn_dependents := sadd dependent (gn_dependents n)\<rparr>)\<rparr>;
          d = node_of g1 dependent
      in g1\<lparr>attribute_to_node := dset (attribute_to_node g1) dependent (d\<lparr>gn_dependencies := sadd a (gn_dependencies d)\<rparr>)\<rparr>)"

definition add_precedence_rule :: "relation_attr \<Rightarrow> relation_attr \<Rightarrow> precedence_graph \<Rightarrow> precedence_graph" where
  "add_precedence_rule first_attr then_attr g =
     (let g = get_or_create_node first_attr True g;
          g = get_or_create_node then_attr False g;
          g = (if then_attr \<in> set (root_nodes g) then g\<lparr>root_nodes := sdiscard then_attr (root_nodes g)\<rparr> else g)
      in add_dependent first_attr then_attr g)"

definition build_graph :: "(relation_attr \<times> relation_attr pyset) list \<Rightarrow> precedence_graph" where
  \<comment> \<open>from the attributes with their \<open>freeze_dependents\<close>\<close>
  "build_graph attrs = fold (\<lambda>(a, ts). fold (add_precedence_rule a) ts) attrs empty_graph"

definition next_ready :: "(relation_attr pyset \<Rightarrow> relation_attr list) \<Rightarrow> precedence_graph \<Rightarrow> relation_attr pyset \<Rightarrow> relation_attr list \<Rightarrow> relation_attr option" where
  \<comment> \<open>\<open>get_next_ready_item_in_work\<close>; \<open>visit\<close>: the order in which a set is iterated\<close>
  "next_ready visit g work result = find (\<lambda>n. set (gn_dependencies (node_of g n)) \<subseteq> set result) (visit work)"

function freeze_loop :: "(relation_attr pyset \<Rightarrow> relation_attr list) \<Rightarrow> precedence_graph \<Rightarrow> relation_attr pyset \<Rightarrow> relation_attr list \<Rightarrow> relation_attr list result" where
  "freeze_loop visit g work result =
     (if work = [] then Inr result
      else case next_ready visit g work result of
        None \<Rightarrow> Inl CycleInRelationPrecedencePolicyError
      | Some n \<Rightarrow>
          if n \<in> set result then Inl CycleInRelationPrecedencePolicyError
          else if \<not> has_key (attribute_to_node g) n then Inl KeyError \<comment> \<open>a node in the work set is one of the graph\<close>
          else freeze_loop visit g (sunion (sdiscard n work) (gn_dependents (node_of g n))) (result @ [n]))"
  by pat_completeness auto
termination
proof (relation "measure (\<lambda>(visit, g, work, result). card (dom (map_of (attribute_to_node g)) - set result))", goal_cases)
  case (2 visit g work result n)
  let ?left = "\<lambda>r. dom (map_of (attribute_to_node g)) - set r"
  from 2 have "n \<in> ?left result" by (auto simp: has_key_def)
  then have "?left (result @ [n]) \<subset> ?left result" by auto
  then show ?case using psubset_card_mono[of "?left result"] finite_dom_map_of[of "attribute_to_node g"] by simp
qed simp

declare freeze_loop.simps [simp del]

definition get_freeze_order :: "(relation_attr pyset \<Rightarrow> relation_attr list) \<Rightarrow> precedence_graph \<Rightarrow> relation_attr list result" where
  "get_freeze_order visit g =
     (if attribute_to_node g = [] then Inr []
      else rbind (freeze_loop visit g (root_nodes g) []) (\<lambda>result.
        if length result \<noteq> length (attribute_to_node g) then Inl CycleInRelationPrecedencePolicyError else Inr result))"

section \<open>The graph is well formed\<close>

definition nodes_of :: "precedence_graph \<Rightarrow> relation_attr set" where
  "nodes_of g = dom (map_of (attribute_to_node g))"

definition rules_of :: "precedence_graph \<Rightarrow> (relation_attr \<times> relation_attr) set" where
  "rules_of g = {(a, b). a \<in> set (gn_dependencies (node_of g b))}"

definition graph_ok :: "precedence_graph \<Rightarrow> bool" where
  "graph_ok g \<longleftrightarrow> wf_dict (attribute_to_node g) \<and> distinct (root_nodes g)
     \<and> set (root_nodes g) = {n \<in> nodes_of g. gn_dependencies (node_of g n) = []}
     \<and> (\<forall>n. set (gn_dependencies (node_of g n)) \<subseteq> nodes_of g)
     \<and> (\<forall>a b. b \<in> set (gn_dependents (node_of g a)) \<longleftrightarrow> (a, b) \<in> rules_of g)
     \<and> Range (rules_of g) \<subseteq> nodes_of g"

lemma nodes_finite: "finite (nodes_of g)"
  by (simp add: nodes_of_def finite_dom_map_of)

lemma create_node_facts:
  "nodes_of (get_or_create_node a attach g) = insert a (nodes_of g)"
  "node_of (get_or_create_node a attach g) n = node_of g n"
  "wf_dict (attribute_to_node g) \<Longrightarrow> wf_dict (attribute_to_node (get_or_create_node a attach g))"
  "root_nodes (get_or_create_node a attach g) = (if attach \<and> a \<notin> nodes_of g then sadd a (root_nodes g) else root_nodes g)"
  by (auto simp: get_or_create_node_def nodes_of_def node_of_def has_key_def dget_def split: option.splits)

lemma add_dependent_facts:
  assumes "a \<in> nodes_of g" "b \<in> nodes_of g"
  shows "nodes_of (add_dependent a b g) = nodes_of g" "root_nodes (add_dependent a b g) = root_nodes g"
    "wf_dict (attribute_to_node g) \<Longrightarrow> wf_dict (attribute_to_node (add_dependent a b g))"
    "set (gn_dependencies (node_of (add_dependent a b g) n)) = set (gn_dependencies (node_of g n)) \<union> (if n = b then {a} else {})"
    "set (gn_dependents (node_of (add_dependent a b g) n)) = set (gn_dependents (node_of g n)) \<union> (if n = a then {b} else {})"
  using assms by (auto simp: add_dependent_def nodes_of_def node_of_def dget_def Let_def split: option.splits)

lemma add_rule_facts:
  assumes "graph_ok g"
  shows "graph_ok (add_precedence_rule a b g)" "rules_of (add_precedence_rule a b g) = insert (a, b) (rules_of g)"
    "nodes_of (add_precedence_rule a b g) = {a, b} \<union> nodes_of g"
proof -
  define g1 where "g1 = get_or_create_node b False (get_or_create_node a True g)"
  define g2 where "g2 = (if b \<in> set (root_nodes g1) then g1\<lparr>root_nodes := sdiscard b (root_nodes g1)\<rparr> else g1)"
  have eq: "add_precedence_rule a b g = add_dependent a b g2"
    by (simp add: add_precedence_rule_def g1_def g2_def Let_def)
  have nodes2: "nodes_of g2 = {a, b} \<union> nodes_of g" "node_of g2 n = node_of g n" "wf_dict (attribute_to_node g2)" for n
    using create_node_facts assms by (auto simp: g2_def g1_def nodes_of_def node_of_def graph_ok_def)
  have fresh: "gn_dependencies (node_of g n) = []" if "n \<notin> nodes_of g" for n
    using that by (auto simp: node_of_def dget_def nodes_of_def empty_node_def split: option.splits)
  have roots1: "distinct (root_nodes g1)" "set (root_nodes g1) = set (root_nodes g) \<union> ({a} - nodes_of g)"
    using assms by (auto simp: g1_def create_node_facts graph_ok_def)
  then have roots2: "distinct (root_nodes g2)" "set (root_nodes g2) = set (root_nodes g) \<union> ({a} - nodes_of g) - {b}"
    by (auto simp: g2_def)
  note add = add_dependent_facts[of a g2 b, unfolded eq[symmetric] nodes2(1,2)]
  show rules: "rules_of (add_precedence_rule a b g) = insert (a, b) (rules_of g)"
    using add(4) by (auto simp: rules_of_def split: if_splits)
  show nodes: "nodes_of (add_precedence_rule a b g) = {a, b} \<union> nodes_of g" using add(1) by simp
  show "graph_ok (add_precedence_rule a b g)"
    unfolding graph_ok_def rules nodes
  proof (intro conjI allI)
    show "wf_dict (attribute_to_node (add_precedence_rule a b g))" using add(3) nodes2(3) by simp
    show "distinct (root_nodes (add_precedence_rule a b g))" using add(2) roots2(1) by simp
    have none: "gn_dependencies (node_of (add_precedence_rule a b g) n) = [] \<longleftrightarrow> gn_dependencies (node_of g n) = [] \<and> n \<noteq> b" for n
    proof -
      have "set (gn_dependencies (node_of (add_precedence_rule a b g) n)) = {} \<longleftrightarrow> set (gn_dependencies (node_of g n)) = {} \<and> n \<noteq> b"
        using add(4)[of n] by auto
      then show ?thesis by simp
    qed
    show "set (root_nodes (add_precedence_rule a b g))
        = {n \<in> {a, b} \<union> nodes_of g. gn_dependencies (node_of (add_precedence_rule a b g) n) = []}"
      unfolding none using add(2) roots2(2) fresh assms by (auto simp: graph_ok_def)
    show "Range (insert (a, b) (rules_of g)) \<subseteq> {a, b} \<union> nodes_of g" using assms by (auto simp: graph_ok_def)
    fix n m
    show "set (gn_dependencies (node_of (add_precedence_rule a b g) n)) \<subseteq> {a, b} \<union> nodes_of g"
      using add(4)[of n] assms unfolding graph_ok_def by (auto split: if_splits)
    show "m \<in> set (gn_dependents (node_of (add_precedence_rule a b g) n)) \<longleftrightarrow> (n, m) \<in> insert (a, b) (rules_of g)"
      using add(5)[of n] assms unfolding graph_ok_def by auto
  qed
qed

lemma empty_graph_ok: "graph_ok empty_graph" "rules_of empty_graph = {}" "nodes_of empty_graph = {}"
  by (auto simp: graph_ok_def empty_graph_def rules_of_def nodes_of_def node_of_def dget_def empty_node_def wf_dict_def)

lemma add_rules_facts:
  assumes "graph_ok g"
  shows "graph_ok (fold (add_precedence_rule a) ts g) \<and> rules_of (fold (add_precedence_rule a) ts g) = {a} \<times> set ts \<union> rules_of g
    \<and> nodes_of (fold (add_precedence_rule a) ts g) = (if ts = [] then {} else insert a (set ts)) \<union> nodes_of g"
  using assms
proof (induction ts arbitrary: g)
  case (Cons t ts)
  show ?case using Cons.IH[OF add_rule_facts(1)[OF Cons.prems]] add_rule_facts[OF Cons.prems, of a t] by auto
qed simp

definition rule_pairs :: "(relation_attr \<times> relation_attr pyset) list \<Rightarrow> (relation_attr \<times> relation_attr) set" where
  "rule_pairs attrs = {(a, b). \<exists>ts. (a, ts) \<in> set attrs \<and> b \<in> set ts}"

lemma build_graph_facts:
  "graph_ok (build_graph attrs)" "rules_of (build_graph attrs) = rule_pairs attrs" "nodes_of (build_graph attrs) = Field (rule_pairs attrs)"
proof -
  let ?add = "\<lambda>(a, ts). fold (add_precedence_rule a) ts"
  have "graph_ok (fold ?add attrs g) \<and> rules_of (fold ?add attrs g) = rule_pairs attrs \<union> rules_of g
      \<and> nodes_of (fold ?add attrs g) = Field (rule_pairs attrs) \<union> nodes_of g" if "graph_ok g" for g
    using that
  proof (induction attrs arbitrary: g)
    case (Cons p attrs)
    obtain a ts where p: "p = (a, ts)" by (cases p)
    have pairs: "rule_pairs (p # attrs) = {a} \<times> set ts \<union> rule_pairs attrs" by (auto simp: rule_pairs_def p)
    have field: "Field ({a} \<times> set ts) = (if ts = [] then {} else insert a (set ts))"
      by (cases ts) (auto simp: Field_def)
    show ?case using Cons.IH[of "fold (add_precedence_rule a) ts g"] add_rules_facts[OF Cons.prems, of a ts]
      unfolding pairs Field_Un field by (auto simp: p)
  qed (auto simp: rule_pairs_def Field_def)
  from this[OF empty_graph_ok(1)] empty_graph_ok(2,3)
  show "graph_ok (build_graph attrs)" "rules_of (build_graph attrs) = rule_pairs attrs" "nodes_of (build_graph attrs) = Field (rule_pairs attrs)"
    unfolding build_graph_def by auto
qed

section \<open>The freeze order is a topological order\<close>

definition in_rule_order :: "(relation_attr \<times> relation_attr) set \<Rightarrow> relation_attr list \<Rightarrow> bool" where
  \<comment> \<open>whatever has to be frozen before an element of the list stands before it\<close>
  "in_rule_order R xs \<longleftrightarrow> (\<forall>i < length xs. \<forall>a. (a, xs ! i) \<in> R \<longrightarrow> a \<in> set (take i xs))"

definition loop_inv :: "precedence_graph \<Rightarrow> relation_attr pyset \<Rightarrow> relation_attr list \<Rightarrow> bool" where
  "loop_inv g work result \<longleftrightarrow> distinct work \<and> distinct result \<and> in_rule_order (rules_of g) result
     \<and> set work \<union> set result \<subseteq> nodes_of g \<and> set work \<inter> set result = {}
     \<and> set (root_nodes g) \<subseteq> set work \<union> set result
     \<and> (\<forall>a \<in> set result. \<forall>b. (a, b) \<in> rules_of g \<longrightarrow> b \<in> set work \<union> set result)"

lemma in_rule_order_snoc:
  "in_rule_order R xs \<Longrightarrow> (\<And>a. (a, n) \<in> R \<Longrightarrow> a \<in> set xs) \<Longrightarrow> in_rule_order R (xs @ [n])"
  unfolding in_rule_order_def by (auto simp: nth_append less_Suc_eq)

lemma in_rule_order_member: "in_rule_order R xs \<Longrightarrow> b \<in> set xs \<Longrightarrow> (a, b) \<in> R \<Longrightarrow> a \<in> set xs"
  unfolding in_rule_order_def by (metis in_set_conv_nth in_set_takeD)

definition visits :: "('a pyset \<Rightarrow> 'a list) \<Rightarrow> bool" where
  \<comment> \<open>an iteration over a set gives its members, in whatever order\<close>
  "visits visit \<longleftrightarrow> (\<forall>xs. set (visit xs) = set xs)"

lemma next_ready_Some:
  "visits visit \<Longrightarrow> next_ready visit g work result = Some n \<Longrightarrow> n \<in> set work \<and> (\<forall>a. (a, n) \<in> rules_of g \<longrightarrow> a \<in> set result)"
  unfolding next_ready_def rules_of_def visits_def using nth_mem by (fastforce simp: find_Some_iff)

lemma next_ready_None:
  "visits visit \<Longrightarrow> next_ready visit g work result = None \<Longrightarrow> n \<in> set work \<Longrightarrow> \<exists>a. (a, n) \<in> rules_of g \<and> a \<notin> set result"
  unfolding next_ready_def rules_of_def visits_def by (auto simp: find_None_iff)

lemma loop_inv_step:
  assumes "graph_ok g" "loop_inv g work result" "visits visit" "next_ready visit g work result = Some n"
  shows "loop_inv g (sunion (sdiscard n work) (gn_dependents (node_of g n))) (result @ [n])" "n \<notin> set result" "n \<in> nodes_of g"
proof -
  note inv = assms(2)[unfolded loop_inv_def] and ready = next_ready_Some[OF assms(3,4)]
  show n: "n \<notin> set result" "n \<in> nodes_of g" using inv ready by auto
  have dependents: "set (gn_dependents (node_of g n)) = {b. (n, b) \<in> rules_of g}" using assms(1) by (auto simp: graph_ok_def)
  have "b \<notin> set result" if "(n, b) \<in> rules_of g" for b
    using in_rule_order_member[of "rules_of g" result b n] inv that n(1) by auto
  moreover have "(n, n) \<notin> rules_of g" using ready n(1) by auto
  moreover have "Range (rules_of g) \<subseteq> nodes_of g" using assms(1) by (simp add: graph_ok_def)
  moreover have "in_rule_order (rules_of g) (result @ [n])" using inv ready by (auto intro!: in_rule_order_snoc)
  ultimately show "loop_inv g (sunion (sdiscard n work) (gn_dependents (node_of g n))) (result @ [n])"
    using inv ready n unfolding loop_inv_def dependents by (auto simp: sdiscard_def dependents)
qed

lemma loop_exhausted:
  \<comment> \<open>what is missing from the result has a predecessor that is missing as well, unless it is in the work set\<close>
  assumes "graph_ok g" "loop_inv g work result" "m \<in> nodes_of g - set result" "\<forall>a. (a, m) \<in> rules_of g \<longrightarrow> a \<in> set result"
  shows "m \<in> set work"
proof (cases "\<exists>a. (a, m) \<in> rules_of g")
  case True
  then show ?thesis using assms(2-4) unfolding loop_inv_def by blast
next
  case False
  then have "gn_dependencies (node_of g m) = []" unfolding rules_of_def by (metis (mono_tags, lifting) case_prodI last_in_set mem_Collect_eq)
  then have "m \<in> set (root_nodes g)" using assms(1,3) by (auto simp: graph_ok_def)
  then show ?thesis using assms(2,3) unfolding loop_inv_def by blast
qed

lemma rules_finite: "graph_ok g \<Longrightarrow> finite (rules_of g)"
proof -
  assume "graph_ok g"
  then have "rules_of g \<subseteq> nodes_of g \<times> nodes_of g" unfolding graph_ok_def rules_of_def by auto
  then show ?thesis using nodes_finite finite_subset finite_cartesian_product by metis
qed

lemma minimal_missing:
  assumes "graph_ok g" "acyclic (rules_of g)" "S \<noteq> {}" "S \<subseteq> nodes_of g"
  obtains m where "m \<in> S" "\<forall>a. (a, m) \<in> rules_of g \<longrightarrow> a \<notin> S"
proof -
  have "wf (rules_of g)" using finite_acyclic_wf[OF rules_finite] assms(1,2) by blast
  from wfE_min[OF this] assms(3) show ?thesis using that by (metis all_not_in_conv)
qed

lemma graph_closed: "graph_ok g \<Longrightarrow> (a, b) \<in> rules_of g \<Longrightarrow> a \<in> nodes_of g"
  unfolding graph_ok_def rules_of_def by auto

lemma acyclic_ready:
  assumes "graph_ok g" "acyclic (rules_of g)" "loop_inv g work result" "work \<noteq> []" "visits visit"
  shows "next_ready visit g work result \<noteq> None"
proof
  assume none: "next_ready visit g work result = None"
  obtain n where "n \<in> set work" using assms(4) by (cases work) auto
  then have "n \<in> nodes_of g - set result" using assms(3) by (auto simp: loop_inv_def)
  then have "nodes_of g - set result \<noteq> {}" by (rule ex_in_conv[THEN iffD1, OF exI])
  then obtain m where m: "m \<in> nodes_of g - set result" "\<forall>a. (a, m) \<in> rules_of g \<longrightarrow> a \<notin> nodes_of g - set result"
    by (rule minimal_missing[OF assms(1,2) _ Diff_subset])
  then have "\<forall>a. (a, m) \<in> rules_of g \<longrightarrow> a \<in> set result" using graph_closed[OF assms(1)] by blast
  moreover from loop_exhausted[OF assms(1,3) m(1) this] have "m \<in> set work" .
  ultimately show False using next_ready_None[OF assms(5) none] by blast
qed

lemma freeze_loop_facts:
  assumes "visits visit" and "graph_ok g"
  shows "loop_inv g work result \<Longrightarrow>
    (\<forall>xs. freeze_loop visit g work result = Inr xs \<longrightarrow> loop_inv g [] xs)
    \<and> (\<forall>e. freeze_loop visit g work result = Inl e \<longrightarrow> e = CycleInRelationPrecedencePolicyError)
    \<and> (acyclic (rules_of g) \<longrightarrow> (\<exists>xs. freeze_loop visit g work result = Inr xs))"
  using assms
proof (induction visit g work result rule: freeze_loop.induct)
  case (1 visit g work result)
  show ?case
  proof (cases "work = []")
    case True
    then show ?thesis using 1(2) by (simp add: freeze_loop.simps[of visit g "[]"])
  next
    case False
    show ?thesis
    proof (cases "next_ready visit g work result")
      case None
      then have "\<not> acyclic (rules_of g)" using acyclic_ready[OF 1(4) _ 1(2) False 1(3)] by blast
      then show ?thesis using None False by (simp add: freeze_loop.simps[of visit g work])
    next
      case (Some n)
      note step = loop_inv_step[OF 1(4,2,3) Some]
      then have key: "has_key (attribute_to_node g) n" by (auto simp: has_key_def nodes_of_def)
      have "freeze_loop visit g work result = freeze_loop visit g (sunion (sdiscard n work) (gn_dependents (node_of g n))) (result @ [n])"
        using False Some step(2) key by (simp add: freeze_loop.simps[of visit g work])
      with 1(1)[OF False Some step(2) _ step(1) 1(3,4)] key show ?thesis by simp
    qed
  qed
qed

lemma topological_acyclic:
  assumes "distinct xs" "in_rule_order R xs" "Range R \<subseteq> set xs"
  shows "acyclic R"
proof -
  let ?idx = "\<lambda>x. length (takeWhile (\<lambda>y. y \<noteq> x) xs)"
  have "?idx a < ?idx b" if "(a, b) \<in> R" for a b
  proof -
    from that assms(3) have "b \<in> set xs" by auto
    from split_list_first[OF this] obtain ys zs where ys: "xs = ys @ b # zs" "b \<notin> set ys" by blast
    then have "takeWhile (\<lambda>y. y \<noteq> b) xs = ys" by (induction ys arbitrary: xs) auto
    then have b: "?idx b < length xs" "xs ! ?idx b = b" using ys(1) by simp_all
    then have "a \<in> set (take (?idx b) xs)" using assms(2) that unfolding in_rule_order_def by metis
    then obtain j where "j < ?idx b" "xs ! j = a" by (auto simp: in_set_conv_nth)
    moreover have "?idx a \<le> j"
    proof (rule ccontr)
      assume "\<not> ?idx a \<le> j"
      then have "takeWhile (\<lambda>y. y \<noteq> a) xs ! j \<in> set (takeWhile (\<lambda>y. y \<noteq> a) xs)" by simp
      moreover have "takeWhile (\<lambda>y. y \<noteq> a) xs ! j = xs ! j" using \<open>\<not> ?idx a \<le> j\<close> by (simp add: takeWhile_nth)
      ultimately show False using \<open>xs ! j = a\<close> by (metis set_takeWhileD)
    qed
    ultimately show ?thesis by simp
  qed
  then have "R \<subseteq> measure ?idx" by auto
  then show ?thesis using wf_acyclic wf_subset by blast
qed

lemma initial_inv: "graph_ok g \<Longrightarrow> loop_inv g (root_nodes g) []"
  by (auto simp: loop_inv_def graph_ok_def in_rule_order_def)

lemma loop_complete:
  assumes "graph_ok g" "acyclic (rules_of g)" "loop_inv g [] xs"
  shows "set xs = nodes_of g"
proof (rule ccontr)
  assume "set xs \<noteq> nodes_of g"
  then have "nodes_of g - set xs \<noteq> {}" using assms(3) by (auto simp: loop_inv_def)
  then obtain m where m: "m \<in> nodes_of g - set xs" "\<forall>a. (a, m) \<in> rules_of g \<longrightarrow> a \<notin> nodes_of g - set xs"
    by (rule minimal_missing[OF assms(1,2) _ Diff_subset])
  then have "\<forall>a. (a, m) \<in> rules_of g \<longrightarrow> a \<in> set xs" using graph_closed[OF assms(1)] by blast
  from loop_exhausted[OF assms(1,3) m(1) this] show False by simp
qed

lemma length_nodes: "graph_ok g \<Longrightarrow> length (attribute_to_node g) = card (nodes_of g)"
  unfolding graph_ok_def wf_dict_def nodes_of_def dom_map_of_conv_image_fst
  by (metis distinct_card length_map set_map)

lemma get_freeze_order_ok:
  assumes "graph_ok g" and visit: "visits visit"
  shows "acyclic (rules_of g) \<Longrightarrow> \<exists>xs. get_freeze_order visit g = Inr xs \<and> distinct xs \<and> set xs = nodes_of g \<and> in_rule_order (rules_of g) xs"
    "\<not> acyclic (rules_of g) \<Longrightarrow> get_freeze_order visit g = Inl CycleInRelationPrecedencePolicyError"
proof -
  note loop = freeze_loop_facts[OF visit assms(1) initial_inv[OF assms(1)]]
  have empty: "nodes_of g = {}" "acyclic (rules_of g)" if "attribute_to_node g = []"
  proof -
    show "nodes_of g = {}" using that by (simp add: nodes_of_def)
    then have "rules_of g = {}" using assms by (auto simp: graph_ok_def)
    then show "acyclic (rules_of g)" by (simp add: acyclic_def)
  qed
  show "\<exists>xs. get_freeze_order visit g = Inr xs \<and> distinct xs \<and> set xs = nodes_of g \<and> in_rule_order (rules_of g) xs" if ac: "acyclic (rules_of g)"
  proof (cases "attribute_to_node g = []")
    case True
    then show ?thesis using empty(1) by (auto simp: get_freeze_order_def in_rule_order_def)
  next
    case False
    from loop ac obtain xs where xs: "freeze_loop visit g (root_nodes g) [] = Inr xs" "loop_inv g [] xs" by blast
    have all: "set xs = nodes_of g" using loop_complete[OF assms(1) ac xs(2)] .
    have xs': "distinct xs" "in_rule_order (rules_of g) xs" using xs(2) by (auto simp: loop_inv_def)
    have "length xs = length (attribute_to_node g)" using distinct_card[OF xs'(1)] all length_nodes[OF assms(1)] by simp
    with all xs' show ?thesis using False xs(1) by (auto simp: get_freeze_order_def)
  qed
  show "get_freeze_order visit g = Inl CycleInRelationPrecedencePolicyError" if cyc: "\<not> acyclic (rules_of g)"
  proof (cases "freeze_loop visit g (root_nodes g) []")
    case (Inl e)
    then show ?thesis using loop empty cyc by (auto simp: get_freeze_order_def)
  next
    case (Inr xs)
    then have xs: "loop_inv g [] xs" using loop by blast
    have "length xs \<noteq> length (attribute_to_node g)"
    proof
      assume "length xs = length (attribute_to_node g)"
      then have "card (set xs) = card (nodes_of g)" using xs length_nodes[OF assms(1)] by (simp add: loop_inv_def distinct_card)
      then have "set xs = nodes_of g" using xs card_subset_eq[OF nodes_finite] by (auto simp: loop_inv_def)
      then have "acyclic (rules_of g)"
        using topological_acyclic[of xs "rules_of g"] xs assms by (auto simp: loop_inv_def graph_ok_def)
      then show False using cyc by simp
    qed
    then show ?thesis using Inr empty cyc by (auto simp: get_freeze_order_def)
  qed
qed

section \<open>The queue of delayed variables\<close>

type_synonym 'v drv = "'v \<times> relation_attr option"
  \<comment> \<open>a delayed variable, with its relation attribute if it is a \<open>RelationAttributeVariable\<close>\<close>

record 'v prioritised_queue =
  freeze_order :: "relation_attr list"
  freeze_order_working_list :: "relation_attr list"
  unconstraint_variables :: "'v drv list"
  constraint_variables :: "(relation_attr, 'v drv list) dict"
  non_relation_variables :: "'v drv list"

definition pq_append :: "'v prioritised_queue \<Rightarrow> 'v drv \<Rightarrow> bool \<Rightarrow> 'v prioritised_queue" where
  "pq_append q drv dont_reset_working_list = (case snd drv of
     None \<Rightarrow> q\<lparr>non_relation_variables := non_relation_variables q @ [drv]\<rparr>
   | Some a \<Rightarrow> (case map_of (constraint_variables q) a of
       Some vs \<Rightarrow> q\<lparr>constraint_variables := dset (constraint_variables q) a (vs @ [drv]),
           freeze_order_working_list := (if \<not> dont_reset_working_list \<and> a \<notin> set (freeze_order_working_list q)
             then freeze_order q else freeze_order_working_list q)\<rparr>
     | None \<Rightarrow> q\<lparr>unconstraint_variables := unconstraint_variables q @ [drv]\<rparr>))"

definition new_prioritised_queue :: "relation_attr list \<Rightarrow> 'v drv list \<Rightarrow> 'v prioritised_queue" where
  \<comment> \<open>from the freeze order of the graph\<close>
  "new_prioritised_queue fo drvs = fold (\<lambda>drv q. pq_append q drv True) drvs
     \<lparr>freeze_order = fo, freeze_order_working_list = fo, unconstraint_variables = [],
      constraint_variables = map (\<lambda>a. (a, [])) fo, non_relation_variables = []\<rparr>"

definition pq_len :: "'v prioritised_queue \<Rightarrow> nat" where
  "pq_len q = length (unconstraint_variables q) + sum_list (map (\<lambda>(a, vs). length vs) (constraint_variables q))
     + length (non_relation_variables q)"

fun next_constraint :: "(relation_attr, 'v drv list) dict \<Rightarrow> relation_attr list \<Rightarrow> relation_attr list \<times> ('v drv \<times> (relation_attr, 'v drv list) dict) option" where
  \<comment> \<open>the loop of \<open>_get_next_constraint_variable\<close>: the working list it leaves, and what it returns\<close>
  "next_constraint c [] = ([], None)"
| "next_constraint c (a # work) = (case map_of c a of
     None \<Rightarrow> next_constraint c work
   | Some [] \<Rightarrow> next_constraint c work
   | Some (v # vs) \<Rightarrow> (a # work, Some (v, dset c a vs)))"

definition pq_popleft :: "'v prioritised_queue \<Rightarrow> ('v drv \<times> 'v prioritised_queue) result" where
  "pq_popleft q = (case unconstraint_variables q of
     v # vs \<Rightarrow> Inr (v, q\<lparr>unconstraint_variables := vs\<rparr>)
   | [] \<Rightarrow>
       (let (work, found) = (if constraint_variables q = [] then (freeze_order_working_list q, None)
          else next_constraint (constraint_variables q) (freeze_order_working_list q));
          q = q\<lparr>freeze_order_working_list := work\<rparr>
        in case found of
          Some (v, c) \<Rightarrow> Inr (v, q\<lparr>constraint_variables := c\<rparr>)
        | None \<Rightarrow> (case non_relation_variables q of
            [] \<Rightarrow> Inl IndexError
          | v # vs \<Rightarrow> Inr (v, q\<lparr>non_relation_variables := vs\<rparr>))))"

definition pq_replace :: "'v prioritised_queue \<Rightarrow> 'v drv list \<Rightarrow> 'v prioritised_queue" where
  "pq_replace q drvs =
     (let q = q\<lparr>unconstraint_variables := [], constraint_variables := map (\<lambda>(a, vs). (a, [])) (constraint_variables q),
          non_relation_variables := []\<rparr>;
          q = fold (\<lambda>drv q. pq_append q drv True) drvs q
      in q\<lparr>freeze_order_working_list := freeze_order q\<rparr>)"

section \<open>The queue is a stable priority queue\<close>

definition rank :: "relation_attr list \<Rightarrow> 'v drv \<Rightarrow> nat" where
  \<comment> \<open>first the relations without a rule, then those with one in the freeze order, then all other variables\<close>
  "rank fo d = (case snd d of
     None \<Rightarrow> Suc (length fo)
   | Some a \<Rightarrow> if a \<in> set fo then Suc (length (takeWhile (\<lambda>b. b \<noteq> a) fo)) else 0)"

definition queue_holds :: "'v prioritised_queue \<Rightarrow> 'v drv list \<Rightarrow> bool" where
  \<comment> \<open>the queue holds these variables, in the order in which they have arrived\<close>
  "queue_holds q l \<longleftrightarrow> distinct (freeze_order q)
     \<and> map fst (constraint_variables q) = freeze_order q
     \<and> unconstraint_variables q = filter (\<lambda>d. \<exists>a. snd d = Some a \<and> a \<notin> set (freeze_order q)) l
     \<and> (\<forall>a \<in> set (freeze_order q). map_of (constraint_variables q) a = Some (filter (\<lambda>d. snd d = Some a) l))
     \<and> non_relation_variables q = filter (\<lambda>d. snd d = None) l
     \<and> (\<exists>passed. freeze_order q = passed @ freeze_order_working_list q \<and> (\<forall>d \<in> set l. \<forall>a \<in> set passed. snd d \<noteq> Some a))"

lemma keys_dset_present: "a \<in> set (map fst d) \<Longrightarrow> map fst (dset d a v) = map fst d"
  unfolding dset_def by (induction d) auto

lemma pq_append_order [simp]: "freeze_order (pq_append q d b) = freeze_order q"
  by (auto simp: pq_append_def split: option.splits)

lemma append_holds:
  assumes q: "queue_holds q l" and reset: "dont_reset \<longrightarrow> freeze_order_working_list q = freeze_order q"
  shows "queue_holds (pq_append q d dont_reset) (l @ [d])"
proof -
  from q obtain passed where p: "freeze_order q = passed @ freeze_order_working_list q"
      "\<forall>d \<in> set l. \<forall>a \<in> set passed. snd d \<noteq> Some a"
    by (auto simp: queue_holds_def)
  have dom: "map_of (constraint_variables q) a = None \<longleftrightarrow> a \<notin> set (freeze_order q)" for a
    using q unfolding queue_holds_def by (metis map_of_eq_None_iff set_map)
  show ?thesis
  proof (cases "\<exists>a. snd d = Some a \<and> a \<in> set (freeze_order q)")
    case True
    then obtain a where a: "snd d = Some a" "a \<in> set (freeze_order q)" by blast
    then have m: "map_of (constraint_variables q) a = Some (filter (\<lambda>d. snd d = Some a) l)"
      using q by (simp add: queue_holds_def)
    let ?work = "if \<not> dont_reset \<and> a \<notin> set (freeze_order_working_list q) then freeze_order q else freeze_order_working_list q"
    have "\<exists>passed. freeze_order q = passed @ ?work \<and> (\<forall>d' \<in> set (l @ [d]). \<forall>a \<in> set passed. snd d' \<noteq> Some a)"
    proof (cases "a \<in> set (freeze_order_working_list q)")
      case True
      then have "a \<notin> set passed" using p(1) q by (auto simp: queue_holds_def)
      then show ?thesis using p a True by auto
    qed (use reset a(2) in auto)
    moreover have "pq_append q d dont_reset = q\<lparr>constraint_variables := dset (constraint_variables q) a (filter (\<lambda>d. snd d = Some a) l @ [d]),
        freeze_order_working_list := ?work\<rparr>"
      using a(1) m by (simp add: pq_append_def)
    moreover have "map fst (dset (constraint_variables q) a v) = freeze_order q" for v
    proof -
      have keys: "map fst (constraint_variables q) = freeze_order q" using q by (simp add: queue_holds_def)
      show ?thesis using keys_dset_present[of a "constraint_variables q" v] a(2) unfolding keys by simp
    qed
    ultimately show ?thesis using q a by (auto simp: queue_holds_def)
  next
    case False
    show ?thesis
    proof (cases "snd d")
      case None
      have "\<exists>passed. freeze_order q = passed @ freeze_order_working_list q \<and> (\<forall>d' \<in> set (l @ [d]). \<forall>a \<in> set passed. snd d' \<noteq> Some a)"
        using p None by auto
      then show ?thesis using q None by (simp add: queue_holds_def pq_append_def)
    next
      case (Some a)
      with False have a: "a \<notin> set (freeze_order q)" by blast
      then have eq: "pq_append q d dont_reset = q\<lparr>unconstraint_variables := unconstraint_variables q @ [d]\<rparr>"
        using Some dom[of a] by (simp add: pq_append_def)
      have "\<exists>passed. freeze_order q = passed @ freeze_order_working_list q \<and> (\<forall>d' \<in> set (l @ [d]). \<forall>a \<in> set passed. snd d' \<noteq> Some a)"
        using p Some a by auto
      moreover have "filter (\<lambda>d. snd d = Some b) (l @ [d]) = filter (\<lambda>d. snd d = Some b) l" if "b \<in> set (freeze_order q)" for b
        using Some a that by auto
      ultimately show ?thesis using q Some a by (simp add: queue_holds_def eq)
    qed
  qed
qed

lemma append_keeps_full:
  "freeze_order_working_list q = freeze_order q \<Longrightarrow> freeze_order_working_list (pq_append q d True) = freeze_order q"
  by (auto simp: pq_append_def split: option.splits)

lemma append_all_holds:
  assumes "queue_holds q l" "freeze_order_working_list q = freeze_order q"
  shows "queue_holds (fold (\<lambda>drv q. pq_append q drv True) ds q) (l @ ds)
    \<and> freeze_order (fold (\<lambda>drv q. pq_append q drv True) ds q) = freeze_order q"
  using assms
proof (induction ds arbitrary: q l)
  case (Cons d ds)
  show ?case using Cons.IH[OF append_holds[OF Cons.prems(1), of True d]] Cons.prems(2) append_keeps_full[OF Cons.prems(2), of d] by simp
qed simp

lemma new_queue_holds:
  assumes "distinct fo"
  shows "queue_holds (new_prioritised_queue fo ds) ds"
proof -
  let ?q = "\<lparr>freeze_order = fo, freeze_order_working_list = fo, unconstraint_variables = [],
      constraint_variables = map (\<lambda>a. (a, [])) fo, non_relation_variables = []\<rparr>"
  have "queue_holds ?q []" using assms by (simp add: queue_holds_def comp_def map_of_map_restrict)
  from append_all_holds[OF this, of ds] show ?thesis by (simp add: new_prioritised_queue_def)
qed

lemma reset_holds: "queue_holds q l \<Longrightarrow> queue_holds (q\<lparr>freeze_order_working_list := freeze_order q\<rparr>) l"
  by (auto simp: queue_holds_def)

lemma replace_holds:
  assumes "queue_holds q l"
  shows "queue_holds (pq_replace q ds) ds"
proof -
  let ?c = "map (\<lambda>(a, vs). (a, [])) (constraint_variables q)"
  let ?q = "q\<lparr>unconstraint_variables := [], constraint_variables := ?c, non_relation_variables := [], freeze_order_working_list := freeze_order q\<rparr>"
  have m: "map_of (map (\<lambda>(a, vs). (a, [])) c) a = map_option (\<lambda>_. []) (map_of c a)" for c :: "(relation_attr, 'a drv list) dict" and a
    by (induction c) auto
  have "map fst ?c = map fst (constraint_variables q)" by (simp add: comp_def split_beta)
  then have q: "queue_holds ?q []" using assms unfolding queue_holds_def
    by (simp add: m del: map_of_eq_Some_iff)
  have same: "(fold (\<lambda>drv q. pq_append q drv True) ds (p\<lparr>freeze_order_working_list := w\<rparr>))\<lparr>freeze_order_working_list := w'\<rparr>
      = (fold (\<lambda>drv q. pq_append q drv True) ds p)\<lparr>freeze_order_working_list := w'\<rparr>" for p :: "'a prioritised_queue" and w w'
  proof (induction ds arbitrary: p w)
    case (Cons d ds)
    have "pq_append (p\<lparr>freeze_order_working_list := w\<rparr>) d True = (pq_append p d True)\<lparr>freeze_order_working_list := w\<rparr>"
      by (auto simp: pq_append_def split: option.splits)
    then show ?case using Cons.IH by simp
  qed simp
  let ?p = "q\<lparr>unconstraint_variables := [], constraint_variables := ?c, non_relation_variables := []\<rparr>"
  have "queue_holds (fold (\<lambda>drv q. pq_append q drv True) ds ?q) ds" "freeze_order (fold (\<lambda>drv q. pq_append q drv True) ds ?q) = freeze_order q"
    using append_all_holds[OF q, of ds] by simp_all
  moreover have "freeze_order (fold (\<lambda>drv q. pq_append q drv True) ds p) = freeze_order p" for p :: "'a prioritised_queue"
    by (induction ds arbitrary: p) simp_all
  moreover have "(fold (\<lambda>drv q. pq_append q drv True) ds (?p\<lparr>freeze_order_working_list := freeze_order q\<rparr>))\<lparr>freeze_order_working_list := freeze_order q\<rparr>
      = (fold (\<lambda>drv q. pq_append q drv True) ds ?p)\<lparr>freeze_order_working_list := freeze_order q\<rparr>" by (rule same)
  ultimately show ?thesis
    using reset_holds[of "fold (\<lambda>drv q. pq_append q drv True) ds ?q" ds]
    by (simp add: pq_replace_def Let_def)
qed

section \<open>Taking variables from the queue\<close>

lemma hd_sort_key:
  assumes "x \<in> set l" "\<forall>y \<in> set l. f x \<le> f y"
  shows "hd (sort_key f l) = hd (filter (\<lambda>y. f y = f x) l)"
proof (cases "sort_key f l")
  case Nil
  then show ?thesis using assms(1) by (metis length_0_conv length_sort list.set(1) empty_iff)
next
  case (Cons h t)
  have h: "h \<in> set l" using Cons by (metis list.set_intros(1) set_sort)
  have "x \<in> set (h # t)" using assms(1) Cons by (metis set_sort)
  moreover have "sorted (map f (h # t))" using Cons by (metis sorted_sort_key)
  ultimately have "f h \<le> f x" by auto
  moreover have "f x \<le> f h" using assms(2) h by blast
  ultimately have "f h = f x" by (rule antisym)
  then have "filter (\<lambda>y. f y = f x) (h # t) = h # filter (\<lambda>y. f y = f x) t" by simp
  moreover have "filter (\<lambda>y. f y = f x) (h # t) = filter (\<lambda>y. f y = f x) l" using Cons by (metis sort_key_stable)
  ultimately show ?thesis using Cons by (metis list.sel(1))
qed

lemma rank_zero: "rank fo d = 0 \<longleftrightarrow> (\<exists>a. snd d = Some a \<and> a \<notin> set fo)"
  by (auto simp: rank_def split: option.splits)

lemma rank_attribute:
  assumes "a \<in> set fo"
  shows "rank fo d = Suc (length (takeWhile (\<lambda>b. b \<noteq> a) fo)) \<longleftrightarrow> snd d = Some a"
proof -
  have idx: "length (takeWhile (\<lambda>b. b \<noteq> a) fo) < length fo \<and> fo ! length (takeWhile (\<lambda>b. b \<noteq> a) fo) = a" if "a \<in> set fo" for a
    using that by (induction fo) auto
  have "a = b" if "b \<in> set fo" "length (takeWhile (\<lambda>c. c \<noteq> b) fo) = length (takeWhile (\<lambda>c. c \<noteq> a) fo)" for b
    using idx[OF assms] idx[OF that(1)] that(2) by metis
  then show ?thesis using idx[OF assms] assms by (auto simp: rank_def split: option.splits)
qed

lemma rank_last: "rank fo d = Suc (length fo) \<longleftrightarrow> snd d = None"
proof -
  have "length (takeWhile (\<lambda>b. b \<noteq> a) fo) < length fo" if "a \<in> set fo" for a using that by (induction fo) auto
  then show ?thesis by (auto simp: rank_def split: option.splits) (metis less_irrefl)
qed

lemma next_constraint_skips:
  assumes "\<forall>b \<in> set skipped. map_of c b = Some []"
  shows "next_constraint c (skipped @ work) = next_constraint c work"
  using assms by (induction skipped) auto

lemma filter_remove_hd:
  "filter P l = v # vs \<Longrightarrow> filter P (remove1 v l) = vs"
  "\<not> Q v \<Longrightarrow> filter Q (remove1 v l) = filter Q l"
  by (auto simp: filter_remove1 remove1_idem)

definition pops :: "'v prioritised_queue \<Rightarrow> 'v drv list \<Rightarrow> 'v drv \<Rightarrow> bool" where
  "pops q l v \<longleftrightarrow> (\<exists>q'. pq_popleft q = Inr (v, q') \<and> queue_holds q' (remove1 v l) \<and> freeze_order q' = freeze_order q)"

lemma pop_unconstrained:
  assumes "queue_holds q l" "filter (\<lambda>d. rank (freeze_order q) d = 0) l = v # vs"
  shows "pops q l v"
proof -
  have v: "unconstraint_variables q = v # vs" "\<exists>a. snd v = Some a \<and> a \<notin> set (freeze_order q)"
    using assms(1) assms(2)[unfolded rank_zero] by (auto simp: queue_holds_def dest: filter_eq_ConsD)
  have f: "filter (\<lambda>d. \<exists>a. snd d = Some a \<and> a \<notin> set (freeze_order q)) (remove1 v l) = vs"
      "filter (\<lambda>d. snd d = None) (remove1 v l) = filter (\<lambda>d. snd d = None) l"
      "a \<in> set (freeze_order q) \<Longrightarrow> filter (\<lambda>d. snd d = Some a) (remove1 v l) = filter (\<lambda>d. snd d = Some a) l" for a
    using filter_remove_hd(1)[OF assms(2)[unfolded rank_zero]] v(2) by (auto intro!: filter_remove_hd(2))
  have sub: "d \<in> set l" if "d \<in> set (remove1 v l)" for d using that set_remove1_subset by fastforce
  from assms(1) obtain passed where p: "freeze_order q = passed @ freeze_order_working_list q"
      "\<forall>d \<in> set l. \<forall>a \<in> set passed. snd d \<noteq> Some a"
    by (auto simp: queue_holds_def)
  then have "\<exists>passed. freeze_order q = passed @ freeze_order_working_list q \<and> (\<forall>d \<in> set (remove1 v l). \<forall>a \<in> set passed. snd d \<noteq> Some a)"
    using sub by blast
  then have "queue_holds (q\<lparr>unconstraint_variables := vs\<rparr>) (remove1 v l)"
    using assms(1) f unfolding queue_holds_def by (simp del: map_of_eq_Some_iff)
  then show ?thesis using v(1) by (auto simp: pops_def pq_popleft_def)
qed

lemma pop_constrained:
  assumes q: "queue_holds q l" and none: "filter (\<lambda>d. rank (freeze_order q) d = 0) l = []"
    and fo: "freeze_order q = earlier @ a # later" and skip: "\<forall>b \<in> set earlier. filter (\<lambda>d. snd d = Some b) l = []"
    and v: "filter (\<lambda>d. snd d = Some a) l = v # vs"
  shows "pops q l v"
proof -
  from q obtain passed where p: "freeze_order q = passed @ freeze_order_working_list q"
      "\<forall>d \<in> set l. \<forall>a \<in> set passed. snd d \<noteq> Some a"
    by (auto simp: queue_holds_def)
  have va: "snd v = Some a" "v \<in> set l" using v by (auto dest: filter_eq_ConsD)
  have "a \<notin> set passed" using p(2) va by blast
  moreover have "distinct (freeze_order q)" using q by (simp add: queue_holds_def)
  ultimately obtain skipped where s: "earlier = passed @ skipped" "freeze_order_working_list q = skipped @ a # later"
    using fo p(1) by (auto simp: append_eq_append_conv2 append_eq_Cons_conv Cons_eq_append_conv)
  have m: "map_of (constraint_variables q) b = Some (filter (\<lambda>d. snd d = Some b) l)" if "b \<in> set (freeze_order q)" for b
    using q that unfolding queue_holds_def by blast
  have "\<forall>b \<in> set skipped. map_of (constraint_variables q) b = Some []" using m skip s(1) fo by auto
  moreover have ma: "map_of (constraint_variables q) a = Some (v # vs)" using m[of a] v fo by simp
  ultimately have n: "next_constraint (constraint_variables q) (freeze_order_working_list q) = (a # later, Some (v, dset (constraint_variables q) a vs))"
    unfolding s(2) by (subst next_constraint_skips) simp_all
  have u: "unconstraint_variables q = []" using q none[unfolded rank_zero] by (simp add: queue_holds_def)
  let ?q = "q\<lparr>freeze_order_working_list := a # later, constraint_variables := dset (constraint_variables q) a vs\<rparr>"
  have "pq_popleft q = Inr (v, ?q)" using n u ma by (auto simp: pq_popleft_def)
  moreover have "queue_holds ?q (remove1 v l)"
  proof -
    have sub: "d \<in> set l" if "d \<in> set (remove1 v l)" for d using that set_remove1_subset by fastforce
    have "\<forall>d \<in> set (remove1 v l). \<forall>b \<in> set earlier. snd d \<noteq> Some b"
      using skip sub by (fastforce simp: filter_empty_conv)
    then have "\<exists>passed. freeze_order q = passed @ a # later \<and> (\<forall>d \<in> set (remove1 v l). \<forall>b \<in> set passed. snd d \<noteq> Some b)"
      using fo by blast
    moreover have "filter (\<lambda>d. \<exists>b. snd d = Some b \<and> b \<notin> set (freeze_order q)) (remove1 v l) = filter (\<lambda>d. \<exists>b. snd d = Some b \<and> b \<notin> set (freeze_order q)) l"
        "filter (\<lambda>d. snd d = None) (remove1 v l) = filter (\<lambda>d. snd d = None) l"
        "filter (\<lambda>d. snd d = Some a) (remove1 v l) = vs"
        "b \<noteq> a \<Longrightarrow> filter (\<lambda>d. snd d = Some b) (remove1 v l) = filter (\<lambda>d. snd d = Some b) l" for b
      using va(1) fo filter_remove_hd(1)[OF v] by (auto intro!: filter_remove_hd(2))
    moreover have "map fst (dset (constraint_variables q) a vs) = freeze_order q"
    proof -
      have keys: "map fst (constraint_variables q) = freeze_order q" using q by (simp add: queue_holds_def)
      show ?thesis using keys_dset_present[of a "constraint_variables q" vs] fo unfolding keys by simp
    qed
    ultimately show ?thesis using q m unfolding queue_holds_def by (simp del: map_of_eq_Some_iff)
  qed
  ultimately show ?thesis by (auto simp: pops_def)
qed

lemma pop_non_relation:
  assumes q: "queue_holds q l" and none: "\<forall>d \<in> set l. snd d = None" and l: "l = v # vs"
  shows "pops q l v"
proof -
  have c: "filter (\<lambda>d. snd d = Some a) l = []" for a using none by (simp add: filter_empty_conv)
  have u: "unconstraint_variables q = []" "non_relation_variables q = v # vs"
    using q none l by (auto simp: queue_holds_def filter_empty_conv)
  have m: "map_of (constraint_variables q) a = Some []" if "a \<in> set (freeze_order q)" for a
    using q c that unfolding queue_holds_def by metis
  from q obtain passed where p: "freeze_order q = passed @ freeze_order_working_list q" by (auto simp: queue_holds_def)
  have n: "next_constraint (constraint_variables q) (freeze_order_working_list q) = ([], None)"
    using next_constraint_skips[of "freeze_order_working_list q" "constraint_variables q" "[]"] m p by simp
  have w: "freeze_order_working_list q = []" if "constraint_variables q = []"
  proof -
    have "map fst (constraint_variables q) = freeze_order q" using q by (simp add: queue_holds_def)
    then show ?thesis using p that by simp
  qed
  let ?q = "q\<lparr>freeze_order_working_list := [], non_relation_variables := vs\<rparr>"
  have "pq_popleft q = Inr (v, ?q)" using n u w by (simp add: pq_popleft_def)
  moreover have "queue_holds ?q (remove1 v l)"
    using q none unfolding queue_holds_def l by (auto simp del: map_of_eq_Some_iff)
  ultimately show ?thesis by (auto simp: pops_def)
qed

lemma popleft_exact:
  assumes q: "queue_holds q l" and l: "l \<noteq> []"
  shows "pops q l (hd (sort_key (rank (freeze_order q)) l))"
proof -
  let ?r = "rank (freeze_order q)"
  consider (free) "\<exists>d \<in> set l. ?r d = 0"
    | (rule) "\<forall>d \<in> set l. ?r d \<noteq> 0" "\<exists>b \<in> set (freeze_order q). \<exists>d \<in> set l. snd d = Some b"
    | (other) "\<forall>d \<in> set l. snd d = None"
    unfolding rank_zero by (metis option.exhaust)
  then show ?thesis
  proof cases
    case free
    then obtain d where d: "d \<in> set l" "?r d = 0" by blast
    then obtain v vs where v: "filter (\<lambda>d. ?r d = 0) l = v # vs" by (cases "filter (\<lambda>d. ?r d = 0) l") (auto simp: filter_empty_conv)
    have "hd (sort_key ?r l) = v" using hd_sort_key[OF d(1), of ?r] d(2) v by simp
    then show ?thesis using pop_unconstrained[OF q v] by simp
  next
    case rule
    from split_list_first_prop[OF rule(2)] obtain earlier a later where a: "freeze_order q = earlier @ a # later"
        "\<exists>d \<in> set l. snd d = Some a" "\<forall>b \<in> set earlier. \<not> (\<exists>d \<in> set l. snd d = Some b)" by blast
    then obtain d where d: "d \<in> set l" "snd d = Some a" by blast
    then obtain v vs where v: "filter (\<lambda>d. snd d = Some a) l = v # vs"
      by (cases "filter (\<lambda>d. snd d = Some a) l") (auto simp: filter_empty_conv)
    have dist: "distinct (freeze_order q)" using q by (simp add: queue_holds_def)
    have idx: "takeWhile (\<lambda>b. b \<noteq> c) (freeze_order q) = takeWhile (\<lambda>b. b \<noteq> a) (freeze_order q) @ takeWhile (\<lambda>b. b \<noteq> c) (a # later)"
      if "c \<notin> set earlier" for c
      using that a(1) dist by (simp add: takeWhile_append)
    have r: "?r d = Suc (length (takeWhile (\<lambda>b. b \<noteq> a) (freeze_order q)))" using d(2) a(1) by (simp add: rank_def)
    have "?r d \<le> ?r y" if y: "y \<in> set l" for y
    proof (cases "snd y")
      case None
      then show ?thesis unfolding r by (simp add: rank_def length_takeWhile_le)
    next
      case (Some c)
      have "c \<in> set (freeze_order q)" using rule(1) y Some unfolding rank_zero by blast
      moreover have "c \<notin> set earlier" using a(3) y Some by blast
      ultimately show ?thesis unfolding r using Some idx[of c] by (simp add: rank_def)
    qed
    then have "hd (sort_key ?r l) = hd (filter (\<lambda>y. ?r y = ?r d) l)" using hd_sort_key[OF d(1)] by blast
    also have "(\<lambda>y. ?r y = ?r d) = (\<lambda>y. snd y = Some a)" 
      unfolding r by (rule ext) (rule rank_attribute, simp add: a(1))
    finally have "hd (sort_key ?r l) = v" using v by simp
    moreover have "filter (\<lambda>d. ?r d = 0) l = []" using rule(1) by (simp add: filter_empty_conv)
    moreover have "\<forall>b \<in> set earlier. filter (\<lambda>d. snd d = Some b) l = []" using a(3) by (simp add: filter_empty_conv)
    ultimately show ?thesis using pop_constrained[OF q _ a(1) _ v] by simp
  next
    case other
    obtain v vs where v: "l = v # vs" using l by (cases l) auto
    have r: "\<forall>d \<in> set l. ?r d = ?r v" using other v by (simp add: rank_def)
    then have "hd (sort_key ?r l) = hd (filter (\<lambda>y. ?r y = ?r v) l)" using hd_sort_key[of v l ?r] v by auto
    then have "hd (sort_key ?r l) = v" using v by simp
    then show ?thesis using pop_non_relation[OF q other v] by simp
  qed
qed

lemma length_parts:
  fixes fo :: "relation_attr list" and l :: "'v drv list"
  assumes "distinct fo"
  shows "length (filter (\<lambda>d. \<exists>a. snd d = Some a \<and> a \<notin> set fo) l) + sum_list (map (\<lambda>a. length (filter (\<lambda>d. snd d = Some a) l)) fo)
    + length (filter (\<lambda>d. snd d = None) l) = length l"
proof (induction l)
  case (Cons d l)
  have one: "sum_list (map (\<lambda>a. if b = a then Suc (f a) else f a) fo) = (if b \<in> set fo then 1 else 0) + sum_list (map f fo)"
    for b and f :: "relation_attr \<Rightarrow> nat"
    using assms by (induction fo) auto
  show ?case
  proof (cases "snd d")
    case (Some b)
    have "length (filter (\<lambda>d. snd d = Some a) (d # l)) = (if b = a then Suc (length (filter (\<lambda>d. snd d = Some a) l)) else length (filter (\<lambda>d. snd d = Some a) l))" for a
      using Some by simp
    then show ?thesis using Cons Some one[of b "\<lambda>a. length (filter (\<lambda>d. snd d = Some a) l)"] by simp
  qed (use Cons in simp)
qed (simp add: comp_def)

lemma pq_len_exact:
  assumes "queue_holds q l"
  shows "pq_len q = length l"
proof -
  have keys: "map fst (constraint_variables q) = freeze_order q" "distinct (freeze_order q)" using assms by (auto simp: queue_holds_def)
  have "length (snd p) = length (filter (\<lambda>d. snd d = Some (fst p)) l)" if "p \<in> set (constraint_variables q)" for p
  proof -
    have "map_of (constraint_variables q) (fst p) = Some (snd p)" using keys that by simp
    moreover have "fst p \<in> set (freeze_order q)" unfolding keys(1)[symmetric] using that by simp
    then have "map_of (constraint_variables q) (fst p) = Some (filter (\<lambda>d. snd d = Some (fst p)) l)"
      using assms unfolding queue_holds_def by blast
    ultimately show ?thesis by simp
  qed
  then have "map (\<lambda>(a, vs). length vs) (constraint_variables q) = map (\<lambda>a. length (filter (\<lambda>d. snd d = Some a) l)) (map fst (constraint_variables q))"
    by (auto simp: split_beta)
  then show ?thesis using length_parts[OF keys(2), of l] assms unfolding pq_len_def keys(1) by (simp add: queue_holds_def)
qed

section \<open>Properties\<close>

text \<open>C26: The freeze order is exact: for precedence rules without a cycle, the order contains every relation of a rule
  exactly once, and each one after all that have to be frozen before it; for rules with a cycle a
  \<open>CycleInRelationPrecedencePolicyError\<close> is raised; all of this whatever the order in which the set of candidates is iterated.\<close>

theorem freeze_order_exact:
  assumes "\<forall>xs. set (visit xs) = set xs"
  shows "(if acyclic (rule_pairs attrs)
    then \<exists>xs. get_freeze_order visit (build_graph attrs) = Inr xs \<and> distinct xs \<and> set xs = Field (rule_pairs attrs)
      \<and> in_rule_order (rule_pairs attrs) xs
    else get_freeze_order visit (build_graph attrs) = Inl CycleInRelationPrecedencePolicyError)"
  using assms get_freeze_order_ok[OF build_graph_facts(1), of visit attrs] unfolding visits_def[symmetric] build_graph_facts(2,3) by simp

theorem freeze_order_exact_witness:
  "\<exists>xs. get_freeze_order rev (build_graph [(''a'', [''c'', ''b'']), (''b'', [''c''])]) = Inr xs \<and> distinct xs \<and> set xs = {''a'', ''b'', ''c''}"
proof -
  let ?attrs = "[(''a'', [''c'', ''b'']), (''b'', [''c''])]"
  have "rule_pairs ?attrs \<subseteq> measure (\<lambda>r. if r = ''a'' then 0 else if r = ''b'' then 1 else 2)" by (auto simp: rule_pairs_def)
  then have "acyclic (rule_pairs ?attrs)" using wf_acyclic wf_subset wf_measure by blast
  moreover have "rule_pairs ?attrs = {(''a'', ''c''), (''a'', ''b''), (''b'', ''c'')}" unfolding rule_pairs_def by fastforce
  then have "Field (rule_pairs ?attrs) = {''a'', ''b'', ''c''}" by (auto simp: Field_def)
  ultimately show ?thesis using freeze_order_exact[of rev ?attrs] by auto
qed

text \<open>C27: The queue of delayed variables is a stable priority queue: it hands out the variables whose relation has no
  precedence rule first, then those with one in the freeze order, then all others, and first in, first out among equals.
  A variable that arrives later and has to be frozen earlier is not passed over, although the queue skips
  the relations that it has emptied. Taking from the empty queue is an \<open>IndexError\<close>.\<close>

theorem delayed_queue_refines:
  assumes "queue_holds q l"
  shows "pq_len q = length l
    \<and> queue_holds (pq_append q d False) (l @ [d])
    \<and> queue_holds (pq_replace q ds) ds
    \<and> (if l = [] then pq_popleft q = Inl IndexError
       else let v = hd (sort_key (rank (freeze_order q)) l)
         in \<exists>q'. pq_popleft q = Inr (v, q') \<and> queue_holds q' (remove1 v l) \<and> freeze_order q' = freeze_order q)"
proof -
  have "pq_popleft q = Inl IndexError" if "l = []"
  proof -
    have m: "map_of (constraint_variables q) a = Some []" if "a \<in> set (freeze_order q)" for a
      using assms that \<open>l = []\<close> unfolding queue_holds_def by simp
    from assms obtain passed where p: "freeze_order q = passed @ freeze_order_working_list q" by (auto simp: queue_holds_def)
    have "next_constraint (constraint_variables q) (freeze_order_working_list q) = ([], None)"
      using next_constraint_skips[of "freeze_order_working_list q" "constraint_variables q" "[]"] m p by simp
    then show ?thesis using assms that by (auto simp: pq_popleft_def queue_holds_def split: prod.splits if_splits)
  qed
  then show ?thesis
    using pq_len_exact[OF assms] append_holds[OF assms, of False d] replace_holds[OF assms, of ds] popleft_exact[OF assms]
    by (auto simp: pops_def Let_def)
qed

theorem delayed_queue_refines_witness:
  "\<exists>q'. pq_popleft (pq_append (new_prioritised_queue [''a'', ''b''] [(1 :: nat, Some ''b''), (2, None)]) (3, Some ''a'') False)
     = Inr ((3, Some ''a''), q')"
proof -
  have "queue_holds (new_prioritised_queue [''a'', ''b''] [(1 :: nat, Some ''b''), (2, None)]) [(1, Some ''b''), (2, None)]"
    by (rule new_queue_holds) simp
  from delayed_queue_refines[OF this, of "(3, Some ''a'')"] have
    "queue_holds (pq_append (new_prioritised_queue [''a'', ''b''] [(1 :: nat, Some ''b''), (2, None)]) (3, Some ''a'') False)
      [(1, Some ''b''), (2, None), (3, Some ''a'')]" by simp
  from delayed_queue_refines[OF this] show ?thesis
    by (simp add: Let_def rank_def new_prioritised_queue_def pq_append_def dset_def) blast
qed

end
