(* ===== verification/Json_Text.thy ===== *)
theory Json_Text
  imports Python_Values "HOL-Library.List_Lexorder" "HOL-Library.Char_ord"
begin

text \<open>
  \<open>json.dumps(value, indent=4, sort_keys=True)\<close> of the standard library, as the comparison of
  versions (\<open>server/diff.py\<close>) uses it, and that its text determines the value up to the order of the keys of its
  dictionaries. Values have no floating point numbers, and a character is a code point below 256.
\<close>

section \<open>The text\<close>

definition json_char :: "char \<Rightarrow> string" where
  "json_char c =
     (let n = (of_char c :: nat) in
      if n = 34 \<or> n = 92 then [CHR 0x5C, c]
      else if n = 10 then [CHR 0x5C, CHR ''n'']
      else if n = 13 then [CHR 0x5C, CHR ''r'']
      else if n = 9 then [CHR 0x5C, CHR ''t'']
      else if n = 12 then [CHR 0x5C, CHR ''f'']
      else if n = 8 then [CHR 0x5C, CHR ''b'']
      else if n < 32 \<or> 126 < n then [CHR 0x5C, CHR ''u'', CHR ''0'', CHR ''0'', hex_digit (n div 16), hex_digit (n mod 16)]
      else [c])"

definition json_str :: "string \<Rightarrow> string" where
  "json_str s = CHR 0x22 # concat (map json_char s) @ [CHR 0x22]"

fun join_with :: "string \<Rightarrow> string list \<Rightarrow> string" where
  "join_with sep [] = []"
| "join_with sep [x] = x"
| "join_with sep (x # xs) = x @ sep @ join_with sep xs"

definition newline :: "nat \<Rightarrow> string" where
  "newline level = CHR 0x0A # replicate (4 * level) (CHR 0x20)"

definition bracketed :: "nat \<Rightarrow> char \<Rightarrow> char \<Rightarrow> string list \<Rightarrow> string" where
  "bracketed level left right xs =
     (if xs = [] then [left, right]
      else left # newline (Suc level) @ join_with (CHR '','' # newline (Suc level)) xs @ newline level @ [right])"

fun json_dumps :: "nat \<Rightarrow> pyval \<Rightarrow> string" where
  "json_dumps level PNone = ''null''"
| "json_dumps level (PBool b) = (if b then ''true'' else ''false'')"
| "json_dumps level (PInt i) = show_int i"
| "json_dumps level (PStr s) = json_str s"
| "json_dumps level (PList xs) = bracketed level (CHR ''['') (CHR '']'') (map (json_dumps (Suc level)) xs)"
| "json_dumps level (PDict d) = bracketed level (CHR ''{'') (CHR ''}'')
     (map (\<lambda>(k, t). json_str k @ '': '' @ t) (sort_key fst (map (\<lambda>(k, v). (k, json_dumps (Suc level) v)) d)))"

section \<open>The text determines the value\<close>

fun sort_keys :: "pyval \<Rightarrow> pyval" where
  \<comment> \<open>the keys of all dictionaries in order\<close>
  "sort_keys (PList xs) = PList (map sort_keys xs)"
| "sort_keys (PDict d) = PDict (sort_key fst (map (\<lambda>(k, v). (k, sort_keys v)) d))"
| "sort_keys v = v"

fun render :: "nat \<Rightarrow> pyval \<Rightarrow> string" where
  \<comment> \<open>the text without sorting\<close>
  "render level (PList xs) = bracketed level (CHR ''['') (CHR '']'') (map (render (Suc level)) xs)"
| "render level (PDict d) = bracketed level (CHR ''{'') (CHR ''}'')
     (map (\<lambda>(k, v). json_str k @ '': '' @ render (Suc level) v) d)"
| "render level v = json_dumps level v"

lemma map_insort_fst: "map (\<lambda>p. (fst p, f (snd p))) (insort_key fst x xs) = insort_key fst (fst x, f (snd x)) (map (\<lambda>p. (fst p, f (snd p))) xs)"
  by (induction xs) auto

lemma map_sort_fst: "map (\<lambda>(k, v). (k, f v)) (sort_key fst d) = sort_key fst (map (\<lambda>(k, v). (k, f v)) d)"
  unfolding case_prod_beta by (induction d) (auto simp: map_insort_fst[where f = f])

lemma dumps_render: "json_dumps level v = render level (sort_keys v)"
proof (induction v arbitrary: level rule: sort_keys.induct)
  case (1 xs)
  then show ?case by (simp cong: map_cong)
next
  case (2 d)
  let ?text = "map (\<lambda>(k, v). (k, render (Suc level) v))"
  have "map (\<lambda>(k, v). (k, json_dumps (Suc level) v)) d = ?text (map (\<lambda>(k, v). (k, sort_keys v)) d)"
    using 2 by (auto simp: comp_def)
  then have "sort_key fst (map (\<lambda>(k, v). (k, json_dumps (Suc level) v)) d) = ?text (sort_key fst (map (\<lambda>(k, v). (k, sort_keys v)) d))"
    by (simp only: map_sort_fst)
  then show ?case by (simp add: split_beta') (simp add: comp_def)
qed auto

text \<open>A text is followed by nothing, a comma or the end of a line.\<close>

definition closed_by :: "string \<Rightarrow> bool" where
  "closed_by r \<longleftrightarrow> r = [] \<or> hd r = CHR '','' \<or> hd r = CHR 0x0A"

definition self_delimiting :: "('a \<Rightarrow> string) \<Rightarrow> 'a \<Rightarrow> bool" where
  "self_delimiting f x \<longleftrightarrow> (\<forall>y r r'. f x @ r = f y @ r' \<longrightarrow> closed_by r \<longrightarrow> closed_by r' \<longrightarrow> x = y \<and> r = r')"

lemma self_delimitingD: "self_delimiting f x \<Longrightarrow> f x @ r = f y @ r' \<Longrightarrow> closed_by r \<Longrightarrow> closed_by r' \<Longrightarrow> x = y \<and> r = r'"
  unfolding self_delimiting_def by blast

lemma closed_by_Cons [simp]: "closed_by (CHR '','' # r)" "closed_by (CHR 0x0A # r)"
  by (simp_all add: closed_by_def)

definition hex_value :: "char \<Rightarrow> nat" where
  "hex_value c = (if is_digit c then of_char c - 48 else of_char c - 87)"

definition json_read :: "string \<Rightarrow> char \<times> string" where
  \<comment> \<open>the next character of a string literal, and what follows it\<close>
  "json_read s =
     (if hd s \<noteq> CHR 0x5C then (hd s, tl s)
      else let c = s ! 1 in
        if c = CHR ''n'' then (CHR 0x0A, drop 2 s)
        else if c = CHR ''r'' then (CHR 0x0D, drop 2 s)
        else if c = CHR ''t'' then (CHR 0x09, drop 2 s)
        else if c = CHR ''f'' then (CHR 0x0C, drop 2 s)
        else if c = CHR ''b'' then (CHR 0x08, drop 2 s)
        else if c = CHR ''u'' then (char_of (16 * hex_value (s ! 4) + hex_value (s ! 5)), drop 6 s)
        else (c, drop 2 s))"

lemma hex_value_digit: "n < 16 \<Longrightarrow> hex_value (hex_digit n) = n"
  by (auto simp: hex_value_def hex_digit_def is_digit_def)

lemma char_code: "c = d \<longleftrightarrow> (of_char c :: nat) = of_char d"
  by simp

lemma read_json_char: "json_read (json_char c @ x) = (c, x)"
proof -
  let ?n = "of_char c :: nat"
  have bound: "?n < 256" by simp
  consider "?n \<in> {34, 92, 10, 13, 9, 12, 8}" | "?n \<notin> {34, 92, 10, 13, 9, 12, 8}" "?n < 32 \<or> 126 < ?n"
    | "?n \<notin> {34, 92, 10, 13, 9, 12, 8}" "\<not> (?n < 32 \<or> 126 < ?n)" by blast
  then show ?thesis
  proof cases
    case 1
    then have "c \<in> {CHR 0x22, CHR 0x5C, CHR 0x0A, CHR 0x0D, CHR 0x09, CHR 0x0C, CHR 0x08}"
      unfolding insert_iff char_code by simp
    then show ?thesis by (elim insertE) (simp_all add: json_char_def json_read_def Let_def)
  next
    case 2
    have "16 * hex_value (hex_digit (?n div 16)) + hex_value (hex_digit (?n mod 16)) = ?n"
      using bound by (subst (1 2) hex_value_digit) (auto intro: less_mult_imp_div_less)
    moreover have "json_char c = [CHR 0x5C, CHR ''u'', CHR ''0'', CHR ''0'', hex_digit (?n div 16), hex_digit (?n mod 16)]"
      using 2 unfolding json_char_def Let_def by simp
    ultimately show ?thesis by (simp add: json_read_def)
  next
    case 3
    then have "c \<noteq> CHR 0x5C" by auto
    then show ?thesis using 3 unfolding json_char_def by (simp add: Let_def json_read_def)
  qed
qed

lemma json_char_not_quote: "\<exists>a b. json_char c = a # b \<and> a \<noteq> CHR 0x22"
  unfolding json_char_def Let_def by auto

lemma json_chars_self:
  "concat (map json_char s) @ CHR 0x22 # r = concat (map json_char t) @ CHR 0x22 # r' \<Longrightarrow> s = t \<and> r = r'"
proof (induction s arbitrary: t)
  case Nil
  then show ?case
  proof (cases t)
    case (Cons d t')
    then show ?thesis using Nil json_char_not_quote[of d] by auto
  qed simp
next
  case (Cons c s)
  show ?case
  proof (cases t)
    case Nil
    then show ?thesis using Cons.prems json_char_not_quote[of c] by auto
  next
    case (Cons d t')
    let ?rest = "\<lambda>s r. concat (map json_char s) @ CHR 0x22 # r"
    have "json_read (json_char c @ ?rest s r) = json_read (json_char d @ ?rest t' r')"
      using Cons.prems Cons by simp
    then show ?thesis using Cons.IH Cons by (simp add: read_json_char)
  qed
qed

lemma json_str_self: "json_str s @ r = json_str t @ r' \<Longrightarrow> s = t \<and> r = r'"
  using json_chars_self[of s r t r'] by (simp add: json_str_def)

lemma show_nat_self:
  assumes "show_nat m @ r = show_nat n @ r'" "closed_by r" "closed_by r'"
  shows "m = n \<and> r = r'"
proof -
  have stop: "takeWhile is_digit r = []" if "closed_by r" for r
    using that by (cases r) (auto simp: closed_by_def is_digit_def)
  have "takeWhile is_digit (show_nat n @ r) = show_nat n" if "closed_by r" for n r
    using stop[OF that] by (simp add: takeWhile_append2 show_nat_digits)
  then have "show_nat m = show_nat n" using assms by metis
  then show ?thesis using assms(1) nat_of_digits_show_nat[of m] by (metis append_same_eq same_append_eq nat_of_digits_show_nat)
qed

lemma show_int_self:
  assumes "show_int i @ r = show_int j @ r'" "closed_by r" "closed_by r'"
  shows "i = j \<and> r = r'"
proof -
  have digit: "is_digit (hd (show_nat n))" for n
    using show_nat_digits[of "hd (show_nat n)" n] by simp
  have no: "show_nat n @ x \<noteq> CHR ''-'' # y" for n x y
    using digit[of n] by (cases "show_nat n") (auto simp: is_digit_def)
  show ?thesis
  proof (cases "i < 0 \<longleftrightarrow> j < 0")
    case True
    then have "(if i < 0 then nat (- i) else nat i) = (if j < 0 then nat (- j) else nat j) \<and> r = r'"
      using assms(1) by (intro show_nat_self[OF _ assms(2,3)]) (auto simp: show_int_def split: if_splits)
    then show ?thesis using True by (auto split: if_splits)
  next
    case False
    then show ?thesis using assms(1) no no[symmetric] by (auto simp: show_int_def split: if_splits)
  qed
qed

section \<open>Lists and dictionaries\<close>

lemma join_self:
  assumes "\<forall>x \<in> set xs. self_delimiting f x"
  shows "xs \<noteq> [] \<Longrightarrow> ys \<noteq> [] \<Longrightarrow> join_with (CHR '','' # sep) (map f xs) @ CHR 0x0A # r = join_with (CHR '','' # sep) (map f ys) @ CHR 0x0A # r'
    \<Longrightarrow> xs = ys \<and> r = r'"
  using assms
proof (induction xs arbitrary: ys)
  case (Cons x xs)
  obtain y ys' where ys: "ys = y # ys'" using Cons.prems(2) by (cases ys) auto
  define rest where "rest zs t = (if zs = [] then CHR 0x0A # t else CHR '','' # sep @ join_with (CHR '','' # sep) (map f zs) @ CHR 0x0A # t)"
    for zs t
  have split: "join_with (CHR '','' # sep) (map f (z # zs)) @ CHR 0x0A # t = f z @ rest zs t" for z zs t
    by (cases zs) (auto simp: rest_def)
  have "f x @ rest xs r = f y @ rest ys' r'" using Cons.prems(3) unfolding ys split .
  moreover have "closed_by (rest zs t)" for zs t by (simp add: rest_def)
  ultimately have xy: "x = y" "rest xs r = rest ys' r'"
    using self_delimitingD[of f x "rest xs r" y "rest ys' r'"] Cons.prems(4) by auto
  show ?case
  proof (cases "xs = [] \<or> ys' = []")
    case True
    then show ?thesis using xy ys by (auto simp: rest_def split: if_splits)
  next
    case False
    then show ?thesis using xy ys Cons.IH[of ys'] Cons.prems(4) by (auto simp: rest_def)
  qed
qed simp

lemma bracketed_self:
  assumes "\<forall>x \<in> set xs. self_delimiting f x" "right \<noteq> CHR 0x0A"
    and eq: "bracketed level left right (map f xs) @ r = bracketed level left right (map f ys) @ r'"
  shows "xs = ys \<and> r = r'"
proof (cases "xs = [] \<or> ys = []")
  case True
  then show ?thesis using eq assms(2) by (auto simp: bracketed_def newline_def split: if_splits)
next
  case False
  then have "join_with (CHR '','' # newline (Suc level)) (map f xs) @ CHR 0x0A # replicate (4 * level) (CHR 0x20) @ right # r
    = join_with (CHR '','' # newline (Suc level)) (map f ys) @ CHR 0x0A # replicate (4 * level) (CHR 0x20) @ right # r'"
    using eq by (simp add: bracketed_def newline_def)
  from join_self[OF assms(1) _ _ this] False show ?thesis by simp
qed

lemma render_head:
  "render l PNone = ''null''" "\<exists>t. render l (PStr s) = CHR 0x22 # t" "\<exists>t. render l (PList xs) = CHR ''['' # t" "\<exists>t. render l (PDict d) = CHR ''{'' # t"
  "\<exists>c t. render l (PInt i) = c # t \<and> (c = CHR ''-'' \<or> is_digit c)"
proof -
  have "\<exists>c t. show_nat n = c # t \<and> is_digit c" for n
    using show_nat_digits[of "hd (show_nat n)" n] by (cases "show_nat n") auto
  from this[of "nat i"] show "\<exists>c t. render l (PInt i) = c # t \<and> (c = CHR ''-'' \<or> is_digit c)" by (auto simp: show_int_def)
qed (auto simp: json_str_def bracketed_def)

fun kind_of :: "pyval \<Rightarrow> nat" where
  "kind_of PNone = 0"
| "kind_of (PBool b) = (if b then 1 else 2)"
| "kind_of (PInt i) = 3"
| "kind_of (PStr s) = 4"
| "kind_of (PList xs) = 5"
| "kind_of (PDict d) = 6"

definition kind_of_head :: "char \<Rightarrow> nat" where
  "kind_of_head c = (if c = CHR ''n'' then 0 else if c = CHR ''t'' then 1 else if c = CHR ''f'' then 2
     else if c = CHR 0x22 then 4 else if c = CHR ''['' then 5 else if c = CHR ''{'' then 6 else 3)"

lemma kind_of_render: "kind_of_head (hd (render l v @ r)) = kind_of v"
proof (cases v)
  case (PInt i)
  obtain c t where "render l (PInt i) = c # t" "c = CHR ''-'' \<or> is_digit c" using render_head(5) by blast
  then show ?thesis using PInt by (auto simp: kind_of_head_def is_digit_def)
next
  case (PList xs)
  then show ?thesis using render_head(3)[of l xs] by (auto simp: kind_of_head_def)
next
  case (PDict d)
  then show ?thesis using render_head(4)[of l d] by (auto simp: kind_of_head_def)
qed (auto simp: kind_of_head_def json_str_def)

lemma same_kind: "render l v @ r = render l w @ r' \<Longrightarrow> kind_of w = kind_of v"
  using kind_of_render[of l v r] kind_of_render[of l w r'] by simp

lemma render_self: "self_delimiting (render l) v"
proof (induction v arbitrary: l)
  case (PInt i)
  have "PInt i = w \<and> r = r'" if "render l (PInt i) @ r = render l w @ r'" "closed_by r" "closed_by r'" for w r r'
  proof -
    have "kind_of w = 3" using same_kind[OF that(1)] by simp
    then obtain j where "w = PInt j" by (cases w) (auto split: if_splits)
    then show ?thesis using show_int_self[of i r j r'] that by simp
  qed
  then show ?case unfolding self_delimiting_def by blast
next
  case (PStr s)
  have "PStr s = w \<and> r = r'" if "render l (PStr s) @ r = render l w @ r'" for w r r'
  proof -
    have "kind_of w = 4" using same_kind[OF that] by simp
    then obtain t where "w = PStr t" by (cases w) (auto split: if_splits)
    then show ?thesis using json_str_self[of s r t r'] that by simp
  qed
  then show ?case unfolding self_delimiting_def by blast
next
  case (PList xs)
  have "PList xs = w \<and> r = r'" if "render l (PList xs) @ r = render l w @ r'" for w r r'
  proof -
    have "kind_of w = 5" using same_kind[OF that] by simp
    then obtain ys where w: "w = PList ys" by (cases w) (auto split: if_splits)
    then show ?thesis using bracketed_self[of xs "render (Suc l)" "CHR '']''" l "CHR ''[''" r ys r'] PList that w by simp
  qed
  then show ?case unfolding self_delimiting_def by blast
next
  case (PDict d)
  let ?f = "\<lambda>(k, v). json_str k @ '': '' @ render (Suc l) v"
  have "PDict d = w \<and> r = r'" if "render l (PDict d) @ r = render l w @ r'" for w r r'
  proof -
    have "kind_of w = 6" using same_kind[OF that] by simp
    then obtain e where w: "w = PDict e" by (cases w) (auto split: if_splits)
    have "self_delimiting ?f p" if p: "p \<in> set d" for p
      unfolding self_delimiting_def
    proof (intro allI impI)
      fix q r r' assume eq: "?f p @ r = ?f q @ r'" and closed: "closed_by r" "closed_by r'"
      obtain k v k' v' where kv: "p = (k, v)" "q = (k', v')" by (cases p; cases q)
      have "json_str k @ ('': '' @ render (Suc l) v @ r) = json_str k' @ ('': '' @ render (Suc l) v' @ r')" using eq kv by simp
      from json_str_self[OF this] have "k = k'" "render (Suc l) v @ r = render (Suc l) v' @ r'" by auto
      moreover have "self_delimiting (render (Suc l)) v" by (rule PDict[OF p]) (simp add: kv snds.simps)
      ultimately show "p = q \<and> r = r'"
        using kv self_delimitingD[of "render (Suc l)" v r v' r'] closed by simp
    qed
    then show ?thesis using bracketed_self[of d ?f "CHR ''}''" l "CHR ''{''" r e r'] that w by simp
  qed
  then show ?case unfolding self_delimiting_def by blast
next
  case PNone
  have "PNone = w \<and> r = r'" if "render l PNone @ r = render l w @ r'" for w r r'
  proof -
    have "kind_of w = kind_of PNone" using that by (rule same_kind)
    then have "w = PNone" by (cases w) (simp_all split: if_splits)
    then show ?thesis using that by simp
  qed
  then show ?case unfolding self_delimiting_def by blast
next
  case (PBool b)
  have "PBool b = w \<and> r = r'" if "render l (PBool b) @ r = render l w @ r'" for w r r'
  proof -
    have "kind_of w = kind_of (PBool b)" using that by (rule same_kind)
    then have "w = PBool b" by (cases w; cases b) (simp_all split: if_splits)
    then show ?thesis using that by simp
  qed
  then show ?case unfolding self_delimiting_def by blast
qed

lemma json_dumps_exact: "json_dumps 0 v = json_dumps 0 w \<longleftrightarrow> sort_keys v = sort_keys w"
  using self_delimitingD[OF render_self, of 0 "sort_keys v" "[]" "sort_keys w" "[]"] unfolding dumps_render closed_by_def by auto

end
