(* ===== verification/Version_Diff.thy ===== *)
theory Version_Diff
  imports Json_Text Resource_Id
begin

text \<open>
  The comparison of two versions of a model (\<open>server/diff.py\<close>) and of the desired with the
  current state in a dry run (\<open>dryrun_diff\<close> of \<open>server/services/dryrunservice.py\<close>): attributes are
  compared by a text, the result is what the client shows.

  The cached text of an attribute is computed from its value each time. The order of a set is the order of the list that stands for
  it.
\<close>

section \<open>Attributes\<close>

record attribute =
  at_name :: string
  at_value :: pyval

record attribute_diff =
  from_value :: pyval
  to_value :: pyval
  from_value_compare :: string
  to_value_compare :: string

definition py_iter :: "pyval \<Rightarrow> pyval list result" where
  "py_iter v = (case v of PList xs \<Rightarrow> Inr xs | PStr s \<Rightarrow> Inr (map (\<lambda>c. PStr [c]) s)
     | PDict d \<Rightarrow> Inr (map (PStr \<circ> fst) d) | _ \<Rightarrow> Inl TypeError)"

definition mk_attribute :: "string \<Rightarrow> pyval \<Rightarrow> attribute result" where
  "mk_attribute name v =
     (if name = ''requires''
      then rbind (py_iter v) (\<lambda>reqs.
           rbind (rmap (\<lambda>req. case req of
               PStr s \<Rightarrow> rbind (parse_id s None) (\<lambda>i. Inr (resource_str i))
             | _ \<Rightarrow> Inl TypeError) reqs) (\<lambda>ids.
           Inr \<lparr>at_name = name, at_value = PList (map PStr (sort ids))\<rparr>))
      else Inr \<lparr>at_name = name, at_value = v\<rparr>)"

definition compare_value :: "pyval \<Rightarrow> string" where
  "compare_value v = (case v of
     PNone \<Rightarrow> [] | PList _ \<Rightarrow> json_dumps 0 v | PDict _ \<Rightarrow> json_dumps 0 v | _ \<Rightarrow> py_str v)"

definition attr_compare :: "attribute \<Rightarrow> attribute \<Rightarrow> attribute_diff option" where
  \<comment> \<open>\<open>self.compare(other)\<close>: the other one is the original\<close>
  "attr_compare self other =
     (if compare_value (at_value self) = compare_value (at_value other) then None
      else Some \<lparr>from_value = at_value other, to_value = at_value self,
        from_value_compare = compare_value (at_value other), to_value_compare = compare_value (at_value self)\<rparr>)"

definition attr_added :: "attribute \<Rightarrow> attribute_diff" where
  "attr_added a = \<lparr>from_value = PNone, to_value = at_value a,
     from_value_compare = [], to_value_compare = compare_value (at_value a)\<rparr>"

definition attr_removed :: "attribute \<Rightarrow> attribute_diff" where
  "attr_removed a = \<lparr>from_value = at_value a, to_value = PNone,
     from_value_compare = compare_value (at_value a), to_value_compare = []\<rparr>"

section \<open>Resources\<close>

datatype diff_status = Diff_Added | Diff_Modified | Diff_Deleted | Diff_Unmodified
  | Diff_Agent_Down | Diff_Undefined | Diff_Skipped_For_Undefined

record resource_diff =
  rd_id :: string
  rd_attributes :: "(string, attribute_diff) dict"
  rd_status :: diff_status

record diff_resource =
  dr_id :: string
  dr_attributes :: "(string, attribute) dict"

definition mk_diff_resource :: "string \<Rightarrow> (string, pyval) dict \<Rightarrow> diff_resource result" where
  "mk_diff_resource rid attributes =
     rbind (rmap (\<lambda>(name, v). rbind (mk_attribute name v) (\<lambda>a. Inr (name, a)))
       (filter (\<lambda>(name, v). name \<noteq> ''version'') attributes))
       (\<lambda>d. Inr \<lparr>dr_id = rid, dr_attributes = d\<rparr>)"

definition attr_of :: "diff_resource \<Rightarrow> string \<Rightarrow> attribute" where
  \<comment> \<open>\<open>self._attributes[name]\<close>, only for names that are there\<close>
  "attr_of r name = dget (dr_attributes r) name \<lparr>at_name = name, at_value = PNone\<rparr>"

definition res_compare :: "diff_resource \<Rightarrow> diff_resource \<Rightarrow> resource_diff option" where
  "res_compare self other =
     (let other_attributes = dkeys (dr_attributes other);
          our_attributes = dkeys (dr_attributes self);
          d1 = fold (\<lambda>name d. dset d name (attr_added (attr_of self name))) (sdiff our_attributes other_attributes) [];
          d2 = fold (\<lambda>name d. dset d name (attr_removed (attr_of other name))) (sdiff other_attributes our_attributes) d1;
          d3 = fold (\<lambda>name d. case attr_compare (attr_of self name) (attr_of other name) of
                 None \<Rightarrow> d | Some x \<Rightarrow> dset d name x) (sinter other_attributes our_attributes) d2
      in if d3 = [] then None else Some \<lparr>rd_id = dr_id self, rd_attributes = d3, rd_status = Diff_Modified\<rparr>)"

definition res_added :: "diff_resource \<Rightarrow> resource_diff" where
  "res_added r = \<lparr>rd_id = dr_id r, rd_attributes = map (\<lambda>(n, a). (n, attr_added a)) (dr_attributes r), rd_status = Diff_Added\<rparr>"

definition res_removed :: "diff_resource \<Rightarrow> resource_diff" where
  "res_removed r = \<lparr>rd_id = dr_id r, rd_attributes = map (\<lambda>(n, a). (n, attr_removed a)) (dr_attributes r), rd_status = Diff_Deleted\<rparr>"

definition res_unmodified :: "diff_resource \<Rightarrow> resource_diff" where
  "res_unmodified r = \<lparr>rd_id = dr_id r, rd_attributes = [], rd_status = Diff_Unmodified\<rparr>"

section \<open>Versions\<close>

type_synonym diff_version = "(string, diff_resource) dict"

definition resource_of :: "diff_version \<Rightarrow> string \<Rightarrow> diff_resource" where
  "resource_of v rid = dget v rid \<lparr>dr_id = rid, dr_attributes = []\<rparr>"

definition version_diff :: "diff_version \<Rightarrow> diff_version \<Rightarrow> bool \<Rightarrow> resource_diff list" where
  \<comment> \<open>\<open>self.generate_diff(other, include_unmodified)\<close>: the other one is the original\<close>
  "version_diff self other include_unmodified =
     (let our_set = dkeys self;
          other_set = dkeys other;
          added = sdiff our_set other_set;
          removed = sdiff other_set our_set;
          result = map (\<lambda>x. res_added (resource_of self x)) added
            @ map (\<lambda>x. res_removed (resource_of other x)) removed
            @ concat (map (\<lambda>x. case res_compare (resource_of self x) (resource_of other x) of
                Some cmp \<Rightarrow> [cmp]
              | None \<Rightarrow> if include_unmodified then [res_unmodified (resource_of self x)] else [])
              (sinter our_set other_set))
      in sort_key rd_id result)"

definition generate_diff :: "diff_version \<Rightarrow> diff_version \<Rightarrow> bool \<Rightarrow> resource_diff list" where
  "generate_diff from_version_resources to_version_resources include_unmodified =
     version_diff to_version_resources from_version_resources include_unmodified"

definition convert_resources :: "(string \<times> (string, pyval) dict) list \<Rightarrow> diff_version result" where
  \<comment> \<open>the resources of a version in the database, with their attributes\<close>
  "convert_resources resources =
     rbind (rmap (\<lambda>(rid, attributes). rbind (mk_diff_resource rid attributes) (\<lambda>r. Inr (rid, r))) resources)
       (\<lambda>rs. Inr (fold (\<lambda>(rid, r) d. dset d rid r) rs []))"

section \<open>Dry runs\<close>

record dryrun_entry =
  de_changes :: "(string, (string, pyval) dict) dict option" \<comment> \<open>\<open>changes\<close>; \<open>None\<close>: no such key\<close>
  de_diff_status :: "diff_status option"

definition get_attributes_from_changes :: "(string, (string, pyval) dict) dict \<Rightarrow> string \<Rightarrow> (string, pyval) dict result" where
  "get_attributes_from_changes changes key =
     rmap (\<lambda>(name, values). rbind (dlookup values key) (\<lambda>v. Inr (name, v)))
       (filter (\<lambda>(name, values). name \<noteq> ''requires'') changes)"

definition resource_will_be_unpurged :: "(string, pyval) dict \<Rightarrow> (string, pyval) dict \<Rightarrow> bool" where
  "resource_will_be_unpurged from_attributes to_attributes =
     (map_of from_attributes ''purged'' = Some (PBool True) \<and> map_of to_attributes ''purged'' = Some (PBool False))"

definition resource_will_be_purged :: "(string, pyval) dict \<Rightarrow> (string, pyval) dict \<Rightarrow> bool" where
  "resource_will_be_purged from_attributes to_attributes =
     (map_of from_attributes ''purged'' = Some (PBool False) \<and> map_of to_attributes ''purged'' = Some (PBool True))"

definition dryrun_resource :: "string \<Rightarrow> dryrun_entry \<Rightarrow> diff_version \<times> diff_version \<Rightarrow> (diff_version \<times> diff_version) result" where
  \<comment> \<open>the body of the loop over \<open>resources_to_diff\<close>\<close>
  "dryrun_resource rvid e s =
     (case s of (from_resources, to_resources) \<Rightarrow>
     rbind (parse_id rvid None) (\<lambda>i.
     let resource_id = resource_str i in
     rbind (case de_changes e of None \<Rightarrow> Inl KeyError | Some c \<Rightarrow> Inr c) (\<lambda>changes.
     rbind (get_attributes_from_changes changes ''current'') (\<lambda>from_attributes.
     rbind (get_attributes_from_changes changes ''desired'') (\<lambda>to_attributes.
     rbind (mk_diff_resource resource_id from_attributes) (\<lambda>f.
     rbind (mk_diff_resource resource_id to_attributes) (\<lambda>t.
     let fs = dset from_resources resource_id f;
         ts = dset to_resources resource_id t
     in Inr (if has_key changes ''purged''
          then (if resource_will_be_unpurged from_attributes to_attributes then ddel fs resource_id else fs,
                if resource_will_be_purged from_attributes to_attributes then ddel ts resource_id else ts)
          else (fs, ts)))))))))"

definition dryrun_diff :: "(string \<times> dryrun_entry) list \<Rightarrow> resource_diff list result" where
  \<comment> \<open>from the resources of the dry run that is stored\<close>
  "dryrun_diff resources =
     rbind (rfold (\<lambda>(rvid, e). dryrun_resource rvid e) (filter (\<lambda>(rvid, e). de_diff_status e = None) resources) ([], [])) (\<lambda>(from_resources, to_resources).
     rbind (rmap (\<lambda>(rvid, status). rbind (parse_resource_version_id rvid) (\<lambda>i.
         Inr \<lparr>rd_id = resource_str i, rd_attributes = [], rd_status = status\<rparr>))
       (concat (map (\<lambda>(rvid, e). case de_diff_status e of None \<Rightarrow> [] | Some st \<Rightarrow> [(rvid, st)]) resources))) (\<lambda>known.
     Inr (sort_key rd_id (generate_diff from_resources to_resources True @ known))))"

section \<open>Attributes are compared exactly\<close>

definition comparable :: "pyval \<Rightarrow> pyval \<Rightarrow> bool" where
  \<comment> \<open>both are containers, or both are of one type of scalars\<close>
  "comparable v w = (case v of
     PNone \<Rightarrow> w = PNone
   | PBool _ \<Rightarrow> (case w of PBool _ \<Rightarrow> True | _ \<Rightarrow> False)
   | PInt _ \<Rightarrow> (case w of PInt _ \<Rightarrow> True | _ \<Rightarrow> False)
   | PStr _ \<Rightarrow> (case w of PStr _ \<Rightarrow> True | _ \<Rightarrow> False)
   | _ \<Rightarrow> (case w of PList _ \<Rightarrow> True | PDict _ \<Rightarrow> True | _ \<Rightarrow> False))"

lemma compare_value_exact:
  assumes "comparable v w"
  shows "compare_value v = compare_value w \<longleftrightarrow> sort_keys v = sort_keys w"
proof -
  have "show_int i = show_int j \<longleftrightarrow> i = j" for i j
    using show_int_self[of i "[]" j "[]"] by (auto simp: closed_by_def)
  then show ?thesis
    using assms json_dumps_exact unfolding comparable_def compare_value_def py_str_def
    by (cases v; cases w) (simp_all del: json_dumps.simps sort_keys.simps(1,2))
qed

section \<open>Lookups in the result\<close>

definition wf_version :: "diff_version \<Rightarrow> bool" where
  "wf_version v \<longleftrightarrow> wf_dict v \<and> (\<forall>rid r. map_of v rid = Some r \<longrightarrow> dr_id r = rid \<and> wf_dict (dr_attributes r))"

lemma map_of_fold_values: "map_of (fold (\<lambda>n d. dset d n (f n)) ns d) k = (if k \<in> set ns then Some (f k) else map_of d k)"
  by (induction ns arbitrary: d) auto

lemma map_of_fold_some:
  "map_of (fold (\<lambda>n d. case f n of None \<Rightarrow> d | Some x \<Rightarrow> dset d n x) ns d) k
    = (case f k of Some x \<Rightarrow> if k \<in> set ns then Some x else map_of d k | None \<Rightarrow> map_of d k)"
  by (induction ns arbitrary: d) (auto split: option.splits)

lemma find_key:
  assumes "distinct (map f xs)" "x \<in> set xs"
  shows "find (\<lambda>y. f y = f x) xs = Some x"
  using assms by (induction xs) (auto simp: rev_image_eqI)

lemma dkeys_member: "k \<in> set (dkeys d) \<longleftrightarrow> (\<exists>v. map_of d k = Some v)"
  unfolding set_dkeys by blast

definition shown :: "diff_resource \<Rightarrow> string \<Rightarrow> string" where
  \<comment> \<open>the text of an attribute; one that is missing has none\<close>
  "shown r name = (case map_of (dr_attributes r) name of None \<Rightarrow> [] | Some a \<Rightarrow> compare_value (at_value a))"

definition patch_resource :: "resource_diff \<Rightarrow> (string \<Rightarrow> string) \<Rightarrow> string \<Rightarrow> string" where
  "patch_resource d old name = (case map_of (rd_attributes d) name of Some x \<Rightarrow> to_value_compare x | None \<Rightarrow> old name)"

definition patch :: "resource_diff list \<Rightarrow> diff_version \<Rightarrow> string \<Rightarrow> (string \<Rightarrow> string) option" where
  \<comment> \<open>what the resources show once the differences have been applied\<close>
  "patch ds v rid = (case find (\<lambda>d. rd_id d = rid) ds of
     None \<Rightarrow> map_option shown (map_of v rid)
   | Some d \<Rightarrow> (case rd_status d of
       Diff_Deleted \<Rightarrow> None
     | Diff_Added \<Rightarrow> Some (patch_resource d (\<lambda>_. []))
     | _ \<Rightarrow> map_option (\<lambda>r. patch_resource d (shown r)) (map_of v rid)))"

lemma res_compare_lookup:
  assumes "res_compare self other = Some d"
  shows "patch_resource d (shown other) = shown self" "rd_status d = Diff_Modified" "rd_id d = dr_id self"
proof -
  let ?s = "dr_attributes self" and ?o = "dr_attributes other"
  have look: "map_of (rd_attributes d) n = (case (map_of ?s n, map_of ?o n) of
      (None, None) \<Rightarrow> None
    | (Some a, None) \<Rightarrow> Some (attr_added a)
    | (None, Some b) \<Rightarrow> Some (attr_removed b)
    | (Some a, Some b) \<Rightarrow> attr_compare a b)" for n
  proof -
    have mem: "n \<in> set (dkeys ?s) \<longleftrightarrow> map_of ?s n \<noteq> None" "n \<in> set (dkeys ?o) \<longleftrightarrow> map_of ?o n \<noteq> None"
      using dkeys_member[of n ?s] dkeys_member[of n ?o] by auto
    from assms have "rd_attributes d = fold (\<lambda>name d. case attr_compare (attr_of self name) (attr_of other name) of None \<Rightarrow> d | Some x \<Rightarrow> dset d name x)
        (sinter (dkeys ?o) (dkeys ?s)) (fold (\<lambda>name d. dset d name (attr_removed (attr_of other name))) (sdiff (dkeys ?o) (dkeys ?s))
          (fold (\<lambda>name d. dset d name (attr_added (attr_of self name))) (sdiff (dkeys ?s) (dkeys ?o)) []))"
      unfolding res_compare_def Let_def by (cases d) (simp split: if_splits)
    then show ?thesis
      unfolding map_of_fold_some map_of_fold_values set_sinter set_sdiff Int_iff Diff_iff mem
      by (cases "map_of ?s n"; cases "map_of ?o n") (simp_all add: mem[simplified] map_of_fold_some map_of_fold_values attr_of_def split: option.split)
  qed
  show "patch_resource d (shown other) = shown self"
    by (rule ext) (auto simp: patch_resource_def shown_def look attr_added_def attr_removed_def attr_compare_def split: option.splits)
  show "rd_status d = Diff_Modified" "rd_id d = dr_id self"
    using assms unfolding res_compare_def by (auto simp: Let_def split: if_splits)
qed

lemma fold_some_Nil:
  "fold (\<lambda>n d. case f n of None \<Rightarrow> d | Some x \<Rightarrow> dset d n x) ns d = [] \<Longrightarrow> d = [] \<and> (\<forall>n \<in> set ns. f n = None)"
proof (induction ns arbitrary: d)
  case (Cons n ns)
  have grown: "dset d n x \<noteq> []" for x by (simp add: dset_def)
  show ?case
  proof (cases "f n")
    case None
    then show ?thesis using Cons.IH[of d] Cons.prems by simp
  next
    case (Some x)
    then show ?thesis using Cons.IH[of "dset d n x"] Cons.prems grown[of x] by simp
  qed
qed simp

lemma res_compare_None:
  assumes "res_compare self other = None"
  shows "shown other = shown self"
proof
  fix n
  let ?s = "dr_attributes self" and ?o = "dr_attributes other"
  from assms have nil: "fold (\<lambda>name d. case attr_compare (attr_of self name) (attr_of other name) of None \<Rightarrow> d | Some x \<Rightarrow> dset d name x)
     (sinter (dkeys ?o) (dkeys ?s)) (fold (\<lambda>name d. dset d name (attr_removed (attr_of other name))) (sdiff (dkeys ?o) (dkeys ?s))
       (fold (\<lambda>name d. dset d name (attr_added (attr_of self name))) (sdiff (dkeys ?s) (dkeys ?o)) [])) = []"
    unfolding res_compare_def Let_def by (simp split: if_splits)
  note none = fold_some_Nil[OF this]
  have mem: "k \<in> set (dkeys ?s) \<longleftrightarrow> map_of ?s k \<noteq> None" "k \<in> set (dkeys ?o) \<longleftrightarrow> map_of ?o k \<noteq> None" for k
    using dkeys_member[of k ?s] dkeys_member[of k ?o] by auto
  have "(if n \<in> set (sdiff (dkeys ?o) (dkeys ?s)) then Some (attr_removed (attr_of other n))
    else if n \<in> set (sdiff (dkeys ?s) (dkeys ?o)) then Some (attr_added (attr_of self n)) else None) = None"
    using arg_cong[OF conjunct1[OF none], of "\<lambda>d. map_of d n"] by (simp only: map_of_fold_values map_of.simps)
  then have same: "map_of ?s n = None \<longleftrightarrow> map_of ?o n = None"
    unfolding set_sdiff Diff_iff mem by (auto split: if_splits)
  have "attr_compare (attr_of self n) (attr_of other n) = None" if "map_of ?s n \<noteq> None" "map_of ?o n \<noteq> None"
    using conjunct2[OF none] that unfolding set_sinter by (metis Int_iff mem)
  then show "shown other n = shown self n"
    using same by (cases "map_of ?s n"; cases "map_of ?o n") (simp_all add: shown_def attr_of_def attr_compare_def split: if_splits)
qed

lemma added_shows: "patch_resource (res_added r) (\<lambda>_. []) = shown r"
proof -
  have "map_of (map (\<lambda>(n, a). (n, attr_added a)) d) = map_option attr_added \<circ> map_of d" for d :: "(string, attribute) dict"
    by (rule map_of_map)
  then show ?thesis
    by (intro ext) (auto simp: patch_resource_def shown_def res_added_def attr_added_def split: option.splits)
qed

section \<open>The difference of two versions\<close>

definition entry :: "diff_version \<Rightarrow> diff_version \<Rightarrow> bool \<Rightarrow> string \<Rightarrow> resource_diff option" where
  \<comment> \<open>what the result says of one resource\<close>
  "entry self other include_unmodified rid = (case (map_of self rid, map_of other rid) of
     (None, None) \<Rightarrow> None
   | (Some r, None) \<Rightarrow> Some (res_added r)
   | (None, Some r) \<Rightarrow> Some (res_removed r)
   | (Some r, Some r') \<Rightarrow> (case res_compare r r' of Some c \<Rightarrow> Some c
       | None \<Rightarrow> if include_unmodified then Some (res_unmodified r) else None))"

lemma entry_id:
  assumes "wf_version self" "wf_version other" "entry self other iu rid = Some d"
  shows "rd_id d = rid"
proof (cases "map_of self rid")
  case None
  then show ?thesis using assms by (auto simp: entry_def wf_version_def res_removed_def split: option.splits)
next
  case (Some r)
  then have "dr_id r = rid" using assms(1) by (simp add: wf_version_def)
  then show ?thesis
    using assms(3) Some res_compare_lookup(3)[of r _ d]
    by (auto simp: entry_def res_added_def res_unmodified_def split: option.splits if_splits)
qed

lemma entry_cases:
  "map_of self k \<noteq> None \<Longrightarrow> map_of other k = None \<Longrightarrow> entry self other iu k = Some (res_added (resource_of self k))"
  "map_of self k = None \<Longrightarrow> map_of other k \<noteq> None \<Longrightarrow> entry self other iu k = Some (res_removed (resource_of other k))"
  "map_of self k = None \<Longrightarrow> map_of other k = None \<Longrightarrow> entry self other iu k = None"
  "map_of self k \<noteq> None \<Longrightarrow> map_of other k \<noteq> None \<Longrightarrow> entry self other iu k =
     (case res_compare (resource_of self k) (resource_of other k) of Some c \<Rightarrow> Some c
      | None \<Rightarrow> if iu then Some (res_unmodified (resource_of self k)) else None)"
  by (auto simp: entry_def resource_of_def split: option.split)

lemma version_diff_entries:
  "set (version_diff self other iu) = {d. \<exists>k. entry self other iu k = Some d}"
proof -
  have mem: "k \<in> set (dkeys self) \<longleftrightarrow> map_of self k \<noteq> None" "k \<in> set (dkeys other) \<longleftrightarrow> map_of other k \<noteq> None" for k
    using dkeys_member[of k self] dkeys_member[of k other] by auto
  let ?both = "\<lambda>x. case res_compare (resource_of self x) (resource_of other x) of
      Some cmp \<Rightarrow> [cmp] | None \<Rightarrow> if iu then [res_unmodified (resource_of self x)] else []"
  have added: "(\<lambda>x. res_added (resource_of self x)) ` set (sdiff (dkeys self) (dkeys other))
      = {d. \<exists>k. map_of self k \<noteq> None \<and> map_of other k = None \<and> entry self other iu k = Some d}"
    unfolding set_sdiff image_def Diff_iff Bex_def mem using entry_cases by (auto simp del: not_None_eq)
  have removed: "(\<lambda>x. res_removed (resource_of other x)) ` set (sdiff (dkeys other) (dkeys self))
      = {d. \<exists>k. map_of self k = None \<and> map_of other k \<noteq> None \<and> entry self other iu k = Some d}"
    unfolding set_sdiff image_def Diff_iff Bex_def mem using entry_cases by (auto simp del: not_None_eq)
  have "set (?both k) = {d. entry self other iu k = Some d}" if "map_of self k \<noteq> None" "map_of other k \<noteq> None" for k
    using entry_cases(4)[OF that] by (simp split: option.splits)
  then have "(\<Union>x \<in> {k. map_of self k \<noteq> None \<and> map_of other k \<noteq> None}. set (?both x))
      = {d. \<exists>k. map_of self k \<noteq> None \<and> map_of other k \<noteq> None \<and> entry self other iu k = Some d}" by blast
  moreover have "set (sinter (dkeys self) (dkeys other)) = {k. map_of self k \<noteq> None \<and> map_of other k \<noteq> None}"
    unfolding set_sinter using mem by blast
  ultimately have both: "(\<Union>x \<in> set (sinter (dkeys self) (dkeys other)). set (?both x))
      = {d. \<exists>k. map_of self k \<noteq> None \<and> map_of other k \<noteq> None \<and> entry self other iu k = Some d}" by metis
  have none: "entry self other iu k \<noteq> Some d" if "map_of self k = None" "map_of other k = None" for k d
    using that by (simp add: entry_def)
  show ?thesis
    unfolding version_diff_def Let_def set_sort set_append set_map set_concat image_image added removed both
    using none by blast
qed

lemma version_diff_distinct:
  assumes "wf_version self" "wf_version other"
  shows "distinct (map rd_id (version_diff self other iu))" "sorted (map rd_id (version_diff self other iu))"
proof -
  show "sorted (map rd_id (version_diff self other iu))" unfolding version_diff_def Let_def by (rule sorted_sort_key)
  let ?both = "\<lambda>x. case res_compare (resource_of self x) (resource_of other x) of
      Some cmp \<Rightarrow> [cmp] | None \<Rightarrow> if iu then [res_unmodified (resource_of self x)] else []"
  have keys: "distinct (dkeys self)" "distinct (dkeys other)" using assms by (auto simp: wf_version_def wf_dict_def)
  have mem: "k \<in> set (dkeys self) \<longleftrightarrow> map_of self k \<noteq> None" "k \<in> set (dkeys other) \<longleftrightarrow> map_of other k \<noteq> None" for k
    using dkeys_member[of k self] dkeys_member[of k other] by auto
  have ids: "dr_id (resource_of self k) = k" "dr_id (resource_of other k) = k" for k
    using assms by (auto simp: wf_version_def resource_of_def dget_def split: option.splits)
  have "map rd_id (?both k) = (if ?both k = [] then [] else [k])" for k
    using res_compare_lookup(3)[of "resource_of self k" "resource_of other k"] ids
    by (auto simp: res_unmodified_def split: option.splits)
  then have "map rd_id (concat (map ?both ks)) = filter (\<lambda>k. ?both k \<noteq> []) ks" for ks
    by (induction ks) simp_all
  then have "map rd_id (concat (map ?both (sinter (dkeys self) (dkeys other)))) = filter (\<lambda>k. ?both k \<noteq> []) (sinter (dkeys self) (dkeys other))" .
  moreover have "map rd_id (map (\<lambda>x. res_added (resource_of self x)) ks) = ks" "map rd_id (map (\<lambda>x. res_removed (resource_of other x)) ks) = ks" for ks
    using ids by (simp_all add: res_added_def res_removed_def comp_def)
  ultimately have "distinct (map rd_id (map (\<lambda>x. res_added (resource_of self x)) (sdiff (dkeys self) (dkeys other))
      @ map (\<lambda>x. res_removed (resource_of other x)) (sdiff (dkeys other) (dkeys self))
      @ concat (map ?both (sinter (dkeys self) (dkeys other)))))"
    unfolding map_append using keys by (auto simp: sdiff_def sinter_def simp del: map_map)
  then show "distinct (map rd_id (version_diff self other iu))"
    unfolding version_diff_def Let_def distinct_map by simp
qed

lemma version_diff_find:
  assumes "wf_version self" "wf_version other"
  shows "find (\<lambda>d. rd_id d = rid) (version_diff self other iu) = entry self other iu rid"
proof (cases "entry self other iu rid")
  case None
  then have "\<nexists>d. d \<in> set (version_diff self other iu) \<and> rd_id d = rid"
    using version_diff_entries[of self other iu] entry_id[OF assms] by force
  then show ?thesis unfolding None find_None_iff by blast
next
  case (Some d)
  then have "d \<in> set (version_diff self other iu)" unfolding version_diff_entries by blast
  from find_key[OF version_diff_distinct(1)[OF assms] this] show ?thesis using entry_id[OF assms Some] Some by simp
qed

lemma patch_version_diff:
  assumes "wf_version self" "wf_version other"
  shows "patch (version_diff self other iu) other rid = map_option shown (map_of self rid)"
proof (cases "map_of self rid")
  case None
  then show ?thesis unfolding patch_def version_diff_find[OF assms]
    by (cases "map_of other rid") (simp_all add: entry_def res_removed_def)
next
  case (Some r)
  show ?thesis
  proof (cases "map_of other rid")
    case None
    then show ?thesis using Some added_shows[of r] unfolding patch_def version_diff_find[OF assms]
      by (simp add: entry_def) (simp add: res_added_def)
  next
    case (Some r')
    have same: "patch_resource (res_unmodified r) old = old" for old
      by (rule ext) (simp add: patch_resource_def res_unmodified_def)
    show ?thesis
      using Some \<open>map_of self rid = Some r\<close> same res_compare_lookup(1,2)[of r r'] res_compare_None[of r r']
      unfolding patch_def version_diff_find[OF assms]
      by (cases "res_compare r r'") (simp_all add: entry_def, simp add: res_unmodified_def)
  qed
qed

lemma version_diff_ids:
  assumes "wf_version self" "wf_version other"
  shows "set (map rd_id (version_diff self other True)) = set (dkeys other) \<union> set (dkeys self)"
proof -
  have "(\<exists>d. entry self other True k = Some d) \<longleftrightarrow> map_of other k \<noteq> None \<or> map_of self k \<noteq> None" for k
    unfolding entry_def by (auto split: option.splits)
  moreover have "set (map rd_id (version_diff self other True)) = {k. \<exists>d. entry self other True k = Some d}"
    unfolding set_map version_diff_entries using entry_id[OF assms, of True] by force
  ultimately show ?thesis unfolding set_dkeys by auto
qed

lemma rmap_keys:
  assumes "rmap (\<lambda>(k, v). rbind (f k v) (\<lambda>y. Inr (k, y))) xs = Inr ys"
  shows "map fst ys = map fst xs"
  using assms by (induction xs arbitrary: ys) (auto simp: rbind_eq_Inr)

lemma mk_diff_resource_wf:
  assumes "mk_diff_resource rid attributes = Inr r" "wf_dict attributes"
  shows "dr_id r = rid" "wf_dict (dr_attributes r)"
proof -
  from assms(1) obtain d where d: "rmap (\<lambda>(name, v). rbind (mk_attribute name v) (\<lambda>a. Inr (name, a)))
      (filter (\<lambda>(name, v). name \<noteq> ''version'') attributes) = Inr d" "r = \<lparr>dr_id = rid, dr_attributes = d\<rparr>"
    by (auto simp: mk_diff_resource_def rbind_eq_Inr)
  have "distinct (map fst (filter P attributes))" for P using assms(2) unfolding wf_dict_def by (rule distinct_map_filter)
  then show "dr_id r = rid" "wf_dict (dr_attributes r)"
    using d(2) rmap_keys[OF d(1)] by (auto simp: wf_dict_def)
qed

definition wf_rows :: "(string \<times> (string, pyval) dict) list \<Rightarrow> bool" where
  \<comment> \<open>the attributes of a resource are a dictionary\<close>
  "wf_rows rows \<longleftrightarrow> list_all (\<lambda>(rid, attributes). wf_dict attributes) rows"

lemma convert_resources_wf:
  assumes "convert_resources rows = Inr v" "wf_rows rows"
  shows "wf_version v"
proof -
  from assms(1) obtain rs where rs: "rmap (\<lambda>(rid, attributes). rbind (mk_diff_resource rid attributes) (\<lambda>r. Inr (rid, r))) rows = Inr rs"
      "v = fold (\<lambda>(rid, r) d. dset d rid r) rs []"
    by (auto simp: convert_resources_def rbind_eq_Inr)
  have good: "dr_id (snd p) = fst p \<and> wf_dict (dr_attributes (snd p))" if p: "p \<in> set rs" for p
  proof -
    from rmap_memD[OF rs(1) p] obtain rid attributes where row: "(rid, attributes) \<in> set rows"
        "rbind (mk_diff_resource rid attributes) (\<lambda>r. Inr (rid, r)) = Inr p" by auto
    from row(2) obtain r where r: "p = (rid, r)" "mk_diff_resource rid attributes = Inr r" by (auto simp: rbind_eq_Inr)
    have "wf_dict attributes" using assms(2) row(1) unfolding wf_rows_def list_all_iff by blast
    then show ?thesis using mk_diff_resource_wf[OF r(2)] r(1) by simp
  qed
  have "wf_version (fold (\<lambda>(rid, r) d. dset d rid r) rs d)"
    if "wf_version d" "\<And>p. p \<in> set rs \<Longrightarrow> dr_id (snd p) = fst p \<and> wf_dict (dr_attributes (snd p))" for d
    using that
  proof (induction rs arbitrary: d)
    case (Cons p rs)
    have "wf_version (dset d (fst p) (snd p))" using Cons.prems(1) Cons.prems(2)[of p] by (auto simp: wf_version_def)
    then show ?case using Cons.IH[of "dset d (fst p) (snd p)"] Cons.prems(2) by (simp add: split_beta)
  qed simp
  from this[OF _ good, of "[]"] show ?thesis unfolding rs(2) by (simp add: wf_version_def)
qed

section \<open>One resource of a dry run\<close>

lemma purged_has_change:
  assumes "get_attributes_from_changes changes key = Inr attributes" "map_of attributes ''purged'' = Some v"
  shows "has_key changes ''purged''"
proof -
  have "map fst attributes = map fst (filter (\<lambda>(name, values). name \<noteq> ''requires'') changes)"
    using rmap_keys[OF assms(1)[unfolded get_attributes_from_changes_def]] .
  moreover have "''purged'' \<in> set (map fst attributes)" using map_of_SomeD[OF assms(2)] unfolding set_map by (rule rev_image_eqI) simp
  ultimately have "''purged'' \<in> set (map fst (filter (\<lambda>(name, values). name \<noteq> ''requires'') changes))" by metis
  then have "''purged'' \<in> fst ` set changes" unfolding set_map set_filter by blast
  then show ?thesis unfolding has_key_iff set_map .
qed

lemma dryrun_resource_effect:
  assumes "dryrun_resource rvid e (fs, ts) = Inr (fs', ts')"
  shows "\<exists>i changes current desired. parse_id rvid None = Inr i \<and> de_changes e = Some changes
    \<and> get_attributes_from_changes changes ''current'' = Inr current \<and> get_attributes_from_changes changes ''desired'' = Inr desired
    \<and> has_key fs' (resource_str i) = (\<not> resource_will_be_unpurged current desired)
    \<and> has_key ts' (resource_str i) = (\<not> resource_will_be_purged current desired)
    \<and> (\<forall>rid. rid \<noteq> resource_str i \<longrightarrow> map_of fs' rid = map_of fs rid \<and> map_of ts' rid = map_of ts rid)"
proof -
  let ?keep = "\<lambda>gone i d. if gone then ddel d (resource_str i) else d"
  from assms obtain i changes current desired f t where parts: "parse_id rvid None = Inr i"
      "(case de_changes e of None \<Rightarrow> Inl KeyError | Some c \<Rightarrow> Inr c) = Inr changes"
      "get_attributes_from_changes changes ''current'' = Inr current" "get_attributes_from_changes changes ''desired'' = Inr desired"
      and res: "(if has_key changes ''purged''
          then (?keep (resource_will_be_unpurged current desired) i (dset fs (resource_str i) f),
                ?keep (resource_will_be_purged current desired) i (dset ts (resource_str i) t))
          else (dset fs (resource_str i) f, dset ts (resource_str i) t)) = (fs', ts')"
    unfolding dryrun_resource_def Let_def prod.case rbind_eq_Inr sum.inject(2) by blast
  have changes: "de_changes e = Some changes" using parts(2) by (cases "de_changes e") auto
  have "has_key changes ''purged''" if "resource_will_be_unpurged current desired \<or> resource_will_be_purged current desired"
    using that purged_has_change[OF parts(3)] unfolding resource_will_be_unpurged_def resource_will_be_purged_def by blast
  then have sides: "fs' = ?keep (resource_will_be_unpurged current desired) i (dset fs (resource_str i) f)"
      "ts' = ?keep (resource_will_be_purged current desired) i (dset ts (resource_str i) t)"
    using res by (auto split: if_splits)
  have "has_key fs' (resource_str i) = (\<not> resource_will_be_unpurged current desired)
    \<and> has_key ts' (resource_str i) = (\<not> resource_will_be_purged current desired)
    \<and> (\<forall>rid. rid \<noteq> resource_str i \<longrightarrow> map_of fs' rid = map_of fs rid \<and> map_of ts' rid = map_of ts rid)"
    unfolding sides by (simp add: has_key_def)
  then show ?thesis using parts(1,3,4) changes by blast
qed

section \<open>Properties\<close>

text \<open>C36: Two attributes of one kind are compared exactly: lists and dictionaries, or two scalars
  of one type, count as unchanged exactly when they are equal up to the order of the keys of dictionaries, and a change states
  both values. (The text of \<open>json.dumps\<close> determines the value.)\<close>

theorem attribute_compare_exact:
  assumes "comparable v w"
  shows "attr_compare \<lparr>at_name = n, at_value = w\<rparr> \<lparr>at_name = n, at_value = v\<rparr> =
    (if sort_keys v = sort_keys w then None
     else Some \<lparr>from_value = v, to_value = w, from_value_compare = compare_value v, to_value_compare = compare_value w\<rparr>)"
  using compare_value_exact[OF assms] by (auto simp: attr_compare_def)

theorem attribute_compare_exact_witness:
  "attr_compare \<lparr>at_name = ''hosts'', at_value = PDict [(''b'', PInt 2), (''a'', PList [PStr ''x''])]\<rparr>
     \<lparr>at_name = ''hosts'', at_value = PDict [(''a'', PList [PStr ''x'']), (''b'', PInt 2)]\<rparr> = None"
  by (subst attribute_compare_exact) (simp_all add: comparable_def)

text \<open>C29: The difference of two versions is complete: it has at most one entry per resource, in the order
  of their ids, and applying it to the earlier version gives, for every resource and every
  attribute, what the later version shows; a resource without an entry is in both or in neither and shows the same in both.\<close>

theorem version_diff_patches:
  assumes "convert_resources from_rows = Inr from" "convert_resources to_rows = Inr to" "wf_rows from_rows" "wf_rows to_rows"
  shows "sorted (map rd_id (generate_diff from to iu)) \<and> distinct (map rd_id (generate_diff from to iu))
    \<and> patch (generate_diff from to iu) from rid = map_option shown (map_of to rid)
    \<and> set (map rd_id (generate_diff from to True)) = set (dkeys from) \<union> set (dkeys to)"
proof -
  have wf: "wf_version to" "wf_version from" using convert_resources_wf assms by blast+
  show ?thesis
    using version_diff_distinct[OF wf] patch_version_diff[OF wf] version_diff_ids[OF wf] unfolding generate_diff_def by blast
qed

theorem version_diff_patches_witness:
  "\<exists>from to. convert_resources [(''a'', [(''version'', PInt 1), (''mode'', PInt 644)]), (''b'', [])] = Inr from
    \<and> convert_resources [(''a'', [(''version'', PInt 2), (''mode'', PInt 600)]), (''c'', [])] = Inr to
    \<and> map rd_id (generate_diff from to False) = [''a'', ''b'', ''c'']
    \<and> patch (generate_diff from to False) from ''b'' = None"
proof -
  let ?from = "[(''a'', \<lparr>dr_id = ''a'', dr_attributes = [(''mode'', \<lparr>at_name = ''mode'', at_value = PInt 644\<rparr>)]\<rparr>), (''b'', \<lparr>dr_id = ''b'', dr_attributes = []\<rparr>)]"
  let ?to = "[(''a'', \<lparr>dr_id = ''a'', dr_attributes = [(''mode'', \<lparr>at_name = ''mode'', at_value = PInt 600\<rparr>)]\<rparr>), (''c'', \<lparr>dr_id = ''c'', dr_attributes = []\<rparr>)]"
  have rows: "convert_resources [(''a'', [(''version'', PInt 1), (''mode'', PInt 644)]), (''b'', [])] = Inr ?from"
    "convert_resources [(''a'', [(''version'', PInt 2), (''mode'', PInt 600)]), (''c'', [])] = Inr ?to"
    by code_simp+
  moreover have "map rd_id (generate_diff ?from ?to False) = [''a'', ''b'', ''c'']" by code_simp
  moreover have "patch (generate_diff ?from ?to False) ?from ''b'' = None"
    using version_diff_patches[OF rows, of False "''b''"] by (simp add: wf_rows_def wf_dict_def)
  ultimately show ?thesis by (intro exI conjI)
qed

text \<open>Across kinds the comparison is by the text alone: an attribute that changes from \<open>None\<close> to the empty
  string, from 1 to the string 1, or from a list to the text of it counts as unchanged.\<close>

lemma change_of_kind_not_shown:
  "attr_compare \<lparr>at_name = n, at_value = PStr []\<rparr> \<lparr>at_name = n, at_value = PNone\<rparr> = None"
  "attr_compare \<lparr>at_name = n, at_value = PStr ''1''\<rparr> \<lparr>at_name = n, at_value = PInt 1\<rparr> = None"
  "attr_compare \<lparr>at_name = n, at_value = PStr (json_dumps 0 (PList xs))\<rparr> \<lparr>at_name = n, at_value = PList xs\<rparr> = None"
  by (simp_all add: attr_compare_def compare_value_def py_str_def show_int_def show_nat.simps digit_char_def char_code)

end
