(* ===== verification/Named_Lock.thy ===== *)
theory Named_Lock
  imports Core_Prelude
begin

text \<open>
  \<open>NamedLock\<close> of \<open>util/__init__.py\<close>: one lock per name, created when a task asks for it and
  dropped when the last one has released it, and a lock that excludes all of them. The pools of executors rest on it.

  A step is the code between two points at which the event loop may switch. The master lock is never
  held across such a point, so it does not appear. A waiting task may get a free lock at any time: the order in
  which \<open>asyncio.Lock\<close> serves its waiters is one of those that are considered. \<open>Lock_Fairness\<close> adds this order. A task is in
  one context manager at a time: that nested use deadlocks, as the documentation of \<open>global_exclusive_lock\<close> warns, is outside the model.
\<close>

section \<open>The locks\<close>

record named_lock =
  nl_global :: bool \<comment> \<open>\<open>_global_exclusive_lock\<close> is locked\<close>
  nl_event :: bool \<comment> \<open>\<open>_all_named_locks_released_event\<close>\<close>
  nl_locks :: "(string, nat) dict" \<comment> \<open>\<open>_named_locks\<close>: the names with their lock objects\<close>
  nl_counters :: "(string, int) dict"
  nl_locked :: "nat pyset" \<comment> \<open>the lock objects that are locked\<close>
  nl_next :: nat \<comment> \<open>supply of lock objects\<close>

definition new_named_lock :: named_lock where
  "new_named_lock = \<lparr>nl_global = False, nl_event = False, nl_locks = [], nl_counters = [], nl_locked = [], nl_next = 0\<rparr>"

definition lock_register :: "string \<Rightarrow> named_lock \<Rightarrow> nat \<times> named_lock" where
  \<comment> \<open>\<open>acquire\<close> up to the call of \<open>lock.acquire\<close>\<close>
  "lock_register name s = (case map_of (nl_locks s) name of
     Some lock \<Rightarrow> (lock, s\<lparr>nl_counters := dset (nl_counters s) name (dget (nl_counters s) name 0 + 1)\<rparr>)
   | None \<Rightarrow> (nl_next s, s\<lparr>nl_locks := dset (nl_locks s) name (nl_next s),
       nl_counters := dset (nl_counters s) name 1, nl_next := Suc (nl_next s)\<rparr>))"

definition lock_release :: "string \<Rightarrow> named_lock \<Rightarrow> named_lock result" where
  "lock_release name s =
     rbind (dlookup (nl_locks s) name) (\<lambda>lock.
     if lock \<notin> set (nl_locked s) then Inl RuntimeError
     else rbind (dlookup (nl_counters s) name) (\<lambda>c.
       let s1 = s\<lparr>nl_locked := sdiscard lock (nl_locked s), nl_counters := dset (nl_counters s) name (c - 1)\<rparr>;
           s2 = (if c - 1 \<le> 0
                 then s1\<lparr>nl_locks := ddel (nl_locks s1) name, nl_counters := ddel (nl_counters s1) name\<rparr> else s1)
       in Inr (if nl_locks s2 = [] then s2\<lparr>nl_event := True\<rparr> else s2)))"

definition global_enter :: "named_lock \<Rightarrow> bool \<times> named_lock" where
  \<comment> \<open>\<open>global_exclusive_lock\<close> once it has the global lock: whether it enters at once\<close>
  "global_enter s = (if nl_locks s = [] then (True, s\<lparr>nl_global := True\<rparr>)
     else (False, s\<lparr>nl_global := True, nl_event := False\<rparr>))"

section \<open>The tasks that use them\<close>

datatype lock_phase =
    Asking string
  | Waiting_For string nat
  | Holding string nat
  | Excl_Asking
  | Excl_Waiting
  | Exclusive

record lock_system =
  ls_lock :: named_lock
  ls_tasks :: "(nat, lock_phase) dict" \<comment> \<open>the tasks that are in one of the context managers\<close>

definition lock_init :: lock_system where
  "lock_init = \<lparr>ls_lock = new_named_lock, ls_tasks = []\<rparr>"

definition at_phase :: "lock_system \<Rightarrow> nat \<Rightarrow> lock_phase \<Rightarrow> bool" where
  "at_phase s t p = (map_of (ls_tasks s) t = Some p)"

definition move :: "nat \<Rightarrow> lock_phase \<Rightarrow> named_lock \<Rightarrow> lock_system \<Rightarrow> lock_system" where
  "move t p l s = s\<lparr>ls_lock := l, ls_tasks := dset (ls_tasks s) t p\<rparr>"

definition leave :: "nat \<Rightarrow> named_lock \<Rightarrow> lock_system \<Rightarrow> lock_system" where
  "leave t l s = s\<lparr>ls_lock := l, ls_tasks := ddel (ls_tasks s) t\<rparr>"

datatype lock_event =
    Ask nat string | Register nat | Acquire nat | Release nat
  | Excl_Ask nat | Excl_Global nat | Excl_Wake nat | Excl_Release nat | Cancel nat

inductive lock_step :: "bool \<Rightarrow> lock_system \<Rightarrow> lock_event \<Rightarrow> lock_system \<Rightarrow> bool" for cancels :: bool where
  ask: "map_of (ls_tasks s) t = None \<Longrightarrow> lock_step cancels s (Ask t name) (move t (Asking name) (ls_lock s) s)"
| register: "\<lbrakk>at_phase s t (Asking name); \<not> nl_global (ls_lock s); lock_register name (ls_lock s) = (l, k)\<rbrakk>
    \<Longrightarrow> lock_step cancels s (Register t) (move t (Waiting_For name l) k s)"
| acquire: "\<lbrakk>at_phase s t (Waiting_For name l); l \<notin> set (nl_locked (ls_lock s))\<rbrakk>
    \<Longrightarrow> lock_step cancels s (Acquire t) (move t (Holding name l) ((ls_lock s)\<lparr>nl_locked := sadd l (nl_locked (ls_lock s))\<rparr>) s)"
| release: "\<lbrakk>at_phase s t (Holding name l); lock_release name (ls_lock s) = Inr k\<rbrakk> \<Longrightarrow> lock_step cancels s (Release t) (leave t k s)"
| excl_ask: "map_of (ls_tasks s) t = None \<Longrightarrow> lock_step cancels s (Excl_Ask t) (move t Excl_Asking (ls_lock s) s)"
| excl_global: "\<lbrakk>at_phase s t Excl_Asking; \<not> nl_global (ls_lock s); global_enter (ls_lock s) = (now, k)\<rbrakk>
    \<Longrightarrow> lock_step cancels s (Excl_Global t) (move t (if now then Exclusive else Excl_Waiting) k s)"
| excl_wake: "\<lbrakk>at_phase s t Excl_Waiting; nl_event (ls_lock s)\<rbrakk>
    \<Longrightarrow> lock_step cancels s (Excl_Wake t) (move t Exclusive (ls_lock s) s)"
| excl_release: "at_phase s t Exclusive \<Longrightarrow> lock_step cancels s (Excl_Release t) (leave t ((ls_lock s)\<lparr>nl_global := False\<rparr>) s)"
| cancel: "\<lbrakk>cancels; at_phase s t p; p = Asking name \<or> p = Waiting_For name l \<or> p = Excl_Asking\<rbrakk>
    \<Longrightarrow> lock_step cancels s (Cancel t) (leave t (ls_lock s) s)"
| cancel_excl: "\<lbrakk>cancels; at_phase s t Excl_Waiting\<rbrakk>
    \<Longrightarrow> lock_step cancels s (Cancel t) (leave t ((ls_lock s)\<lparr>nl_global := False\<rparr>) s)"

inductive lock_run :: "bool \<Rightarrow> lock_system \<Rightarrow> lock_event list \<Rightarrow> lock_system \<Rightarrow> bool" for cancels :: bool where
  here: "lock_run cancels s [] s"
| more: "\<lbrakk>lock_run cancels s es s'; lock_step cancels s' e s''\<rbrakk> \<Longrightarrow> lock_run cancels s (es @ [e]) s''"

inductive_cases lock_stepE: "lock_step cancels s e s'"
inductive_simps lock_step_cancel: "lock_step cancels s (Cancel t) s'"

section \<open>The invariant\<close>

fun registered :: "string \<Rightarrow> lock_phase \<Rightarrow> bool" where
  "registered n (Waiting_For m l) = (m = n)"
| "registered n (Holding m l) = (m = n)"
| "registered n _ = False"

fun lock_of :: "lock_phase \<Rightarrow> nat option" where
  "lock_of (Waiting_For m l) = Some l"
| "lock_of (Holding m l) = Some l"
| "lock_of _ = None"

definition excludes :: "lock_phase \<Rightarrow> bool" where
  "excludes p \<longleftrightarrow> p = Excl_Waiting \<or> p = Exclusive"

definition reg_count :: "string \<Rightarrow> (nat, lock_phase) dict \<Rightarrow> int" where
  "reg_count n ts = int (length (filter (\<lambda>(t, p). registered n p) ts))"

definition reg_one :: "string \<Rightarrow> lock_phase option \<Rightarrow> int" where
  "reg_one n p = (case p of None \<Rightarrow> 0 | Some q \<Rightarrow> if registered n q then 1 else 0)"

lemma reg_count_Cons: "reg_count n ((t, p) # ts) = reg_one n (Some p) + reg_count n ts"
  by (simp add: reg_count_def reg_one_def)

lemma reg_count_ddel: "wf_dict ts \<Longrightarrow> reg_count n (ddel ts t) = reg_count n ts - reg_one n (map_of ts t)"
proof (induction ts)
  case (Cons x ts)
  obtain k p where x: "x = (k, p)" by (cases x)
  have "k = t \<Longrightarrow> ddel ts t = ts" using Cons.prems x by (simp add: ddel_def wf_dict_def delete_idem)
  moreover have "wf_dict ts" using Cons.prems by (simp add: wf_dict_def)
  ultimately show ?case using Cons.IH x by (auto simp: reg_count_Cons ddel_def)
qed (simp add: reg_count_def ddel_def reg_one_def)

lemma reg_count_dset: "wf_dict ts \<Longrightarrow> reg_count n (dset ts t p) = reg_count n ts - reg_one n (map_of ts t) + reg_one n (Some p)"
proof (induction ts)
  case (Cons x ts)
  obtain k q where x: "x = (k, q)" by (cases x)
  have "wf_dict ts" using Cons.prems by (simp add: wf_dict_def)
  then show ?case using Cons.IH x by (auto simp: reg_count_Cons dset_def)
qed (simp add: reg_count_def dset_def reg_one_def)

lemma reg_count_pos: "map_of ts t = Some p \<Longrightarrow> registered n p \<Longrightarrow> 1 \<le> reg_count n ts"
proof -
  assume "map_of ts t = Some p" "registered n p"
  then have "(t, p) \<in> set (filter (\<lambda>(t, p). registered n p) ts)" by (simp add: map_of_SomeD)
  then have "filter (\<lambda>(t, p). registered n p) ts \<noteq> []" by (metis empty_iff list.set(1))
  then show ?thesis unfolding reg_count_def by (cases "filter (\<lambda>(t, p). registered n p) ts") auto
qed

definition count_ok :: "bool \<Rightarrow> nat option \<Rightarrow> int option \<Rightarrow> int \<Rightarrow> bool" where
  "count_ok exact lock counter r \<longleftrightarrow> (case (lock, counter) of
     (Some l, Some c) \<Rightarrow> 1 \<le> c \<and> r \<le> c \<and> (exact \<longrightarrow> c = r)
   | (None, None) \<Rightarrow> r = 0
   | _ \<Rightarrow> False)"

definition counters_ok :: "bool \<Rightarrow> lock_system \<Rightarrow> bool" where
  \<comment> \<open>every task that is registered is counted; without cancellation nothing else is\<close>
  "counters_ok exact s \<longleftrightarrow>
     (\<forall>n. count_ok exact (map_of (nl_locks (ls_lock s)) n) (map_of (nl_counters (ls_lock s)) n) (reg_count n (ls_tasks s)))"

definition locks_ok :: "lock_system \<Rightarrow> bool" where
  \<comment> \<open>the tasks of a name share one lock object, which is locked exactly when one of them holds it\<close>
  "locks_ok s \<longleftrightarrow>
     (\<forall>t n l. at_phase s t (Waiting_For n l) \<or> at_phase s t (Holding n l) \<longrightarrow> map_of (nl_locks (ls_lock s)) n = Some l)
   \<and> (\<forall>n m l. map_of (nl_locks (ls_lock s)) n = Some l \<longrightarrow> map_of (nl_locks (ls_lock s)) m = Some l \<longrightarrow> n = m)
   \<and> (\<forall>n l. map_of (nl_locks (ls_lock s)) n = Some l \<longrightarrow> l < nl_next (ls_lock s))
   \<and> (\<forall>l. l \<in> set (nl_locked (ls_lock s)) \<longleftrightarrow> (\<exists>t n. at_phase s t (Holding n l)))
   \<and> (\<forall>t u n l. at_phase s t (Holding n l) \<longrightarrow> at_phase s u (Holding n l) \<longrightarrow> t = u)"

definition global_ok :: "lock_system \<Rightarrow> bool" where
  "global_ok s \<longleftrightarrow>
     (nl_global (ls_lock s) \<longleftrightarrow> (\<exists>t p. at_phase s t p \<and> excludes p))
   \<and> (\<forall>t u p q. at_phase s t p \<longrightarrow> excludes p \<longrightarrow> at_phase s u q \<longrightarrow> excludes q \<longrightarrow> t = u)
   \<and> (\<forall>t. at_phase s t Exclusive \<longrightarrow> nl_locks (ls_lock s) = [])
   \<and> (\<forall>t. at_phase s t Excl_Waiting \<longrightarrow> (nl_event (ls_lock s) \<longleftrightarrow> nl_locks (ls_lock s) = []))"

definition lock_inv :: "bool \<Rightarrow> lock_system \<Rightarrow> bool" where
  "lock_inv exact s \<longleftrightarrow> wf_dict (ls_tasks s) \<and> counters_ok exact s \<and> locks_ok s \<and> global_ok s"

lemma at_phase_move: "at_phase (move t p l s) u q \<longleftrightarrow> (if u = t then q = p else at_phase s u q)"
  by (auto simp: at_phase_def move_def)

lemma at_phase_leave: "at_phase (leave t l s) u q \<longleftrightarrow> u \<noteq> t \<and> at_phase s u q"
  by (auto simp: at_phase_def leave_def)

lemma ls_lock_moved [simp]: "ls_lock (move t p l s) = l" "ls_lock (leave t l s) = l"
  by (simp_all add: move_def leave_def)

lemma at_phase_unique: "at_phase s t p \<Longrightarrow> at_phase s t q \<Longrightarrow> p = q"
  by (simp add: at_phase_def)

lemmas phase_simps = at_phase_move at_phase_leave

lemma wf_step: "lock_step cancels s e s' \<Longrightarrow> wf_dict (ls_tasks s) \<Longrightarrow> wf_dict (ls_tasks s')"
  by (erule lock_stepE) (auto simp: move_def leave_def)

lemma init_inv: "lock_inv exact lock_init"
  by (auto simp: lock_inv_def counters_ok_def count_ok_def locks_ok_def global_ok_def lock_init_def new_named_lock_def at_phase_def reg_count_def wf_dict_def)

lemma count_moved:
  assumes "wf_dict (ls_tasks s)"
  shows "reg_count n (ls_tasks (move t p l s)) = reg_count n (ls_tasks s) - reg_one n (map_of (ls_tasks s) t) + reg_one n (Some p)"
    "reg_count n (ls_tasks (leave t l s)) = reg_count n (ls_tasks s) - reg_one n (map_of (ls_tasks s) t)"
  using assms by (simp_all add: move_def leave_def reg_count_dset reg_count_ddel)

lemma dset_nonempty [simp]: "dset d k v \<noteq> []"
  by (simp add: dset_def)

lemma register_facts:
  assumes "lock_register name k = (l, k')" "\<forall>n l. map_of (nl_locks k) n = Some l \<longrightarrow> l < nl_next k"
  shows "map_of (nl_locks k') = (map_of (nl_locks k))(name \<mapsto> l)" "nl_locked k' = nl_locked k" "nl_global k' = nl_global k"
    "nl_next k \<le> nl_next k'" "l < nl_next k'" "nl_locks k' \<noteq> []" "map_of (nl_locks k) name = Some l \<or> map_of (nl_locks k) name = None \<and> l = nl_next k"
    "map_of (nl_counters k') = (map_of (nl_counters k))(name \<mapsto> (if map_of (nl_locks k) name = None then 1 else dget (nl_counters k) name 0 + 1))"
  using assms by (auto simp: lock_register_def split: option.splits)

lemma release_facts:
  assumes "lock_release name k = Inr k'"
  obtains l c where "map_of (nl_locks k) name = Some l" "l \<in> set (nl_locked k)" "map_of (nl_counters k) name = Some c"
    "set (nl_locked k') = set (nl_locked k) - {l}" "nl_global k' = nl_global k" "nl_next k' = nl_next k"
    "map_of (nl_locks k') = (map_of (nl_locks k))(name := if c - 1 \<le> 0 then None else Some l)"
    "map_of (nl_counters k') = (map_of (nl_counters k))(name := if c - 1 \<le> 0 then None else Some (c - 1))"
    "nl_event k' = (nl_event k \<or> nl_locks k' = [])"
proof -
  from assms obtain l c where lc: "map_of (nl_locks k) name = Some l" "l \<in> set (nl_locked k)" "map_of (nl_counters k) name = Some c"
    unfolding lock_release_def by (auto simp: rbind_eq_Inr dlookup_eq_Inr split: if_splits)
  have same: "(map_of (nl_locks k))(name \<mapsto> l) = map_of (nl_locks k)" using lc(1) by auto
  have shape: "k' = (let s1 = k\<lparr>nl_locked := sdiscard l (nl_locked k), nl_counters := dset (nl_counters k) name (c - 1)\<rparr>;
      s2 = (if c - 1 \<le> 0 then s1\<lparr>nl_locks := ddel (nl_locks s1) name, nl_counters := ddel (nl_counters s1) name\<rparr> else s1)
    in if nl_locks s2 = [] then s2\<lparr>nl_event := True\<rparr> else s2)"
    using assms lc unfolding lock_release_def by (simp del: Let_def) (simp add: Let_def)
  show thesis
  proof (cases "c - 1 \<le> 0")
    case True
    then show ?thesis using shape lc same map_of_ddel[of "nl_locks k" name] by (cases "ddel (nl_locks k) name = []") (auto intro!: that[of l c])
  next
    case False
    then show ?thesis using shape lc same by (cases "nl_locks k = []") (auto intro!: that[of l c])
  qed
qed

section \<open>Every step keeps it\<close>

lemma locks_same:
  assumes "locks_ok s" "\<And>u n l. at_phase s' u (Holding n l) = at_phase s u (Holding n l)"
    "\<And>u n l. at_phase s' u (Waiting_For n l) \<Longrightarrow> at_phase s u (Waiting_For n l)"
    "nl_locks (ls_lock s') = nl_locks (ls_lock s)" "nl_next (ls_lock s') = nl_next (ls_lock s)" "nl_locked (ls_lock s') = nl_locked (ls_lock s)"
  shows "locks_ok s'"
  unfolding locks_ok_def assms(2,4,5,6) using assms(1,3) unfolding locks_ok_def by blast

lemma counters_same:
  assumes "counters_ok exact s" "\<And>n. reg_count n (ls_tasks s') = reg_count n (ls_tasks s)"
    "nl_locks (ls_lock s') = nl_locks (ls_lock s)" "nl_counters (ls_lock s') = nl_counters (ls_lock s)"
  shows "counters_ok exact s'"
  unfolding counters_ok_def assms(2-4) using assms(1) unfolding counters_ok_def .

lemma locks_step:
  assumes "lock_step cancels s e s'" "lock_inv exact s"
  shows "locks_ok s'"
proof -
  have lk0: "locks_ok s" using assms(2) by (simp add: lock_inv_def)
  show ?thesis
  using assms(1)
proof (cases rule: lock_step.cases)
  case (register t name l k)
  let ?L = "map_of (nl_locks (ls_lock s))"
  have old: "\<And>t n l. at_phase s t (Waiting_For n l) \<or> at_phase s t (Holding n l) \<Longrightarrow> ?L n = Some l"
      "\<And>n m l. ?L n = Some l \<Longrightarrow> ?L m = Some l \<Longrightarrow> n = m" "\<And>n l. ?L n = Some l \<Longrightarrow> l < nl_next (ls_lock s)"
      "\<And>l. l \<in> set (nl_locked (ls_lock s)) \<longleftrightarrow> (\<exists>t n. at_phase s t (Holding n l))"
      "\<And>t u n l. at_phase s t (Holding n l) \<Longrightarrow> at_phase s u (Holding n l) \<Longrightarrow> t = u"
    using assms(2) unfolding lock_inv_def locks_ok_def by blast+
  note k = register_facts[OF register(5)]
  have asks: "\<not> at_phase s t (Holding n l)" for n l using register(3) by (auto dest: at_phase_unique)
  have l: "?L name = Some l \<or> ?L name = None \<and> l = nl_next (ls_lock s)" using k(7) old(3) by blast
  have L: "map_of (nl_locks k) = ?L(name \<mapsto> l)" "nl_locked k = nl_locked (ls_lock s)" "l < nl_next k" "nl_next (ls_lock s) \<le> nl_next k"
    using k(1,2,4,5) old(3) by auto
  have "map_of (nl_locks k) n = Some m" if "at_phase s' u (Waiting_For n m) \<or> at_phase s' u (Holding n m)" for u n m
    using that old(1)[of u n m] l unfolding register(2) phase_simps L by (auto split: if_splits)
  moreover have "n = m" if "map_of (nl_locks k) n = Some x" "map_of (nl_locks k) m = Some x" for n m x
    using that old(2)[of n x m] old(3)[of n x] old(3)[of m x] old(2)[of name x] l unfolding L by (auto split: if_splits)
  moreover have "x < nl_next k" if "map_of (nl_locks k) n = Some x" for n x
    using that old(3)[of n x] L(3,4) unfolding L(1) by (auto split: if_splits)
  moreover have "x \<in> set (nl_locked k) \<longleftrightarrow> (\<exists>t n. at_phase s' t (Holding n x))" for x
    using old(4)[of x] asks unfolding register(2) phase_simps L by (metis lock_phase.distinct(11))
  moreover have "u = v" if "at_phase s' u (Holding n x)" "at_phase s' v (Holding n x)" for u v n x
    using that old(5) unfolding register(2) phase_simps by (auto split: if_splits)
  ultimately show ?thesis unfolding locks_ok_def register(2) ls_lock_moved by blast
next
  case (release t name l k)
  let ?L = "map_of (nl_locks (ls_lock s))"
  have old: "\<And>t n l. at_phase s t (Waiting_For n l) \<or> at_phase s t (Holding n l) \<Longrightarrow> ?L n = Some l"
      "\<And>n m l. ?L n = Some l \<Longrightarrow> ?L m = Some l \<Longrightarrow> n = m" "\<And>n l. ?L n = Some l \<Longrightarrow> l < nl_next (ls_lock s)"
      "\<And>l. l \<in> set (nl_locked (ls_lock s)) \<longleftrightarrow> (\<exists>t n. at_phase s t (Holding n l))"
      "\<And>t u n l. at_phase s t (Holding n l) \<Longrightarrow> at_phase s u (Holding n l) \<Longrightarrow> t = u"
    using assms(2) unfolding lock_inv_def locks_ok_def by blast+
  obtain l' c where k: "?L name = Some l'" "map_of (nl_counters (ls_lock s)) name = Some c"
      "set (nl_locked k) = set (nl_locked (ls_lock s)) - {l'}" "nl_next k = nl_next (ls_lock s)"
      "map_of (nl_locks k) = ?L(name := if c - 1 \<le> 0 then None else Some l')"
    using release_facts[OF release(4)] by metis
  have l: "l' = l" using old(1) release(3) k(1) by fastforce
  have last: "\<not> registered name p" if "c - 1 \<le> 0" "at_phase s u p" "u \<noteq> t" for u p
  proof
    assume "registered name p"
    have wf: "wf_dict (ls_tasks s)" using assms(2) by (simp add: lock_inv_def)
    have "map_of (ddel (ls_tasks s) t) u = Some p" using that(2,3) by (simp add: at_phase_def)
    from reg_count_pos[OF this \<open>registered name p\<close>] have "2 \<le> reg_count name (ls_tasks s)"
      using release(3) unfolding reg_count_ddel[OF wf] by (simp add: at_phase_def reg_one_def)
    moreover have "reg_count name (ls_tasks s) \<le> c"
      using assms(2) k(1,2) unfolding lock_inv_def counters_ok_def by (auto simp: count_ok_def dest: spec[of _ name])
    ultimately show False using that(1) by simp
  qed
  have "map_of (nl_locks k) n = Some m" if "at_phase s' u (Waiting_For n m) \<or> at_phase s' u (Holding n m)" for u n m
  proof -
    have u: "u \<noteq> t" "at_phase s u (Waiting_For n m) \<or> at_phase s u (Holding n m)" using that unfolding release(2) phase_simps by auto
    have "?L n = Some m" using old(1) u(2) by blast
    moreover have "n = name \<Longrightarrow> \<not> c - 1 \<le> 0" using last[of u] u by force
    ultimately show ?thesis using k(1) unfolding k(5) by auto
  qed
  moreover have sub: "?L n = Some x" if "map_of (nl_locks k) n = Some x" for n x
    using that k(1) unfolding k(5) by (cases "n = name") (auto split: if_splits)
  moreover have "n = m" if "map_of (nl_locks k) n = Some x" "map_of (nl_locks k) m = Some x" for n m x
    using old(2)[OF sub sub] that by blast
  moreover have "x < nl_next k" if "map_of (nl_locks k) n = Some x" for n x
    using old(3)[OF sub[OF that]] unfolding k(4) .
  moreover have "x \<in> set (nl_locked k) \<longleftrightarrow> (\<exists>u n. at_phase s' u (Holding n x))" for x
  proof -
    have "x \<noteq> l" if "at_phase s u (Holding n x)" "u \<noteq> t" for u n
    proof
      assume "x = l"
      then have "n = name" using old(1)[of u n x] old(1)[of t name l] old(2) release(3) that(1) by blast
      then show False using old(5) that \<open>x = l\<close> release(3) by blast
    qed
    moreover have "x = l" if "at_phase s t (Holding n x)" for n using that release(3) by (auto dest: at_phase_unique)
    ultimately show ?thesis unfolding k(3) l release(2) phase_simps Diff_iff old(4) singleton_iff by metis
  qed
  moreover have "u = v" if "at_phase s' u (Holding n x)" "at_phase s' v (Holding n x)" for u v n x
    using that old(5) unfolding release(2) phase_simps by blast
  ultimately show ?thesis unfolding locks_ok_def release(2) ls_lock_moved by blast
next
  case (acquire t name l)
  have lk: "locks_ok s" using assms(2) by (simp add: lock_inv_def)
  have "at_phase s' u (Holding n m) \<longleftrightarrow> at_phase s u (Holding n m) \<or> u = t \<and> n = name \<and> m = l" for u n m
    using acquire(3) unfolding acquire(2) phase_simps by (auto dest: at_phase_unique)
  moreover have "at_phase s u (Waiting_For n m)" if "at_phase s' u (Waiting_For n m)" for u n m
    using that unfolding acquire(2) phase_simps by (auto split: if_splits)
  moreover have "nl_locks (ls_lock s') = nl_locks (ls_lock s)" "nl_next (ls_lock s') = nl_next (ls_lock s)"
      "set (nl_locked (ls_lock s')) = insert l (set (nl_locked (ls_lock s)))"
    unfolding acquire(2) by simp_all
  moreover have "map_of (nl_locks (ls_lock s)) name = Some l" using lk acquire(3) unfolding locks_ok_def by blast
  moreover have "\<not> at_phase s u (Holding n l)" for u n using lk acquire(4) unfolding locks_ok_def by blast
  moreover have "x \<in> set (nl_locked (ls_lock s)) \<longleftrightarrow> (\<exists>t n. at_phase s t (Holding n x))" for x
    using lk unfolding locks_ok_def by blast
  ultimately have parts: "at_phase s' u (Waiting_For n m) \<or> at_phase s' u (Holding n m) \<Longrightarrow> map_of (nl_locks (ls_lock s')) n = Some m"
      "x \<in> set (nl_locked (ls_lock s')) \<longleftrightarrow> (\<exists>t n. at_phase s' t (Holding n x))"
      "at_phase s' u (Holding n m) \<Longrightarrow> at_phase s' v (Holding n m) \<Longrightarrow> u = v" for u v n m x
    using lk unfolding locks_ok_def by (auto, metis+)
  show ?thesis unfolding locks_ok_def
    using parts lk[unfolded locks_ok_def] acquire(2) by simp
qed ((rule locks_same[OF lk0]; auto simp: at_phase_def move_def leave_def global_enter_def split: if_splits)+)
qed

lemma counters_step:
  assumes "lock_step cancels s e s'" "lock_inv exact s" "cancels \<Longrightarrow> \<not> exact"
  shows "counters_ok exact s'"
proof -
  have c0: "counters_ok exact s" and wf0: "wf_dict (ls_tasks s)" using assms(2) by (simp_all add: lock_inv_def)
  show ?thesis
  using assms(1)
proof (cases rule: lock_step.cases)
  case (register t name l k)
  note k = register_facts[OF register(5)]
  have wf: "wf_dict (ls_tasks s)" and c: "counters_ok exact s" and lk: "\<forall>n l. map_of (nl_locks (ls_lock s)) n = Some l \<longrightarrow> l < nl_next (ls_lock s)"
    using assms(2) unfolding lock_inv_def locks_ok_def by blast+
  have count: "reg_count n (ls_tasks s') = reg_count n (ls_tasks s) + (if n = name then 1 else 0)" for n
    using register(3) unfolding register(2) count_moved[OF wf] by (simp add: at_phase_def reg_one_def)
  show ?thesis
    unfolding counters_ok_def count
  proof
    fix n
    have "count_ok exact (map_of (nl_locks (ls_lock s)) n) (map_of (nl_counters (ls_lock s)) n) (reg_count n (ls_tasks s))"
      using c unfolding counters_ok_def by blast
    then show "count_ok exact (map_of (nl_locks (ls_lock s')) n) (map_of (nl_counters (ls_lock s')) n) (reg_count n (ls_tasks s) + (if n = name then 1 else 0))"
      unfolding register(2) ls_lock_moved k(1)[OF lk] k(8)[OF lk] by (auto simp: count_ok_def dget_def split: option.splits)
  qed
next
  case (release t name l k)
  obtain l' c where k: "map_of (nl_locks (ls_lock s)) name = Some l'" "map_of (nl_counters (ls_lock s)) name = Some c"
      "map_of (nl_locks k) = (map_of (nl_locks (ls_lock s)))(name := if c - 1 \<le> 0 then None else Some l')"
      "map_of (nl_counters k) = (map_of (nl_counters (ls_lock s)))(name := if c - 1 \<le> 0 then None else Some (c - 1))"
    using release_facts[OF release(4)] by metis
  have wf: "wf_dict (ls_tasks s)" and c: "counters_ok exact s" using assms(2) unfolding lock_inv_def by blast+
  have count: "reg_count n (ls_tasks s') = reg_count n (ls_tasks s) - (if n = name then 1 else 0)" for n
    using release(3) unfolding release(2) count_moved[OF wf] by (simp add: at_phase_def reg_one_def)
  have "0 \<le> reg_count n ts" for n ts by (simp add: reg_count_def)
  from this[of name "ls_tasks s'"] have pos: "1 \<le> reg_count name (ls_tasks s)" unfolding count by simp
  show ?thesis
    unfolding counters_ok_def count
  proof
    fix n
    have "count_ok exact (map_of (nl_locks (ls_lock s)) n) (map_of (nl_counters (ls_lock s)) n) (reg_count n (ls_tasks s))"
      using c unfolding counters_ok_def by blast
    then show "count_ok exact (map_of (nl_locks (ls_lock s')) n) (map_of (nl_counters (ls_lock s')) n) (reg_count n (ls_tasks s) - (if n = name then 1 else 0))"
      using k(1,2) pos unfolding release(2) ls_lock_moved k(3,4) by (cases "n = name") (auto simp: count_ok_def)
  qed
next
  case (cancel t p name l)
  have wf: "wf_dict (ls_tasks s)" and c: "counters_ok exact s" using assms(2) unfolding lock_inv_def by blast+
  have "0 \<le> reg_count n (ls_tasks s')" for n by (simp add: reg_count_def)
  moreover have "reg_count n (ls_tasks s') \<le> reg_count n (ls_tasks s)" for n
    unfolding cancel(2) count_moved[OF wf] by (simp add: reg_one_def split: option.splits)
  moreover have "count_ok exact x y r'" if "count_ok exact x y r" "r' \<le> r" "0 \<le> r'" for x y r r'
    using that assms(3) cancel(3) by (auto simp: count_ok_def split: option.splits)
  ultimately show ?thesis using c unfolding counters_ok_def by (metis cancel(2) ls_lock_moved(2))
qed ((rule counters_same[OF c0]; auto simp: count_moved[OF wf0] at_phase_def reg_one_def global_enter_def split: if_splits)+)
qed

lemma global_same:
  assumes "global_ok s" "\<And>u p. excludes p \<Longrightarrow> at_phase s' u p = at_phase s u p" "nl_global (ls_lock s') = nl_global (ls_lock s)"
    "\<And>u. at_phase s u Exclusive \<Longrightarrow> nl_locks (ls_lock s') = []"
    "\<And>u. at_phase s u Excl_Waiting \<Longrightarrow> nl_event (ls_lock s') = (nl_locks (ls_lock s') = [])"
  shows "global_ok s'"
proof -
  have "excludes Exclusive" "excludes Excl_Waiting" by (simp_all add: excludes_def)
  then show ?thesis using assms unfolding global_ok_def by metis
qed

lemma no_excludes: "global_ok s \<Longrightarrow> \<not> nl_global (ls_lock s) \<Longrightarrow> excludes p \<Longrightarrow> \<not> at_phase s u p"
  unfolding global_ok_def by blast

lemma excl_facts: "excludes Exclusive" "excludes Excl_Waiting" "\<not> excludes (Asking n)" "\<not> excludes (Waiting_For n l)" "\<not> excludes (Holding n l)" "\<not> excludes Excl_Asking"
  by (simp_all add: excludes_def)

lemma excl_elsewhere:
  assumes "map_of (ls_tasks s) t = None \<or> (\<exists>q. at_phase s t q \<and> \<not> excludes q)" "excludes p"
  shows "at_phase (leave t k s) u p = at_phase s u p" "\<not> excludes q \<Longrightarrow> at_phase (move t q k s) u p = at_phase s u p"
  using assms by (auto simp: at_phase_def move_def leave_def)

lemma global_step:
  assumes "lock_step cancels s e s'" "lock_inv exact s"
  shows "global_ok s'"
proof -
  have g: "global_ok s" and lk: "\<forall>n l. map_of (nl_locks (ls_lock s)) n = Some l \<longrightarrow> l < nl_next (ls_lock s)"
    using assms(2) unfolding lock_inv_def locks_ok_def by blast+
  have ex: "nl_locks (ls_lock s) = []" if "at_phase s u Exclusive" for u using that g unfolding global_ok_def by blast
  have wait: "nl_event (ls_lock s) = (nl_locks (ls_lock s) = [])" if "at_phase s u Excl_Waiting" for u using that g unfolding global_ok_def by blast
  have one: "u = v" if "at_phase s u p" "excludes p" "at_phase s v q" "excludes q" for u v p q using that g unfolding global_ok_def by blast
  show ?thesis
    using assms(1)
  proof (cases rule: lock_step.cases)
    case (ask t name)
    show ?thesis unfolding ask(2)
      by (rule global_same[OF g excl_elsewhere(2)]) (use ask(3) ex wait excl_facts in \<open>auto dest: at_phase_unique\<close>)
  next
    case (register t name l k)
    note k = register_facts[OF register(5) lk]
    show ?thesis unfolding register(2)
      by (rule global_same[OF g excl_elsewhere(2)]) (use register(3) k(3) no_excludes[OF g register(4)] excl_facts in \<open>auto dest: at_phase_unique\<close>)
  next
    case (acquire t name l)
    show ?thesis unfolding acquire(2)
      by (rule global_same[OF g excl_elsewhere(2)]) (use acquire(3) ex wait excl_facts in \<open>auto dest: at_phase_unique\<close>)
  next
    case (release t name l k)
    obtain l' c where k: "map_of (nl_locks (ls_lock s)) name = Some l'" "nl_global k = nl_global (ls_lock s)" "nl_event k = (nl_event (ls_lock s) \<or> nl_locks k = [])"
      using release_facts[OF release(4)] by metis
    have some: "nl_locks (ls_lock s) \<noteq> []" using k(1) by auto
    show ?thesis unfolding release(2)
      by (rule global_same[OF g excl_elsewhere(1)]) (use release(3) ex wait k(2,3) some excl_facts in \<open>auto dest: at_phase_unique\<close>)
  next
    case (excl_ask t)
    show ?thesis unfolding excl_ask(2)
      by (rule global_same[OF g excl_elsewhere(2)]) (use excl_ask(3) ex wait excl_facts in \<open>auto dest: at_phase_unique\<close>)
  next
    case (excl_global t now k)
    have none: "\<not> (at_phase s u p \<and> excludes p)" for u p using no_excludes[OF g excl_global(4)] by blast
    then have only: "at_phase s' u p \<and> excludes p \<longleftrightarrow> u = t \<and> p = (if now then Exclusive else Excl_Waiting)" for u p
      unfolding excl_global(2) phase_simps using excl_facts by auto
    have k: "nl_global k" "nl_locks k = nl_locks (ls_lock s)" "now = (nl_locks (ls_lock s) = [])" "\<not> now \<Longrightarrow> \<not> nl_event k"
      using excl_global(5) by (auto simp: global_enter_def split: if_splits)
    have k': "ls_lock s' = k" unfolding excl_global(2) by simp
    have "u = t \<and> now" if "at_phase s' u Exclusive" for u using that only[of u Exclusive] excl_facts by (cases now) auto
    moreover have "u = t \<and> \<not> now" if "at_phase s' u Excl_Waiting" for u using that only[of u Excl_Waiting] excl_facts by (cases now) auto
    moreover have "\<exists>p. at_phase s' t p \<and> excludes p" using only by blast
    moreover have "u = t" if "at_phase s' u p" "excludes p" for u p using only that by blast
    ultimately show ?thesis unfolding global_ok_def k' using k by metis
  next
    case (excl_wake t)
    have phase: "at_phase s' u p \<longleftrightarrow> (if u = t then p = Exclusive else at_phase s u p)" for u p
      unfolding excl_wake(2) phase_simps by simp
    have "ls_lock s' = ls_lock s" unfolding excl_wake(2) by simp
    moreover have "nl_locks (ls_lock s) = []" using wait[OF excl_wake(3)] excl_wake(4) by blast
    moreover have "nl_global (ls_lock s)" using g excl_wake(3) excl_facts unfolding global_ok_def by blast
    moreover have "u = t" if "at_phase s' u p" "excludes p" for u p
      using that one[of u p t Excl_Waiting] excl_wake(3) excl_facts(2) unfolding phase by metis
    moreover have "at_phase s' t Exclusive" "\<not> at_phase s' u Excl_Waiting" for u
      using one[of u Excl_Waiting t Excl_Waiting] excl_wake(3) excl_facts(2) unfolding phase by (simp, metis lock_phase.distinct(29))
    ultimately show ?thesis unfolding global_ok_def using excl_facts(1) by metis
  next
    case (excl_release t)
    have "\<not> (at_phase s' u p \<and> excludes p)" for u p
      using one[OF _ _ excl_release(3) excl_facts(1), of u p] unfolding excl_release(2) phase_simps by blast
    moreover have "\<not> nl_global (ls_lock s')" unfolding excl_release(2) by simp
    ultimately show ?thesis unfolding global_ok_def using excl_facts(1,2) by metis
  next
    case (cancel t p name l)
    show ?thesis unfolding cancel(2)
      by (rule global_same[OF g excl_elsewhere(1)]) (use cancel(4,5) ex wait excl_facts in \<open>auto dest: at_phase_unique\<close>)
  next
    case (cancel_excl t)
    have "\<not> (at_phase s' u p \<and> excludes p)" for u p
      using one[OF _ _ cancel_excl(4) excl_facts(2), of u p] unfolding cancel_excl(2) phase_simps by blast
    moreover have "\<not> nl_global (ls_lock s')" unfolding cancel_excl(2) by simp
    ultimately show ?thesis unfolding global_ok_def using excl_facts(1,2) by metis
  qed
qed

lemma step_inv:
  "lock_step cancels s e s' \<Longrightarrow> lock_inv exact s \<Longrightarrow> (cancels \<Longrightarrow> \<not> exact) \<Longrightarrow> lock_inv exact s'"
  using wf_step counters_step locks_step global_step unfolding lock_inv_def by blast

lemma run_inv: "lock_run cancels s es s' \<Longrightarrow> lock_inv exact s \<Longrightarrow> (cancels \<Longrightarrow> \<not> exact) \<Longrightarrow> lock_inv exact s'"
  by (induction rule: lock_run.induct) (blast intro: step_inv)+

section \<open>Running a sequence of events\<close>

definition lock_next :: "bool \<Rightarrow> lock_event \<Rightarrow> lock_system \<Rightarrow> lock_system option" where
  "lock_next cancels e s = (let k = ls_lock s; phase = map_of (ls_tasks s) in case e of
     Ask t name \<Rightarrow> if phase t = None then Some (move t (Asking name) k s) else None
   | Register t \<Rightarrow> (case phase t of Some (Asking name) \<Rightarrow>
         if nl_global k then None else (case lock_register name k of (l, k') \<Rightarrow> Some (move t (Waiting_For name l) k' s))
       | _ \<Rightarrow> None)
   | Acquire t \<Rightarrow> (case phase t of Some (Waiting_For name l) \<Rightarrow>
         if l \<in> set (nl_locked k) then None else Some (move t (Holding name l) (k\<lparr>nl_locked := sadd l (nl_locked k)\<rparr>) s)
       | _ \<Rightarrow> None)
   | Release t \<Rightarrow> (case phase t of Some (Holding name l) \<Rightarrow>
         (case lock_release name k of Inr k' \<Rightarrow> Some (leave t k' s) | Inl _ \<Rightarrow> None)
       | _ \<Rightarrow> None)
   | Excl_Ask t \<Rightarrow> if phase t = None then Some (move t Excl_Asking k s) else None
   | Excl_Global t \<Rightarrow> if phase t = Some Excl_Asking \<and> \<not> nl_global k
       then (case global_enter k of (now, k') \<Rightarrow> Some (move t (if now then Exclusive else Excl_Waiting) k' s)) else None
   | Excl_Wake t \<Rightarrow> if phase t = Some Excl_Waiting \<and> nl_event k then Some (move t Exclusive k s) else None
   | Excl_Release t \<Rightarrow> if phase t = Some Exclusive then Some (leave t (k\<lparr>nl_global := False\<rparr>) s) else None
   | Cancel t \<Rightarrow> if \<not> cancels then None else (case phase t of
         Some Excl_Waiting \<Rightarrow> Some (leave t (k\<lparr>nl_global := False\<rparr>) s)
       | Some (Asking name) \<Rightarrow> Some (leave t k s)
       | Some (Waiting_For name l) \<Rightarrow> Some (leave t k s)
       | Some Excl_Asking \<Rightarrow> Some (leave t k s)
       | _ \<Rightarrow> None))"

fun lock_exec :: "bool \<Rightarrow> lock_event list \<Rightarrow> lock_system \<Rightarrow> lock_system option" where
  "lock_exec cancels [] s = Some s"
| "lock_exec cancels (e # es) s = Option.bind (lock_next cancels e s) (lock_exec cancels es)"

lemma lock_next_step: "lock_next cancels e s = Some s' \<Longrightarrow> lock_step cancels s e s'"
proof (cases e)
  case (Excl_Global t)
  assume "lock_next cancels e s = Some s'"
  then show ?thesis using Excl_Global lock_step.excl_global[of s t]
    unfolding lock_next_def Let_def by (auto simp: at_phase_def split: if_splits prod.splits)
qed (unfold lock_next_def Let_def, auto split: option.splits lock_phase.splits if_splits prod.splits sum.splits simp: at_phase_def intro!: lock_step.intros)

lemma lock_run_Cons: "lock_step cancels s e s' \<Longrightarrow> lock_run cancels s' es s'' \<Longrightarrow> lock_run cancels s (e # es) s''"
proof (rotate_tac, induction rule: lock_run.induct)
  case (here s')
  then show ?case using lock_run.more[OF lock_run.here] by fastforce
next
  case (more s' es t e' t')
  then show ?case using lock_run.more[of cancels s "e # es" t e' t'] by simp
qed

lemma lock_exec_run: "lock_exec cancels es s = Some s' \<Longrightarrow> lock_run cancels s es s'"
  by (induction es arbitrary: s) (auto intro: lock_run.here lock_run_Cons lock_next_step simp: bind_eq_Some_conv)

lemma release_ok:
  assumes "lock_inv exact s" "at_phase s u (Holding n l)"
  shows "\<exists>k. lock_release n (ls_lock s) = Inr k"
proof -
  have some: "map_of (nl_locks (ls_lock s)) n = Some l" "l \<in> set (nl_locked (ls_lock s))"
    using assms unfolding lock_inv_def locks_ok_def by blast+
  moreover from assms(1) have "count_ok exact (map_of (nl_locks (ls_lock s)) n) (map_of (nl_counters (ls_lock s)) n) (reg_count n (ls_tasks s))"
    unfolding lock_inv_def counters_ok_def by blast
  ultimately show ?thesis by (auto simp: lock_release_def Let_def count_ok_def split: option.splits)
qed

section \<open>A waiter that is cancelled\<close>

definition leaked :: "string \<Rightarrow> lock_system \<Rightarrow> bool" where
  \<comment> \<open>the counter of the name is larger than the number of its tasks\<close>
  "leaked n s \<longleftrightarrow> (\<exists>c. map_of (nl_locks (ls_lock s)) n \<noteq> None \<and> map_of (nl_counters (ls_lock s)) n = Some c \<and> reg_count n (ls_tasks s) < c)"

lemma leaked_not_exclusive: "leaked n s \<Longrightarrow> lock_inv exact s \<Longrightarrow> \<not> at_phase s u Exclusive"
  unfolding leaked_def lock_inv_def global_ok_def by (metis map_of.simps(1))

lemma leaked_step:
  assumes "lock_step cancels s e s'" "lock_inv exact s" "leaked n s"
  shows "leaked n s'"
proof -
  have wf: "wf_dict (ls_tasks s)" and lk: "\<forall>n l. map_of (nl_locks (ls_lock s)) n = Some l \<longrightarrow> l < nl_next (ls_lock s)"
    using assms(2) unfolding lock_inv_def locks_ok_def by blast+
  have same: ?thesis if "reg_count n (ls_tasks s') \<le> reg_count n (ls_tasks s)"
      "nl_locks (ls_lock s') = nl_locks (ls_lock s)" "nl_counters (ls_lock s') = nl_counters (ls_lock s)"
    using assms(3) that unfolding leaked_def by fastforce
  show ?thesis using assms(1)
  proof (cases rule: lock_step.cases)
    case (register t name l k)
    note k = register_facts[OF register(5) lk]
    have "reg_count n (ls_tasks s') = reg_count n (ls_tasks s) + (if n = name then 1 else 0)"
      using register(3) unfolding register(2) count_moved[OF wf] by (simp add: at_phase_def reg_one_def)
    then show ?thesis using assms(3) unfolding leaked_def register(2) ls_lock_moved k(1,8) by (auto simp: dget_def)
  next
    case (release t name l k)
    obtain l' c where k: "map_of (nl_locks (ls_lock s)) name = Some l'" "map_of (nl_counters (ls_lock s)) name = Some c"
        "map_of (nl_locks k) = (map_of (nl_locks (ls_lock s)))(name := if c - 1 \<le> 0 then None else Some l')"
        "map_of (nl_counters k) = (map_of (nl_counters (ls_lock s)))(name := if c - 1 \<le> 0 then None else Some (c - 1))"
      using release_facts[OF release(4)] by metis
    have count: "reg_count m (ls_tasks s') = reg_count m (ls_tasks s) - (if m = name then 1 else 0)" for m
      using release(3) unfolding release(2) count_moved[OF wf] by (simp add: at_phase_def reg_one_def)
    have "0 \<le> reg_count name (ls_tasks s')" by (simp add: reg_count_def)
    then show ?thesis using assms(3) k(1,2) count[of n] count[of name] unfolding leaked_def release(2) ls_lock_moved k(3,4)
      by (cases "n = name") auto
  qed (rule same; auto simp: count_moved[OF wf] at_phase_def reg_one_def global_enter_def split: if_splits option.splits)+
qed

lemma leaked_run: "lock_run cancels s es s' \<Longrightarrow> lock_inv exact s \<Longrightarrow> (cancels \<Longrightarrow> \<not> exact) \<Longrightarrow> leaked n s \<Longrightarrow> leaked n s'"
  by (induction rule: lock_run.induct) (blast intro: leaked_step run_inv)+

lemma cancel_leaks:
  assumes "lock_inv exact s" "at_phase s t (Waiting_For n l)" "lock_step True s (Cancel t) s'"
  shows "leaked n s'"
proof -
  have wf: "wf_dict (ls_tasks s)" using assms(1) by (simp add: lock_inv_def)
  have s': "s' = leave t (ls_lock s) s" using assms(2,3) unfolding lock_step_cancel by (auto dest: at_phase_unique)
  have some: "map_of (nl_locks (ls_lock s)) n = Some l" using assms(1,2) unfolding lock_inv_def locks_ok_def by blast
  have "count_ok exact (Some l) (map_of (nl_counters (ls_lock s)) n) (reg_count n (ls_tasks s))"
    using assms(1) some unfolding lock_inv_def counters_ok_def by metis
  moreover have "reg_count n (ls_tasks s') = reg_count n (ls_tasks s) - 1"
    using assms(2) unfolding s' count_moved[OF wf] by (simp add: at_phase_def reg_one_def)
  ultimately show ?thesis using some unfolding leaked_def s' by (auto simp: count_ok_def split: option.splits)
qed

section \<open>Properties\<close>

text \<open>C33: Mutual exclusion: whatever the interleaving, cancelled tasks included, at most one task holds the lock of a name,
  although lock objects are dropped and created again; nobody has the exclusive lock at that time; and
  the release does not fail.\<close>

theorem named_lock_exclusive:
  assumes "lock_run cancels lock_init es s" "at_phase s t (Holding n l)"
  shows "(\<forall>u m. at_phase s u (Holding n m) \<longrightarrow> u = t) \<and> (\<forall>u. \<not> at_phase s u Exclusive)
    \<and> (\<exists>k. lock_release n (ls_lock s) = Inr k)"
proof -
  have inv: "lock_inv False s" using run_inv[OF assms(1) init_inv, of False] by simp
  then have lk: "locks_ok s" and g: "global_ok s" by (simp_all add: lock_inv_def)
  have "map_of (nl_locks (ls_lock s)) n = Some l" using lk assms(2) unfolding locks_ok_def by blast
  then have "\<not> at_phase s u Exclusive" for u using g unfolding global_ok_def by (metis map_of.simps(1) option.distinct(1))
  moreover have "u = t" if "at_phase s u (Holding n m)" for u m
    using lk assms(2) that \<open>map_of (nl_locks (ls_lock s)) n = Some l\<close> unfolding locks_ok_def by (metis option.inject)
  ultimately show ?thesis using release_ok[OF inv assms(2)] by blast
qed

theorem named_lock_exclusive_witness:
  "\<exists>s. lock_exec True [Ask 0 ''a'', Register 0, Acquire 0, Ask 1 ''a'', Register 1, Excl_Ask 2, Excl_Global 2] lock_init = Some s
    \<and> \<not> at_phase s 2 Exclusive \<and> (\<exists>k. lock_release ''a'' (ls_lock s) = Inr k)"
proof -
  obtain s where s: "lock_exec True [Ask 0 ''a'', Register 0, Acquire 0, Ask 1 ''a'', Register 1, Excl_Ask 2, Excl_Global 2] lock_init = Some s"
      "at_phase s 0 (Holding ''a'' 0)"
    by (simp add: lock_next_def lock_init_def new_named_lock_def move_def lock_register_def global_enter_def dset_def at_phase_def)
  from named_lock_exclusive[OF lock_exec_run[OF s(1)] s(2)] s(1) show ?thesis by blast
qed

text \<open>C35: A task that is cancelled while it waits for the lock of a name leaves its count behind. From then on the
  exclusive lock is never given to any task, so the shutdown of a pool of executors waits for ever.\<close>

theorem cancelled_waiter_blocks_exclusive:
  assumes "lock_run True lock_init es s" "at_phase s t (Waiting_For n l)" "lock_step True s (Cancel t) s'" "lock_run True s' es' s''"
  shows "\<not> at_phase s'' u Exclusive"
proof -
  have inv: "lock_inv False s" using run_inv[OF assms(1) init_inv, of False] by simp
  then have inv': "lock_inv False s'" using step_inv[OF assms(3), of False] by blast
  show ?thesis
    using leaked_not_exclusive leaked_run[OF assms(4) inv' _ cancel_leaks[OF inv assms(2,3)]] run_inv[OF assms(4) inv'] by blast
qed

theorem cancelled_waiter_blocks_exclusive_witness:
  "\<exists>s. lock_exec True [Ask 0 ''a'', Register 0, Acquire 0, Ask 1 ''a'', Register 1, Cancel 1, Release 0, Excl_Ask 2, Excl_Global 2] lock_init = Some s
    \<and> ls_tasks s = [(2, Excl_Waiting)] \<and> \<not> at_phase s 2 Exclusive"
proof -
  let ?before = "[Ask 0 ''a'', Register 0, Acquire 0, Ask 1 ''a'', Register 1]"
  let ?after = "[Release 0, Excl_Ask 2, Excl_Global 2]"
  note defs = lock_next_def lock_init_def new_named_lock_def move_def leave_def lock_register_def lock_release_def global_enter_def dset_def ddel_def
  obtain s s' s'' where run: "lock_exec True ?before lock_init = Some s" "lock_next True (Cancel 1) s = Some s'" "lock_exec True ?after s' = Some s''"
      and facts: "at_phase s 1 (Waiting_For ''a'' 0)" "ls_tasks s'' = [(2, Excl_Waiting)]"
    by (simp add: defs at_phase_def)
  have "lock_exec True (?before @ Cancel 1 # ?after) lock_init = Some s''" using run by (simp add: bind_eq_Some_conv) metis
  moreover have "\<not> at_phase s'' 2 Exclusive"
    by (rule cancelled_waiter_blocks_exclusive[OF lock_exec_run[OF run(1)] facts(1) lock_next_step[OF run(2)] lock_exec_run[OF run(3)]])
  ultimately show ?thesis using facts(2) by auto
qed

end
