(* ===== verification/Lock_Fairness.thy ===== *)
theory Lock_Fairness
  imports Named_Lock
begin

text \<open>
  Fairness of the named locks: the locks of \<open>asyncio\<close> that they are made of serve their waiters first come, first
  served. The steps are those of \<open>Named_Lock\<close> without cancellation, restricted to this order. Under a fair event loop
  every request is served, although others keep coming.
\<close>

section \<open>Waiting in line\<close>

record lock_lines =
  ll_system :: lock_system
  ll_waiters :: "nat option \<Rightarrow> nat list" \<comment> \<open>the waiters of \<open>_global_exclusive_lock\<close> (\<open>None\<close>) and of each lock object\<close>

definition lines_init :: lock_lines where
  "lines_init = \<lparr>ll_system = lock_init, ll_waiters = (\<lambda>_. [])\<rparr>"

fun waits_on :: "lock_phase \<Rightarrow> nat option option" where
  "waits_on (Asking n) = Some None"
| "waits_on Excl_Asking = Some None"
| "waits_on (Waiting_For n l) = Some (Some l)"
| "waits_on _ = None"

fun task_of :: "lock_event \<Rightarrow> nat" where
  "task_of (Ask t n) = t"
| "task_of (Register t) = t"
| "task_of (Acquire t) = t"
| "task_of (Release t) = t"
| "task_of (Excl_Ask t) = t"
| "task_of (Excl_Global t) = t"
| "task_of (Excl_Wake t) = t"
| "task_of (Excl_Release t) = t"
| "task_of (Cancel t) = t"

definition new_request :: "lock_event \<Rightarrow> bool" where
  "new_request e \<longleftrightarrow> (case e of Ask _ _ \<Rightarrow> True | Excl_Ask _ \<Rightarrow> True | _ \<Rightarrow> False)"

fun steps_left :: "lock_phase \<Rightarrow> nat" where
  "steps_left (Asking n) = 3"
| "steps_left (Waiting_For n l) = 2"
| "steps_left (Holding n l) = 1"
| "steps_left Excl_Asking = 3"
| "steps_left Excl_Waiting = 2"
| "steps_left Exclusive = 1"

definition line_of :: "lock_system \<Rightarrow> nat \<Rightarrow> nat option option" where
  "line_of s t = Option.bind (map_of (ls_tasks s) t) waits_on"

definition first_in_line :: "nat \<Rightarrow> lock_lines \<Rightarrow> bool" where
  "first_in_line t f = (case line_of (ll_system f) t of
     None \<Rightarrow> True | Some k \<Rightarrow> ll_waiters f k \<noteq> [] \<and> hd (ll_waiters f k) = t)"

definition leave_line :: "nat \<Rightarrow> lock_system \<Rightarrow> (nat option \<Rightarrow> nat list) \<Rightarrow> nat option \<Rightarrow> nat list" where
  "leave_line t s w = (case line_of s t of None \<Rightarrow> w | Some k \<Rightarrow> w(k := tl (w k)))"

definition join_line :: "nat \<Rightarrow> lock_system \<Rightarrow> (nat option \<Rightarrow> nat list) \<Rightarrow> nat option \<Rightarrow> nat list" where
  "join_line t s w = (case line_of s t of None \<Rightarrow> w | Some k \<Rightarrow> w(k := w k @ [t]))"

inductive line_step :: "lock_lines \<Rightarrow> lock_event \<Rightarrow> lock_lines \<Rightarrow> bool" where
  \<comment> \<open>a task goes on when it is the first one in line; it may get into another line by that\<close>
  in_line: "\<lbrakk>lock_step False (ll_system f) e s'; first_in_line (task_of e) f\<rbrakk>
    \<Longrightarrow> line_step f e \<lparr>ll_system = s', ll_waiters = join_line (task_of e) s' (leave_line (task_of e) (ll_system f) (ll_waiters f))\<rparr>"

inductive_simps line_step_iff: "line_step f e f'"

definition enabled :: "lock_lines \<Rightarrow> lock_event \<Rightarrow> bool" where
  "enabled f e \<longleftrightarrow> (\<exists>f'. line_step f e f')"

lemma enabled_iff: "enabled f e \<longleftrightarrow> first_in_line (task_of e) f \<and> (\<exists>s'. lock_step False (ll_system f) e s')"
  by (auto simp: enabled_def line_step_iff)

definition line_inv :: "lock_lines \<Rightarrow> bool" where
  "line_inv f \<longleftrightarrow> lock_inv True (ll_system f)
     \<and> (\<forall>k. distinct (ll_waiters f k) \<and> (\<forall>u. u \<in> set (ll_waiters f k) \<longleftrightarrow> line_of (ll_system f) u = Some k))"

lemma lines_init_inv: "line_inv lines_init"
  using init_inv [of True] by (simp add: line_inv_def lines_init_def line_of_def) (simp add: lock_init_def)

lemma line_of_phase: "at_phase s t p \<Longrightarrow> line_of s t = waits_on p"
  by (simp add: line_of_def at_phase_def)

lemma others_stay:
  assumes "lock_step False s e s'" "u \<noteq> task_of e"
  shows "map_of (ls_tasks s') u = map_of (ls_tasks s) u"
  using assms by (cases rule: lock_step.cases) (auto simp: move_def leave_def)

lemma others_line: "lock_step False s e s' \<Longrightarrow> u \<noteq> task_of e \<Longrightarrow> line_of s' u = line_of s u"
  by (simp add: line_of_def others_stay)

lemma lines_differ:
  "lock_step False s e s' \<Longrightarrow> line_of s (task_of e) = Some k \<Longrightarrow> line_of s' (task_of e) \<noteq> Some k"
  by (erule lock_step.cases) (auto simp: line_of_def move_def leave_def at_phase_def)

lemma line_cases:
  \<comment> \<open>how a line changes\<close>
  assumes "line_inv f" "line_step f e f'"
  obtains (same) "ll_waiters f' k = ll_waiters f k" "line_of (ll_system f) (task_of e) \<noteq> Some k" "line_of (ll_system f') (task_of e) \<noteq> Some k"
  | (left) "ll_waiters f k = task_of e # ll_waiters f' k" "line_of (ll_system f') (task_of e) \<noteq> Some k"
  | (joined) "ll_waiters f' k = ll_waiters f k @ [task_of e]" "task_of e \<notin> set (ll_waiters f k)" "line_of (ll_system f') (task_of e) = Some k"
proof -
  let ?t = "task_of e" and ?w = "ll_waiters f"
  obtain s' where step: "lock_step False (ll_system f) e s'" "first_in_line ?t f"
      and f': "f' = \<lparr>ll_system = s', ll_waiters = join_line ?t s' (leave_line ?t (ll_system f) ?w)\<rparr>"
    using assms(2) unfolding line_step_iff by blast
  show thesis
  proof (cases "line_of (ll_system f) ?t = Some k")
    case True
    then have "line_of s' ?t \<noteq> Some k" by (rule lines_differ [OF step(1)])
    then have "ll_waiters f' k = tl (?w k)" using True by (auto simp: f' join_line_def leave_line_def split: option.split)
    moreover have "?w k \<noteq> []" "hd (?w k) = ?t" using step(2) True by (simp_all add: first_in_line_def)
    ultimately show ?thesis using left \<open>line_of s' ?t \<noteq> Some k\<close> by (cases "?w k") (simp_all add: f')
  next
    case False
    then have "leave_line ?t (ll_system f) ?w k = ?w k" by (auto simp: leave_line_def split: option.split)
    moreover have "?t \<notin> set (?w k)" using assms(1) False by (simp add: line_inv_def)
    ultimately show ?thesis using same joined False by (cases "line_of s' ?t = Some k") (auto simp: f' join_line_def split: option.splits)
  qed
qed

lemma line_step_lock: "line_step f e f' \<Longrightarrow> lock_step False (ll_system f) e (ll_system f')"
  by (auto simp: line_step_iff)

lemma line_invD:
  assumes "line_inv f"
  shows "lock_inv True (ll_system f)" "distinct (ll_waiters f k)" "u \<in> set (ll_waiters f k) \<longleftrightarrow> line_of (ll_system f) u = Some k"
  using assms by (simp_all add: line_inv_def)

lemma line_step_inv:
  assumes "line_inv f" "line_step f e f'"
  shows "line_inv f'"
proof -
  note step = line_step_lock [OF assms(2)]
  have "lock_inv True (ll_system f')" by (rule step_inv [OF step line_invD(1) [OF assms(1)]]) simp
  moreover have "distinct (ll_waiters f' k) \<and> (\<forall>u. u \<in> set (ll_waiters f' k) \<longleftrightarrow> line_of (ll_system f') u = Some k)" for k
  proof -
    have stay: "line_of (ll_system f') u = line_of (ll_system f) u" if "u \<noteq> task_of e" for u using others_line [OF step that] .
    from line_invD(2,3) [OF assms(1)] have old: "distinct (ll_waiters f k)" "\<And>u. u \<in> set (ll_waiters f k) \<longleftrightarrow> line_of (ll_system f) u = Some k" by blast+
    show ?thesis
    proof (cases rule: line_cases [OF assms, of k, case_names same left joined])
      case same
      then show ?thesis using old stay by metis
    next
      case left
      then have "distinct (ll_waiters f' k)" "task_of e \<notin> set (ll_waiters f' k)" using old(1) by auto
      then show ?thesis using old(2) stay left by (metis set_ConsD list.set_intros(2))
    next
      case joined
      then show ?thesis using old stay by (auto, metis+)
    qed
  qed
  ultimately show ?thesis by (simp add: line_inv_def)
qed

section \<open>Effects on the locks\<close>

lemma step_locks:
  assumes "lock_step False s e s'" "l \<in> set (nl_locked (ls_lock s'))"
  shows "l \<in> set (nl_locked (ls_lock s)) \<or> (\<exists>t n. e = Acquire t \<and> at_phase s t (Waiting_For n l))"
  using assms(1)
proof (cases rule: lock_step.cases)
  case (release t name l k)
  then show ?thesis using assms(2) by (auto elim: release_facts)
next
  case (register t name l k)
  then show ?thesis using assms(2) by (auto simp: lock_register_def split: option.splits)
qed (use assms(2) in \<open>auto simp: global_enter_def split: if_splits\<close>)

lemma step_global_lock:
  assumes "lock_step False s e s'" "nl_global (ls_lock s')"
  shows "nl_global (ls_lock s) \<or> (\<exists>t. e = Excl_Global t)"
  using assms(1)
proof (cases rule: lock_step.cases)
  case (release t name l k)
  then show ?thesis using assms(2) by (auto elim: release_facts)
next
  case (register t name l k)
  then show ?thesis using assms(2) by (auto simp: lock_register_def split: option.splits)
qed (use assms(2) in auto)

lemma step_event_set:
  assumes "lock_step False s e s'" "nl_event (ls_lock s)" "nl_global (ls_lock s)"
  shows "nl_event (ls_lock s')"
  using assms(1)
proof (cases rule: lock_step.cases)
  case (release t name l k)
  then show ?thesis using assms(2) by (auto elim: release_facts)
next
  case (register t name l k)
  then show ?thesis using assms(2) by (auto simp: lock_register_def split: option.splits)
qed (use assms(2,3) in auto)

section \<open>The step of a task\<close>

fun its_event :: "nat \<Rightarrow> lock_phase \<Rightarrow> lock_event" where
  "its_event t (Asking n) = Register t"
| "its_event t (Waiting_For n l) = Acquire t"
| "its_event t (Holding n l) = Release t"
| "its_event t Excl_Asking = Excl_Global t"
| "its_event t Excl_Waiting = Excl_Wake t"
| "its_event t Exclusive = Excl_Release t"

fun may_go :: "named_lock \<Rightarrow> lock_phase \<Rightarrow> bool" where
  "may_go k (Asking n) = (\<not> nl_global k)"
| "may_go k (Waiting_For n l) = (l \<notin> set (nl_locked k))"
| "may_go k Excl_Asking = (\<not> nl_global k)"
| "may_go k Excl_Waiting = nl_event k"
| "may_go k _ = True"

lemma task_of_its_event [simp]: "task_of (its_event t p) = t" "\<not> new_request (its_event t p)"
  by (cases p; simp add: new_request_def)+

lemma event_of_phase:
  assumes "lock_step False s e s'"
  shows "if new_request e then map_of (ls_tasks s) (task_of e) = None
    else \<exists>p. at_phase s (task_of e) p \<and> e = its_event (task_of e) p \<and> may_go (ls_lock s) p"
  using assms by (cases rule: lock_step.cases) (auto simp: new_request_def intro!: exI)

lemma goes_on_iff:
  assumes "lock_inv True s" "at_phase s t p"
  shows "(\<exists>s'. lock_step False s (its_event t p) s') \<longleftrightarrow> may_go (ls_lock s) p"
proof
  assume "\<exists>s'. lock_step False s (its_event t p) s'"
  then obtain q where "at_phase s t q" "may_go (ls_lock s) q" using event_of_phase by fastforce
  then show "may_go (ls_lock s) p" using assms(2) at_phase_unique by blast
next
  assume go: "may_go (ls_lock s) p"
  show "\<exists>s'. lock_step False s (its_event t p) s'"
  proof (cases p)
    case (Asking n)
    then show ?thesis using go assms(2) by (cases "lock_register n (ls_lock s)") (auto intro: lock_step.register)
  next
    case (Holding n l)
    then obtain k where "lock_release n (ls_lock s) = Inr k" using release_ok assms by blast
    then show ?thesis using Holding assms(2) by (auto intro: lock_step.release)
  next
    case Excl_Asking
    then show ?thesis using go assms(2) by (cases "global_enter (ls_lock s)") (auto intro: lock_step.excl_global)
  qed (use go assms(2) in \<open>auto intro: lock_step.acquire lock_step.excl_wake lock_step.excl_release\<close>)
qed

lemma enabled_phase:
  assumes "line_inv f" "at_phase (ll_system f) t p"
  shows "enabled f (its_event t p) \<longleftrightarrow> first_in_line t f \<and> may_go (ls_lock (ll_system f)) p"
  using goes_on_iff [OF line_invD(1) [OF assms(1)] assms(2)] by (simp add: enabled_iff)

text \<open>Once a step is possible it stays possible until it is taken.\<close>

lemma enabled_stays:
  assumes "line_inv f" "line_step f e' f'" "enabled f e" "\<not> new_request e" "e' \<noteq> e"
  shows "enabled f' e"
proof -
  let ?s = "ll_system f" and ?s' = "ll_system f'"
  note step = line_step_lock [OF assms(2)]
  have first': "first_in_line (task_of e') f" using assms(2) by (auto simp: line_step_iff)
  obtain s1 where s1: "lock_step False ?s e s1" and first: "first_in_line (task_of e) f" using assms(3) by (auto simp: enabled_iff)
  obtain v p where v: "v = task_of e" and p: "at_phase ?s v p" and e: "e = its_event v p" and go: "may_go (ls_lock ?s) p"
    using event_of_phase [OF s1] assms(4) by (metis (full_types))
  have other: "task_of e' \<noteq> v"
    using event_of_phase [OF step] p e assms(5) at_phase_unique [of ?s v p] unfolding at_phase_def by (metis option.distinct(1))
  have p': "at_phase ?s' v p" using p others_stay [OF step] other by (simp add: at_phase_def)
  have clash: False if "line_of ?s (task_of e') = Some k" "line_of ?s v = Some k" for k
    using first first' that other v by (simp add: first_in_line_def)
  have line: "line_of ?s' v = line_of ?s v" using others_line [OF step] other by metis
  have "first_in_line v f'"
  proof (cases "line_of ?s v")
    case None
    then show ?thesis by (simp add: first_in_line_def line)
  next
    case (Some k)
    then have w: "ll_waiters f k \<noteq> []" "hd (ll_waiters f k) = v" using first v by (simp_all add: first_in_line_def)
    show ?thesis
      by (cases rule: line_cases [OF assms(1,2), of k, case_names same left joined]) (use w other in \<open>auto simp: first_in_line_def line Some\<close>)
  qed
  moreover have "may_go (ls_lock ?s') p"
  proof (rule ccontr)
    assume no: "\<not> may_go (ls_lock ?s') p"
    consider "line_of ?s v = Some None" "nl_global (ls_lock ?s')" "\<not> nl_global (ls_lock ?s)"
      | l where "line_of ?s v = Some (Some l)" "l \<in> set (nl_locked (ls_lock ?s'))" "l \<notin> set (nl_locked (ls_lock ?s))"
      | "p = Excl_Waiting" "\<not> nl_event (ls_lock ?s')" "nl_event (ls_lock ?s)"
      using p go no by (cases p) (auto simp: line_of_def at_phase_def)
    then show False
    proof cases
      case 1
      then obtain t where "e' = Excl_Global t" using step_global_lock [OF step] by blast
      then have "line_of ?s (task_of e') = Some None" using event_of_phase [OF step] by (auto simp: new_request_def line_of_phase dest!: sym [of "Excl_Global t"] elim!: its_event.elims)
      then show ?thesis using clash 1(1) by blast
    next
      case (2 l)
      then obtain t n where "e' = Acquire t" "at_phase ?s t (Waiting_For n l)" using step_locks [OF step] by blast
      then have "line_of ?s (task_of e') = Some (Some l)" by (simp add: line_of_def at_phase_def)
      then show ?thesis using clash 2(1) by blast
    next
      case 3
      have "nl_global (ls_lock ?s)" using line_invD(1) [OF assms(1)] p 3(1) excl_facts(2) unfolding lock_inv_def global_ok_def by blast
      then show ?thesis using step_event_set [OF step 3(3)] 3(2) by blast
    qed
  qed
  ultimately show ?thesis using enabled_phase [OF line_step_inv [OF assms(1,2)] p'] e by simp
qed

section \<open>What comes before a task\<close>

fun unserved :: "lock_phase \<Rightarrow> bool" where
  "unserved (Holding n l) = False"
| "unserved Exclusive = False"
| "unserved _ = True"

definition waiting :: "nat \<Rightarrow> lock_lines \<Rightarrow> bool" where
  "waiting t f \<longleftrightarrow> (\<exists>p. at_phase (ll_system f) t p \<and> unserved p)"

definition up_to :: "nat \<Rightarrow> nat list \<Rightarrow> nat set" where
  "up_to t xs = insert t (set (takeWhile (\<lambda>x. x \<noteq> t) xs))"

definition has_lock :: "lock_system \<Rightarrow> nat \<Rightarrow> nat \<Rightarrow> bool" where
  "has_lock s l u \<longleftrightarrow> (\<exists>n. at_phase s u (Holding n l))"

definition in_lock :: "lock_system \<Rightarrow> nat \<Rightarrow> bool" where
  "in_lock s u \<longleftrightarrow> (\<exists>n l. at_phase s u (Waiting_For n l) \<or> at_phase s u (Holding n l))"

definition before :: "lock_lines \<Rightarrow> nat \<Rightarrow> nat set" where
  \<comment> \<open>the tasks, its own included, whose steps bring a waiting task closer to what it waits for\<close>
  "before f t = (let s = ll_system f in case line_of s t of
     Some None \<Rightarrow> {u. map_of (ls_tasks s) u \<noteq> None \<and> (line_of s u \<noteq> Some None \<or> u \<in> up_to t (ll_waiters f None))}
   | Some (Some l) \<Rightarrow> {u. has_lock s l u \<or> u \<in> up_to t (ll_waiters f (Some l))}
   | None \<Rightarrow> if at_phase s t Excl_Waiting then insert t {u. in_lock s u} else {})"

definition steps_of :: "lock_lines \<Rightarrow> nat \<Rightarrow> nat" where
  "steps_of f u = (case map_of (ls_tasks (ll_system f)) u of None \<Rightarrow> 0 | Some p \<Rightarrow> steps_left p)"

definition delay :: "nat \<Rightarrow> lock_lines \<Rightarrow> nat" where
  "delay t f = sum (steps_of f) (before f t)"

lemma up_to_tail: "x \<noteq> t \<Longrightarrow> up_to t xs \<subseteq> up_to t (x # xs)"
  by (auto simp: up_to_def)

lemma up_to_snoc: "t \<in> set xs \<Longrightarrow> up_to t (xs @ ys) = up_to t xs"
  by (auto simp: up_to_def takeWhile_append)

lemma up_to_subset: "t \<in> set xs \<Longrightarrow> up_to t xs \<subseteq> set xs"
  by (auto simp: up_to_def dest: set_takeWhileD)

lemma up_to_hd: "xs \<noteq> [] \<Longrightarrow> hd xs \<in> up_to t xs"
  by (cases xs) (auto simp: up_to_def)

lemma line_present: "line_of s u = Some k \<Longrightarrow> map_of (ls_tasks s) u \<noteq> None"
  by (cases "map_of (ls_tasks s) u") (simp_all add: line_of_def)

lemma before_present:
  assumes "line_inv f" "u \<in> before f t"
  shows "map_of (ls_tasks (ll_system f)) u \<noteq> None"
proof (cases "line_of (ll_system f) t")
  case None
  then show ?thesis using assms(2) by (auto simp: before_def Let_def in_lock_def at_phase_def split: if_splits)
next
  case (Some k)
  have "u \<in> set (ll_waiters f (Some l)) \<Longrightarrow> ?thesis" for l
    using line_invD(3) [OF assms(1)] line_present by blast
  moreover have "t \<in> set (ll_waiters f k)" using line_invD(3) [OF assms(1)] Some by blast
  ultimately show ?thesis using assms(2) Some up_to_subset [of t "ll_waiters f k"]
    by (cases k) (auto simp: before_def Let_def has_lock_def at_phase_def)
qed

lemma before_finite: "line_inv f \<Longrightarrow> finite (before f t)"
  by (rule finite_subset [of _ "dom (map_of (ls_tasks (ll_system f)))"]) (auto simp: finite_dom_map_of dest: before_present)

lemma waiting_before: "waiting t f \<Longrightarrow> t \<in> before f t"
  unfolding waiting_def by (auto simp: before_def Let_def line_of_def at_phase_def up_to_def elim!: unserved.elims)

lemma line_up_to:
  \<comment> \<open>nobody gets in front of a task in its line\<close>
  assumes "line_inv f" "line_step f e f'" "line_of (ll_system f) t = Some k" "line_of (ll_system f') t = Some k"
  shows "up_to t (ll_waiters f' k) \<subseteq> up_to t (ll_waiters f k)"
proof (cases rule: line_cases [OF assms(1,2), of k, case_names same left joined])
  case left
  then have "task_of e \<noteq> t" using assms(4) by auto
  then show ?thesis using left(1) up_to_tail by metis
next
  case joined
  have "t \<in> set (ll_waiters f k)" using line_invD(3) [OF assms(1)] assms(3) by blast
  then show ?thesis using joined(1) up_to_snoc by simp
qed simp

lemma first_up_to:
  assumes "line_step f e f'" "line_of (ll_system f) (task_of e) = Some k"
  shows "task_of e \<in> up_to t (ll_waiters f k)"
  using assms up_to_hd [of "ll_waiters f k" t] by (auto simp: line_step_iff first_in_line_def)

lemma gets_lock: "lock_step False s e s' \<Longrightarrow> has_lock s' l (task_of e) \<Longrightarrow> line_of s (task_of e) = Some (Some l)"
  by (erule lock_step.cases) (auto simp: has_lock_def phase_simps line_of_phase dest: at_phase_unique split: if_splits)

lemma enters_lock: "lock_step False s e s' \<Longrightarrow> in_lock s' (task_of e) \<Longrightarrow> in_lock s (task_of e) \<or> \<not> nl_global (ls_lock s)"
  by (erule lock_step.cases) (auto simp: in_lock_def phase_simps split: if_splits)

lemma asks_first: "lock_step False s e s' \<Longrightarrow> map_of (ls_tasks s) (task_of e) = None \<Longrightarrow> line_of s' (task_of e) = Some None"
  by (erule lock_step.cases) (auto simp: at_phase_def line_of_def move_def)

lemma own_step:
  assumes "lock_step False s e s'" "at_phase s (task_of e) p" "unserved p" "at_phase s' (task_of e) q" "unserved q"
  shows "line_of s (task_of e) = Some None \<and> line_of s' (task_of e) \<noteq> Some None"
  using assms by (cases rule: lock_step.cases) (auto simp: at_phase_def line_of_def move_def leave_def split: if_splits)

lemma in_lock_line: "in_lock s u \<Longrightarrow> map_of (ls_tasks s) u \<noteq> None \<and> line_of s u \<noteq> Some None"
  "has_lock s l u \<Longrightarrow> map_of (ls_tasks s) u \<noteq> None \<and> line_of s u \<noteq> Some None"
  by (auto simp: in_lock_def has_lock_def at_phase_def line_of_def)

lemma before_shrinks:
  assumes inv: "line_inv f" and step: "line_step f e f'" and w: "waiting t f" "waiting t f'"
  shows "before f' t \<subseteq> before f t"
proof
  fix u assume u: "u \<in> before f' t"
  let ?s = "ll_system f" and ?s' = "ll_system f'" and ?m = "task_of e"
  note lstep = line_step_lock [OF step] and inv' = line_step_inv [OF inv step]
  have stay: "map_of (ls_tasks ?s') x = map_of (ls_tasks ?s) x" "line_of ?s' x = line_of ?s x" "at_phase ?s' x p = at_phase ?s x p"
      "has_lock ?s' l x = has_lock ?s l x" "in_lock ?s' x = in_lock ?s x" if "x \<noteq> ?m" for x p l
    using others_stay [OF lstep that] by (simp_all add: line_of_def at_phase_def has_lock_def in_lock_def)
  show "u \<in> before f t"
  proof (cases "t = ?m")
    case True
    obtain p q where pq: "at_phase ?s t p" "unserved p" "at_phase ?s' t q" "unserved q" using w unfolding waiting_def by blast
    then have line: "line_of ?s t = Some None" "line_of ?s' t \<noteq> Some None" using own_step [OF lstep] True by blast+
    show ?thesis
    proof (cases "u = t")
      case False
      have "map_of (ls_tasks ?s) u \<noteq> None \<and> line_of ?s u \<noteq> Some None"
      proof (cases "line_of ?s' t")
        case None
        then show ?thesis using u False in_lock_line(1) [of ?s u] stay(5) [of u] True by (auto simp: before_def Let_def split: if_splits)
      next
        case (Some k)
        then obtain l where l: "k = Some l" using line(2) by (cases k) auto
        have "t \<in> set (ll_waiters f' (Some l))" using line_invD(3) [OF inv'] Some l by blast
        then have "has_lock ?s' l u \<or> line_of ?s' u = Some (Some l)"
          using u Some l up_to_subset line_invD(3) [OF inv', of u "Some l"] by (auto simp: before_def Let_def)
        then show ?thesis using False True stay(2,4) [of u] in_lock_line(2) [of ?s l u] line_present [of ?s u] by auto
      qed
      then show ?thesis using line(1) by (auto simp: before_def Let_def)
    qed (use waiting_before [OF w(1)] in simp)
  next
    case False
    note t = stay [OF this]
    show ?thesis
    proof (cases "line_of ?s t")
      case None
      then have x: "at_phase ?s t Excl_Waiting" "u = t \<or> in_lock ?s' u" using u t(2,3) by (auto simp: before_def Let_def split: if_splits)
      have "nl_global (ls_lock ?s)" using line_invD(1) [OF inv] x(1) excl_facts(2) unfolding lock_inv_def global_ok_def by blast
      then have "u = t \<or> in_lock ?s u" using x(2) enters_lock [OF lstep] stay(5) by (cases "u = ?m") auto
      then show ?thesis using None x(1) by (auto simp: before_def Let_def)
    next
      case (Some k)
      note up = line_up_to [OF inv step Some] and own = first_up_to [OF step]
      have up': "up_to t (ll_waiters f' k) \<subseteq> up_to t (ll_waiters f k)" using up t(2) Some by simp
      have tk: "t \<in> set (ll_waiters f k)" using line_invD(3) [OF inv] Some by blast
      have here: "x \<in> before f t" if "x \<in> up_to t (ll_waiters f k)" for x
        using that Some up_to_subset [OF tk] line_invD(3) [OF inv, of x k] line_present [of ?s x k]
        by (cases k) (auto simp: before_def Let_def)
      show ?thesis
      proof (cases k)
        case None
        have "map_of (ls_tasks ?s') u \<noteq> None \<and> line_of ?s' u \<noteq> Some None \<or> u \<in> up_to t (ll_waiters f' None)"
          using u t(2) Some None by (auto simp: before_def Let_def)
        moreover have ?thesis if "map_of (ls_tasks ?s') u \<noteq> None" "line_of ?s' u \<noteq> Some None"
        proof (cases "u = ?m")
          case True
          then have "map_of (ls_tasks ?s) u \<noteq> None" using asks_first [OF lstep] that(2) by blast
          then show ?thesis using here own [of k t] Some None True by (cases "line_of ?s u = Some None") (auto simp: before_def Let_def)
        next
          case False
          then show ?thesis using that stay(1,2) [of u] Some None by (auto simp: before_def Let_def)
        qed
        ultimately show ?thesis using here up' None by blast
      next
        case l: (Some l)
        have "has_lock ?s' l u \<or> u \<in> up_to t (ll_waiters f' k)" using u t(2) Some l by (auto simp: before_def Let_def)
        moreover have ?thesis if "has_lock ?s' l u"
        proof (cases "u = ?m")
          case True
          then show ?thesis using here own [of k t] gets_lock [OF lstep] that l by blast
        next
          case False
          then show ?thesis using that stay(4) [of u] Some l by (auto simp: before_def Let_def)
        qed
        ultimately show ?thesis using here up' by blast
      qed
    qed
  qed
qed

lemma own_steps_less: "lock_step False s e s' \<Longrightarrow> at_phase s (task_of e) p \<Longrightarrow> at_phase s' (task_of e) q \<Longrightarrow> steps_left q < steps_left p"
  by (erule lock_step.cases) (auto simp: at_phase_def move_def leave_def split: if_splits)

lemma delay_step:
  assumes inv: "line_inv f" and step: "line_step f e f'" and w: "waiting t f" "waiting t f'"
  shows "delay t f' < delay t f \<or> delay t f' = delay t f \<and> before f' t = before f t \<and> task_of e \<notin> before f t"
proof -
  let ?B = "before f t" and ?B' = "before f' t" and ?m = "task_of e"
  note lstep = line_step_lock [OF step] and inv' = line_step_inv [OF inv step]
  have sub: "?B' \<subseteq> ?B" by (rule before_shrinks [OF assms])
  have fin: "finite ?B" "finite ?B'" using before_finite inv inv' by blast+
  have pos: "0 < steps_of f u" if "u \<in> ?B" for u
  proof -
    from before_present [OF inv that] obtain p where "map_of (ls_tasks (ll_system f)) u = Some p" by blast
    then show ?thesis by (cases p) (simp_all add: steps_of_def)
  qed
  have same: "steps_of f' u = steps_of f u" if "u \<noteq> ?m" for u using others_stay [OF lstep that] by (simp add: steps_of_def)
  have less: "steps_of f' ?m < steps_of f ?m" if "?m \<in> ?B'"
  proof -
    from before_present [OF inv' that] before_present [OF inv, of ?m t] sub that obtain p q
      where "at_phase (ll_system f) ?m p" "at_phase (ll_system f') ?m q" unfolding at_phase_def by blast
    then show ?thesis using own_steps_less [OF lstep] by (simp add: steps_of_def at_phase_def)
  qed
  have le: "sum (steps_of f) ?B' \<le> sum (steps_of f) ?B" by (rule sum_mono2 [OF fin(1) sub]) simp
  show ?thesis
  proof (cases "?m \<in> ?B'")
    case True
    have "sum (steps_of f') ?B' < sum (steps_of f) ?B'"
      by (rule sum_strict_mono_ex1 [OF fin(2)]) (use less [OF True] same True in \<open>auto, metis less_le_not_le linorder_le_cases order_refl\<close>)
    then show ?thesis using le by (simp add: delay_def)
  next
    case False
    have eq: "sum (steps_of f') ?B' = sum (steps_of f) ?B'" by (rule sum.cong) (auto, metis same False)
    show ?thesis
    proof (cases "?B' = ?B")
      case True
      then show ?thesis using eq False by (simp add: delay_def)
    next
      case False
      then obtain x where x: "x \<in> ?B - ?B'" using sub by blast
      have "sum (steps_of f) ?B' < sum (steps_of f) ?B" by (rule sum_strict_mono2 [OF fin(1) sub x]) (use pos x in auto)
      then show ?thesis using eq by (simp add: delay_def)
    qed
  qed
qed

section \<open>Some step always brings it closer\<close>

definition helps :: "nat \<Rightarrow> lock_lines \<Rightarrow> lock_event \<Rightarrow> bool" where
  "helps t f e \<longleftrightarrow> \<not> new_request e \<and> enabled f e \<and> task_of e \<in> before f t"

lemma no_locks:
  assumes "lock_inv True s" "\<And>u. \<not> in_lock s u"
  shows "nl_locks (ls_lock s) = []"
proof (rule ccontr)
  assume "nl_locks (ls_lock s) \<noteq> []"
  then obtain n l where nl: "map_of (nl_locks (ls_lock s)) n = Some l" by (cases "nl_locks (ls_lock s)") (auto, metis)
  have "count_ok True (Some l) (map_of (nl_counters (ls_lock s)) n) (reg_count n (ls_tasks s))"
    using assms(1) nl unfolding lock_inv_def counters_ok_def by metis
  then have "reg_count n (ls_tasks s) \<noteq> 0" by (auto simp: count_ok_def split: option.splits)
  then obtain u q where "(u, q) \<in> set (ls_tasks s)" "registered n q"
    unfolding reg_count_def by (auto simp: filter_empty_conv)
  moreover from this have "at_phase s u q" using assms(1) by (simp add: at_phase_def lock_inv_def map_of_SomeI)
  ultimately show False using assms(2) [of u] by (cases q) (auto simp: in_lock_def)
qed

lemma lock_goes_on:
  assumes inv: "line_inv f" and u: "at_phase (ll_system f) u (Waiting_For n l)"
  shows "\<exists>v p. at_phase (ll_system f) v p \<and> enabled f (its_event v p)
    \<and> (has_lock (ll_system f) l v \<or> line_of (ll_system f) v = Some (Some l) \<and> (\<forall>t. v \<in> up_to t (ll_waiters f (Some l))))"
proof (cases "l \<in> set (nl_locked (ls_lock (ll_system f)))")
  case True
  then obtain v m where v: "at_phase (ll_system f) v (Holding m l)" using line_invD(1) [OF inv] unfolding lock_inv_def locks_ok_def by blast
  moreover have "first_in_line v f" using v by (simp add: first_in_line_def line_of_def at_phase_def)
  ultimately show ?thesis using enabled_phase [OF inv v] by (intro exI [of _ v] exI) (auto simp: has_lock_def)
next
  case False
  let ?w = "ll_waiters f (Some l)"
  have "u \<in> set ?w" using line_invD(3) [OF inv] u by (simp add: line_of_def at_phase_def)
  then have w: "?w \<noteq> []" by auto
  then have line: "line_of (ll_system f) (hd ?w) = Some (Some l)" using line_invD(3) [OF inv] by (metis list.set_sel(1))
  then obtain p where p: "map_of (ls_tasks (ll_system f)) (hd ?w) = Some p" "waits_on p = Some (Some l)"
    by (auto simp: line_of_def bind_eq_Some_conv)
  then obtain m where "p = Waiting_For m l" by (cases p) auto
  then show ?thesis using p w line False enabled_phase [OF inv, of "hd ?w" p] up_to_hd [OF w]
    by (intro exI [of _ "hd ?w"] exI [of _ p]) (auto simp: first_in_line_def at_phase_def)
qed

lemma excl_goes_on:
  assumes inv: "line_inv f" and t: "at_phase (ll_system f) t Excl_Waiting"
  shows "\<exists>v p. at_phase (ll_system f) v p \<and> enabled f (its_event v p) \<and> (v = t \<or> in_lock (ll_system f) v)"
proof (cases "\<exists>u. in_lock (ll_system f) u")
  case True
  then consider u n l where "at_phase (ll_system f) u (Waiting_For n l)" | u n l where "at_phase (ll_system f) u (Holding n l)"
    unfolding in_lock_def by blast
  then show ?thesis
  proof cases
    case (1 u n l)
    then obtain v p where v: "at_phase (ll_system f) v p" "enabled f (its_event v p)"
        "has_lock (ll_system f) l v \<or> line_of (ll_system f) v = Some (Some l)" using lock_goes_on [OF inv 1] by blast
    have "in_lock (ll_system f) v" using v(1,3) by (cases p) (auto simp: in_lock_def has_lock_def line_of_def at_phase_def)
    then show ?thesis using v by blast
  next
    case (2 u n l)
    then have "enabled f (Release u)" using enabled_phase [OF inv 2] by (simp add: first_in_line_def line_of_def at_phase_def)
    then show ?thesis using 2 by (intro exI [of _ u] exI [of _ "Holding n l"]) (auto simp: in_lock_def)
  qed
next
  case False
  then have "nl_locks (ls_lock (ll_system f)) = []" using no_locks [OF line_invD(1) [OF inv]] by blast
  then have "nl_event (ls_lock (ll_system f))" using line_invD(1) [OF inv] t unfolding lock_inv_def global_ok_def by blast
  then have "enabled f (Excl_Wake t)" using enabled_phase [OF inv t] t by (simp add: first_in_line_def line_of_def at_phase_def)
  then show ?thesis using t by (intro exI [of _ t] exI [of _ Excl_Waiting]) simp
qed

lemma some_help:
  assumes inv: "line_inv f" and w: "waiting t f"
  shows "\<exists>e. helps t f e"
proof -
  let ?s = "ll_system f"
  have helpful: ?thesis if "enabled f (its_event v p)" "v \<in> before f t" for v p
    using that unfolding helps_def by (intro exI [of _ "its_event v p"]) simp
  obtain p where p: "at_phase ?s t p" "unserved p" using w unfolding waiting_def by blast
  consider n l where "p = Waiting_For n l" | "p = Excl_Waiting" | "line_of ?s t = Some None"
    using p by (cases p) (auto simp: line_of_def at_phase_def)
  then show ?thesis
  proof cases
    case (1 n l)
    then have "line_of ?s t = Some (Some l)" using p(1) by (simp add: line_of_def at_phase_def)
    then show ?thesis using lock_goes_on [OF inv p(1) [unfolded 1]] helpful by (fastforce simp: before_def Let_def)
  next
    case 2
    then have "line_of ?s t = None" using p(1) by (simp add: line_of_def at_phase_def)
    then show ?thesis using excl_goes_on [OF inv p(1) [unfolded 2]] helpful p(1) 2 by (fastforce simp: before_def Let_def)
  next
    case 3
    have other: "v \<in> before f t" if "at_phase ?s v q" "line_of ?s v \<noteq> Some None" for v q
      using that 3 by (auto simp: before_def Let_def at_phase_def)
    show ?thesis
    proof (cases "nl_global (ls_lock ?s)")
      case True
      then obtain v q where v: "at_phase ?s v q" "excludes q" using line_invD(1) [OF inv] unfolding lock_inv_def global_ok_def by blast
      then consider "q = Exclusive" | "q = Excl_Waiting" by (auto simp: excludes_def)
      then show ?thesis
      proof cases
        case 1
        then have "enabled f (its_event v q)" using enabled_phase [OF inv v(1)] v(1) by (simp add: first_in_line_def line_of_def at_phase_def)
        moreover have "v \<in> before f t" using other [OF v(1)] 1 line_of_phase [OF v(1)] by simp
        ultimately show ?thesis using helpful by blast
      next
        case 2
        then obtain x r where x: "at_phase ?s x r" "enabled f (its_event x r)" "x = v \<or> in_lock ?s x" using excl_goes_on [OF inv] v(1) by blast
        have "line_of ?s x \<noteq> Some None" using x(3) in_lock_line(1) [of ?s x] v(1) 2 by (auto simp: line_of_def at_phase_def)
        then show ?thesis using helpful x(2) other [OF x(1)] by blast
      qed
    next
      case False
      let ?w = "ll_waiters f None"
      have "t \<in> set ?w" using line_invD(3) [OF inv] 3 by blast
      then have w: "?w \<noteq> []" by auto
      then have line: "line_of ?s (hd ?w) = Some None" using line_invD(3) [OF inv] by (metis list.set_sel(1))
      then obtain q where q: "map_of (ls_tasks ?s) (hd ?w) = Some q" "waits_on q = Some None" by (auto simp: line_of_def bind_eq_Some_conv)
      have "may_go (ls_lock ?s) q" using q(2) False by (cases q) simp_all
      then have "enabled f (its_event (hd ?w) q)" using enabled_phase [OF inv, of "hd ?w" q] q(1) line w by (simp add: first_in_line_def at_phase_def)
      moreover have "hd ?w \<in> before f t" using 3 q(1) up_to_hd [OF w] by (simp add: before_def Let_def)
      ultimately show ?thesis using helpful by blast
    qed
  qed
qed

section \<open>Fair runs\<close>

locale fair_service =
  fixes step :: "'s \<Rightarrow> 'e \<Rightarrow> 's \<Rightarrow> bool" and good :: "'s \<Rightarrow> bool" and due :: "'e \<Rightarrow> bool"
    and waits :: "'s \<Rightarrow> bool" and left :: "'s \<Rightarrow> nat" and helping :: "'s \<Rightarrow> 'e \<Rightarrow> bool"
  assumes good_step: "good s \<Longrightarrow> step s e s' \<Longrightarrow> good s'"
    and helping_exists: "good s \<Longrightarrow> waits s \<Longrightarrow> \<exists>e. helping s e"
    and helping_due: "helping s e \<Longrightarrow> due e \<and> (\<exists>s'. step s e s')"
    and helping_less: "good s \<Longrightarrow> waits s \<Longrightarrow> waits s' \<Longrightarrow> step s e s' \<Longrightarrow> helping s e \<Longrightarrow> left s' < left s"
    and helping_stays: "good s \<Longrightarrow> waits s \<Longrightarrow> waits s' \<Longrightarrow> step s e' s' \<Longrightarrow> helping s e \<Longrightarrow> e' \<noteq> e
      \<Longrightarrow> left s' < left s \<or> left s' = left s \<and> helping s' e"
begin

lemma good_always: "\<forall>i. step (run i) (ev i) (run (Suc i)) \<Longrightarrow> good (run 0) \<Longrightarrow> good (run i)"
  by (induction i) (auto intro: good_step)

lemma not_for_ever:
  assumes run: "\<forall>i. step (run i) (ev i) (run (Suc i))" "good (run 0)"
    and fair: "\<forall>i e. due e \<longrightarrow> (\<exists>j \<ge> i. ev j = e \<or> (\<nexists>s'. step (run j) e s'))"
  shows "\<exists>j \<ge> i. \<not> waits (run j)"
proof (induction "left (run i)" arbitrary: i rule: less_induct)
  case less
  show ?case
  proof (rule ccontr)
    assume "\<not> (\<exists>j \<ge> i. \<not> waits (run j))"
    then have w: "waits (run j)" if "j \<ge> i" for j using that by blast
    note good = good_always [OF run]
    have same: "left (run j) \<ge> left (run i)" if "j \<ge> i" for j
      using less.hyps [of j] w that by (meson le_trans linorder_not_less)
    obtain e where e: "helping (run i) e" using helping_exists [OF good] w by blast
    have stays: "left (run j) = left (run i) \<and> helping (run j) e \<and> ev j \<noteq> e" if "j \<ge> i" for j
      using that
    proof (induction j rule: dec_induct)
      case base
      then show ?case using e helping_less [OF good w w] run(1) same [of "Suc i"] by (metis le_SucI le_refl linorder_not_less)
    next
      case (step j)
      then have "left (run (Suc j)) = left (run j)" "helping (run (Suc j)) e"
        using helping_stays [OF good w w, of j "Suc j" "ev j" e] run(1) same [of "Suc j"] by auto
      moreover from this have "ev (Suc j) \<noteq> e"
        using helping_less [OF good w w, of "Suc j" "Suc (Suc j)" e] run(1) step same [of "Suc (Suc j)"] by (metis le_SucI linorder_not_less)
      ultimately show ?case using step by simp
    qed
    obtain j where "j \<ge> i" "ev j = e \<or> (\<nexists>s'. step (run j) e s')" using fair helping_due [OF e] by blast
    then show False using stays [of j] helping_due by blast
  qed
qed

end

interpretation lines: fair_service line_step line_inv "\<lambda>e. \<not> new_request e" "waiting t" "delay t" "helps t" for t
proof unfold_locales
  fix s e s' assume "line_inv s" "line_step s e s'"
  then show "line_inv s'" by (rule line_step_inv)
next
  fix s assume "line_inv s" "waiting t s"
  then show "\<exists>e. helps t s e" by (rule some_help)
next
  fix s e assume "helps t s e"
  then show "\<not> new_request e \<and> (\<exists>s'. line_step s e s')" by (simp add: helps_def enabled_def)
next
  fix s s' e assume "line_inv s" "waiting t s" "waiting t s'" "line_step s e s'" "helps t s e"
  then show "delay t s' < delay t s" using delay_step [of s e s' t] by (auto simp: helps_def)
next
  fix s s' e' e assume h: "line_inv s" "waiting t s" "waiting t s'" "line_step s e' s'" "helps t s e" "e' \<noteq> e"
  then have "enabled s' e" using enabled_stays [OF h(1,4)] by (simp add: helps_def)
  then show "delay t s' < delay t s \<or> delay t s' = delay t s \<and> helps t s' e"
    using delay_step [OF h(1,4,2,3)] h(5) by (auto simp: helps_def)
qed

section \<open>Properties\<close>

fun request :: "lock_phase \<Rightarrow> string option option" where
  "request (Asking n) = Some (Some n)"
| "request (Waiting_For n l) = Some (Some n)"
| "request Excl_Asking = Some None"
| "request Excl_Waiting = Some None"
| "request _ = None"

fun granted :: "string option \<Rightarrow> lock_phase \<Rightarrow> bool" where
  "granted (Some n) (Holding m l) = (m = n)"
| "granted None Exclusive = True"
| "granted _ _ = False"

lemma request_unserved: "unserved p \<longleftrightarrow> request p \<noteq> None"
  by (cases p) simp_all

lemma request_step:
  assumes "lock_step False s e s'" "at_phase s t p" "request p = Some r"
  shows "\<exists>q. at_phase s' t q \<and> (request q = Some r \<or> granted r q)"
proof (cases "t = task_of e")
  case False
  then show ?thesis using assms others_stay [OF assms(1) False] by (auto simp: at_phase_def)
next
  case True
  show ?thesis using assms(1) by (cases rule: lock_step.cases) (use assms(2,3) True in \<open>auto simp: at_phase_def move_def leave_def\<close>)
qed

lemma granted_when_served:
  assumes run: "\<forall>i. line_step (run i) (ev i) (run (Suc i))"
    and "i \<le> j" "at_phase (ll_system (run i)) t p" "request p = Some r" "\<not> waiting t (run j)"
  shows "\<exists>k \<ge> i. \<exists>q. at_phase (ll_system (run k)) t q \<and> granted r q"
proof (rule ccontr)
  assume no: "\<not> ?thesis"
  have "\<exists>q. at_phase (ll_system (run k)) t q \<and> request q = Some r" if "k \<ge> i" for k
    using that
  proof (induction k rule: dec_induct)
    case (step k)
    then obtain q where "at_phase (ll_system (run k)) t q" "request q = Some r" by blast
    from request_step [OF line_step_lock this] run obtain q' where
      "at_phase (ll_system (run (Suc k))) t q'" "request q' = Some r \<or> granted r q'" by blast
    then show ?case using no step(1) by (meson le_SucI)
  qed (use assms in blast)
  then show False using assms(2,5) unfolding waiting_def request_unserved by (metis option.distinct(1))
qed

text \<open>C34: Every request is served. If the event loop is fair, that is, if it does not pass over for ever a task that could go on
  (one that holds a lock can: it releases it some day), no task is cancelled, and tasks are in one context manager at a time, then a
  task that asks for the lock of a name gets it, and one that asks for the exclusive lock gets that, even if others keep asking for the same locks.\<close>

theorem named_lock_served:
  assumes "run 0 = lines_init" and "\<forall>i. line_step (run i) (ev i) (run (Suc i))"
    and "\<forall>i e. \<not> new_request e \<longrightarrow> (\<exists>j \<ge> i. ev j = e \<or> (\<nexists>f. line_step (run j) e f))"
  shows "(at_phase (ll_system (run i)) t (Asking n) \<longrightarrow> (\<exists>j \<ge> i. \<exists>l. at_phase (ll_system (run j)) t (Holding n l)))
    \<and> (at_phase (ll_system (run i)) t Excl_Asking \<longrightarrow> (\<exists>j \<ge> i. at_phase (ll_system (run j)) t Exclusive))"
proof -
  have "line_inv (run 0)" using assms(1) lines_init_inv by simp
  from lines.not_for_ever [OF assms(2) this assms(3)] obtain j where "i \<le> j" "\<not> waiting t (run j)" by blast
  note served = granted_when_served [OF assms(2) this(1) _ _ this(2)]
  have "granted (Some n) q \<Longrightarrow> \<exists>l. q = Holding n l" "granted None q \<Longrightarrow> q = Exclusive" for q by (cases q; simp)+
  then show ?thesis using served [of "Asking n" "Some n"] served [of Excl_Asking None] by fastforce
qed

text \<open>Two tasks that ask for the same lock again and again, in turn.\<close>

definition lines_at :: "(nat, lock_phase) dict \<Rightarrow> int \<Rightarrow> nat list \<Rightarrow> nat list \<Rightarrow> nat list \<Rightarrow> lock_lines" where
  \<comment> \<open>the name \<open>a\<close> has the lock object 0\<close>
  "lines_at tasks counter locked asking waiters =
     \<lparr>ll_system = \<lparr>ls_lock = \<lparr>nl_global = False, nl_event = False, nl_locks = [(''a'', 0)], nl_counters = [(''a'', counter)],
        nl_locked = locked, nl_next = 1\<rparr>, ls_tasks = tasks\<rparr>,
      ll_waiters = (\<lambda>k. if k = None then asking else if k = Some 0 then waiters else [])\<rparr>"

definition turn :: "nat \<Rightarrow> lock_lines \<times> lock_event" where
  "turn i = [
     (lines_at [(0, Holding ''a'' 0)] 1 [0] [] [], Ask 1 ''a''),
     (lines_at [(0, Holding ''a'' 0), (1, Asking ''a'')] 1 [0] [1] [], Register 1),
     (lines_at [(0, Holding ''a'' 0), (1, Waiting_For ''a'' 0)] 2 [0] [] [1], Release 0),
     (lines_at [(1, Waiting_For ''a'' 0)] 1 [] [] [1], Ask 0 ''a''),
     (lines_at [(1, Waiting_For ''a'' 0), (0, Asking ''a'')] 1 [] [0] [1], Register 0),
     (lines_at [(1, Waiting_For ''a'' 0), (0, Waiting_For ''a'' 0)] 2 [] [] [1, 0], Acquire 1),
     (lines_at [(1, Holding ''a'' 0), (0, Waiting_For ''a'' 0)] 2 [0] [] [0], Release 1),
     (lines_at [(0, Waiting_For ''a'' 0)] 1 [] [] [0], Acquire 0)] ! i"

definition first_turn :: "nat \<Rightarrow> lock_lines \<times> lock_event" where
  "first_turn i = [
     (lines_init, Ask 0 ''a''),
     (\<lparr>ll_system = \<lparr>ls_lock = new_named_lock, ls_tasks = [(0, Asking ''a'')]\<rparr>, ll_waiters = (\<lambda>_. [])(None := [0])\<rparr>, Register 0),
     (lines_at [(0, Waiting_For ''a'' 0)] 1 [] [] [0], Acquire 0)] ! i"

definition in_turn :: "nat \<Rightarrow> lock_lines \<times> lock_event" where
  "in_turn i = (if i < 3 then first_turn i else turn ((i - 3) mod 8))"

lemma line_next:
  assumes "lock_next False e (ll_system f) = Some s'" "first_in_line (task_of e) f" "ll_system f' = s'"
    and "\<And>k. ll_waiters f' k = join_line (task_of e) s' (leave_line (task_of e) (ll_system f) (ll_waiters f)) k"
  shows "line_step f e f'"
proof -
  have "f' = \<lparr>ll_system = s', ll_waiters = join_line (task_of e) s' (leave_line (task_of e) (ll_system f) (ll_waiters f))\<rparr>"
    using assms(3,4) by (cases f') (auto simp: fun_eq_iff)
  then show ?thesis using line_step.in_line [OF lock_next_step [OF assms(1)] assms(2)] by simp
qed

lemmas lock_simps = lock_next_def lock_register_def lock_release_def move_def leave_def dset_def ddel_def dlookup_def dget_def
  sadd_def sdiscard_def lines_at_def

lemma line_of_tasks: "line_of \<lparr>ls_lock = k, ls_tasks = ts\<rparr> t = Option.bind (map_of ts t) waits_on"
  by (simp add: line_of_def)

lemma turns: "j < 8 \<Longrightarrow> line_step (fst (turn j)) (snd (turn j)) (fst (turn (Suc j mod 8)))"
proof -
  assume "j < 8"
  then consider "j = 0" | "j = 1" | "j = 2" | "j = 3" | "j = 4" | "j = 5" | "j = 6" | "j = 7" by linarith
  then show ?thesis
    by cases (simp_all, (rule line_next, simp add: turn_def lock_simps, simp add: turn_def lines_at_def first_in_line_def line_of_tasks,
        simp add: turn_def lock_simps, simp add: turn_def join_line_def leave_line_def lines_at_def line_of_tasks)+)
qed

lemma first_turns: "i < 3 \<Longrightarrow> line_step (fst (in_turn i)) (snd (in_turn i)) (fst (in_turn (Suc i)))"
proof -
  assume "i < 3"
  then consider "i = 0" | "i = 1" | "i = 2" by linarith
  then show ?thesis
    by cases (simp_all add: in_turn_def, (rule line_next, simp add: turn_def first_turn_def lock_simps lines_init_def lock_init_def new_named_lock_def,
        simp add: turn_def first_turn_def lines_at_def first_in_line_def line_of_tasks lines_init_def lock_init_def,
        simp add: turn_def first_turn_def lock_simps new_named_lock_def,
        simp add: turn_def first_turn_def join_line_def leave_line_def lines_at_def lines_init_def lock_init_def line_of_tasks)+)
qed

lemma in_turn_step: "line_step (fst (in_turn i)) (snd (in_turn i)) (fst (in_turn (Suc i)))"
proof (cases "i < 3")
  case False
  then have "(Suc i - 3) mod 8 = Suc ((i - 3) mod 8) mod 8" by (simp only: Suc_diff_le linorder_not_less mod_Suc_eq)
  then show ?thesis using False turns [of "(i - 3) mod 8"] by (simp only: in_turn_def) simp
qed (rule first_turns)

lemma in_turn_fair:
  assumes "\<not> new_request e"
  shows "\<exists>j \<ge> i. snd (in_turn j) = e \<or> (\<nexists>f. line_step (fst (in_turn j)) e f)"
proof -
  have at: "in_turn (3 + 8 * i + m) = turn m" if "m < 8" for m using that by (simp add: in_turn_def)
  have only: "at_phase (ll_system g) (task_of e) p \<Longrightarrow> e = its_event (task_of e) p" if "line_step g e f" for f g p
    using event_of_phase [OF line_step_lock [OF that]] assms at_phase_unique by fastforce
  have present: "map_of (ls_tasks (ll_system g)) (task_of e) \<noteq> None" if "line_step g e f" for f g
    using event_of_phase [OF line_step_lock [OF that]] assms by (auto simp: at_phase_def)
  show ?thesis
  proof (cases "e = Release 0")
    case True
    have "at_phase (ll_system (fst (turn 4))) 0 (Asking ''a'')" by (simp add: turn_def lines_at_def at_phase_def)
    then have "\<nexists>f. line_step (fst (turn 4)) e f" using only [of "fst (turn 4)"] True by fastforce
    then show ?thesis using at [of 4] by (intro exI [of _ "3 + 8 * i + 4"]) auto
  next
    case False
    have tasks: "ls_tasks (ll_system (fst (turn 0))) = [(0, Holding ''a'' 0)]" by (simp add: turn_def lines_at_def)
    have False if "line_step (fst (turn 0)) e f" for f
    proof -
      have "task_of e = 0" using present [OF that] tasks by (simp split: if_splits)
      then show False using only [OF that, of "Holding ''a'' 0"] tasks False by (simp add: at_phase_def)
    qed
    then show ?thesis using at [of 0] by (intro exI [of _ "3 + 8 * i"]) auto
  qed
qed

theorem named_lock_served_witness:
  "at_phase (ll_system (fst (in_turn 4))) 1 (Asking ''a'') \<and> (\<exists>j l. at_phase (ll_system (fst (in_turn j))) 1 (Holding ''a'' l))"
proof -
  have asks: "at_phase (ll_system (fst (in_turn 4))) 1 (Asking ''a'')" by (simp add: in_turn_def turn_def lines_at_def at_phase_def)
  have "fst (in_turn 0) = lines_init" by (simp add: in_turn_def first_turn_def)
  with named_lock_served [of "\<lambda>i. fst (in_turn i)" "\<lambda>i. snd (in_turn i)" 4 1 "''a''"] in_turn_step in_turn_fair asks
  show ?thesis by blast
qed

end
