(* ===== verification/Executor_Pool.thy ===== *)
theory Executor_Pool
  imports Core_Prelude
begin

text \<open>
  The pools of executors: \<open>agent/resourcepool.py\<close> with its uses in \<open>agent/forking_executor.py\<close>. The manager
  (\<open>MPManager\<close>) caches the executors of all agents, the process pool (\<open>MPPool\<close>) keeps one process per
  blueprint, and each process (\<open>MPProcess\<close>) keeps the executors that run in it; an executor tells both of its
  pools when it is down.

  Executors and processes are objects: an index into the list of all that were ever created. A time is
  a number of microseconds. The processes themselves, their environments and the connection to them are not modelled: that they
  start, fail and end is a step. Not modelled is also \<open>last_used\<close> of processes, which nothing reads.
\<close>

section \<open>Data\<close>

record executor_id =
  eid_agent :: string
  eid_uri :: string
  eid_hash :: string \<comment> \<open>\<open>blueprint_hash\<close>\<close>

definition identity :: "executor_id \<Rightarrow> string" where
  "identity i = eid_agent i @ eid_uri i @ eid_hash i"

datatype listener = Process_Listener nat | Manager_Listener

record executor =
  ex_id :: executor_id
  ex_in_flight :: int
  ex_last_used :: int
  ex_shutting_down :: bool
  ex_shut_down :: bool
  ex_listeners :: "listener list" \<comment> \<open>\<open>termination_listeners\<close>\<close>

record process =
  pr_hash :: string
  pr_pool :: "(executor_id, nat) dict"
  pr_shutting_down :: bool
  pr_shut_down :: bool

record pools =
  po_executors :: "executor list"
  po_processes :: "process list"
  pp_pool :: "(string, nat) dict" \<comment> \<open>\<open>MPPool.pool\<close>\<close>
  pp_running :: bool
  mg_pool :: "(executor_id, nat) dict" \<comment> \<open>\<open>MPManager.pool\<close>\<close>
  mg_running :: bool
  agent_map :: "(string, nat pyset) dict"
  max_executors_per_agent :: int
  retention_time :: int \<comment> \<open>in microseconds\<close>

definition new_pools :: "int \<Rightarrow> int \<Rightarrow> pools" where
  "new_pools cap retention = \<lparr>po_executors = [], po_processes = [], pp_pool = [], pp_running = True, mg_pool = [],
     mg_running = True, agent_map = [], max_executors_per_agent = cap, retention_time = retention\<rparr>"

definition ex :: "pools \<Rightarrow> nat \<Rightarrow> executor" where
  "ex s i = po_executors s ! i"

definition pr :: "pools \<Rightarrow> nat \<Rightarrow> process" where
  "pr s p = po_processes s ! p"

definition set_ex :: "nat \<Rightarrow> executor \<Rightarrow> pools \<Rightarrow> pools" where
  "set_ex i e s = s\<lparr>po_executors := (po_executors s)[i := e]\<rparr>"

definition set_pr :: "nat \<Rightarrow> process \<Rightarrow> pools \<Rightarrow> pools" where
  "set_pr p x s = s\<lparr>po_processes := (po_processes s)[p := x]\<rparr>"

section \<open>Members\<close>

definition ex_running :: "executor \<Rightarrow> bool" where
  "ex_running e = (\<not> ex_shutting_down e \<and> \<not> ex_shut_down e)"

definition pr_running :: "process \<Rightarrow> bool" where
  "pr_running x = (\<not> pr_shutting_down x \<and> \<not> pr_shut_down x)"

definition touch :: "int \<Rightarrow> nat \<Rightarrow> pools \<Rightarrow> pools" where
  "touch now i s = set_ex i ((ex s i)\<lparr>ex_last_used := now\<rparr>) s"

definition can_be_cleaned_up :: "executor \<Rightarrow> bool" where
  "can_be_cleaned_up e = (ex_in_flight e = 0)"

definition ex_request_shutdown :: "nat \<Rightarrow> pools \<Rightarrow> pools" where
  \<comment> \<open>the task that stops the remote end ends in \<open>ex_set_shutdown\<close>\<close>
  "ex_request_shutdown i s = (if ex_shutting_down (ex s i) then s else set_ex i ((ex s i)\<lparr>ex_shutting_down := True\<rparr>) s)"

definition pr_request_shutdown :: "nat \<Rightarrow> pools \<Rightarrow> pools" where
  "pr_request_shutdown p s = (if pr_shutting_down (pr s p) then s else set_pr p ((pr s p)\<lparr>pr_shutting_down := True\<rparr>) s)"

definition pool_notify :: "('i, nat) dict \<Rightarrow> 'i \<Rightarrow> nat \<Rightarrow> ('i, nat) dict" where
  \<comment> \<open>\<open>PoolManager.notify_member_shutdown\<close>: a stale member is not removed\<close>
  "pool_notify pool k i = (case map_of pool k of
     None \<Rightarrow> pool
   | Some j \<Rightarrow> if j \<noteq> i then pool else ddel pool k)"

definition process_notify :: "nat \<Rightarrow> nat \<Rightarrow> pools \<Rightarrow> pools" where
  \<comment> \<open>\<open>MPProcess.notify_member_shutdown\<close>\<close>
  "process_notify p i s =
     (let s1 = set_pr p ((pr s p)\<lparr>pr_pool := pool_notify (pr_pool (pr s p)) (ex_id (ex s i)) i\<rparr>) s
      in if pr_pool (pr s1 p) = [] then pr_request_shutdown p s1 else s1)"

definition manager_notify :: "nat \<Rightarrow> pools \<Rightarrow> pools result" where
  \<comment> \<open>\<open>MPManager.notify_member_shutdown\<close>\<close>
  "manager_notify i s = (case map_of (agent_map s) (eid_agent (ex_id (ex s i))) of
     None \<Rightarrow> Inl AssertionError
   | Some executors \<Rightarrow> Inr (s\<lparr>agent_map := dset (agent_map s) (eid_agent (ex_id (ex s i))) (sdiscard i executors),
       mg_pool := pool_notify (mg_pool s) (ex_id (ex s i)) i\<rparr>))"

definition notify_listener :: "nat \<Rightarrow> listener \<Rightarrow> pools \<Rightarrow> pools result" where
  "notify_listener i l s = (case l of Process_Listener p \<Rightarrow> Inr (process_notify p i s) | Manager_Listener \<Rightarrow> manager_notify i s)"

definition ex_set_shutdown :: "nat \<Rightarrow> pools \<Rightarrow> pools result" where
  "ex_set_shutdown i s =
     rfold (notify_listener i) (ex_listeners (ex s i)) (set_ex i ((ex s i)\<lparr>ex_shut_down := True, ex_shutting_down := True\<rparr>) s)"

definition pr_set_shutdown :: "nat \<Rightarrow> pools \<Rightarrow> pools" where
  \<comment> \<open>the listener of a process is the process pool\<close>
  "pr_set_shutdown p s =
     (let s1 = set_pr p ((pr s p)\<lparr>pr_shut_down := True, pr_shutting_down := True\<rparr>) s
      in s1\<lparr>pp_pool := pool_notify (pp_pool s1) (pr_hash (pr s1 p)) p\<rparr>)"

definition connection_lost :: "nat \<Rightarrow> pools \<Rightarrow> pools result" where
  \<comment> \<open>until the process is waited for\<close>
  "connection_lost p s =
     (let s1 = set_pr p ((pr s p)\<lparr>pr_shutting_down := True\<rparr>) s
      in rfold ex_set_shutdown (map snd (pr_pool (pr s1 p))) s1)"

definition call_begin :: "nat \<Rightarrow> pools \<Rightarrow> pools" where
  "call_begin i s = set_ex i ((ex s i)\<lparr>ex_in_flight := ex_in_flight (ex s i) + 1\<rparr>) s"

definition call_end :: "int \<Rightarrow> nat \<Rightarrow> pools \<Rightarrow> pools" where
  "call_end now i s = set_ex i ((ex s i)\<lparr>ex_last_used := now, ex_in_flight := ex_in_flight (ex s i) - 1\<rparr>) s"

section \<open>Getting an executor\<close>

fun oldest_of :: "pools \<Rightarrow> nat list \<Rightarrow> nat option" where
  \<comment> \<open>\<open>min(executors, key=...)\<close>: the first one with the smallest key\<close>
  "oldest_of s [] = None"
| "oldest_of s (i # is) = (case oldest_of s is of
     None \<Rightarrow> Some i
   | Some j \<Rightarrow> if ex_last_used (ex s j) < ex_last_used (ex s i) then Some j else Some i)"

definition pre_create_capacity_check :: "executor_id \<Rightarrow> pools \<Rightarrow> pools result" where
  "pre_create_capacity_check mid s =
     (let members = dget (agent_map s) (eid_agent mid) [];
          s1 = s\<lparr>agent_map := (if has_key (agent_map s) (eid_agent mid) then agent_map s else dset (agent_map s) (eid_agent mid) [])\<rparr>;
          executors = filter (\<lambda>i. ex_running (ex s1 i)) members
      in if int (length executors) \<ge> max_executors_per_agent s
         then (case oldest_of s1 executors of None \<Rightarrow> Inl ValueError | Some i \<Rightarrow> Inr (ex_request_shutdown i s1))
         else Inr s1)"

definition manager_get :: "int \<Rightarrow> executor_id \<Rightarrow> pools \<Rightarrow> (nat option \<times> pools) result" where
  \<comment> \<open>\<open>PoolManager.get\<close> of the manager until it creates a member; \<open>None\<close>: it goes on to do so\<close>
  "manager_get now mid s =
     (if \<not> mg_running s then Inl PoolManagerNotRunning
      else case map_of (mg_pool s) mid of
        Some i \<Rightarrow> if \<not> ex_shutting_down (ex s i) then Inr (Some i, touch now i s)
                  else rbind (pre_create_capacity_check mid s) (\<lambda>s'. Inr (None, s'))
      | None \<Rightarrow> rbind (pre_create_capacity_check mid s) (\<lambda>s'. Inr (None, s')))"

definition process_pool_get :: "string \<Rightarrow> pools \<Rightarrow> nat option result" where
  \<comment> \<open>\<open>get\<close> of the process pool until it creates a process\<close>
  "process_pool_get h s =
     (if \<not> pp_running s then Inl PoolManagerNotRunning
      else Inr (case map_of (pp_pool s) h of
        Some p \<Rightarrow> if \<not> pr_shutting_down (pr s p) then Some p else None
      | None \<Rightarrow> None))"

definition create_process :: "string \<Rightarrow> pools \<Rightarrow> nat \<times> pools" where
  \<comment> \<open>\<open>_create_or_replace\<close> of the process pool, once the process is up\<close>
  "create_process h s = (let p = length (po_processes s) in
     (p, s\<lparr>po_processes := po_processes s @ [\<lparr>pr_hash = h, pr_pool = [], pr_shutting_down = False, pr_shut_down = False\<rparr>],
       pp_pool := dset (pp_pool s) h p\<rparr>))"

definition process_get :: "int \<Rightarrow> nat \<Rightarrow> executor_id \<Rightarrow> pools \<Rightarrow> (nat option \<times> pools) result" where
  \<comment> \<open>\<open>get\<close> of a process until it creates an executor\<close>
  "process_get now p mid s =
     (if \<not> pr_running (pr s p) then Inl PoolManagerNotRunning
      else case map_of (pr_pool (pr s p)) mid of
        Some i \<Rightarrow> if \<not> ex_shutting_down (ex s i) then Inr (Some i, touch now i s) else Inr (None, s)
      | None \<Rightarrow> Inr (None, s))"

definition create_executor :: "int \<Rightarrow> nat \<Rightarrow> executor_id \<Rightarrow> pools \<Rightarrow> nat \<times> pools" where
  \<comment> \<open>\<open>_create_or_replace\<close> of a process, once the executor has started\<close>
  "create_executor now p mid s = (let i = length (po_executors s) in
     (i, set_pr p ((pr s p)\<lparr>pr_pool := dset (pr_pool (pr s p)) mid i\<rparr>)
       (s\<lparr>po_executors := po_executors s @ [\<lparr>ex_id = mid, ex_in_flight = 0, ex_last_used = now, ex_shutting_down = False,
         ex_shut_down = False, ex_listeners = [Process_Listener p]\<rparr>]\<rparr>)))"

definition manager_register :: "executor_id \<Rightarrow> nat \<Rightarrow> pools \<Rightarrow> pools result" where
  \<comment> \<open>the rest of \<open>create_member\<close> and \<open>_create_or_replace\<close> of the manager\<close>
  "manager_register mid i s = (case map_of (agent_map s) (eid_agent mid) of
     None \<Rightarrow> Inl AssertionError
   | Some executors \<Rightarrow>
       let s1 = s\<lparr>agent_map := dset (agent_map s) (eid_agent mid) (sadd i executors), mg_pool := dset (mg_pool s) mid i\<rparr>
       in Inr (set_ex i ((ex s1 i)\<lparr>ex_listeners := ex_listeners (ex s1 i) @ [Manager_Listener]\<rparr>) s1))"

section \<open>Stopping and cleaning\<close>

definition process_pool_request_shutdown :: "pools \<Rightarrow> pools" where
  \<comment> \<open>until the processes are asked to stop, each by a task of its own\<close>
  "process_pool_request_shutdown s = s\<lparr>pp_running := False\<rparr>"

definition manager_request_shutdown :: "pools \<Rightarrow> pools" where
  \<comment> \<open>after the process pool has stopped\<close>
  "manager_request_shutdown s = s\<lparr>mg_running := False\<rparr>"

definition manager_start :: "pools \<Rightarrow> pools" where
  "manager_start s = s\<lparr>mg_running := True, pp_running := True\<rparr>"

definition stop_for_agent :: "string \<Rightarrow> pools \<Rightarrow> pools" where
  "stop_for_agent agent s = fold ex_request_shutdown (dget (agent_map s) agent []) s"

definition stop_all_executors :: "pools \<Rightarrow> pools" where
  "stop_all_executors s = fold ex_request_shutdown (mk_set (concat (map snd (agent_map s)))) s"

definition expired :: "int \<Rightarrow> executor \<Rightarrow> bool" where
  "expired oldest_time e = (can_be_cleaned_up e \<and> ex_last_used e < oldest_time \<and> ex_running e)"

definition cleanup_member :: "int \<Rightarrow> nat \<Rightarrow> pools \<Rightarrow> pools" where
  \<comment> \<open>what is done to a member with its lock\<close>
  "cleanup_member oldest_time i s = (if expired oldest_time (ex s i) then ex_request_shutdown i s else s)"

definition minimal_waiting_time :: int where
  "minimal_waiting_time = 500000"

definition cleanup_inactive_pool_members :: "int \<Rightarrow> int \<Rightarrow> pools \<Rightarrow> int \<times> pools" where
  \<comment> \<open>when nothing else runs in between; the times of its start and its end. The result is the time to sleep\<close>
  "cleanup_inactive_pool_members cleanup_start cleanup_end s =
     (let oldest_time = cleanup_start - retention_time s;
          (run_next, s') = fold (\<lambda>i (run_next, s).
             if expired oldest_time (ex s i) then (run_next, cleanup_member oldest_time i s)
             else (min run_next (ex_last_used (ex s i) - oldest_time), s)) (map snd (mg_pool s)) (retention_time s, s)
      in (max minimal_waiting_time (run_next - (cleanup_end - cleanup_start)), s'))"

section \<open>The pools at work\<close>

datatype getting =
    Needs_Process executor_id
  | Creates_Process executor_id
  | Has_Process executor_id nat
  | Starts_Executor executor_id nat

fun wanted :: "getting \<Rightarrow> executor_id" where
  "wanted (Needs_Process mid) = mid"
| "wanted (Creates_Process mid) = mid"
| "wanted (Has_Process mid p) = mid"
| "wanted (Starts_Executor mid p) = mid"

record pool_system =
  ps_pools :: pools
  ps_getting :: "(nat, getting) dict" \<comment> \<open>the calls of \<open>get\<close> that create a member\<close>

definition pool_init :: "int \<Rightarrow> int \<Rightarrow> pool_system" where
  "pool_init cap retention = \<lparr>ps_pools = new_pools cap retention, ps_getting = []\<rparr>"

definition getting_at :: "pool_system \<Rightarrow> nat \<Rightarrow> getting \<Rightarrow> bool" where
  "getting_at s t g = (map_of (ps_getting s) t = Some g)"

definition goes_on :: "nat \<Rightarrow> getting \<Rightarrow> pools \<Rightarrow> pool_system \<Rightarrow> pool_system" where
  "goes_on t g p s = s\<lparr>ps_pools := p, ps_getting := dset (ps_getting s) t g\<rparr>"

definition returns :: "nat \<Rightarrow> pools \<Rightarrow> pool_system \<Rightarrow> pool_system" where
  "returns t p s = s\<lparr>ps_pools := p, ps_getting := ddel (ps_getting s) t\<rparr>"

definition with_pools :: "pools \<Rightarrow> pool_system \<Rightarrow> pool_system" where
  "with_pools p s = s\<lparr>ps_pools := p\<rparr>"

datatype pool_event =
    Get nat executor_id | Ask_Process nat | Process_Up nat | Ask_Executor nat | Executor_Up nat | Get_Fails nat
  | Stop_Requested nat | Stopped nat | Lost nat | Process_Down nat | Call_Starts nat | Call_Ends nat
  | Clean nat | Stop_Process_Pool | Stop_Process nat | Stop_Manager | Start_Pools

inductive pool_step :: "bool \<Rightarrow> pool_system \<Rightarrow> pool_event \<Rightarrow> pool_system \<Rightarrow> bool" for orderly :: bool where
  \<comment> \<open>the lock of an identity is held while a member is created; in an orderly run the calls for one agent do not
    overlap. A pool that stops takes its exclusive lock, so it waits for the calls of \<open>get\<close> in progress\<close>
  get_found: "\<lbrakk>\<And>u g. getting_at s u g \<Longrightarrow> identity (wanted g) \<noteq> identity mid; manager_get now mid (ps_pools s) = Inr (Some i, k)\<rbrakk>
    \<Longrightarrow> pool_step orderly s (Get t mid) (with_pools k s)"
| get_creates: "\<lbrakk>map_of (ps_getting s) t = None; \<And>u g. getting_at s u g \<Longrightarrow> identity (wanted g) \<noteq> identity mid;
      \<And>u g. orderly \<Longrightarrow> getting_at s u g \<Longrightarrow> eid_agent (wanted g) \<noteq> eid_agent mid; manager_get now mid (ps_pools s) = Inr (None, k)\<rbrakk>
    \<Longrightarrow> pool_step orderly s (Get t mid) (goes_on t (Needs_Process mid) k s)"
| process_found: "\<lbrakk>getting_at s t (Needs_Process mid); process_pool_get (eid_hash mid) (ps_pools s) = Inr (Some p)\<rbrakk>
    \<Longrightarrow> pool_step orderly s (Ask_Process t) (goes_on t (Has_Process mid p) (ps_pools s) s)"
| process_created: "\<lbrakk>getting_at s t (Needs_Process mid); process_pool_get (eid_hash mid) (ps_pools s) = Inr None;
      \<And>u m. getting_at s u (Creates_Process m) \<Longrightarrow> eid_hash m \<noteq> eid_hash mid\<rbrakk>
    \<Longrightarrow> pool_step orderly s (Ask_Process t) (goes_on t (Creates_Process mid) (ps_pools s) s)"
| process_up: "\<lbrakk>getting_at s t (Creates_Process mid); create_process (eid_hash mid) (ps_pools s) = (p, k)\<rbrakk>
    \<Longrightarrow> pool_step orderly s (Process_Up t) (goes_on t (Has_Process mid p) k s)"
| executor_found: "\<lbrakk>getting_at s t (Has_Process mid p); process_get now p mid (ps_pools s) = Inr (Some i, k); manager_register mid i k = Inr k'\<rbrakk>
    \<Longrightarrow> pool_step orderly s (Ask_Executor t) (returns t k' s)"
| executor_created: "\<lbrakk>getting_at s t (Has_Process mid p); process_get now p mid (ps_pools s) = Inr (None, k)\<rbrakk>
    \<Longrightarrow> pool_step orderly s (Ask_Executor t) (goes_on t (Starts_Executor mid p) k s)"
| executor_up: "\<lbrakk>getting_at s t (Starts_Executor mid p); create_executor now p mid (ps_pools s) = (i, k); manager_register mid i k = Inr k'\<rbrakk>
    \<Longrightarrow> pool_step orderly s (Executor_Up t) (returns t k' s)"
| fails: "getting_at s t g \<Longrightarrow> pool_step orderly s (Get_Fails t) (returns t (ps_pools s) s)"
| request_stop: "i < length (po_executors (ps_pools s)) \<Longrightarrow> pool_step orderly s (Stop_Requested i) (with_pools (ex_request_shutdown i (ps_pools s)) s)"
| stopped: "\<lbrakk>i < length (po_executors (ps_pools s)); ex_shutting_down (ex (ps_pools s) i); ex_set_shutdown i (ps_pools s) = Inr k\<rbrakk>
    \<Longrightarrow> pool_step orderly s (Stopped i) (with_pools k s)"
| lost: "\<lbrakk>p < length (po_processes (ps_pools s)); connection_lost p (ps_pools s) = Inr k\<rbrakk>
    \<Longrightarrow> pool_step orderly s (Lost p) (with_pools k s)"
| process_down: "p < length (po_processes (ps_pools s)) \<Longrightarrow> pool_step orderly s (Process_Down p) (with_pools (pr_set_shutdown p (ps_pools s)) s)"
| call_starts: "i < length (po_executors (ps_pools s)) \<Longrightarrow> pool_step orderly s (Call_Starts i) (with_pools (call_begin i (ps_pools s)) s)"
| call_ends: "i < length (po_executors (ps_pools s)) \<Longrightarrow> pool_step orderly s (Call_Ends i) (with_pools (call_end now i (ps_pools s)) s)"
| clean: "i < length (po_executors (ps_pools s)) \<Longrightarrow> pool_step orderly s (Clean i) (with_pools (cleanup_member oldest i (ps_pools s)) s)"
| stop_process_pool: "(\<And>t mid. \<not> getting_at s t (Creates_Process mid))
    \<Longrightarrow> pool_step orderly s Stop_Process_Pool (with_pools (process_pool_request_shutdown (ps_pools s)) s)"
| stop_process: "p < length (po_processes (ps_pools s)) \<Longrightarrow> pool_step orderly s (Stop_Process p) (with_pools (pr_request_shutdown p (ps_pools s)) s)"
| stop_manager: "ps_getting s = [] \<Longrightarrow> pool_step orderly s Stop_Manager (with_pools (manager_request_shutdown (ps_pools s)) s)"
| start_pools: "pool_step orderly s Start_Pools (with_pools (manager_start (ps_pools s)) s)"

inductive pool_run :: "bool \<Rightarrow> pool_system \<Rightarrow> pool_event list \<Rightarrow> pool_system \<Rightarrow> bool" for orderly :: bool where
  here: "pool_run orderly s [] s"
| more: "\<lbrakk>pool_run orderly s es s'; pool_step orderly s' e s''\<rbrakk> \<Longrightarrow> pool_run orderly s (es @ [e]) s''"

section \<open>The objects\<close>

lemma set_ex_simps [simp]:
  "length (po_executors (set_ex i e s)) = length (po_executors s)" "po_processes (set_ex i e s) = po_processes s"
  "pp_pool (set_ex i e s) = pp_pool s" "pp_running (set_ex i e s) = pp_running s" "mg_pool (set_ex i e s) = mg_pool s"
  "mg_running (set_ex i e s) = mg_running s" "agent_map (set_ex i e s) = agent_map s" "pr (set_ex i e s) p = pr s p"
  "max_executors_per_agent (set_ex i e s) = max_executors_per_agent s" "retention_time (set_ex i e s) = retention_time s"
  by (simp_all add: set_ex_def pr_def)

lemma set_pr_simps [simp]:
  "length (po_processes (set_pr i e s)) = length (po_processes s)" "po_executors (set_pr i e s) = po_executors s"
  "pp_pool (set_pr i e s) = pp_pool s" "pp_running (set_pr i e s) = pp_running s" "mg_pool (set_pr i e s) = mg_pool s"
  "mg_running (set_pr i e s) = mg_running s" "agent_map (set_pr i e s) = agent_map s" "ex (set_pr i e s) p = ex s p"
  "max_executors_per_agent (set_pr i e s) = max_executors_per_agent s" "retention_time (set_pr i e s) = retention_time s"
  by (simp_all add: set_pr_def ex_def)

lemma ex_set_ex: "i < length (po_executors s) \<Longrightarrow> ex (set_ex i e s) j = (if j = i then e else ex s j)"
  by (auto simp: ex_def set_ex_def)

lemma pr_set_pr: "i < length (po_processes s) \<Longrightarrow> pr (set_pr i e s) j = (if j = i then e else pr s j)"
  by (auto simp: pr_def set_pr_def)

lemma map_of_pool_notify: "map_of (pool_notify d k i) m = (if m = k \<and> map_of d k = Some i then None else map_of d m)"
  by (auto simp: pool_notify_def split: option.splits)

lemma wf_pool_notify [simp]: "wf_dict d \<Longrightarrow> wf_dict (pool_notify d k i)"
  by (simp add: pool_notify_def split: option.splits)

section \<open>What the end of an executor changes\<close>

definition same_frame :: "pools \<Rightarrow> pools \<Rightarrow> bool" where
  \<comment> \<open>nothing but the pools, the agents and the flags of processes differs\<close>
  "same_frame s s' \<longleftrightarrow> po_executors s' = po_executors s \<and> length (po_processes s') = length (po_processes s)
     \<and> pp_pool s' = pp_pool s \<and> pp_running s' = pp_running s \<and> mg_running s' = mg_running s
     \<and> max_executors_per_agent s' = max_executors_per_agent s \<and> retention_time s' = retention_time s
     \<and> (\<forall>p. pr_hash (pr s' p) = pr_hash (pr s p))"

definition told :: "nat \<Rightarrow> listener set \<Rightarrow> pools \<Rightarrow> pools \<Rightarrow> bool" where
  \<comment> \<open>these listeners know that the executor is down\<close>
  "told i L s s' \<longleftrightarrow> same_frame s s'
     \<and> (wf_dict (mg_pool s) \<longrightarrow> wf_dict (mg_pool s')) \<and> (\<forall>p. wf_dict (pr_pool (pr s p)) \<longrightarrow> wf_dict (pr_pool (pr s' p)))
     \<and> map_of (mg_pool s') = (if Manager_Listener \<in> L then (\<lambda>m. if m = ex_id (ex s i) \<and> map_of (mg_pool s) m = Some i then None else map_of (mg_pool s) m) else map_of (mg_pool s))
     \<and> map_of (agent_map s') = (if Manager_Listener \<in> L then (\<lambda>a. if a = eid_agent (ex_id (ex s i)) then map_option (sdiscard i) (map_of (agent_map s) a) else map_of (agent_map s) a)
         else map_of (agent_map s))
     \<and> (\<forall>p. map_of (pr_pool (pr s' p)) = (if Process_Listener p \<in> L
         then (\<lambda>m. if m = ex_id (ex s i) \<and> map_of (pr_pool (pr s p)) m = Some i then None else map_of (pr_pool (pr s p)) m)
         else map_of (pr_pool (pr s p))))"

lemma told_start: "told i {} s s"
  by (simp add: told_def same_frame_def)

lemma sdiscard_idem [simp]: "sdiscard i (sdiscard i xs) = sdiscard i xs"
  by (simp add: sdiscard_def)

lemma process_notify_facts:
  assumes "p < length (po_processes s)"
  shows "same_frame s (process_notify p i s)" "mg_pool (process_notify p i s) = mg_pool s" "agent_map (process_notify p i s) = agent_map s"
    "pr_pool (pr (process_notify p i s) q) = (if q = p then pool_notify (pr_pool (pr s p)) (ex_id (ex s i)) i else pr_pool (pr s q))"
  using assms by (auto simp: process_notify_def pr_request_shutdown_def Let_def pr_set_pr same_frame_def ex_def)

lemma told_step:
  assumes t: "told i L s s'" and l: "l = Manager_Listener \<or> (\<exists>p < length (po_processes s). l = Process_Listener p)"
    and key: "map_of (agent_map s) (eid_agent (ex_id (ex s i))) \<noteq> None"
  shows "\<exists>s''. notify_listener i l s' = Inr s'' \<and> told i (insert l L) s s''"
proof -
  have fr: "same_frame s s'" and e: "ex s' i = ex s i" using t by (auto simp: told_def same_frame_def ex_def)
  show ?thesis
  proof (cases l)
    case (Process_Listener p)
    then have p: "p < length (po_processes s')" using l fr by (auto simp: same_frame_def)
    note f = process_notify_facts[OF p, of i]
    have "same_frame s (process_notify p i s')" using fr f(1) unfolding same_frame_def by auto
    then have "told i (insert l L) s (process_notify p i s')"
      using t f(2-4) e unfolding told_def Process_Listener by (auto simp: map_of_pool_notify fun_eq_iff)
    then show ?thesis using Process_Listener by (simp add: notify_listener_def)
  next
    case Manager_Listener
    obtain xs where xs: "map_of (agent_map s') (eid_agent (ex_id (ex s i))) = Some xs"
      using key t unfolding told_def by (cases "Manager_Listener \<in> L") auto
    let ?s = "s'\<lparr>agent_map := dset (agent_map s') (eid_agent (ex_id (ex s i))) (sdiscard i xs), mg_pool := pool_notify (mg_pool s') (ex_id (ex s i)) i\<rparr>"
    have "same_frame s ?s" using fr by (simp add: same_frame_def pr_def)
    moreover have "pr ?s p = pr s' p" for p by (simp add: pr_def)
    ultimately have "told i (insert l L) s ?s"
      using t xs unfolding told_def Manager_Listener by (auto simp: map_of_pool_notify fun_eq_iff split: if_splits)
    then show ?thesis using Manager_Listener xs e by (simp add: notify_listener_def manager_notify_def)
  qed
qed

lemma told_all:
  assumes "\<And>l. l \<in> set ls \<Longrightarrow> l = Manager_Listener \<or> (\<exists>p < length (po_processes s). l = Process_Listener p)"
    "map_of (agent_map s) (eid_agent (ex_id (ex s i))) \<noteq> None" "told i L s s'"
  shows "\<exists>s''. rfold (notify_listener i) ls s' = Inr s'' \<and> told i (set ls \<union> L) s s''"
  using assms(1,3)
proof (induction ls arbitrary: L s')
  case (Cons l ls)
  obtain s1 where s1: "notify_listener i l s' = Inr s1" "told i (insert l L) s s1"
    using told_step[OF Cons.prems(2) _ assms(2), of l] Cons.prems(1)[of l] by auto
  show ?case using Cons.IH[OF _ s1(2)] Cons.prems(1) s1(1) by auto
qed simp

section \<open>The invariant\<close>

definition members_ok :: "pools \<Rightarrow> bool" where
  \<comment> \<open>an executor tells both of its pools; one that is not shutting down is the one that the manager hands out\<close>
  "members_ok s \<longleftrightarrow> (\<forall>i < length (po_executors s).
     Manager_Listener \<in> set (ex_listeners (ex s i))
     \<and> (\<forall>p. Process_Listener p \<in> set (ex_listeners (ex s i)) \<longrightarrow> p < length (po_processes s))
     \<and> (ex_shut_down (ex s i) \<longrightarrow> ex_shutting_down (ex s i))
     \<and> map_of (agent_map s) (eid_agent (ex_id (ex s i))) \<noteq> None
     \<and> (\<not> ex_shutting_down (ex s i) \<longrightarrow> map_of (mg_pool s) (ex_id (ex s i)) = Some i))"

definition manager_ok :: "pools \<Rightarrow> bool" where
  "manager_ok s \<longleftrightarrow> wf_dict (mg_pool s) \<and> (\<forall>mid i. map_of (mg_pool s) mid = Some i \<longrightarrow>
     i < length (po_executors s) \<and> ex_id (ex s i) = mid \<and> \<not> ex_shut_down (ex s i))"

definition agents_ok :: "pools \<Rightarrow> bool" where
  \<comment> \<open>the executors of an agent are those that are not down yet\<close>
  "agents_ok s \<longleftrightarrow> (\<forall>a xs. map_of (agent_map s) a = Some xs \<longrightarrow> distinct xs
     \<and> set xs = {i. i < length (po_executors s) \<and> eid_agent (ex_id (ex s i)) = a \<and> \<not> ex_shut_down (ex s i)})"

definition processes_ok :: "pools \<Rightarrow> bool" where
  "processes_ok s \<longleftrightarrow> (\<forall>p < length (po_processes s). wf_dict (pr_pool (pr s p)) \<and> (\<forall>mid i. map_of (pr_pool (pr s p)) mid = Some i \<longrightarrow>
     i < length (po_executors s) \<and> ex_id (ex s i) = mid \<and> Process_Listener p \<in> set (ex_listeners (ex s i)) \<and> \<not> ex_shut_down (ex s i)))
   \<and> wf_dict (pp_pool s) \<and> (\<forall>h p. map_of (pp_pool s) h = Some p \<longrightarrow> p < length (po_processes s) \<and> pr_hash (pr s p) = h)"

definition pools_inv :: "pools \<Rightarrow> bool" where
  "pools_inv s \<longleftrightarrow> members_ok s \<and> manager_ok s \<and> agents_ok s \<and> processes_ok s"

lemmas inv_parts = members_ok_def manager_ok_def agents_ok_def processes_ok_def

lemma new_pools_inv: "pools_inv (new_pools cap retention)"
  by (simp add: pools_inv_def inv_parts new_pools_def)

lemma pools_invD:
  assumes "pools_inv s"
  shows "i < length (po_executors s) \<Longrightarrow> Manager_Listener \<in> set (ex_listeners (ex s i))"
    "i < length (po_executors s) \<Longrightarrow> Process_Listener p \<in> set (ex_listeners (ex s i)) \<Longrightarrow> p < length (po_processes s)"
    "i < length (po_executors s) \<Longrightarrow> ex_shut_down (ex s i) \<Longrightarrow> ex_shutting_down (ex s i)"
    "i < length (po_executors s) \<Longrightarrow> map_of (agent_map s) (eid_agent (ex_id (ex s i))) \<noteq> None"
    "i < length (po_executors s) \<Longrightarrow> \<not> ex_shutting_down (ex s i) \<Longrightarrow> map_of (mg_pool s) (ex_id (ex s i)) = Some i"
    "map_of (mg_pool s) mid = Some i \<Longrightarrow> i < length (po_executors s) \<and> ex_id (ex s i) = mid \<and> \<not> ex_shut_down (ex s i)"
    "map_of (agent_map s) a = Some xs \<Longrightarrow> distinct xs \<and> set xs = {i. i < length (po_executors s) \<and> eid_agent (ex_id (ex s i)) = a \<and> \<not> ex_shut_down (ex s i)}"
    "p < length (po_processes s) \<Longrightarrow> map_of (pr_pool (pr s p)) mid = Some i \<Longrightarrow>
       i < length (po_executors s) \<and> ex_id (ex s i) = mid \<and> Process_Listener p \<in> set (ex_listeners (ex s i)) \<and> \<not> ex_shut_down (ex s i)"
    "map_of (pp_pool s) h = Some p \<Longrightarrow> p < length (po_processes s) \<and> pr_hash (pr s p) = h"
    "wf_dict (mg_pool s)" "p < length (po_processes s) \<Longrightarrow> wf_dict (pr_pool (pr s p))" "wf_dict (pp_pool s)"
  using assms unfolding pools_inv_def members_ok_def manager_ok_def agents_ok_def processes_ok_def by blast+

lemma set_ex_inv:
  assumes inv: "pools_inv s" and i: "i < length (po_executors s)" and e: "ex_id e = ex_id (ex s i)" "ex_listeners e = ex_listeners (ex s i)"
    "ex_shut_down e = ex_shut_down (ex s i)" "ex_shutting_down (ex s i) \<Longrightarrow> ex_shutting_down e"
  shows "pools_inv (set_ex i e s)"
proof -
  note look = ex_set_ex[OF i, of e]
  have "members_ok (set_ex i e s)"
    unfolding members_ok_def set_ex_simps look
  proof (intro allI impI)
    fix j assume j: "j < length (po_executors s)"
    show "Manager_Listener \<in> set (ex_listeners (if j = i then e else ex s j)) \<and>
      (\<forall>p. Process_Listener p \<in> set (ex_listeners (if j = i then e else ex s j)) \<longrightarrow> p < length (po_processes s)) \<and>
      (ex_shut_down (if j = i then e else ex s j) \<longrightarrow> ex_shutting_down (if j = i then e else ex s j)) \<and>
      map_of (agent_map s) (eid_agent (ex_id (if j = i then e else ex s j))) \<noteq> None \<and>
      (\<not> ex_shutting_down (if j = i then e else ex s j) \<longrightarrow> map_of (mg_pool s) (ex_id (if j = i then e else ex s j)) = Some j)"
      using pools_invD(1-5)[OF inv j] e by (cases "j = i") auto
  qed
  moreover have "manager_ok (set_ex i e s)"
    using inv e unfolding pools_inv_def manager_ok_def set_ex_simps look by simp
  moreover have "agents_ok (set_ex i e s)"
    using inv e unfolding pools_inv_def agents_ok_def set_ex_simps look by (auto split: if_splits)
  moreover have "processes_ok (set_ex i e s)"
    using inv e unfolding pools_inv_def processes_ok_def set_ex_simps look by simp
  ultimately show ?thesis by (simp add: pools_inv_def)
qed

lemma set_pr_inv:
  assumes inv: "pools_inv s" and p: "p < length (po_processes s)" and x: "pr_hash x = pr_hash (pr s p)" "pr_pool x = pr_pool (pr s p)"
  shows "pools_inv (set_pr p x s)"
proof -
  have look: "pr_hash (pr (set_pr p x s) q) = pr_hash (pr s q)" "pr_pool (pr (set_pr p x s) q) = pr_pool (pr s q)" for q
    using x unfolding pr_set_pr[OF p] by auto
  show ?thesis using inv unfolding pools_inv_def inv_parts set_pr_simps look .
qed

lemma set_shutdown_inv:
  assumes inv: "pools_inv s" and i: "i < length (po_executors s)"
  shows "\<exists>s'. ex_set_shutdown i s = Inr s' \<and> pools_inv s' \<and> length (po_executors s') = length (po_executors s) \<and> length (po_processes s') = length (po_processes s)
    \<and> (\<forall>j. ex s' j = (if j = i then (ex s i)\<lparr>ex_shut_down := True, ex_shutting_down := True\<rparr> else ex s j))
    \<and> (\<forall>a. map_of (agent_map s') a = (if a = eid_agent (ex_id (ex s i)) then map_option (sdiscard i) (map_of (agent_map s) a) else map_of (agent_map s) a))
    \<and> max_executors_per_agent s' = max_executors_per_agent s"
proof -
  let ?e = "(ex s i)\<lparr>ex_shut_down := True, ex_shutting_down := True\<rparr>"
  let ?s = "set_ex i ?e s"
  note look = ex_set_ex[OF i, of ?e]
  have "\<exists>s'. rfold (notify_listener i) (ex_listeners (ex s i)) ?s = Inr s' \<and> told i (set (ex_listeners (ex s i)) \<union> {}) ?s s'"
  proof (rule told_all[OF _ _ told_start])
    fix l assume "l \<in> set (ex_listeners (ex s i))"
    then show "l = Manager_Listener \<or> (\<exists>p < length (po_processes ?s). l = Process_Listener p)"
      using pools_invD(2)[OF inv i] set_pr_simps(1) set_ex_simps(2) by (metis listener.exhaust)
  qed (use pools_invD(4)[OF inv i] look in simp)
  then obtain s' where s': "ex_set_shutdown i s = Inr s'" and t: "told i (set (ex_listeners (ex s i))) ?s s'"
    by (auto simp: ex_set_shutdown_def)
  have fr: "po_executors s' = po_executors ?s" "length (po_processes s') = length (po_processes s)" "pp_pool s' = pp_pool s"
      "\<And>p. pr_hash (pr s' p) = pr_hash (pr s p)" "max_executors_per_agent s' = max_executors_per_agent s"
    using t by (auto simp: told_def same_frame_def)
  have e: "ex s' j = (if j = i then ?e else ex s j)" for j
    using fr(1) look[of j] by (simp add: ex_def)
  have len: "length (po_executors s') = length (po_executors s)" using fr(1) by simp
  have idi: "ex_id (ex ?s i) = ex_id (ex s i)" using look[of i] by simp
  note t' = t[unfolded told_def set_ex_simps idi]
  have mg: "map_of (mg_pool s') m = (if m = ex_id (ex s i) \<and> map_of (mg_pool s) m = Some i then None else map_of (mg_pool s) m)" for m
    using t' pools_invD(1)[OF inv i] by simp
  have ag: "map_of (agent_map s') a = (if a = eid_agent (ex_id (ex s i)) then map_option (sdiscard i) (map_of (agent_map s) a) else map_of (agent_map s) a)" for a
    using t' pools_invD(1)[OF inv i] by simp
  have prs: "map_of (pr_pool (pr s' p)) m = (if Process_Listener p \<in> set (ex_listeners (ex s i)) \<and> m = ex_id (ex s i) \<and> map_of (pr_pool (pr s p)) m = Some i then None
      else map_of (pr_pool (pr s p)) m)" for p m
  proof -
    have "map_of (pr_pool (pr s' p)) = (if Process_Listener p \<in> set (ex_listeners (ex s i))
        then \<lambda>m. if m = ex_id (ex s i) \<and> map_of (pr_pool (pr s p)) m = Some i then None else map_of (pr_pool (pr s p)) m
        else map_of (pr_pool (pr s p)))" using t' by blast
    then show ?thesis by auto
  qed
  have wf: "wf_dict (mg_pool s')" "\<And>p. p < length (po_processes s) \<Longrightarrow> wf_dict (pr_pool (pr s' p))"
    using t pools_invD(10,11)[OF inv] unfolding told_def set_ex_simps by auto
  have "members_ok s'"
    unfolding members_ok_def len
  proof (intro allI impI)
    fix j assume j: "j < length (po_executors s)"
    show "Manager_Listener \<in> set (ex_listeners (ex s' j)) \<and> (\<forall>p. Process_Listener p \<in> set (ex_listeners (ex s' j)) \<longrightarrow> p < length (po_processes s'))
      \<and> (ex_shut_down (ex s' j) \<longrightarrow> ex_shutting_down (ex s' j)) \<and> map_of (agent_map s') (eid_agent (ex_id (ex s' j))) \<noteq> None
      \<and> (\<not> ex_shutting_down (ex s' j) \<longrightarrow> map_of (mg_pool s') (ex_id (ex s' j)) = Some j)"
      using pools_invD(1-5)[OF inv j] unfolding fr(2) e mg ag by (auto split: if_splits)
  qed
  moreover have "manager_ok s'"
    using wf(1) pools_invD(6)[OF inv] unfolding manager_ok_def len e mg by (auto split: if_splits)
  moreover have "agents_ok s'"
    unfolding agents_ok_def len
  proof (intro allI impI)
    fix a xs assume xs: "map_of (agent_map s') a = Some xs"
    show "distinct xs \<and> set xs = {j. j < length (po_executors s) \<and> eid_agent (ex_id (ex s' j)) = a \<and> \<not> ex_shut_down (ex s' j)}"
      using xs pools_invD(7)[OF inv, of a] unfolding ag e by (auto split: if_splits)
  qed
  moreover have "processes_ok s'"
    unfolding processes_ok_def len fr(2,3,4)
  proof (intro conjI allI impI)
    fix p mid j assume p: "p < length (po_processes s)" and j: "map_of (pr_pool (pr s' p)) mid = Some j"
    then have old: "map_of (pr_pool (pr s p)) mid = Some j" unfolding prs by (auto split: if_splits)
    note facts = pools_invD(8)[OF inv p old]
    have "j \<noteq> i" using j old facts unfolding prs by (auto split: if_splits)
    then show "j < length (po_executors s)" "ex_id (ex s' j) = mid" "Process_Listener p \<in> set (ex_listeners (ex s' j))" "\<not> ex_shut_down (ex s' j)"
      using facts unfolding e by auto
  qed (use wf(2) pools_invD(9,12)[OF inv] in auto)
  ultimately have "pools_inv s'" by (simp add: pools_inv_def)
  then show ?thesis by (intro exI[of _ s'] conjI allI e ag s' len fr(2,5))
qed

lemma listed_members:
  assumes "pools_inv s" "p < length (po_processes s)" "i \<in> set (map snd (pr_pool (pr s p)))"
  shows "i < length (po_executors s)"
proof -
  obtain mid where "(mid, i) \<in> set (pr_pool (pr s p))" using assms(3) by auto
  from map_of_SomeI[OF pools_invD(11)[OF assms(1,2)] this] show ?thesis using pools_invD(8)[OF assms(1,2)] by blast
qed

definition no_more_running :: "pools \<Rightarrow> pools \<Rightarrow> bool" where
  \<comment> \<open>the same objects, and none is running that was not before\<close>
  "no_more_running s s' \<longleftrightarrow> length (po_executors s') = length (po_executors s) \<and> length (po_processes s') = length (po_processes s)
     \<and> max_executors_per_agent s' = max_executors_per_agent s
     \<and> (\<forall>i < length (po_executors s). ex_id (ex s' i) = ex_id (ex s i)
          \<and> (ex_shutting_down (ex s i) \<longrightarrow> ex_shutting_down (ex s' i)) \<and> (ex_shut_down (ex s i) \<longrightarrow> ex_shut_down (ex s' i)))
     \<and> (\<forall>a. map_of (agent_map s) a \<noteq> None \<longrightarrow> map_of (agent_map s') a \<noteq> None)"

lemma no_more_running_refl: "no_more_running s s"
  by (simp add: no_more_running_def)

lemma no_more_running_trans: "no_more_running s s' \<Longrightarrow> no_more_running s' s'' \<Longrightarrow> no_more_running s s''"
  unfolding no_more_running_def by (elim conjE) (intro conjI allI impI; simp)

lemma set_shutdown_less:
  assumes "pools_inv s" "i < length (po_executors s)"
  obtains s' where "ex_set_shutdown i s = Inr s'" "pools_inv s'" "no_more_running s s'"
proof -
  obtain s' where s': "ex_set_shutdown i s = Inr s'" "pools_inv s'" "length (po_executors s') = length (po_executors s)" "length (po_processes s') = length (po_processes s)"
      "\<And>j. ex s' j = (if j = i then (ex s i)\<lparr>ex_shut_down := True, ex_shutting_down := True\<rparr> else ex s j)"
      "\<And>a. map_of (agent_map s') a = (if a = eid_agent (ex_id (ex s i)) then map_option (sdiscard i) (map_of (agent_map s) a) else map_of (agent_map s) a)"
      "max_executors_per_agent s' = max_executors_per_agent s"
    using set_shutdown_inv[OF assms] by metis
  then have "no_more_running s s'" unfolding no_more_running_def by simp
  then show thesis using s'(1,2) that by blast
qed

lemma rfold_set_shutdown:
  assumes "pools_inv s" "\<And>i. i \<in> set is \<Longrightarrow> i < length (po_executors s)"
  shows "\<exists>s'. rfold ex_set_shutdown is s = Inr s' \<and> pools_inv s' \<and> no_more_running s s'"
  using assms
proof (induction "is" arbitrary: s)
  case Nil
  then show ?case by (simp add: no_more_running_refl)
next
  case (Cons i "is")
  obtain s1 where s1: "ex_set_shutdown i s = Inr s1" "pools_inv s1" "no_more_running s s1"
    using set_shutdown_less[OF Cons.prems(1)] Cons.prems(2) by (metis list.set_intros(1))
  have "j < length (po_executors s1)" if "j \<in> set is" for j
    using s1(3) Cons.prems(2) that by (simp add: no_more_running_def)
  from Cons.IH[OF s1(2) this] obtain s' where "rfold ex_set_shutdown is s1 = Inr s'" "pools_inv s'" "no_more_running s1 s'" by blast
  then show ?case using s1 no_more_running_trans by auto
qed

lemma connection_lost_less:
  assumes inv: "pools_inv s" and p: "p < length (po_processes s)"
  shows "\<exists>s'. connection_lost p s = Inr s' \<and> pools_inv s' \<and> no_more_running s s'"
proof -
  let ?s = "set_pr p ((pr s p)\<lparr>pr_shutting_down := True\<rparr>) s"
  have inv1: "pools_inv ?s" using set_pr_inv[OF inv p] by simp
  moreover have "no_more_running s ?s" by (simp add: no_more_running_def)
  moreover have "i < length (po_executors ?s)" if "i \<in> set (map snd (pr_pool (pr ?s p)))" for i
    using listed_members[OF inv1 _ that] p by simp
  ultimately show ?thesis using rfold_set_shutdown[of ?s] no_more_running_trans unfolding connection_lost_def Let_def by blast
qed

lemma set_ex_less:
  assumes "pools_inv s" "i < length (po_executors s)" "ex_id e = ex_id (ex s i)" "ex_listeners e = ex_listeners (ex s i)"
    "ex_shut_down e = ex_shut_down (ex s i)" "ex_shutting_down (ex s i) \<Longrightarrow> ex_shutting_down e"
  shows "pools_inv (set_ex i e s) \<and> no_more_running s (set_ex i e s)"
  using set_ex_inv[OF assms] assms ex_set_ex[OF assms(2), of e] by (simp add: no_more_running_def)

lemma request_shutdown_less:
  "pools_inv s \<Longrightarrow> i < length (po_executors s) \<Longrightarrow> pools_inv (ex_request_shutdown i s) \<and> no_more_running s (ex_request_shutdown i s)"
  using set_ex_less[of s i "(ex s i)\<lparr>ex_shutting_down := True\<rparr>"] by (simp add: ex_request_shutdown_def no_more_running_refl)

lemma flag_steps_less:
  assumes "pools_inv s" "i < length (po_executors s)"
  shows "pools_inv (touch now i s) \<and> no_more_running s (touch now i s)" "pools_inv (call_begin i s) \<and> no_more_running s (call_begin i s)"
    "pools_inv (call_end now i s) \<and> no_more_running s (call_end now i s)" "pools_inv (cleanup_member oldest i s) \<and> no_more_running s (cleanup_member oldest i s)"
  using set_ex_less[OF assms] request_shutdown_less[OF assms] assms(1)
  by (simp_all add: touch_def call_begin_def call_end_def cleanup_member_def no_more_running_refl)

lemma process_flags_less:
  assumes "pools_inv s" "p < length (po_processes s)" "pr_hash x = pr_hash (pr s p)" "pr_pool x = pr_pool (pr s p)"
  shows "pools_inv (set_pr p x s) \<and> no_more_running s (set_pr p x s)"
  using set_pr_inv[OF assms] by (simp add: no_more_running_def)

lemma pr_request_less:
  "pools_inv s \<Longrightarrow> p < length (po_processes s) \<Longrightarrow> pools_inv (pr_request_shutdown p s) \<and> no_more_running s (pr_request_shutdown p s)"
  using process_flags_less[of s p "(pr s p)\<lparr>pr_shutting_down := True\<rparr>"] by (simp add: pr_request_shutdown_def no_more_running_refl)

text \<open>The fields that the invariant does not read.\<close>

definition same_objects :: "pools \<Rightarrow> pools \<Rightarrow> bool" where
  "same_objects s s' \<longleftrightarrow> po_executors s' = po_executors s \<and> po_processes s' = po_processes s \<and> mg_pool s' = mg_pool s
     \<and> agent_map s' = agent_map s \<and> max_executors_per_agent s' = max_executors_per_agent s
     \<and> (wf_dict (pp_pool s) \<longrightarrow> wf_dict (pp_pool s')) \<and> (\<forall>h p. map_of (pp_pool s') h = Some p \<longrightarrow> map_of (pp_pool s) h = Some p)"

lemma same_objects_less: "pools_inv s \<Longrightarrow> same_objects s s' \<Longrightarrow> pools_inv s' \<and> no_more_running s s'"
proof -
  assume inv: "pools_inv s" and same: "same_objects s s'"
  have look: "ex s' i = ex s i" "pr s' p = pr s p" for i p using same by (simp_all add: same_objects_def ex_def pr_def)
  have eq: "po_executors s' = po_executors s" "po_processes s' = po_processes s" "mg_pool s' = mg_pool s" "agent_map s' = agent_map s"
      "max_executors_per_agent s' = max_executors_per_agent s" using same by (simp_all add: same_objects_def)
  have "members_ok s'" "manager_ok s'" "agents_ok s'"
    using inv unfolding pools_inv_def members_ok_def manager_ok_def agents_ok_def look eq by blast+
  moreover have "processes_ok s'"
    using inv same unfolding pools_inv_def processes_ok_def look eq same_objects_def by blast
  ultimately show ?thesis unfolding pools_inv_def no_more_running_def look eq by simp
qed

lemma pr_set_shutdown_less:
  assumes "pools_inv s" "p < length (po_processes s)"
  shows "pools_inv (pr_set_shutdown p s) \<and> no_more_running s (pr_set_shutdown p s)"
proof -
  let ?s = "set_pr p ((pr s p)\<lparr>pr_shut_down := True, pr_shutting_down := True\<rparr>) s"
  have 1: "pools_inv ?s \<and> no_more_running s ?s" using process_flags_less[OF assms] by simp
  have "same_objects ?s (pr_set_shutdown p s)"
    by (auto simp: same_objects_def pr_set_shutdown_def Let_def map_of_pool_notify split: if_splits)
  then show ?thesis using 1 same_objects_less no_more_running_trans by blast
qed

lemma pool_flags_less:
  assumes "pools_inv s"
  shows "pools_inv (process_pool_request_shutdown s) \<and> no_more_running s (process_pool_request_shutdown s)"
    "pools_inv (manager_request_shutdown s) \<and> no_more_running s (manager_request_shutdown s)"
    "pools_inv (manager_start s) \<and> no_more_running s (manager_start s)"
  by (rule same_objects_less [OF assms],
      simp add: same_objects_def process_pool_request_shutdown_def manager_request_shutdown_def manager_start_def)+

section \<open>Counting the executors of an agent\<close>

definition running_executors :: "string \<Rightarrow> pools \<Rightarrow> nat list" where
  "running_executors a s = filter (\<lambda>i. ex_running (ex s i)) (dget (agent_map s) a [])"

definition running_set :: "string \<Rightarrow> pools \<Rightarrow> nat set" where
  "running_set a s = {i. i < length (po_executors s) \<and> eid_agent (ex_id (ex s i)) = a \<and> \<not> ex_shutting_down (ex s i)}"

lemma finite_running: "finite (running_set a s)"
  unfolding running_set_def by simp

lemma running_executors_set:
  assumes "pools_inv s"
  shows "set (running_executors a s) = running_set a s" "distinct (running_executors a s)"
proof -
  have "set (running_executors a s) = running_set a s \<and> distinct (running_executors a s)"
  proof (cases "map_of (agent_map s) a")
    case None
    then have "running_set a s = {}" using pools_invD(4)[OF assms] unfolding running_set_def by blast
    then show ?thesis using None by (simp add: running_executors_def)
  next
    case (Some xs)
    then show ?thesis using pools_invD(7)[OF assms Some] pools_invD(3)[OF assms]
      by (auto simp: running_executors_def running_set_def ex_running_def)
  qed
  then show "set (running_executors a s) = running_set a s" "distinct (running_executors a s)" by auto
qed

lemma running_count: "pools_inv s \<Longrightarrow> length (running_executors a s) = card (running_set a s)"
  using running_executors_set[of s a] distinct_card by metis

lemma running_set_less: "no_more_running s s' \<Longrightarrow> running_set a s' \<subseteq> running_set a s"
  unfolding running_set_def no_more_running_def by auto

section \<open>Making room, and new members\<close>

lemma oldest_of_member: "oldest_of s is = Some i \<Longrightarrow> i \<in> set is \<and> (\<forall>j \<in> set is. ex_last_used (ex s i) \<le> ex_last_used (ex s j))"
proof (induction "is" arbitrary: i)
  case (Cons a "is")
  show ?case
  proof (cases "oldest_of s is")
    case None
    then have "is = []" by (cases "is") (auto split: option.splits if_splits)
    then show ?thesis using Cons.prems by simp
  next
    case (Some j)
    then show ?thesis using Cons.IH[OF Some] Cons.prems by (auto split: if_splits)
  qed
qed simp

lemma oldest_of_None: "oldest_of s is = None \<longleftrightarrow> is = []"
  by (cases "is") (auto split: option.splits if_splits)

lemma add_agent_inv:
  assumes inv: "pools_inv s" and none: "map_of (agent_map s) a = None"
  shows "pools_inv (s\<lparr>agent_map := dset (agent_map s) a []\<rparr>)"
proof -
  let ?s = "s\<lparr>agent_map := dset (agent_map s) a []\<rparr>"
  have look: "ex ?s i = ex s i" "pr ?s p = pr s p" for i p by (simp_all add: ex_def pr_def)
  have other: "eid_agent (ex_id (ex s i)) \<noteq> a" if "i < length (po_executors s)" for i
    using pools_invD(4)[OF inv that] none by metis
  have "members_ok ?s" using inv other unfolding pools_inv_def members_ok_def look by simp
  moreover have "manager_ok ?s" "processes_ok ?s" using inv unfolding pools_inv_def manager_ok_def processes_ok_def look by simp_all
  moreover have "agents_ok ?s"
    using inv other unfolding pools_inv_def agents_ok_def look by (auto split: if_splits)
  ultimately show ?thesis by (simp add: pools_inv_def)
qed

lemma capacity_check_facts:
  assumes inv: "pools_inv s" and k: "pre_create_capacity_check mid s = Inr k"
  shows "pools_inv k" "no_more_running s k" "map_of (agent_map k) (eid_agent mid) \<noteq> None"
    "int (card (running_set (eid_agent mid) s)) \<le> max_executors_per_agent s \<Longrightarrow> int (card (running_set (eid_agent mid) k)) \<le> max_executors_per_agent s - 1"
proof -
  let ?a = "eid_agent mid"
  let ?s = "s\<lparr>agent_map := (if has_key (agent_map s) ?a then agent_map s else dset (agent_map s) ?a [])\<rparr>"
  have look: "ex ?s i = ex s i" "pr ?s p = pr s p" for i p by (simp_all add: ex_def pr_def)
  have inv1: "pools_inv ?s"
    using add_agent_inv[OF inv, of ?a] inv by (cases "has_key (agent_map s) ?a") (simp_all add: has_key_def)
  have less1: "no_more_running s ?s" unfolding no_more_running_def look by (simp add: has_key_def)
  have key1: "map_of (agent_map ?s) ?a \<noteq> None" by (simp add: has_key_def)
  have set1: "running_set ?a ?s = running_set ?a s" unfolding running_set_def look by simp
  have "filter (\<lambda>i. ex_running (ex ?s i)) (dget (agent_map s) ?a []) = running_executors ?a ?s"
    unfolding running_executors_def by (simp add: has_key_def dget_def split: option.splits)
  then have check: "pre_create_capacity_check mid s = (if int (length (running_executors ?a ?s)) \<ge> max_executors_per_agent s
      then (case oldest_of ?s (running_executors ?a ?s) of None \<Rightarrow> Inl ValueError | Some i \<Rightarrow> Inr (ex_request_shutdown i ?s)) else Inr ?s)"
    unfolding pre_create_capacity_check_def Let_def by simp
  have "pools_inv k \<and> no_more_running s k \<and> map_of (agent_map k) ?a \<noteq> None
    \<and> (int (card (running_set ?a s)) \<le> max_executors_per_agent s \<longrightarrow> int (card (running_set ?a k)) \<le> max_executors_per_agent s - 1)"
  proof (cases "int (length (running_executors ?a ?s)) \<ge> max_executors_per_agent s")
    case True
    then obtain i where i: "oldest_of ?s (running_executors ?a ?s) = Some i" "k = ex_request_shutdown i ?s"
      using check k by (auto split: option.splits)
    have m: "i \<in> running_set ?a ?s" using oldest_of_member[OF i(1)] running_executors_set(1)[OF inv1] by blast
    then have len: "i < length (po_executors ?s)" by (simp add: running_set_def)
    have le: "pools_inv k \<and> no_more_running ?s k" unfolding i(2) by (rule request_shutdown_less[OF inv1 len])
    have "i \<notin> running_set ?a k"
      using len ex_set_ex[OF len, of "(ex ?s i)\<lparr>ex_shutting_down := True\<rparr>" i] unfolding i(2) ex_request_shutdown_def running_set_def by auto
    then have "running_set ?a k \<subset> running_set ?a ?s" using running_set_less[of ?s k ?a] le m by blast
    from psubset_card_mono[OF finite_running this] have "card (running_set ?a k) < card (running_set ?a s)" unfolding set1 .
    moreover have "map_of (agent_map k) ?a \<noteq> None" using key1 le unfolding no_more_running_def by blast
    ultimately show ?thesis using le less1 no_more_running_trans by (intro conjI impI) (blast, blast, blast, linarith)
  next
    case False
    then have "k = ?s" using check k by simp
    then show ?thesis using inv1 less1 key1 False running_count[OF inv1, of ?a] set1 by simp
  qed
  then show "pools_inv k" "no_more_running s k" "map_of (agent_map k) ?a \<noteq> None"
    "int (card (running_set ?a s)) \<le> max_executors_per_agent s \<Longrightarrow> int (card (running_set ?a k)) \<le> max_executors_per_agent s - 1" by blast+
qed

lemma create_process_inv:
  assumes "pools_inv s" "create_process h s = (p, k)"
  shows "pools_inv k" "p < length (po_processes k)" "length (po_processes s) \<le> length (po_processes k)" "po_executors k = po_executors s"
    "agent_map k = agent_map s" "max_executors_per_agent k = max_executors_per_agent s"
proof -
  have k: "k = s\<lparr>po_processes := po_processes s @ [\<lparr>pr_hash = h, pr_pool = [], pr_shutting_down = False, pr_shut_down = False\<rparr>],
       pp_pool := dset (pp_pool s) h p\<rparr>" "p = length (po_processes s)"
    using assms(2) by (auto simp: create_process_def Let_def)
  have ex: "ex k i = ex s i" for i by (simp add: k ex_def)
  have pr: "q < length (po_processes s) \<Longrightarrow> pr k q = pr s q" "pr k (length (po_processes s)) = \<lparr>pr_hash = h, pr_pool = [], pr_shutting_down = False, pr_shut_down = False\<rparr>" for q
    by (simp_all add: k pr_def nth_append)
  have "members_ok k" using assms(1) unfolding pools_inv_def members_ok_def ex by (auto simp: k less_Suc_eq)
  moreover have "manager_ok k" "agents_ok k" using assms(1) unfolding pools_inv_def manager_ok_def agents_ok_def ex by (simp_all add: k)
  moreover have "processes_ok k"
    using assms(1) pr unfolding pools_inv_def processes_ok_def ex by (auto simp: k less_Suc_eq split: if_splits)
  ultimately show "pools_inv k" by (simp add: pools_inv_def)
qed (use assms(2) in \<open>auto simp: create_process_def Let_def\<close>)

lemma create_executor_inv:
  assumes inv: "pools_inv s" and p: "p < length (po_processes s)" and key: "map_of (agent_map s) (eid_agent mid) \<noteq> None"
    and old: "\<forall>i < length (po_executors s). ex_id (ex s i) = mid \<longrightarrow> ex_shutting_down (ex s i)"
    and k: "create_executor now p mid s = (i, k)" "manager_register mid i k = Inr k'"
  shows "pools_inv k'" "i = length (po_executors s)" "length (po_executors k') = Suc i" "length (po_processes k') = length (po_processes s)"
    "j < i \<Longrightarrow> ex k' j = ex s j" "ex_id (ex k' i) = mid" "max_executors_per_agent k' = max_executors_per_agent s"
    "map_of (agent_map s) a \<noteq> None \<Longrightarrow> map_of (agent_map k') a \<noteq> None"
    "ex_running (ex k' i)" "map_of (mg_pool k') mid = Some i"
proof -
  let ?n = "length (po_executors s)"
  obtain xs where xs: "map_of (agent_map s) (eid_agent mid) = Some xs" using key by blast
  let ?new = "\<lparr>ex_id = mid, ex_in_flight = 0, ex_last_used = now, ex_shutting_down = False, ex_shut_down = False,
    ex_listeners = [Process_Listener p, Manager_Listener]\<rparr>"
  from k(1) have k1: "i = ?n" "k = set_pr p ((pr s p)\<lparr>pr_pool := dset (pr_pool (pr s p)) mid i\<rparr>)
       (s\<lparr>po_executors := po_executors s @ [?new\<lparr>ex_listeners := [Process_Listener p]\<rparr>]\<rparr>)"
    by (auto simp: create_executor_def Let_def)
  have k': "po_executors k' = po_executors s @ [?new]" "po_processes k' = (po_processes s)[p := (pr s p)\<lparr>pr_pool := dset (pr_pool (pr s p)) mid i\<rparr>]"
      "mg_pool k' = dset (mg_pool s) mid i" "agent_map k' = dset (agent_map s) (eid_agent mid) (sadd i xs)" "pp_pool k' = pp_pool s"
      "max_executors_per_agent k' = max_executors_per_agent s"
    using k(2) xs unfolding manager_register_def k1(2) by (auto simp: Let_def set_ex_def set_pr_def ex_def k1(1) pr_def)
  have look: "ex k' j = (if j < ?n then ex s j else ?new)" if "j \<le> ?n" for j using that by (simp add: ex_def k' nth_append)
  have prs: "pr_pool (pr k' q) = (if q = p then dset (pr_pool (pr s p)) mid i else pr_pool (pr s q))" "pr_hash (pr k' q) = pr_hash (pr s q)" for q
    using p by (cases "q = p"; simp add: pr_def k')+
  have len: "length (po_executors k') = Suc ?n" "length (po_processes k') = length (po_processes s)" by (simp_all add: k')
  have down: "i < length (po_executors s) \<Longrightarrow> \<not> ex_shutting_down (ex s i) \<Longrightarrow> ex_id (ex s i) \<noteq> mid" for i using old by blast
  have "members_ok k'"
    unfolding members_ok_def len
  proof (intro allI impI)
    fix j assume j: "j < Suc ?n"
    show "Manager_Listener \<in> set (ex_listeners (ex k' j)) \<and> (\<forall>p. Process_Listener p \<in> set (ex_listeners (ex k' j)) \<longrightarrow> p < length (po_processes s))
      \<and> (ex_shut_down (ex k' j) \<longrightarrow> ex_shutting_down (ex k' j)) \<and> map_of (agent_map k') (eid_agent (ex_id (ex k' j))) \<noteq> None
      \<and> (\<not> ex_shutting_down (ex k' j) \<longrightarrow> map_of (mg_pool k') (ex_id (ex k' j)) = Some j)"
    proof (cases "j < ?n")
      case True
      then have same: "ex k' j = ex s j" using look[of j] by simp
      have "\<not> ex_shutting_down (ex s j) \<Longrightarrow> map_of (mg_pool k') (ex_id (ex s j)) = Some j"
        using pools_invD(5)[OF inv True] down[OF True] unfolding k'(3) by simp
      moreover have "map_of (agent_map k') (eid_agent (ex_id (ex s j))) \<noteq> None" using pools_invD(4)[OF inv True] unfolding k'(4) by simp
      ultimately show ?thesis using pools_invD(1-3)[OF inv True] unfolding same by blast
    next
      case False
      then have "j = ?n" using j by simp
      then show ?thesis using look[of j] p unfolding k'(3,4) by (simp add: k1(1))
    qed
  qed
  moreover have "manager_ok k'"
    unfolding manager_ok_def len k'(3)
  proof (intro conjI allI impI)
    fix m j assume j: "map_of (dset (mg_pool s) mid i) m = Some j"
    have "m = mid \<and> j = ?n \<or> map_of (mg_pool s) m = Some j" using j k1(1) by (cases "m = mid") simp_all
    then consider "m = mid" "j = ?n" | "map_of (mg_pool s) m = Some j" by blast
    then have "j < Suc ?n \<and> ex_id (ex k' j) = m \<and> \<not> ex_shut_down (ex k' j)"
    proof cases
      case 1
      then show ?thesis using look[of j] by simp
    next
      case 2
      then show ?thesis using pools_invD(6)[OF inv 2] look[of j] by simp
    qed
    then show "j < Suc ?n" "ex_id (ex k' j) = m" "\<not> ex_shut_down (ex k' j)" by auto
  qed (use pools_invD(10)[OF inv] in simp)
  moreover have "agents_ok k'"
    unfolding agents_ok_def len
  proof (intro allI impI)
    fix a ys assume ys: "map_of (agent_map k') a = Some ys"
    have new: "{j. j < Suc ?n \<and> eid_agent (ex_id (ex k' j)) = a \<and> \<not> ex_shut_down (ex k' j)}
        = {j. j < ?n \<and> eid_agent (ex_id (ex s j)) = a \<and> \<not> ex_shut_down (ex s j)} \<union> (if eid_agent mid = a then {?n} else {})"
      using look by (auto simp: less_Suc_eq)
    show "distinct ys \<and> set ys = {j. j < Suc ?n \<and> eid_agent (ex_id (ex k' j)) = a \<and> \<not> ex_shut_down (ex k' j)}"
    proof (cases "eid_agent mid = a")
      case True
      then have "ys = sadd i xs" using ys unfolding k'(4) by simp
      then show ?thesis unfolding new using pools_invD(7)[OF inv xs] True by (simp add: k1(1))
    next
      case False
      then have "map_of (agent_map s) a = Some ys" using ys unfolding k'(4) by simp
      from pools_invD(7)[OF inv this] show ?thesis unfolding new using False by simp
    qed
  qed
  moreover have "processes_ok k'"
    unfolding processes_ok_def len prs k'(5)
  proof (intro conjI allI impI)
    fix q m j assume q: "q < length (po_processes s)" and j: "map_of (if q = p then dset (pr_pool (pr s p)) mid i else pr_pool (pr s q)) m = Some j"
    have "q = p \<and> m = mid \<and> j = ?n \<or> map_of (pr_pool (pr s q)) m = Some j" using j k1(1) by (cases "q = p"; cases "m = mid") simp_all
    then consider "q = p" "m = mid" "j = ?n" | "map_of (pr_pool (pr s q)) m = Some j" by blast
    then have "j < Suc ?n \<and> ex_id (ex k' j) = m \<and> Process_Listener q \<in> set (ex_listeners (ex k' j)) \<and> \<not> ex_shut_down (ex k' j)"
    proof cases
      case 1
      then show ?thesis using look[of j] by simp
    next
      case 2
      then show ?thesis using pools_invD(8)[OF inv q 2] look[of j] by simp
    qed
    then show "j < Suc ?n" "ex_id (ex k' j) = m" "Process_Listener q \<in> set (ex_listeners (ex k' j))" "\<not> ex_shut_down (ex k' j)" by auto
  qed (use pools_invD(9,11,12)[OF inv] in auto)
  ultimately show "pools_inv k'" by (simp add: pools_inv_def)
  show "i = length (po_executors s)" "length (po_executors k') = Suc i" "length (po_processes k') = length (po_processes s)" "max_executors_per_agent k' = max_executors_per_agent s"
    using len k1(1) k'(6) by simp_all
  show "j < i \<Longrightarrow> ex k' j = ex s j" "ex_id (ex k' i) = mid" "ex_running (ex k' i)" "map_of (mg_pool k') mid = Some i"
    using look[of j] look[of i] k1(1) k'(3) by (simp_all add: ex_running_def)
  show "map_of (agent_map s) a \<noteq> None \<Longrightarrow> map_of (agent_map k') a \<noteq> None" unfolding k'(4) by simp
qed

section \<open>Every step keeps the invariant\<close>

definition getting_ok :: "pool_system \<Rightarrow> bool" where
  \<comment> \<open>while a member is created, the pool has no running one under its id, and nobody else creates it\<close>
  "getting_ok s \<longleftrightarrow> (\<forall>t g. getting_at s t g \<longrightarrow>
       map_of (agent_map (ps_pools s)) (eid_agent (wanted g)) \<noteq> None
     \<and> (\<forall>i < length (po_executors (ps_pools s)). ex_id (ex (ps_pools s) i) = wanted g \<longrightarrow> ex_shutting_down (ex (ps_pools s) i))
     \<and> (\<forall>mid p. g = Has_Process mid p \<or> g = Starts_Executor mid p \<longrightarrow> p < length (po_processes (ps_pools s))))
   \<and> (\<forall>t u g h. getting_at s t g \<longrightarrow> getting_at s u h \<longrightarrow> wanted g = wanted h \<longrightarrow> t = u)"

definition system_inv :: "pool_system \<Rightarrow> bool" where
  "system_inv s \<longleftrightarrow> pools_inv (ps_pools s) \<and> getting_ok s"

definition orderly_inv :: "pool_system \<Rightarrow> bool" where
  \<comment> \<open>no agent has too many executors, nor will it when a member that is created is up\<close>
  "orderly_inv s \<longleftrightarrow>
     (\<forall>a. int (card (running_set a (ps_pools s))) \<le> max_executors_per_agent (ps_pools s))
   \<and> (\<forall>t g. getting_at s t g \<longrightarrow> int (card (running_set (eid_agent (wanted g)) (ps_pools s))) \<le> max_executors_per_agent (ps_pools s) - 1)
   \<and> (\<forall>t u g h. getting_at s t g \<longrightarrow> getting_at s u h \<longrightarrow> eid_agent (wanted g) = eid_agent (wanted h) \<longrightarrow> t = u)"

lemma getting_at_simps:
  "getting_at (goes_on t g k s) u h \<longleftrightarrow> (if u = t then h = g else getting_at s u h)"
  "getting_at (returns t k s) u h \<longleftrightarrow> u \<noteq> t \<and> getting_at s u h"
  "getting_at (with_pools k s) u h \<longleftrightarrow> getting_at s u h"
  by (auto simp: getting_at_def goes_on_def returns_def with_pools_def)

lemma ps_pools_simps [simp]: "ps_pools (goes_on t g k s) = k" "ps_pools (returns t k s) = k" "ps_pools (with_pools k s) = k"
  by (simp_all add: goes_on_def returns_def with_pools_def)

lemma getting_okD:
  assumes "getting_ok s"
  shows "getting_at s t g \<Longrightarrow> map_of (agent_map (ps_pools s)) (eid_agent (wanted g)) \<noteq> None"
    "getting_at s t g \<Longrightarrow> i < length (po_executors (ps_pools s)) \<Longrightarrow> ex_id (ex (ps_pools s) i) = wanted g \<Longrightarrow> ex_shutting_down (ex (ps_pools s) i)"
    "getting_at s t (Has_Process mid p) \<Longrightarrow> p < length (po_processes (ps_pools s))"
    "getting_at s t (Starts_Executor mid p) \<Longrightarrow> p < length (po_processes (ps_pools s))"
    "getting_at s t g \<Longrightarrow> getting_at s u h \<Longrightarrow> wanted g = wanted h \<Longrightarrow> t = u"
  using assms unfolding getting_ok_def by blast+

fun its_process :: "getting \<Rightarrow> nat option" where
  "its_process (Has_Process mid p) = Some p"
| "its_process (Starts_Executor mid p) = Some p"
| "its_process _ = None"

lemma getting_less:
  assumes ok: "getting_ok s" and less: "no_more_running (ps_pools s) (ps_pools s')"
    and old: "\<And>t g. getting_at s' t g \<Longrightarrow> \<exists>h. getting_at s t h \<and> wanted h = wanted g \<and> (its_process g = its_process h \<or> (\<forall>p. its_process g = Some p \<longrightarrow> p < length (po_processes (ps_pools s))))"
  shows "getting_ok s'"
proof -
  have len: "length (po_executors (ps_pools s')) = length (po_executors (ps_pools s))" "length (po_processes (ps_pools s')) = length (po_processes (ps_pools s))"
    and keys: "\<And>a. map_of (agent_map (ps_pools s)) a \<noteq> None \<Longrightarrow> map_of (agent_map (ps_pools s')) a \<noteq> None"
    and exs: "\<And>i. i < length (po_executors (ps_pools s)) \<Longrightarrow> ex_id (ex (ps_pools s') i) = ex_id (ex (ps_pools s) i)
        \<and> (ex_shutting_down (ex (ps_pools s) i) \<longrightarrow> ex_shutting_down (ex (ps_pools s') i))"
    using less unfolding no_more_running_def by blast+
  have proc: "p < length (po_processes (ps_pools s))" if "getting_at s t h" "its_process h = Some p" for t h p
    using that getting_okD(3,4)[OF ok] by (cases h) auto
  show ?thesis unfolding getting_ok_def
  proof (intro conjI allI impI)
    fix t g assume g: "getting_at s' t g"
    from old[OF g] obtain h where h: "getting_at s t h" "wanted h = wanted g"
      "its_process g = its_process h \<or> (\<forall>p. its_process g = Some p \<longrightarrow> p < length (po_processes (ps_pools s)))" by blast
    show "map_of (agent_map (ps_pools s')) (eid_agent (wanted g)) \<noteq> None" using keys getting_okD(1)[OF ok h(1)] h(2) by simp
    show "ex_shutting_down (ex (ps_pools s') i)" if "i < length (po_executors (ps_pools s'))" "ex_id (ex (ps_pools s') i) = wanted g" for i
      using that getting_okD(2)[OF ok h(1), of i] h(2) exs[of i] len by simp
    show "p < length (po_processes (ps_pools s'))" if "g = Has_Process mid p \<or> g = Starts_Executor mid p" for mid p
      using that h(3) proc[OF h(1), of p] len by auto
    show "t = u" if u: "getting_at s' u h'" "wanted g = wanted h'" for u h'
      using old[OF u(1)] getting_okD(5)[OF ok h(1)] h(2) u(2) by metis
  qed
qed

lemma orderly_less:
  assumes ok: "orderly_inv s" and less: "no_more_running (ps_pools s) (ps_pools s')"
    and old: "\<And>t g. getting_at s' t g \<Longrightarrow> \<exists>h. getting_at s t h \<and> wanted h = wanted g"
  shows "orderly_inv s'"
proof -
  have "card (running_set a (ps_pools s')) \<le> card (running_set a (ps_pools s))" for a
    by (rule card_mono[OF finite_running running_set_less[OF less]])
  moreover have "max_executors_per_agent (ps_pools s') = max_executors_per_agent (ps_pools s)" using less by (simp add: no_more_running_def)
  ultimately have le: "int (card (running_set a (ps_pools s'))) \<le> c" if "int (card (running_set a (ps_pools s))) \<le> c" for a c
    using that by (meson of_nat_mono order_trans)
  show ?thesis unfolding orderly_inv_def \<open>max_executors_per_agent (ps_pools s') = max_executors_per_agent (ps_pools s)\<close>
  proof (intro conjI allI impI)
    show "int (card (running_set a (ps_pools s'))) \<le> max_executors_per_agent (ps_pools s)" for a
      using ok unfolding orderly_inv_def by (blast intro: le)
    fix t g assume g: "getting_at s' t g"
    obtain h where h: "getting_at s t h" "wanted h = wanted g" using old[OF g] by blast
    have "int (card (running_set (eid_agent (wanted h)) (ps_pools s))) \<le> max_executors_per_agent (ps_pools s) - 1"
      using ok h(1) unfolding orderly_inv_def by blast
    then show "int (card (running_set (eid_agent (wanted g)) (ps_pools s'))) \<le> max_executors_per_agent (ps_pools s) - 1"
      unfolding h(2) by (rule le)
    fix u g' assume g': "getting_at s' u g'" "eid_agent (wanted g) = eid_agent (wanted g')"
    obtain h' where "getting_at s u h'" "wanted h' = wanted g'" using old[OF g'(1)] by blast
    then show "t = u" using ok h g'(2) unfolding orderly_inv_def by metis
  qed
qed

lemma manager_get_facts:
  assumes inv: "pools_inv s"
  shows "manager_get now mid s = Inr (Some i, k) \<Longrightarrow> map_of (mg_pool s) mid = Some i \<and> ex_running (ex s i) \<and> k = touch now i s"
    "manager_get now mid s = Inr (None, k) \<Longrightarrow> pre_create_capacity_check mid s = Inr k
       \<and> (\<forall>i < length (po_executors s). ex_id (ex s i) = mid \<longrightarrow> ex_shutting_down (ex s i))"
proof -
  show "manager_get now mid s = Inr (Some i, k) \<Longrightarrow> map_of (mg_pool s) mid = Some i \<and> ex_running (ex s i) \<and> k = touch now i s"
    using pools_invD(3,6)[OF inv] by (auto simp: manager_get_def rbind_eq_Inr ex_running_def split: option.splits if_splits)
  assume g: "manager_get now mid s = Inr (None, k)"
  then have "pre_create_capacity_check mid s = Inr k" by (auto simp: manager_get_def rbind_eq_Inr split: option.splits if_splits)
  moreover have "ex_shutting_down (ex s i)" if "i < length (po_executors s)" "ex_id (ex s i) = mid" for i
    using g that pools_invD(5)[OF inv that(1)] by (auto simp: manager_get_def rbind_eq_Inr split: option.splits if_splits)
  ultimately show "pre_create_capacity_check mid s = Inr k \<and> (\<forall>i < length (po_executors s). ex_id (ex s i) = mid \<longrightarrow> ex_shutting_down (ex s i))" by blast
qed

text \<open>The steps after which no executor is running that was not before.\<close>

lemma shrinking_step:
  assumes step: "pool_step orderly s e s'" and inv: "system_inv s"
    and e: "\<And>t. e \<noteq> Executor_Up t" "\<And>t mid. e = Get t mid \<Longrightarrow> ps_getting s' = ps_getting s" "\<And>t. e \<noteq> Process_Up t"
  shows "pools_inv (ps_pools s') \<and> no_more_running (ps_pools s) (ps_pools s')
    \<and> (\<forall>t g. getting_at s' t g \<longrightarrow> (\<exists>h. getting_at s t h \<and> wanted h = wanted g
         \<and> (its_process g = its_process h \<or> (\<forall>p. its_process g = Some p \<longrightarrow> p < length (po_processes (ps_pools s))))))"
proof -
  have p: "pools_inv (ps_pools s)" and g: "getting_ok s" using inv by (auto simp: system_inv_def)
  have same: ?thesis if "ps_pools s' = k" "pools_inv k" "no_more_running (ps_pools s) k" "\<And>t g. getting_at s' t g \<Longrightarrow> getting_at s t g" for k
    using that by blast
  show ?thesis using step
  proof (cases rule: pool_step.cases)
    case (get_found mid now i k t)
    have i: "i < length (po_executors (ps_pools s))" using manager_get_facts(1)[OF p get_found(4)] pools_invD(6)[OF p] by blast
    have "k = touch now i (ps_pools s)" using manager_get_facts(1)[OF p get_found(4)] by blast
    then show ?thesis using flag_steps_less(1)[OF p i, of now] unfolding get_found(2) getting_at_simps by auto
  next
    case (executor_found t mid p' now i k k')
    have "p' < length (po_processes (ps_pools s))" by (rule getting_okD(3)[OF g executor_found(3)])
    moreover have "map_of (pr_pool (pr (ps_pools s) p')) mid = Some i" "\<not> ex_shutting_down (ex (ps_pools s) i)"
      using executor_found(4) by (auto simp: process_get_def split: option.splits if_splits)
    ultimately have "i < length (po_executors (ps_pools s))" "ex_id (ex (ps_pools s) i) = mid" using pools_invD(8)[OF p] by blast+
    then have False using getting_okD(2)[OF g executor_found(3)] \<open>\<not> ex_shutting_down (ex (ps_pools s) i)\<close> by simp
    then show ?thesis ..
  next
    case (lost p' k)
    then show ?thesis using connection_lost_less[OF p lost(3)] unfolding lost(2) getting_at_simps by auto
  next
    case (stopped i k)
    obtain k' where "ex_set_shutdown i (ps_pools s) = Inr k'" "pools_inv k'" "no_more_running (ps_pools s) k'"
      by (rule set_shutdown_less[OF p stopped(3)])
    then show ?thesis using stopped(5) unfolding stopped(2) getting_at_simps by auto
  next
    case start_pools
    show ?thesis using pool_flags_less(3)[OF p] unfolding start_pools getting_at_simps by auto
  next
    case (get_creates t mid now k)
    then have "map_of (ps_getting s') t \<noteq> None" by (simp add: goes_on_def)
    moreover have "ps_getting s' = ps_getting s" using e(2) get_creates(1) by blast
    ultimately show ?thesis using get_creates(3) by simp
  next
    case (process_found t mid p')
    have "p' < length (po_processes (ps_pools s))"
      using process_found(4) pools_invD(9)[OF p] by (auto simp: process_pool_get_def split: if_splits option.splits)
    then show ?thesis using p process_found(3) no_more_running_refl unfolding process_found(2) getting_at_simps by auto
  next
    case (process_created t mid)
    then show ?thesis using p no_more_running_refl unfolding process_created(2) getting_at_simps by auto
  next
    case (process_up t mid p' k)
    then show ?thesis using e(3) by blast
  next
    case (executor_created t mid p' now k)
    have "k = ps_pools s" using executor_created(4) by (auto simp: process_get_def split: option.splits if_splits)
    then show ?thesis using p executor_created(3) no_more_running_refl getting_okD(3)[OF g executor_created(3)]
      unfolding executor_created(2) getting_at_simps by auto
  next
    case (executor_up t mid p' now i k k')
    then show ?thesis using e(1) by blast
  next
    case (fails t g)
    then show ?thesis using p no_more_running_refl unfolding fails(2) getting_at_simps by auto
  next
    case (request_stop i)
    show ?thesis using request_shutdown_less[OF p request_stop(3)] unfolding request_stop(2) getting_at_simps by auto
  next
    case (process_down p')
    show ?thesis using pr_set_shutdown_less[OF p process_down(3)] unfolding process_down(2) getting_at_simps by auto
  next
    case (call_starts i)
    show ?thesis using flag_steps_less(2)[OF p call_starts(3)] unfolding call_starts(2) getting_at_simps by auto
  next
    case (call_ends i now)
    show ?thesis using flag_steps_less(3)[OF p call_ends(3)] unfolding call_ends(2) getting_at_simps by auto
  next
    case (clean i oldest)
    show ?thesis using flag_steps_less(4)[OF p clean(3)] unfolding clean(2) getting_at_simps by auto
  next
    case stop_process_pool
    show ?thesis using pool_flags_less(1)[OF p] unfolding stop_process_pool(2) getting_at_simps by auto
  next
    case (stop_process p')
    show ?thesis using pr_request_less[OF p stop_process(3)] unfolding stop_process(2) getting_at_simps by auto
  next
    case stop_manager
    show ?thesis using pool_flags_less(2)[OF p] unfolding stop_manager(2) getting_at_simps by auto
  qed
qed

text \<open>The others: the start of a request, and a process or an executor that is up.\<close>

lemma get_creates_inv:
  assumes inv: "system_inv s" and free: "\<And>u g. getting_at s u g \<Longrightarrow> wanted g \<noteq> mid"
    and get: "manager_get now mid (ps_pools s) = Inr (None, k)"
  shows "system_inv (goes_on t (Needs_Process mid) k s)"
    "orderly_inv s \<Longrightarrow> (\<And>u g. getting_at s u g \<Longrightarrow> eid_agent (wanted g) \<noteq> eid_agent mid) \<Longrightarrow> orderly_inv (goes_on t (Needs_Process mid) k s)"
proof -
  have p: "pools_inv (ps_pools s)" and g: "getting_ok s" using inv by (auto simp: system_inv_def)
  have check: "pre_create_capacity_check mid (ps_pools s) = Inr k"
    and down: "\<And>i. i < length (po_executors (ps_pools s)) \<Longrightarrow> ex_id (ex (ps_pools s) i) = mid \<Longrightarrow> ex_shutting_down (ex (ps_pools s) i)"
    using manager_get_facts(2)[OF p get] by blast+
  note c = capacity_check_facts[OF p check]
  have "getting_ok (with_pools k s)"
    by (rule getting_less[OF g]) (use c(2) in \<open>auto simp: getting_at_simps\<close>)
  note k = getting_okD[OF this, unfolded getting_at_simps ps_pools_simps]
  have shut: "ex_shutting_down (ex k i)" if "i < length (po_executors k)" "ex_id (ex k i) = mid" for i
    using c(2) down[of i] that unfolding no_more_running_def by auto
  have "getting_ok (goes_on t (Needs_Process mid) k s)"
    unfolding getting_ok_def getting_at_simps ps_pools_simps
  proof (intro conjI allI impI)
    fix u h assume h: "if u = t then h = Needs_Process mid else getting_at s u h"
    show "map_of (agent_map k) (eid_agent (wanted h)) \<noteq> None" using h k(1)[of u h] c(3) by (cases "u = t") auto
    show "ex_shutting_down (ex k i)" if "i < length (po_executors k)" "ex_id (ex k i) = wanted h" for i
      using h k(2)[of u h i] shut[of i] that by (cases "u = t") auto
    show "q < length (po_processes k)" if "h = Has_Process m q \<or> h = Starts_Executor m q" for m q
      using h k(3,4)[of u m q] that by (cases "u = t") auto
    show "u = v" if "if v = t then h2 = Needs_Process mid else getting_at s v h2" "wanted h = wanted h2" for v h2
      using h that k(5)[of u h v h2] free[of u h] free[of v h2] by (metis wanted.simps(1))
  qed
  then show "system_inv (goes_on t (Needs_Process mid) k s)" using c(1) by (simp add: system_inv_def)
  assume o: "orderly_inv s" and alone: "\<And>u g. getting_at s u g \<Longrightarrow> eid_agent (wanted g) \<noteq> eid_agent mid"
  have "orderly_inv (with_pools k s)"
    by (rule orderly_less[OF o]) (use c(2) in \<open>auto simp: getting_at_simps\<close>)
  moreover have "max_executors_per_agent k = max_executors_per_agent (ps_pools s)" using c(2) by (simp add: no_more_running_def)
  moreover have "int (card (running_set (eid_agent mid) (ps_pools s))) \<le> max_executors_per_agent (ps_pools s)" using o unfolding orderly_inv_def by blast
  ultimately show "orderly_inv (goes_on t (Needs_Process mid) k s)"
    using c(4) alone unfolding orderly_inv_def getting_at_simps ps_pools_simps by (auto split: if_splits) (metis+)
qed

lemma process_up_inv:
  assumes inv: "system_inv s" and at: "getting_at s t (Creates_Process mid)" and k: "create_process (eid_hash mid) (ps_pools s) = (p, k)"
  shows "system_inv (goes_on t (Has_Process mid p) k s)" "orderly_inv s \<Longrightarrow> orderly_inv (goes_on t (Has_Process mid p) k s)"
proof -
  have pi: "pools_inv (ps_pools s)" and g: "getting_ok s" using inv by (auto simp: system_inv_def)
  note c = create_process_inv[OF pi k]
  have ex: "ex k i = ex (ps_pools s) i" for i using c(4) by (simp add: ex_def)
  note gd = getting_okD[OF g]
  have "getting_ok (goes_on t (Has_Process mid p) k s)"
    unfolding getting_ok_def getting_at_simps ps_pools_simps c(4,5) ex
  proof (intro conjI allI impI)
    fix u h assume h: "if u = t then h = Has_Process mid p else getting_at s u h"
    obtain h' where h': "getting_at s u h'" "wanted h' = wanted h" using h at by (auto split: if_splits)
    show "map_of (agent_map (ps_pools s)) (eid_agent (wanted h)) \<noteq> None" using gd(1)[OF h'(1)] h'(2) by simp
    show "\<And>i. i < length (po_executors (ps_pools s)) \<Longrightarrow> ex_id (ex (ps_pools s) i) = wanted h \<Longrightarrow> ex_shutting_down (ex (ps_pools s) i)"
      using gd(2)[OF h'(1)] h'(2) by simp
    show "\<And>m q. h = Has_Process m q \<or> h = Starts_Executor m q \<Longrightarrow> q < length (po_processes k)"
      using h c(2,3) gd(3,4)[of u] by (fastforce split: if_splits)
    fix v h2 assume h2: "if v = t then h2 = Has_Process mid p else getting_at s v h2" "wanted h = wanted h2"
    obtain h2' where "getting_at s v h2'" "wanted h2' = wanted h2" using h2 at by (auto split: if_splits)
    then show "u = v" using gd(5)[OF h'(1)] h'(2) h2(2) by metis
  qed
  then show "system_inv (goes_on t (Has_Process mid p) k s)" using c(1) by (simp add: system_inv_def)
  have "running_set a k = running_set a (ps_pools s)" for a using c(4) ex by (simp add: running_set_def)
  then show "orderly_inv s \<Longrightarrow> orderly_inv (goes_on t (Has_Process mid p) k s)"
    unfolding orderly_inv_def getting_at_simps ps_pools_simps c(6)
  proof (intro conjI allI impI)
    assume o: "(\<forall>a. int (card (running_set a (ps_pools s))) \<le> max_executors_per_agent (ps_pools s)) \<and>
      (\<forall>t g. getting_at s t g \<longrightarrow> int (card (running_set (eid_agent (wanted g)) (ps_pools s))) \<le> max_executors_per_agent (ps_pools s) - 1) \<and>
      (\<forall>t u g h. getting_at s t g \<longrightarrow> getting_at s u h \<longrightarrow> eid_agent (wanted g) = eid_agent (wanted h) \<longrightarrow> t = u)"
    assume same: "\<And>a. running_set a k = running_set a (ps_pools s)"
    show "int (card (running_set a k)) \<le> max_executors_per_agent (ps_pools s)" for a using o same by simp
    fix u h assume h: "if u = t then h = Has_Process mid p else getting_at s u h"
    obtain h' where h': "getting_at s u h'" "wanted h' = wanted h" using h at by (auto split: if_splits)
    show "int (card (running_set (eid_agent (wanted h)) k)) \<le> max_executors_per_agent (ps_pools s) - 1" using o h' same by metis
    fix v h2 assume h2: "if v = t then h2 = Has_Process mid p else getting_at s v h2" "eid_agent (wanted h) = eid_agent (wanted h2)"
    obtain h2' where "getting_at s v h2'" "wanted h2' = wanted h2" using h2 at by (auto split: if_splits)
    then show "u = v" using o h' h2(2) by metis
  qed
qed

lemma executor_up_inv:
  assumes inv: "system_inv s" and at: "getting_at s t (Starts_Executor mid p)"
    and k: "create_executor now p mid (ps_pools s) = (i, k)" "manager_register mid i k = Inr k'"
  shows "system_inv (returns t k' s)" "orderly_inv s \<Longrightarrow> orderly_inv (returns t k' s)"
proof -
  have pi: "pools_inv (ps_pools s)" and g: "getting_ok s" using inv by (auto simp: system_inv_def)
  note gd = getting_okD[OF g]
  have key: "map_of (agent_map (ps_pools s)) (eid_agent mid) \<noteq> None"
    and old: "\<forall>i < length (po_executors (ps_pools s)). ex_id (ex (ps_pools s) i) = mid \<longrightarrow> ex_shutting_down (ex (ps_pools s) i)"
    using gd(1,2)[OF at] by auto
  note c = create_executor_inv[OF pi gd(4)[OF at] key old k]
  have len: "length (po_executors k') = Suc i" "i = length (po_executors (ps_pools s))" using c(2,3) by auto
  have "getting_ok (returns t k' s)"
    unfolding getting_ok_def getting_at_simps ps_pools_simps
  proof (intro conjI allI impI)
    fix u h assume h: "u \<noteq> t \<and> getting_at s u h"
    have other: "wanted h \<noteq> mid" using gd(5)[OF at, of u h] h by auto
    show "map_of (agent_map k') (eid_agent (wanted h)) \<noteq> None" using c(8) gd(1) h by blast
    show "ex_shutting_down (ex k' j)" if "j < length (po_executors k')" "ex_id (ex k' j) = wanted h" for j
    proof -
      have "j \<noteq> i" using that(2) other c(6) by metis
      then have "j < i" using that(1) len(1) by simp
      then show ?thesis using c(5)[of j] that(2) gd(2)[of u h j] h len(2) by simp
    qed
    show "q < length (po_processes k')" if "h = Has_Process m q \<or> h = Starts_Executor m q" for m q
      using that h gd(3,4)[of u m q] c(4) by auto
    show "u = v" if "v \<noteq> t \<and> getting_at s v h2" "wanted h = wanted h2" for v h2 using gd(5)[of u h v h2] h that by blast
  qed
  then show "system_inv (returns t k' s)" using c(1) by (simp add: system_inv_def)
  assume o: "orderly_inv s"
  have grows: "running_set a k' \<subseteq> running_set a (ps_pools s) \<union> (if a = eid_agent mid then {i} else {})" for a
    using c(5,6) len by (auto simp: running_set_def less_Suc_eq)
  have "int (card (running_set a k')) \<le> int (card (running_set a (ps_pools s))) + (if a = eid_agent mid then 1 else 0)" for a
  proof -
    have "card (running_set a k') \<le> card (running_set a (ps_pools s) \<union> (if a = eid_agent mid then {i} else {}))"
      by (rule card_mono[OF _ grows]) (simp add: finite_running)
    also have "\<dots> \<le> card (running_set a (ps_pools s)) + card (if a = eid_agent mid then {i} else {})" by (rule card_Un_le)
    finally show ?thesis by (auto split: if_splits)
  qed
  then have count: "int (card (running_set a k')) \<le> int (card (running_set a (ps_pools s))) + (if a = eid_agent mid then 1 else 0)" for a .
  show "orderly_inv (returns t k' s)"
    unfolding orderly_inv_def getting_at_simps ps_pools_simps c(7)
  proof (intro conjI allI impI)
    have o': "int (card (running_set a (ps_pools s))) \<le> max_executors_per_agent (ps_pools s)"
        "getting_at s u h \<Longrightarrow> int (card (running_set (eid_agent (wanted h)) (ps_pools s))) \<le> max_executors_per_agent (ps_pools s) - 1"
        "getting_at s u h \<Longrightarrow> getting_at s v h2 \<Longrightarrow> eid_agent (wanted h) = eid_agent (wanted h2) \<Longrightarrow> u = v" for a u v h h2
      using o unfolding orderly_inv_def by blast+
    show "int (card (running_set a k')) \<le> max_executors_per_agent (ps_pools s)" for a
      using count[of a] o'(1)[of a] o'(2)[OF at] by (cases "a = eid_agent mid") auto
    fix u h assume h: "u \<noteq> t \<and> getting_at s u h"
    have "eid_agent (wanted h) \<noteq> eid_agent mid" using o'(3)[OF at, of u h] h by auto
    then show "int (card (running_set (eid_agent (wanted h)) k')) \<le> max_executors_per_agent (ps_pools s) - 1"
      using count[of "eid_agent (wanted h)"] o'(2)[of u h] h by simp
    show "u = v" if "v \<noteq> t \<and> getting_at s v h2" "eid_agent (wanted h) = eid_agent (wanted h2)" for v h2 using o'(3) h that by blast
  qed
qed

lemma system_step:
  assumes step: "pool_step orderly s e s'" and inv: "system_inv s"
  shows "system_inv s'" "orderly \<Longrightarrow> orderly_inv s \<Longrightarrow> orderly_inv s'"
proof -
  have "system_inv s' \<and> (orderly \<longrightarrow> orderly_inv s \<longrightarrow> orderly_inv s')"
  proof (cases "\<exists>t mid. e = Get t mid \<and> ps_getting s' \<noteq> ps_getting s")
    case True
    then obtain t mid where e: "e = Get t mid" "ps_getting s' \<noteq> ps_getting s" by blast
    show ?thesis using step
    proof (cases rule: pool_step.cases)
      case (get_creates t mid now k)
      have "\<And>u g. getting_at s u g \<Longrightarrow> wanted g \<noteq> mid" using get_creates(4) by blast
      then show ?thesis using get_creates_inv[OF inv _ get_creates(6), of t] get_creates(5) unfolding get_creates(2) by blast
    qed (use e in \<open>auto simp: with_pools_def\<close>)
  next
    case no_get: False
    show ?thesis
    proof (cases "\<exists>t. e = Process_Up t \<or> e = Executor_Up t")
      case True
      then show ?thesis using step process_up_inv[OF inv] executor_up_inv[OF inv]
        by (auto elim!: pool_step.cases)
    next
      case False
      then have "pools_inv (ps_pools s') \<and> no_more_running (ps_pools s) (ps_pools s')
        \<and> (\<forall>t g. getting_at s' t g \<longrightarrow> (\<exists>h. getting_at s t h \<and> wanted h = wanted g
             \<and> (its_process g = its_process h \<or> (\<forall>p. its_process g = Some p \<longrightarrow> p < length (po_processes (ps_pools s))))))"
        using no_get by (intro shrinking_step[OF step inv]) auto
      then have sh: "pools_inv (ps_pools s')" "no_more_running (ps_pools s) (ps_pools s')" "\<And>t g. getting_at s' t g \<Longrightarrow> \<exists>h. getting_at s t h \<and> wanted h = wanted g
             \<and> (its_process g = its_process h \<or> (\<forall>p. its_process g = Some p \<longrightarrow> p < length (po_processes (ps_pools s))))" by blast+
      have "getting_ok s'" by (rule getting_less[OF _ sh(2,3)]) (use inv in \<open>simp add: system_inv_def\<close>)
      moreover have "orderly_inv s \<Longrightarrow> orderly_inv s'" by (rule orderly_less[OF _ sh(2)]) (use sh(3) in blast)+
      ultimately show ?thesis using sh(1) by (simp add: system_inv_def)
    qed
  qed
  then show "system_inv s'" "orderly \<Longrightarrow> orderly_inv s \<Longrightarrow> orderly_inv s'" by blast+
qed

lemma step_max:
  assumes step: "pool_step orderly s e s'" and inv: "system_inv s"
  shows "max_executors_per_agent (ps_pools s') = max_executors_per_agent (ps_pools s)"
proof -
  have p: "pools_inv (ps_pools s)" and g: "getting_ok s" using inv by (auto simp: system_inv_def)
  have up: "max_executors_per_agent k' = max_executors_per_agent (ps_pools s)"
    if "create_executor now p mid (ps_pools s) = (i, k)" "manager_register mid i k = Inr k'" for now p mid i k k'
    using that by (auto simp: create_executor_def manager_register_def Let_def split: option.splits)
  show ?thesis
  proof (cases "(\<exists>t mid. e = Get t mid \<and> ps_getting s' \<noteq> ps_getting s) \<or> (\<exists>t. e = Process_Up t \<or> e = Executor_Up t)")
    case True
    show ?thesis using step
    proof (cases rule: pool_step.cases)
      case (get_creates t mid now k)
      have "no_more_running (ps_pools s) k" using capacity_check_facts(2)[OF p, of mid k] manager_get_facts(2)[OF p get_creates(6)] by blast
      then show ?thesis using get_creates(2) by (simp add: no_more_running_def)
    next
      case (process_up t mid p' k)
      then show ?thesis using create_process_inv(6)[OF p process_up(4)] by simp
    next
      case (executor_up t mid p' now i k k')
      then show ?thesis using up by simp
    qed (use True in \<open>auto simp: with_pools_def\<close>)
  next
    case False
    then show ?thesis using shrinking_step[OF step inv] by (auto simp: no_more_running_def)
  qed
qed

lemma init_system_inv: "system_inv (pool_init cap retention)" "0 \<le> cap \<Longrightarrow> orderly_inv (pool_init cap retention)"
  by (simp_all add: system_inv_def pool_init_def new_pools_inv getting_ok_def orderly_inv_def getting_at_def running_set_def)
    (simp add: new_pools_def)

lemma run_system_inv: "pool_run orderly s es s' \<Longrightarrow> system_inv s \<Longrightarrow> system_inv s'"
  by (induction rule: pool_run.induct) (auto intro: system_step(1))

lemma run_orderly_inv: "pool_run True s es s' \<Longrightarrow> system_inv s \<Longrightarrow> orderly_inv s \<Longrightarrow> orderly_inv s' \<and> system_inv s'"
  by (induction rule: pool_run.induct) (auto intro: system_step)

lemma run_max: "pool_run orderly s es s' \<Longrightarrow> system_inv s \<Longrightarrow> max_executors_per_agent (ps_pools s') = max_executors_per_agent (ps_pools s)"
  by (induction rule: pool_run.induct) (simp_all add: step_max run_system_inv)

section \<open>Cleaning up\<close>

lemma cleanup_pass:
  assumes "fold (\<lambda>i (run_next, s). if expired oldest (ex s i) then (run_next, cleanup_member oldest i s)
      else (min run_next (ex_last_used (ex s i) - oldest), s)) is (rn, s) = (rn', s')"
    "\<And>i. i \<in> set is \<Longrightarrow> i < length (po_executors s)"
  shows "rn' \<le> rn" "\<not> expired oldest (ex s j) \<Longrightarrow> ex s' j = ex s j" "j \<in> set is \<Longrightarrow> expired oldest (ex s j) \<Longrightarrow> ex_shutting_down (ex s' j)"
    "j \<in> set is \<Longrightarrow> \<not> expired oldest (ex s j) \<Longrightarrow> rn' \<le> ex_last_used (ex s j) - oldest"
    "ex_shutting_down (ex s j) \<Longrightarrow> ex_shutting_down (ex s' j)"
proof -
  have "rn' \<le> rn \<and> (\<not> expired oldest (ex s j) \<longrightarrow> ex s' j = ex s j) \<and> (j \<in> set is \<longrightarrow> expired oldest (ex s j) \<longrightarrow> ex_shutting_down (ex s' j))
    \<and> (j \<in> set is \<longrightarrow> \<not> expired oldest (ex s j) \<longrightarrow> rn' \<le> ex_last_used (ex s j) - oldest)
    \<and> (ex_shutting_down (ex s j) \<longrightarrow> ex_shutting_down (ex s' j))" for j
    using assms
  proof (induction "is" arbitrary: rn s)
    case (Cons i "is")
    have i: "i < length (po_executors s)" using Cons.prems(2) by simp
    show ?case
    proof (cases "expired oldest (ex s i)")
      case True
      let ?s = "cleanup_member oldest i s"
      have e: "ex ?s k = (if k = i then (ex s i)\<lparr>ex_shutting_down := True\<rparr> else ex s k)" for k
        using True ex_set_ex[OF i] by (auto simp: cleanup_member_def ex_request_shutdown_def)
      have len: "length (po_executors ?s) = length (po_executors s)" by (simp add: cleanup_member_def ex_request_shutdown_def)
      have gone: "\<not> expired oldest ((ex s i)\<lparr>ex_shutting_down := True\<rparr>)" by (simp add: expired_def ex_running_def)
      have "fold (\<lambda>i (run_next, s). if expired oldest (ex s i) then (run_next, cleanup_member oldest i s)
          else (min run_next (ex_last_used (ex s i) - oldest), s)) is (rn, ?s) = (rn', s')" using Cons.prems(1) True by simp
      from Cons.IH[OF this] Cons.prems(2) len have ih: "rn' \<le> rn \<and> (\<not> expired oldest (ex ?s j) \<longrightarrow> ex s' j = ex ?s j) \<and> (j \<in> set is \<longrightarrow> expired oldest (ex ?s j) \<longrightarrow> ex_shutting_down (ex s' j))
        \<and> (j \<in> set is \<longrightarrow> \<not> expired oldest (ex ?s j) \<longrightarrow> rn' \<le> ex_last_used (ex ?s j) - oldest) \<and> (ex_shutting_down (ex ?s j) \<longrightarrow> ex_shutting_down (ex s' j))" by simp
      show ?thesis
      proof (cases "j = i")
        case True
        then show ?thesis using ih e[of j] gone \<open>expired oldest (ex s i)\<close> by simp
      next
        case False
        then show ?thesis using ih e[of j] by simp
      qed
    next
      case False
      then have "fold (\<lambda>i (run_next, s). if expired oldest (ex s i) then (run_next, cleanup_member oldest i s)
          else (min run_next (ex_last_used (ex s i) - oldest), s)) is (min rn (ex_last_used (ex s i) - oldest), s) = (rn', s')"
        using Cons.prems(1) by simp
      from Cons.IH[OF this] Cons.prems(2) False show ?thesis by (cases "j = i") auto
    qed
  qed simp
  then show "rn' \<le> rn" "\<not> expired oldest (ex s j) \<Longrightarrow> ex s' j = ex s j" "j \<in> set is \<Longrightarrow> expired oldest (ex s j) \<Longrightarrow> ex_shutting_down (ex s' j)"
    "j \<in> set is \<Longrightarrow> \<not> expired oldest (ex s j) \<Longrightarrow> rn' \<le> ex_last_used (ex s j) - oldest"
    "ex_shutting_down (ex s j) \<Longrightarrow> ex_shutting_down (ex s' j)" by blast+
qed

section \<open>Running a sequence of events\<close>

definition pool_next :: "bool \<Rightarrow> int \<Rightarrow> pool_event \<Rightarrow> pool_system \<Rightarrow> pool_system option" where
  \<comment> \<open>of the events that create, use and stop executors\<close>
  "pool_next orderly now e s = (let k = ps_pools s; getting = map_of (ps_getting s) in case e of
     Get t mid \<Rightarrow> if getting t = None \<and> list_all (\<lambda>(u, g). identity (wanted g) \<noteq> identity mid
           \<and> (orderly \<longrightarrow> eid_agent (wanted g) \<noteq> eid_agent mid)) (ps_getting s)
       then (case manager_get now mid k of
           Inr (None, k') \<Rightarrow> Some (goes_on t (Needs_Process mid) k' s)
         | Inr (Some i, k') \<Rightarrow> Some (with_pools k' s)
         | Inl _ \<Rightarrow> None)
       else None
   | Ask_Process t \<Rightarrow> (case getting t of
         Some (Needs_Process mid) \<Rightarrow> (case process_pool_get (eid_hash mid) k of
             Inr (Some p) \<Rightarrow> Some (goes_on t (Has_Process mid p) k s)
           | Inr None \<Rightarrow> if list_all (\<lambda>(u, g). case g of Creates_Process m \<Rightarrow> eid_hash m \<noteq> eid_hash mid | _ \<Rightarrow> True) (ps_getting s)
               then Some (goes_on t (Creates_Process mid) k s) else None
           | Inl _ \<Rightarrow> None)
       | _ \<Rightarrow> None)
   | Process_Up t \<Rightarrow> (case getting t of
         Some (Creates_Process mid) \<Rightarrow> (case create_process (eid_hash mid) k of (p, k') \<Rightarrow> Some (goes_on t (Has_Process mid p) k' s))
       | _ \<Rightarrow> None)
   | Ask_Executor t \<Rightarrow> (case getting t of
         Some (Has_Process mid p) \<Rightarrow> (case process_get now p mid k of
             Inr (None, k') \<Rightarrow> Some (goes_on t (Starts_Executor mid p) k' s)
           | _ \<Rightarrow> None)
       | _ \<Rightarrow> None)
   | Executor_Up t \<Rightarrow> (case getting t of
         Some (Starts_Executor mid p) \<Rightarrow> (case create_executor now p mid k of (i, k') \<Rightarrow>
             (case manager_register mid i k' of Inr k'' \<Rightarrow> Some (returns t k'' s) | Inl _ \<Rightarrow> None))
       | _ \<Rightarrow> None)
   | Call_Starts i \<Rightarrow> if i < length (po_executors k) then Some (with_pools (call_begin i k) s) else None
   | _ \<Rightarrow> None)"

fun pool_exec :: "bool \<Rightarrow> (int \<times> pool_event) list \<Rightarrow> pool_system \<Rightarrow> pool_system option" where
  "pool_exec orderly [] s = Some s"
| "pool_exec orderly ((now, e) # es) s = Option.bind (pool_next orderly now e s) (pool_exec orderly es)"

lemma pool_next_step:
  assumes "pool_next orderly now e s = Some s'"
  shows "pool_step orderly s e s'"
proof (cases e)
  case (Get t mid)
  from assms have free: "map_of (ps_getting s) t = None" "list_all (\<lambda>(u, g). identity (wanted g) \<noteq> identity mid
      \<and> (orderly \<longrightarrow> eid_agent (wanted g) \<noteq> eid_agent mid)) (ps_getting s)"
    unfolding Get pool_next_def by (simp_all add: Let_def split: if_splits)
  then have other: "identity (wanted g) \<noteq> identity mid \<and> (orderly \<longrightarrow> eid_agent (wanted g) \<noteq> eid_agent mid)" if "getting_at s u g" for u g
    using map_of_SomeD[of "ps_getting s" u g] that unfolding getting_at_def list_all_iff by blast
  show ?thesis
  proof (cases "manager_get now mid (ps_pools s)")
    case (Inr x)
    obtain o' k where x: "x = (o', k)" by (cases x)
    show ?thesis
    proof (cases o')
      case None
      then have "s' = goes_on t (Needs_Process mid) k s" using assms free Inr x unfolding Get pool_next_def by simp
      then show ?thesis using pool_step.get_creates[OF free(1), of mid orderly now k] other Inr x None unfolding Get by blast
    next
      case (Some i)
      then have "s' = with_pools k s" using assms free Inr x unfolding Get pool_next_def by simp
      then show ?thesis using pool_step.get_found[of s mid now i k orderly t] other Inr x Some unfolding Get by blast
    qed
  qed (use assms free in \<open>simp add: Get pool_next_def\<close>)
next
  case (Ask_Process t)
  then obtain mid where mid: "getting_at s t (Needs_Process mid)"
    using assms by (auto simp: pool_next_def getting_at_def Let_def split: option.splits getting.splits)
  show ?thesis
  proof (cases "process_pool_get (eid_hash mid) (ps_pools s)")
    case (Inr x)
    show ?thesis
    proof (cases x)
      case None
      have "eid_hash m \<noteq> eid_hash mid" if "getting_at s u (Creates_Process m)" for u m
        using assms mid that map_of_SomeD[of "ps_getting s" u "Creates_Process m"] Inr None unfolding Ask_Process
        by (fastforce simp: pool_next_def getting_at_def list_all_iff split: if_splits)
      then show ?thesis using pool_step.process_created[OF mid] assms mid Inr None unfolding Ask_Process
        by (auto simp: pool_next_def getting_at_def split: if_splits)
    next
      case (Some p)
      then show ?thesis using pool_step.process_found[OF mid] assms mid Inr unfolding Ask_Process
        by (auto simp: pool_next_def getting_at_def)
    qed
  qed (use assms mid Ask_Process in \<open>simp add: pool_next_def getting_at_def\<close>)
qed (use assms in \<open>auto simp: pool_next_def getting_at_def Let_def intro: pool_step.intros split: option.splits getting.splits sum.splits prod.splits if_splits\<close>)

lemma pool_run_Cons: "pool_step orderly s e s' \<Longrightarrow> pool_run orderly s' es s'' \<Longrightarrow> pool_run orderly s (e # es) s''"
proof (rotate_tac, induction rule: pool_run.induct)
  case (here s')
  then show ?case using pool_run.more[OF pool_run.here] by fastforce
next
  case (more s' es t e' t')
  then show ?case using pool_run.more[of orderly s "e # es" t e' t'] by simp
qed

lemma pool_exec_run: "pool_exec orderly es s = Some s' \<Longrightarrow> pool_run orderly s (map snd es) s'"
proof (induction es arbitrary: s)
  case Nil
  then show ?case by (simp add: pool_run.here)
next
  case (Cons a es)
  obtain now e where a: "a = (now, e)" by (cases a)
  obtain s1 where s1: "pool_next orderly now e s = Some s1" "pool_exec orderly es s1 = Some s'"
    using Cons.prems unfolding a pool_exec.simps bind_eq_Some_conv by blast
  show ?case using pool_run_Cons[OF pool_next_step[OF s1(1)] Cons.IH[OF s1(2)]] unfolding a by simp
qed

section \<open>Properties\<close>

text \<open>C30: Executors are not lost or duplicated: in every reachable state, whatever starts, stops, crashes and
  is asked for, there is at most one executor per id that is not shutting down, the manager
  finds it, hands it out, and creates another one only when there is none; and the end of an executor is
  always handled without an error.\<close>

theorem one_executor_per_id:
  assumes "pool_run orderly (pool_init cap retention) es s" "i < length (po_executors (ps_pools s))"
  shows "(ex_running (ex (ps_pools s) i) \<longrightarrow> map_of (mg_pool (ps_pools s)) (ex_id (ex (ps_pools s) i)) = Some i)
    \<and> (\<forall>k. manager_get now mid (ps_pools s) = Inr (Some i, k) \<longrightarrow> ex_id (ex (ps_pools s) i) = mid \<and> ex_running (ex (ps_pools s) i))
    \<and> (\<forall>k. manager_get now mid (ps_pools s) = Inr (None, k) \<longrightarrow> ex_id (ex (ps_pools s) i) \<noteq> mid \<or> \<not> ex_running (ex (ps_pools s) i))
    \<and> (\<exists>k. ex_set_shutdown i (ps_pools s) = Inr k \<and> ex_shut_down (ex k i) \<and> map_of (mg_pool k) (ex_id (ex (ps_pools s) i)) \<noteq> Some i)"
proof -
  have inv: "pools_inv (ps_pools s)" using run_system_inv[OF assms(1) init_system_inv(1)] by (simp add: system_inv_def)
  obtain k where k: "ex_set_shutdown i (ps_pools s) = Inr k" "pools_inv k" "ex k i = (ex (ps_pools s) i)\<lparr>ex_shut_down := True, ex_shutting_down := True\<rparr>"
    using set_shutdown_inv[OF inv assms(2)] by metis
  then have "map_of (mg_pool k) (ex_id (ex (ps_pools s) i)) \<noteq> Some i" using pools_invD(6)[OF k(2)] by fastforce
  moreover have "ex_running (ex (ps_pools s) i) \<Longrightarrow> map_of (mg_pool (ps_pools s)) (ex_id (ex (ps_pools s) i)) = Some i"
    using pools_invD(5)[OF inv assms(2)] by (simp add: ex_running_def)
  ultimately show ?thesis
    using k manager_get_facts[OF inv, of now mid] pools_invD(6)[OF inv, of mid i] assms(2) by (auto simp: ex_running_def)
qed

definition sample_eid :: executor_id where
  "sample_eid = \<lparr>eid_agent = ''router'', eid_uri = ''local:'', eid_hash = ''7a''\<rparr>"

definition other_eid :: executor_id where
  "other_eid = \<lparr>eid_agent = ''router'', eid_uri = ''local:'', eid_hash = ''9c''\<rparr>"

definition get_events :: "nat \<Rightarrow> executor_id \<Rightarrow> int \<Rightarrow> (int \<times> pool_event) list" where
  "get_events t mid now = [(now, Get t mid), (now + 1, Ask_Process t), (now + 2, Process_Up t), (now + 3, Ask_Executor t), (now + 4, Executor_Up t)]"

definition sample_system :: pool_system where
  "sample_system = the (pool_exec True (get_events 0 sample_eid 1000) (pool_init 1 60000000))"

definition replaced_system :: pool_system where
  "replaced_system = the (pool_exec True (get_events 0 sample_eid 1000 @ get_events 1 other_eid 2000) (pool_init 1 60000000))"

lemma one_executor_per_id_witness:
  "ex_id (ex (ps_pools sample_system) 0) = sample_eid \<and> map_of (mg_pool (ps_pools sample_system)) sample_eid = Some 0"
proof -
  have "pool_exec True (get_events 0 sample_eid 1000) (pool_init 1 60000000) = Some sample_system"
    "0 < length (po_executors (ps_pools sample_system))" "ex_running (ex (ps_pools sample_system) 0)"
    "ex_id (ex (ps_pools sample_system) 0) = sample_eid" by code_simp+
  with one_executor_per_id[OF pool_exec_run[of True "get_events 0 sample_eid 1000" "pool_init 1 60000000" sample_system]] show ?thesis by metis
qed

text \<open>C31: The number of executors is bounded: as long as the requests for one agent do not overlap, as is
  the case for the tasks of one task runner, no agent ever has more running executors than the
  configured cap, because the oldest one is stopped before another one is created.\<close>

theorem executors_bounded:
  assumes "pool_run True (pool_init cap retention) es s" "1 \<le> cap"
  shows "int (length (running_executors agent (ps_pools s))) \<le> cap"
proof -
  have "orderly_inv s" "pools_inv (ps_pools s)"
    using run_orderly_inv[OF assms(1) init_system_inv(1) init_system_inv(2)] assms(2) by (auto simp: system_inv_def)
  moreover have "max_executors_per_agent (ps_pools s) = cap"
    using run_max[OF assms(1) init_system_inv(1)] by (simp add: pool_init_def new_pools_def)
  ultimately show ?thesis using running_count[of "ps_pools s" agent] unfolding orderly_inv_def by metis
qed

lemma executors_bounded_witness:
  "running_executors ''router'' (ps_pools replaced_system) = [1] \<and> int (length (running_executors ''router'' (ps_pools replaced_system))) \<le> 1"
proof -
  have "pool_exec True (get_events 0 sample_eid 1000 @ get_events 1 other_eid 2000) (pool_init 1 60000000) = Some replaced_system"
    "running_executors ''router'' (ps_pools replaced_system) = [1]" by code_simp+
  with executors_bounded[OF pool_exec_run[of True "get_events 0 sample_eid 1000 @ get_events 1 other_eid 2000" "pool_init 1 60000000" replaced_system]] show ?thesis by simp
qed

text \<open>C32: Cleaning up is safe and in time: it stops no executor with a call in flight and none that was used within
  the retention time, the time to sleep is at least half a second and at most the retention time, and
  no idle executor that was kept expires before the next cleaning, except for that half second.\<close>

theorem cleanup_bounds:
  assumes "pool_run orderly (pool_init cap retention) es s" "cleanup_start \<le> cleanup_end"
    "cleanup_inactive_pool_members cleanup_start cleanup_end (ps_pools s) = (sleep, k)" "map_of (mg_pool (ps_pools s)) mid = Some i"
  shows "minimal_waiting_time \<le> sleep \<and> sleep \<le> max minimal_waiting_time (retention_time (ps_pools s))
    \<and> (ex_in_flight (ex (ps_pools s) i) \<noteq> 0 \<or> cleanup_start - retention_time (ps_pools s) \<le> ex_last_used (ex (ps_pools s) i)
        \<longrightarrow> ex k i = ex (ps_pools s) i)
    \<and> (ex_in_flight (ex k i) = 0 \<and> ex_running (ex k i)
        \<longrightarrow> cleanup_end + sleep \<le> max (cleanup_end + minimal_waiting_time) (ex_last_used (ex k i) + retention_time (ps_pools s)))"
proof -
  let ?s = "ps_pools s" and ?oldest = "cleanup_start - retention_time (ps_pools s)"
  have inv: "pools_inv ?s" using run_system_inv[OF assms(1) init_system_inv(1)] by (simp add: system_inv_def)
  have i: "i \<in> set (map snd (mg_pool ?s))" using map_of_SomeD[OF assms(4)] by force
  have members: "j < length (po_executors ?s)" if j: "j \<in> set (map snd (mg_pool ?s))" for j
  proof -
    obtain p where "p \<in> set (mg_pool ?s)" "snd p = j" using j unfolding set_map by blast
    then have "(fst p, j) \<in> set (mg_pool ?s)" by auto
    from map_of_SomeI[OF pools_invD(10)[OF inv] this] show ?thesis using pools_invD(6)[OF inv] by blast
  qed
  obtain rn where rn: "fold (\<lambda>i (run_next, s). if expired ?oldest (ex s i) then (run_next, cleanup_member ?oldest i s)
      else (min run_next (ex_last_used (ex s i) - ?oldest), s)) (map snd (mg_pool ?s)) (retention_time ?s, ?s) = (rn, k)"
      "sleep = max minimal_waiting_time (rn - (cleanup_end - cleanup_start))"
    using assms(3) unfolding cleanup_inactive_pool_members_def Let_def by (simp split: prod.splits)
  note pass = cleanup_pass[OF rn(1) members]
  show ?thesis
  proof (cases "expired ?oldest (ex ?s i)")
    case True
    then show ?thesis using pass(1,3) i rn(2) assms(2) by (auto simp: expired_def can_be_cleaned_up_def ex_running_def)
  next
    case False
    have kept: "ex k i = ex ?s i" "rn \<le> ex_last_used (ex ?s i) - ?oldest" using pass(2)[OF _ False] pass(4)[OF _ i False] by blast+
    then have "cleanup_end + sleep \<le> max (cleanup_end + minimal_waiting_time) (ex_last_used (ex ?s i) + retention_time ?s)"
      unfolding rn(2) by linarith
    moreover have "minimal_waiting_time \<le> sleep" "sleep \<le> max minimal_waiting_time (retention_time ?s)"
      unfolding rn(2) using pass(1) assms(2) by linarith+
    ultimately show ?thesis unfolding kept(1) by blast
  qed
qed

lemma cleanup_bounds_witness:
  "cleanup_inactive_pool_members 70001004 70001005 (ps_pools sample_system)
     = (59999999, ex_request_shutdown 0 (ps_pools sample_system)) \<and> minimal_waiting_time \<le> 59999999"
proof -
  have "pool_exec True (get_events 0 sample_eid 1000) (pool_init 1 60000000) = Some sample_system"
    "map_of (mg_pool (ps_pools sample_system)) sample_eid = Some 0"
    "cleanup_inactive_pool_members 70001004 70001005 (ps_pools sample_system) = (59999999, ex_request_shutdown 0 (ps_pools sample_system))"
    by code_simp+
  with cleanup_bounds[OF pool_exec_run[of True "get_events 0 sample_eid 1000" "pool_init 1 60000000" sample_system], of 70001004 70001005] show ?thesis by simp
qed

subsection \<open>Where the promises end\<close>

text \<open>An executor with a call in flight is stopped when the cap is reached, although the pool promises never to
  invalidate an executor that has work in flight.\<close>

definition busy_events :: "(int \<times> pool_event) list" where
  "busy_events = get_events 0 sample_eid 1000 @ [(1500, Call_Starts 0)] @ get_events 1 other_eid 2000"

lemma busy_executor_stopped:
  "\<exists>s. pool_run True (pool_init 1 60000000) (map snd busy_events) s
    \<and> ex_in_flight (ex (ps_pools s) 0) = 1 \<and> \<not> ex_running (ex (ps_pools s) 0)"
proof -
  let ?s = "the (pool_exec True busy_events (pool_init 1 60000000))"
  have "pool_exec True busy_events (pool_init 1 60000000) = Some ?s" "ex_in_flight (ex (ps_pools ?s) 0) = 1"
    "\<not> ex_running (ex (ps_pools ?s) 0)" by code_simp+
  with pool_exec_run show ?thesis by blast
qed

text \<open>Two overlapping requests for the same agent and different ids both see room below the cap.\<close>

definition overlapping_events :: "(int \<times> pool_event) list" where
  "overlapping_events = [(1, Get 0 sample_eid), (2, Get 1 other_eid)] @ tl (get_events 0 sample_eid 3) @ tl (get_events 1 other_eid 9)"

lemma overlapping_requests_exceed_cap:
  "\<exists>s. pool_run False (pool_init 1 60000000) (map snd overlapping_events) s
    \<and> length (running_executors ''router'' (ps_pools s)) = 2"
proof -
  let ?s = "the (pool_exec False overlapping_events (pool_init 1 60000000))"
  have "pool_exec False overlapping_events (pool_init 1 60000000) = Some ?s"
    "length (running_executors ''router'' (ps_pools ?s)) = 2" by code_simp+
  with pool_exec_run show ?thesis by blast
qed

end
