(* ===== verification/Spec2Isabelle.thy ===== *)
theory Spec2Isabelle
  imports Version_Takeover Path_Wildcards Task_Runner Task_Execution Status_Report Work_Progress Type_Names Freeze_Order Version_Diff Lock_Fairness Executor_Pool
begin

text \<open>
  A verification library for inmanta-core, the orchestrator of the inmanta project (Python,
  \<open>src/src/inmanta\<close>).

  \<^bold>\<open>The program.\<close> The compiler turns a model into versions: resources with attributes and
  requires. The resource scheduler (\<open>deploy/\<close>) receives the released versions, keeps for every resource what is
  wanted and what its status is, decides which resources have to be deployed, queues a task per
  agent, waits for requirements, lets an executor run the handler, and records the outcome.
  The modelled part is this scheduler with everything it keeps in memory, the library
  of dict paths (\<open>util/dict_path.py\<close>) with which handlers address attributes, the pools that start and stop the
  executors and the named locks they rest on, the comparison of versions that the server shows, and of the compiler the type
  system and the order in which relations are frozen.

  \<^bold>\<open>The theories\<close>, in the order of their imports:
  \<^item> \<open>Core_Prelude\<close>: Python results (a sum of \<open>py_error\<close> and a value), loops that may raise, dictionaries as association lists, sets as lists.
  \<^item> \<open>Resource_Id\<close> (\<open>resources.py\<close>, class \<open>Id\<close>): the two regular expressions as scanners, the
    parser and the printers; whatever parses is well formed and printing is undone by parsing.
  \<^item> \<open>Resource_State\<close> (\<open>deploy/state.py\<close>, \<open>const.py\<close>): JSON values, the state vectors, the derived
    compliance and the status that a handler sees.
  \<^item> \<open>Bidirectional_Mapping\<close> (\<open>util/collections.py\<close>): the requires relation and its reverse view.
  \<^item> \<open>Model_State\<close> (\<open>deploy/state.py\<close>): the model of the scheduler, its invariant \<open>model_inv\<close>, and that every
    operation keeps it; \<open>Sample_Model\<close> holds small models for witnesses.
  \<^item> \<open>Transitive_State\<close>: \<open>update_transitive_state\<close>, which keeps the blocked status of the dependents of an undefined
    resource up to date; it terminates, and is exact for undefined resources and dropped requires.
    \<open>Transitive_Frame\<close> states as locales what every stage of it may change.
  \<^item> \<open>Agent_Queues\<close>, \<open>Scheduled_Work\<close> (\<open>deploy/work.py\<close>): the priority queues of the agents with lazily
    deleted items, refined to a map from tasks to their best request, and the deploys that wait for their requirements.
  \<^item> \<open>Work_Progress\<close>: a step relation for the life of the scheduled work, in which no deploy waits in vain.
  \<^item> \<open>Resource_Timers\<close> (\<open>deploy/timers.py\<close>): which timer is due when.
  \<^item> \<open>Model_Versions\<close> (\<open>deploy/scheduler.py\<close>): versions, and their consolidation.
  \<^item> \<open>Resource_Scheduler\<close>: the requests and the task manager interface with the invariant \<open>sched_inv\<close>.
  \<^item> \<open>Version_Update\<close> (\<open>_new_version\<close>), \<open>Version_Plan\<close> (what its first half computes) and
    \<open>Version_Takeover\<close>: the whole method refines the abstract model that takes each version over, one after the other.
  \<^item> \<open>Task_Runner\<close> (\<open>TaskRunner\<close>, suspending and resuming): a step relation over the points at which the event loop may
    switch, with its invariant by rule induction.
  \<^item> \<open>Task_Execution\<close> (\<open>deploy/tasks.py\<close>): the tasks between the calls to the task manager.
  \<^item> \<open>Status_Report\<close> (\<open>get_resource_state\<close>): the self-check against the database.
  \<^item> \<open>Python_Values\<close>: \<open>str\<close>, \<open>repr\<close>, \<open>==\<close> and \<open>float\<close> of the standard library, as far as dict paths use them.
  \<^item> \<open>Dict_Path\<close>, \<open>Path_Grammar\<close>, \<open>Dict_Path_Update\<close>, \<open>Dict_Path_Laws\<close>, \<open>Path_Wildcards\<close>
    (\<open>util/dict_path.py\<close>): the grammar with its round trip, reading with wild cards, the laws of setting and
    removing, and that resolving wild cards is exact on plain containers.
  \<^item> \<open>Type_System\<close>, \<open>Type_Laws\<close>, \<open>Type_Unions\<close>, \<open>Type_Names\<close> (\<open>ast/type.py\<close>, \<open>ast/entity.py\<close>,
    \<open>ast/attribute.py\<close>): the types of the language with their validation and subtypes, normalised unions, the types of attributes, the text of a type and
    its resolution. A subtype accepts no more than its supertype; a union accepts what one of its members accepts.
  \<^item> \<open>Freeze_Order\<close> (\<open>execute/scheduler.py\<close>): the graph of the relation precedence rules, its
    topological order, and the queue of delayed variables, refined to a stable priority queue.
  \<^item> \<open>Json_Text\<close> (\<open>json.dumps\<close> of the standard library; the text determines the value) and \<open>Version_Diff\<close>
    (\<open>server/diff.py\<close>, the dry run report of \<open>server/services/dryrunservice.py\<close>): the
    difference of two versions, which leads from what one shows to what the other one shows.
  \<^item> \<open>Named_Lock\<close> (\<open>NamedLock\<close> of \<open>util/__init__.py\<close>): a step relation over the tasks that use the locks of
    names and the exclusive lock, with mutual exclusion and what a cancelled task leaves behind. \<open>Lock_Fairness\<close> adds the order in which waiters are
    served, and shows that under a fair event loop every request is served.
  \<^item> \<open>Executor_Pool\<close> (\<open>agent/resourcepool.py\<close>, \<open>agent/forking_executor.py\<close>): the pools of executors and
    processes as a step relation over requests, starts, ends and crashes, with the invariant \<open>pools_inv\<close>, the cap per agent and the cleaning.

  \<^bold>\<open>State and operations.\<close> A record stands for a class and has a field per attribute; a method
  that changes the object takes the record and returns it, in \<open>Inl\<close> of an error where it raises.
  A method that raises after a change of the state returns the error together with the state.
  Aliased objects are replaced by references: an item of a queue is an index into the list of all items, a position inside a
  container is the step that leads there. A coroutine is split where another one may run: each piece is a
  function, and what others do in between is an argument or a step. The order of a Python set
  is the order of the list that stands for it, and the theorems hold for every order.

  \<^bold>\<open>Locales.\<close> The priority queue of an agent, the effect of the stages of \<open>update_transitive_state\<close>, the
  maps behind the mapping and the argument that a fair run serves a request are interfaces; each is interpreted on the definitions of the model, and the properties use the interpreted facts.

  \<^bold>\<open>Bounds and fuel.\<close> Loops that recurse on a list are structural. Those over a string or a queue
  terminate by its length (\<open>get_loop\<close>, \<open>find_segments\<close>, \<open>scan_pairs\<close>). The propagation of the blocked status is a
  \<open>partial_function\<close> into \<open>option\<close>, and \<open>update_transitive_state_total\<close> shows that it returns on acyclic requires. The freeze loop adds a relation of the graph to its result with every round. No fuel is used. Integers
  of Python are unbounded, and so are those of the model; times are integers. Characters are code points below 256, and \<open>\w\<close> knows the letters among them.

  \<^bold>\<open>Not modelled.\<close> The database (its answers are arguments, and writes are returned), executors and user
  handlers, the cron library, log messages other than those of a deploy report, floating point values in containers, the start of the scheduler from
  the database; of the type system \<open>cast\<close> and the proxies of Python objects (the constraint of a typedef is a parameter); of
  the executors the processes, virtual environments and connections; and the rest of the repository: the language and the execution engine
  of the compiler, module and environment management, the protocol and the request handlers of the server. They are listed with the reason in the manifest of the project.
\<close>

end
